(* ===== verification/Prelude.thy ===== *)
theory Prelude
  imports Main "HOL-Library.Word" "HOL-Library.Monad_Syntax"
begin

text \<open>
  Shared vocabulary of the development: the machine types of the C++ sources, the
  result of an operation that may stop the process, and the generic lemmas on lists
  and words that several components use.

  A C++ operation that contains a \<open>zmq_assert\<close>, or that dereferences a pointer, is a
  function into an \<open>option\<close>: \<open>None\<close> is the process aborting in \<open>zmq_assert\<close> (or the
  undefined behaviour of a null or dangling dereference), \<open>Some\<close> is the normal return
  with the new state.
\<close>

type_synonym byte = "8 word"
type_synonym u16 = "16 word"
type_synonym u32 = "32 word"
type_synonym u64 = "64 word"

named_theorems zmq_simps \<open>equations and rewrite rules of the components\<close>

definition zmq_assert :: "bool \<Rightarrow> unit option" where
  "zmq_assert b = (if b then Some () else None)"

lemma zmq_assert_True [simp]: "zmq_assert True = Some ()"
  by (simp add: zmq_assert_def)

lemma zmq_assert_False [simp]: "zmq_assert False = None"
  by (simp add: zmq_assert_def)

lemma zmq_assert_eq_Some [simp]: "zmq_assert b = Some u \<longleftrightarrow> b"
  by (simp add: zmq_assert_def)

lemma zmq_assert_bind_eq_Some [simp]:
  "(zmq_assert b \<bind> f) = Some x \<longleftrightarrow> b \<and> f () = Some x"
  by (simp add: zmq_assert_def)

text \<open>
  Unsigned short fields whose values the code keeps small (table sizes, at most 256) are
  kept as their \<open>nat\<close> value; every assignment to one is written with the conversion to
  16 bits, which the invariants show to be the identity.
\<close>

definition to_u16 :: "nat \<Rightarrow> nat" where
  "to_u16 n = n mod 65536"

definition inc_u16 :: "nat \<Rightarrow> nat" where
  "inc_u16 n = (n + 1) mod 65536"

definition dec_u16 :: "nat \<Rightarrow> nat" where
  "dec_u16 n = (n + 65535) mod 65536"

text \<open>Evaluation goes through binary integers.\<close>

lemma u16_code [code]:
  "to_u16 n = nat (int n mod 65536)" "inc_u16 n = nat ((int n + 1) mod 65536)"
  "dec_u16 n = nat ((int n + 65535) mod 65536)"
  by (simp_all add: to_u16_def inc_u16_def dec_u16_def nat_mod_distrib nat_add_distrib)

lemma to_u16_small [simp]: "n < 65536 \<Longrightarrow> to_u16 n = n"
  by (simp add: to_u16_def)

lemma inc_u16_small [simp]: "n < 65535 \<Longrightarrow> inc_u16 n = Suc n"
  by (simp add: inc_u16_def)

lemma dec_u16_small [simp]:
  assumes "0 < n" "n < 65536"
  shows "dec_u16 n = n - 1"
proof -
  obtain k where k: "n = Suc k" using assms(1) by (cases n) auto
  have "(Suc k + 65535) mod 65536 = (k + 65536) mod 65536" by simp
  also have "\<dots> = k mod 65536" by simp
  also have "\<dots> = k" using k assms(2) by simp
  finally show ?thesis by (simp add: dec_u16_def k)
qed

text \<open>C arrays: a read or write out of range is undefined behaviour, so a fault.\<close>

definition table_at :: "'a list \<Rightarrow> nat \<Rightarrow> 'a option" where
  "table_at ts i = (if i < length ts then Some (ts ! i) else None)"

definition table_set :: "'a list \<Rightarrow> nat \<Rightarrow> 'a \<Rightarrow> 'a list option" where
  "table_set ts i x = (if i < length ts then Some (ts[i := x]) else None)"

lemma table_at_in [simp]: "i < length ts \<Longrightarrow> table_at ts i = Some (ts ! i)"
  by (simp add: table_at_def)

lemma table_set_in [simp]: "i < length ts \<Longrightarrow> table_set ts i x = Some (ts[i := x])"
  by (simp add: table_set_def)

lemma nth_update_if:
  "xs[i := x] ! j = (if i = j \<and> j < length xs then x else xs ! j)"
  by (cases "i = j"; cases "j < length xs") (simp_all add: list_update_beyond)

lemma unat_byte_less [simp]: "unat (c :: byte) < 256"
  using unsigned_less [of c] by simp

lemma unat_byte_eq_iff: "unat (c :: byte) = unat d \<longleftrightarrow> c = d"
  by (simp add: word_unat_eq_iff)

lemma find_upt_Some:
  "find P [a..<b] = Some i \<Longrightarrow> a \<le> i \<and> i < b \<and> P i \<and> (\<forall>j. a \<le> j \<and> j < i \<longrightarrow> \<not> P j)"
proof (induction "b - a" arbitrary: a)
  case (Suc k)
  then have ab: "a < b" by simp
  show ?case
  proof (cases "P a")
    case True
    with Suc.prems ab have "i = a" by (simp add: upt_conv_Cons)
    with True ab show ?thesis by auto
  next
    case False
    with Suc.prems ab have "find P [Suc a..<b] = Some i" by (simp add: upt_conv_Cons)
    moreover have "k = b - Suc a" using Suc.hyps(2) by simp
    ultimately have "Suc a \<le> i \<and> i < b \<and> P i \<and> (\<forall>j. Suc a \<le> j \<and> j < i \<longrightarrow> \<not> P j)"
      using Suc.hyps(1) by blast
    with False show ?thesis by (metis Suc_leD Suc_leI le_neq_implies_less)
  qed
qed simp

lemma find_upt_ex:
  assumes "a \<le> i" "i < b" "P i"
  obtains k where "find P [a..<b] = Some k" "a \<le> k" "k \<le> i" "P k"
    "\<And>j. a \<le> j \<Longrightarrow> j < k \<Longrightarrow> \<not> P j"
proof (cases "find P [a..<b]")
  case None
  then have "\<forall>x\<in>set [a..<b]. \<not> P x" by (simp add: find_None_iff)
  with assms show thesis by simp
next
  case (Some k)
  from find_upt_Some [OF this] assms that [OF Some] show thesis
    by (metis linorder_le_less_linear)
qed

end
