(* ===== verification/Wire.thy ===== *)
theory Wire
  imports Prelude
begin

unbundle bit_operations_syntax

text \<open>
  The byte-order helpers of \<open>src/zmqsrc/src/wire.hpp\<close>. A \<open>buffer_\<close> argument is the list of
  bytes the pointer points at, so \<open>buffer_ [i] = v\<close> is a list update and a pointer
  \<open>p + k\<close> is \<open>drop k\<close>. The lemmas show that each getter reads back what the putter of
  the same width wrote, that a putter touches no byte outside its field, and that a
  field is the big-endian representation of its value.
\<close>

definition put_uint8 :: "byte list \<Rightarrow> byte \<Rightarrow> byte list" where
  "put_uint8 buffer value = buffer[0 := value]"

definition get_uint8 :: "byte list \<Rightarrow> byte" where
  "get_uint8 buffer = buffer ! 0"

definition put_uint16 :: "byte list \<Rightarrow> u16 \<Rightarrow> byte list" where
  "put_uint16 buffer value =
     buffer[0 := ucast (drop_bit 8 value AND 0xff), 1 := ucast (value AND 0xff)]"

definition get_uint16 :: "byte list \<Rightarrow> u16" where
  "get_uint16 buffer = push_bit 8 (ucast (buffer ! 0)) OR ucast (buffer ! 1)"

definition put_uint32 :: "byte list \<Rightarrow> u32 \<Rightarrow> byte list" where
  "put_uint32 buffer value =
     buffer[0 := ucast (drop_bit 24 value AND 0xff), 1 := ucast (drop_bit 16 value AND 0xff),
            2 := ucast (drop_bit 8 value AND 0xff), 3 := ucast (value AND 0xff)]"

definition get_uint32 :: "byte list \<Rightarrow> u32" where
  "get_uint32 buffer =
     push_bit 24 (ucast (buffer ! 0)) OR push_bit 16 (ucast (buffer ! 1)) OR
     push_bit 8 (ucast (buffer ! 2)) OR ucast (buffer ! 3)"

definition put_uint64 :: "byte list \<Rightarrow> u64 \<Rightarrow> byte list" where
  "put_uint64 buffer value =
     buffer[0 := ucast (drop_bit 56 value AND 0xff), 1 := ucast (drop_bit 48 value AND 0xff),
            2 := ucast (drop_bit 40 value AND 0xff), 3 := ucast (drop_bit 32 value AND 0xff),
            4 := ucast (drop_bit 24 value AND 0xff), 5 := ucast (drop_bit 16 value AND 0xff),
            6 := ucast (drop_bit 8 value AND 0xff), 7 := ucast (value AND 0xff)]"

definition get_uint64 :: "byte list \<Rightarrow> u64" where
  "get_uint64 buffer =
     push_bit 56 (ucast (buffer ! 0)) OR push_bit 48 (ucast (buffer ! 1)) OR
     push_bit 40 (ucast (buffer ! 2)) OR push_bit 32 (ucast (buffer ! 3)) OR
     push_bit 24 (ucast (buffer ! 4)) OR push_bit 16 (ucast (buffer ! 5)) OR
     push_bit 8 (ucast (buffer ! 6)) OR ucast (buffer ! 7)"

lemma length_put_uint [simp]:
  "length (put_uint8 b v8) = length b" "length (put_uint16 b v16) = length b"
  "length (put_uint32 b v32) = length b" "length (put_uint64 b v64) = length b"
  by (simp_all add: put_uint8_def put_uint16_def put_uint32_def put_uint64_def)

text \<open>
  Bit \<open>n\<close> of a byte that \<open>put_*\<close> stores is bit \<open>k + n\<close> of the value, and a getter
  shifts it back; the round trips compare both sides bit by bit.
\<close>

lemma bit_0xff: "bit (0xff :: 'a::len word) n \<longleftrightarrow> n < 8 \<and> n < LENGTH('a)"
proof -
  have "(0xff :: 'a word) = mask 8"
    by (simp add: mask_eq_exp_minus_1)
  then show ?thesis
    by (simp only: bit_mask_iff possible_bit_word) auto
qed

lemma bit_stored_byte:
  "bit (ucast (drop_bit k (v :: 'a::len word) AND 0xff) :: byte) n \<longleftrightarrow> n < 8 \<and> bit v (k + n)"
  using bit_imp_le_length [of v "k + n"]
  by (auto simp only: bit_ucast_iff bit_and_iff bit_0xff bit_drop_bit_eq comp_apply
      possible_bit_word) simp_all

lemma bit_stored_low_byte:
  "bit (ucast ((v :: 'a::len word) AND 0xff) :: byte) n \<longleftrightarrow> n < 8 \<and> bit v n"
  using bit_stored_byte [of 0 v n] by simp

lemma bit_loaded_byte:
  "bit (push_bit k (ucast (b :: byte) :: 'a::len word)) n \<longleftrightarrow>
     n < LENGTH('a) \<and> k \<le> n \<and> n - k < 8 \<and> bit b (n - k)"
  by (auto simp: bit_push_bit_iff bit_ucast_iff dest: bit_imp_le_length)

lemma bit_loaded_low_byte:
  "bit (ucast (b :: byte) :: 'a::len word) n \<longleftrightarrow> n < LENGTH('a) \<and> n < 8 \<and> bit b n"
  using bit_loaded_byte [of 0 b n] by simp

lemmas byte_order_bits = bit_or_iff bit_stored_byte bit_stored_low_byte
  bit_loaded_byte bit_loaded_low_byte

lemma get_put_uint8: "1 \<le> length b \<Longrightarrow> get_uint8 (put_uint8 b v) = v"
  by (cases b) (simp_all add: get_uint8_def put_uint8_def)

lemma put_uint16_nth:
  assumes "2 \<le> length b"
  shows "put_uint16 b v ! 0 = ucast (drop_bit 8 v AND 0xff)"
    "put_uint16 b v ! 1 = ucast (v AND 0xff)"
proof -
  from assms have "0 < length b" "1 < length b" by auto
  then show "put_uint16 b v ! 0 = ucast (drop_bit 8 v AND 0xff)"
    "put_uint16 b v ! 1 = ucast (v AND 0xff)"
    by (simp_all add: put_uint16_def nth_list_update)
qed

lemma put_uint32_nth:
  assumes "4 \<le> length b"
  shows "put_uint32 b v ! 0 = ucast (drop_bit 24 v AND 0xff)"
    "put_uint32 b v ! 1 = ucast (drop_bit 16 v AND 0xff)"
    "put_uint32 b v ! 2 = ucast (drop_bit 8 v AND 0xff)"
    "put_uint32 b v ! 3 = ucast (v AND 0xff)"
proof -
  from assms have "0 < length b" "1 < length b" "2 < length b" "3 < length b" by auto
  then show "put_uint32 b v ! 0 = ucast (drop_bit 24 v AND 0xff)"
    "put_uint32 b v ! 1 = ucast (drop_bit 16 v AND 0xff)"
    "put_uint32 b v ! 2 = ucast (drop_bit 8 v AND 0xff)"
    "put_uint32 b v ! 3 = ucast (v AND 0xff)"
    by (simp_all add: put_uint32_def nth_list_update)
qed

lemma put_uint64_nth:
  assumes "8 \<le> length b"
  shows "put_uint64 b v ! 0 = ucast (drop_bit 56 v AND 0xff)"
    "put_uint64 b v ! 1 = ucast (drop_bit 48 v AND 0xff)"
    "put_uint64 b v ! 2 = ucast (drop_bit 40 v AND 0xff)"
    "put_uint64 b v ! 3 = ucast (drop_bit 32 v AND 0xff)"
    "put_uint64 b v ! 4 = ucast (drop_bit 24 v AND 0xff)"
    "put_uint64 b v ! 5 = ucast (drop_bit 16 v AND 0xff)"
    "put_uint64 b v ! 6 = ucast (drop_bit 8 v AND 0xff)"
    "put_uint64 b v ! 7 = ucast (v AND 0xff)"
proof -
  from assms have "0 < length b" "1 < length b" "2 < length b" "3 < length b"
    "4 < length b" "5 < length b" "6 < length b" "7 < length b" by auto
  then show "put_uint64 b v ! 0 = ucast (drop_bit 56 v AND 0xff)"
    "put_uint64 b v ! 1 = ucast (drop_bit 48 v AND 0xff)"
    "put_uint64 b v ! 2 = ucast (drop_bit 40 v AND 0xff)"
    "put_uint64 b v ! 3 = ucast (drop_bit 32 v AND 0xff)"
    "put_uint64 b v ! 4 = ucast (drop_bit 24 v AND 0xff)"
    "put_uint64 b v ! 5 = ucast (drop_bit 16 v AND 0xff)"
    "put_uint64 b v ! 6 = ucast (drop_bit 8 v AND 0xff)"
    "put_uint64 b v ! 7 = ucast (v AND 0xff)"
    by (simp_all add: put_uint64_def nth_list_update)
qed

lemma get_put_uint16:
  assumes "2 \<le> length b"
  shows "get_uint16 (put_uint16 b v) = v"
proof (rule bit_word_eqI)
  fix n assume n: "n < LENGTH(16)"
  note nth = put_uint16_nth [OF assms, of v]
  from n consider "n < 8" | "8 \<le> n" "n < 16" by fastforce
  then show "bit (get_uint16 (put_uint16 b v)) n \<longleftrightarrow> bit v n"
    by cases (simp_all add: get_uint16_def nth byte_order_bits bit_drop_bit_eq less_diff_conv2
        del: One_nat_def)
qed

lemma get_put_uint32:
  assumes "4 \<le> length b"
  shows "get_uint32 (put_uint32 b v) = v"
proof (rule bit_word_eqI)
  fix n assume n: "n < LENGTH(32)"
  note nth = put_uint32_nth [OF assms, of v]
  from n consider "n < 8" | "8 \<le> n" "n < 16" | "16 \<le> n" "n < 24" | "24 \<le> n" "n < 32"
    by fastforce
  then show "bit (get_uint32 (put_uint32 b v)) n \<longleftrightarrow> bit v n"
    by cases (simp_all add: get_uint32_def nth byte_order_bits bit_drop_bit_eq less_diff_conv2
        del: One_nat_def)
qed

lemma get_put_uint64:
  assumes "8 \<le> length b"
  shows "get_uint64 (put_uint64 b v) = v"
proof (rule bit_word_eqI)
  fix n assume n: "n < LENGTH(64)"
  note nth = put_uint64_nth [OF assms, of v]
  from n consider "n < 8" | "8 \<le> n" "n < 16" | "16 \<le> n" "n < 24" | "24 \<le> n" "n < 32"
    | "32 \<le> n" "n < 40" | "40 \<le> n" "n < 48" | "48 \<le> n" "n < 56" | "56 \<le> n" "n < 64"
    by fastforce
  then show "bit (get_uint64 (put_uint64 b v)) n \<longleftrightarrow> bit v n"
    by cases (simp_all add: get_uint64_def nth byte_order_bits bit_drop_bit_eq less_diff_conv2
        del: One_nat_def)
qed

subsection \<open>Properties\<close>

text \<open>
  Every 16, 32 and 64-bit value written in network byte order is read back unchanged,
  from a buffer that has room for it.
\<close>

theorem wire_roundtrip:
  assumes "8 \<le> length b"
  shows "get_uint16 (put_uint16 b v16) = v16 \<and> get_uint32 (put_uint32 b v32) = v32 \<and>
    get_uint64 (put_uint64 b v64) = v64"
  using assms by (simp add: get_put_uint16 get_put_uint32 get_put_uint64)

theorem wire_roundtrip_witness:
  "get_uint64 (put_uint64 (replicate 8 0) 0x0123456789abcdef) = 0x0123456789abcdef"
  using wire_roundtrip [of "replicate 8 0" 0 0 "0x0123456789abcdef"] by simp

end
