(* ===== verification/Trie_Node.thy ===== *)
theory Trie_Node
  imports Prelude
begin

text \<open>
  The node representation that \<open>trie_t\<close> (\<open>src/zmqsrc/src/trie.hpp\<close>) and \<open>mtrie_t\<close>
  (\<open>mtrie.hpp\<close>) share: a payload (the reference count of a subscription, or the set of
  subscribed pipes), the smallest character \<open>min\<close> with a child, the number \<open>count\<close> of
  characters covered from there, the number \<open>live_nodes\<close> of non-null children, and the
  union \<open>next\<close>: a single child pointer when \<open>count\<close> is 1, a table of child pointers when
  it is larger. Reading the union through the wrong member is a fault.

  The lemmas relate a node to the plain list of its child slots, and say what growing
  the character range, storing a child and pruning a child do to the child of every
  character. The two tries use these facts only.
\<close>

datatype 't link = Node "'t option" | Table "'t option list"

datatype 'p node =
  TN (payload: 'p) (nmin: byte) (ncount: nat) (live_nodes: nat) (nnext: "'p node link")

fun next_node :: "'t link \<Rightarrow> 't option option" where
  "next_node (Node p) = Some p"
| "next_node (Table ts) = None"

fun next_table :: "'t link \<Rightarrow> 't option list option" where
  "next_table (Table ts) = Some ts"
| "next_table (Node p) = None"

definition out_of_range :: "byte \<Rightarrow> nat \<Rightarrow> byte \<Rightarrow> bool" where
  "out_of_range m n c \<longleftrightarrow> unat c < unat m \<or> unat c \<ge> unat m + n"

text \<open>
  Lines 71 to 118 of \<open>trie.cpp\<close> (85 to 131 of \<open>mtrie.cpp\<close>): make room for the child of
  character \<open>c\<close>. \<open>realloc\<close> keeps the old slots, the loops clear the new ones.
\<close>

fun extend_range :: "'p node \<Rightarrow> byte \<Rightarrow> 'p node option" where
  "extend_range (TN r m n l nx) c =
     (if out_of_range m n c then
        if n = 0 then Some (TN r c 1 l (Node None))
        else if n = 1 then do {
          oldp \<leftarrow> next_node nx;
          let n' = to_u16 ((if unat m < unat c then unat c - unat m else unat m - unat c) + 1);
          let m' = (if unat c < unat m then c else m);
          ts \<leftarrow> table_set (replicate n' None) (unat m - unat m') oldp;
          Some (TN r m' n' l (Table ts)) }
        else if unat m < unat c then do {
          ts \<leftarrow> next_table nx;
          let n' = to_u16 (unat c - unat m + 1);
          Some (TN r m n' l (Table (ts @ replicate (n' - n) None))) }
        else do {
          ts \<leftarrow> next_table nx;
          let n' = to_u16 (unat m + n - unat c);
          Some (TN r c n' l (Table (replicate (unat m - unat c) None @ ts))) }
      else Some (TN r m n l nx))"

text \<open>\<open>count == 1 ? next.node : next.table [c - min]\<close>, read and written.\<close>

fun slot_get :: "'p node \<Rightarrow> byte \<Rightarrow> 'p node option option" where
  "slot_get (TN r m n l nx) c =
     (if n = 1 then next_node nx
      else do { ts \<leftarrow> next_table nx; table_at ts (unat c - unat m) })"

fun slot_put :: "'p node \<Rightarrow> byte \<Rightarrow> 'p node option \<Rightarrow> 'p node option" where
  "slot_put (TN r m n l nx) c p =
     (if n = 1 then Some (TN r m n l (Node p))
      else do {
        ts \<leftarrow> next_table nx;
        ts' \<leftarrow> table_set ts (unat c - unat m) p;
        Some (TN r m n l (Table ts')) })"

fun inc_live :: "'p node \<Rightarrow> 'p node" where
  "inc_live (TN r m n l nx) = TN r m n (inc_u16 l) nx"

subsection \<open>The slots of a node\<close>

definition live_count :: "'t option list \<Rightarrow> nat" where
  "live_count ss = length (filter (\<lambda>s. s \<noteq> None) ss)"

definition enc :: "'t option list \<Rightarrow> 't link" where
  "enc ss = (case ss of [s] \<Rightarrow> Node s | _ \<Rightarrow> Table ss)"

text \<open>\<open>rep t r m ss\<close>: the node's slots are \<open>ss\<close>, for the characters from \<open>m\<close> on.\<close>

fun rep :: "'p node \<Rightarrow> 'p \<Rightarrow> byte \<Rightarrow> 'p node option list \<Rightarrow> bool" where
  "rep (TN r' m' n l nx) r m ss \<longleftrightarrow>
     r' = r \<and> m' = m \<and> n = length ss \<and> l = live_count ss \<and>
     unat m + length ss \<le> 256 \<and> (ss \<noteq> [] \<longrightarrow> nx = enc ss)"

definition slot_of :: "byte \<Rightarrow> 't option list \<Rightarrow> byte \<Rightarrow> 't option" where
  "slot_of m ss c = (if out_of_range m (length ss) c then None else ss ! (unat c - unat m))"

fun child :: "'p node \<Rightarrow> byte \<Rightarrow> 'p node option" where
  "child (TN r m n l nx) c =
     (if out_of_range m n c then None
      else case nx of Node p \<Rightarrow> p | Table ts \<Rightarrow> ts ! (unat c - unat m))"

text \<open>No null child at either end of the range.\<close>

definition tight :: "'t option list \<Rightarrow> bool" where
  "tight ss \<longleftrightarrow> (ss \<noteq> [] \<longrightarrow> hd ss \<noteq> None \<and> last ss \<noteq> None)"

definition shape :: "'p node \<Rightarrow> bool" where
  "shape t \<longleftrightarrow> (\<exists>m ss. rep t (payload t) m ss \<and> tight ss)"

lemma live_count_simps [simp]:
  "live_count [] = 0"
  "live_count (s # ss) = (if s = None then 0 else 1) + live_count ss"
  "live_count (ss @ ss') = live_count ss + live_count ss'"
  "live_count (replicate k None) = 0"
  by (auto simp: live_count_def)

lemma live_count_le: "live_count ss \<le> length ss"
  by (simp add: live_count_def)

lemma enc_simps [simp]: "enc [s] = Node s" "enc (s # s' # ss) = Table (s # s' # ss)"
  by (simp_all add: enc_def)

lemma enc_Table: "length ss \<noteq> 1 \<Longrightarrow> enc ss = Table ss"
  by (auto simp: enc_def split: list.splits)

lemma rep_child: "rep t r m ss \<Longrightarrow> child t = slot_of m ss"
proof (cases t)
  case (TN r' m' n l nx)
  moreover assume "rep t r m ss"
  ultimately show ?thesis
    by (auto simp: slot_of_def fun_eq_iff out_of_range_def enc_def split: list.splits)
qed

lemma rep_payload [simp]: "rep t r m ss \<Longrightarrow> payload t = r"
  by (cases t) simp

lemma live_count_update:
  "i < length ss \<Longrightarrow> live_count (ss[i := s]) + (if ss ! i = None then 0 else 1) =
     live_count ss + (if s = None then 0 else 1)"
proof (induction ss arbitrary: i)
  case (Cons a ss)
  then show ?case by (cases i) auto
qed simp

lemma live_count_pos: "i < length ss \<Longrightarrow> ss ! i \<noteq> None \<Longrightarrow> 0 < live_count ss"
  using nth_mem [of i ss] unfolding live_count_def
  by (metis (mono_tags, lifting) filter_empty_conv length_greater_0_conv)

subsection \<open>Slot lists: growing and trimming\<close>

lemma slot_of_update:
  assumes "\<not> out_of_range m (length ss) c"
  shows "slot_of m (ss[unat c - unat m := s]) = (slot_of m ss)(c := s)"
proof
  fix d
  show "slot_of m (ss[unat c - unat m := s]) d = ((slot_of m ss)(c := s)) d"
  proof (cases "d = c \<or> out_of_range m (length ss) d")
    case True
    with assms show ?thesis by (auto simp: slot_of_def out_of_range_def)
  next
    case False
    then have "unat c \<noteq> unat d" "unat m \<le> unat d" "unat m \<le> unat c"
      using assms by (auto simp: out_of_range_def unat_byte_eq_iff)
    with False show ?thesis by (auto simp: slot_of_def out_of_range_def nth_list_update)
  qed
qed

lemma slot_of_append_None: "slot_of m (ss @ replicate k None) = slot_of m ss"
  by (auto simp: slot_of_def out_of_range_def fun_eq_iff nth_append)

lemma slot_of_replicate_None: "slot_of m (replicate k None) = (\<lambda>_. None)"
  by (auto simp: slot_of_def out_of_range_def fun_eq_iff)

lemma slot_of_prepend_None:
  "unat c < unat m \<Longrightarrow> slot_of c (replicate (unat m - unat c) None @ ss) = slot_of m ss"
  by (auto simp: slot_of_def out_of_range_def fun_eq_iff nth_append)

lemma slot_of_take:
  assumes "\<And>j. k \<le> j \<Longrightarrow> j < length ss \<Longrightarrow> ss ! j = None"
  shows "slot_of m (take k ss) = slot_of m ss"
proof
  fix d
  show "slot_of m (take k ss) d = slot_of m ss d"
    using assms [of "unat d - unat m"] by (auto simp: slot_of_def out_of_range_def)
qed

lemma unat_byte_add:
  assumes "unat m + j < 256"
  shows "unat (m + of_nat j :: byte) = unat m + j"
  using assms by (simp add: unat_word_ariths unat_of_nat)

lemma slot_of_drop:
  assumes "\<And>j. j < k \<Longrightarrow> ss ! j = None" and "k < length ss" and "unat m + length ss \<le> 256"
  shows "slot_of (m + of_nat k) (drop k ss) = slot_of m ss"
proof
  fix d
  have "unat (m + of_nat k) = unat m + k"
    using assms by (intro unat_byte_add) simp
  then show "slot_of (m + of_nat k) (drop k ss) d = slot_of m ss d"
    using assms(1) [of "unat d - unat m"] assms(2)
    by (auto simp: slot_of_def out_of_range_def)
qed

lemma live_count_take:
  assumes "\<And>j. k \<le> j \<Longrightarrow> j < length ss \<Longrightarrow> ss ! j = None"
  shows "live_count (take k ss) = live_count ss"
proof -
  have "set (drop k ss) \<subseteq> {None}"
    using assms by (auto simp: in_set_conv_nth)
  then have "live_count (drop k ss) = 0"
    by (auto simp: live_count_def filter_empty_conv)
  with live_count_simps(3) [of "take k ss" "drop k ss"] show ?thesis by simp
qed

lemma live_count_drop:
  assumes "\<And>j. j < k \<Longrightarrow> ss ! j = None" and "k \<le> length ss"
  shows "live_count (drop k ss) = live_count ss"
proof -
  have "set (take k ss) \<subseteq> {None}"
    using assms by (auto simp: in_set_conv_nth)
  then have "live_count (take k ss) = 0"
    by (auto simp: live_count_def filter_empty_conv)
  with live_count_simps(3) [of "take k ss" "drop k ss"] show ?thesis by simp
qed

lemma tight_nth:
  "ss \<noteq> [] \<Longrightarrow> tight ss \<longleftrightarrow> ss ! 0 \<noteq> None \<and> ss ! (length ss - 1) \<noteq> None"
  by (simp add: tight_def hd_conv_nth last_conv_nth)

lemma tight_update: "tight ss \<Longrightarrow> tight (ss[i := Some q])"
  by (cases "ss = []") (auto simp: tight_nth nth_update_if)

lemma tight_live_count:
  assumes "tight ss" "2 \<le> length ss"
  shows "2 \<le> live_count ss"
proof -
  have ss: "ss = hd ss # butlast (tl ss) @ [last ss]"
    using assms(2) by (cases ss) auto
  have "hd ss \<noteq> None" "last ss \<noteq> None"
    using assms by (auto simp: tight_def)
  then show ?thesis by (subst ss) (simp del: not_None_eq)
qed

subsection \<open>Growing the range\<close>

definition opened :: "'p node \<Rightarrow> byte \<Rightarrow> 'p node \<Rightarrow> bool" where
  "opened t c t1 \<longleftrightarrow> (\<exists>m ss. rep t1 (payload t) m ss \<and> slot_of m ss = child t \<and>
     \<not> out_of_range m (length ss) c \<and> live_count ss = live_nodes t \<and>
     (\<forall>q. tight (ss[unat c - unat m := Some q])))"

lemma rep_extend_above:
  assumes "rep t r m ss" "ss \<noteq> []" "unat m + length ss \<le> unat c"
  defines "k \<equiv> unat c + 1 - (unat m + length ss)"
  shows "\<exists>t1. extend_range t c = Some t1 \<and> rep t1 r m (ss @ replicate k None)"
proof -
  have c: "unat c < 256" by simp
  obtain nx where t: "t = TN r m (length ss) (live_count ss) nx" "nx = enc ss"
    using assms(1,2) by (cases t) auto
  have "0 < length ss" using assms(2) by simp
  then have oor: "out_of_range m (length ss) c" "\<not> unat c < unat m" "unat m < unat c"
    using assms(3) unfolding out_of_range_def by linarith+
  have k: "unat c - unat m + 1 = length ss + k" "1 \<le> k"
    using assms(3) by (simp_all add: k_def)
  have tab: "enc (ss @ replicate k None) = Table (ss @ replicate k None)"
    using k(2) assms(2) by (intro enc_Table) (cases ss; auto)
  have small: "to_u16 (unat c - unat m + 1) = length ss + k"
    unfolding k(1) [symmetric] using c by (intro to_u16_small) linarith
  have bound: "unat m + (length ss + k) \<le> 256"
    using c assms(3) unfolding k_def by linarith
  show ?thesis
  proof (cases "length ss = 1")
    case True
    then obtain s where s: "ss = [s]" by (cases ss) auto
    then have "(replicate (length ss + k) None)[0 := s] = ss @ replicate k None" by simp
    then show ?thesis
      using True s oor small tab bound by (simp add: t table_set_def)
  next
    case False
    then show ?thesis
      using oor small tab bound assms(2) by (simp add: t enc_Table)
  qed
qed

lemma rep_extend_below:
  assumes "rep t r m ss" "ss \<noteq> []" "unat c < unat m"
  defines "k \<equiv> unat m - unat c"
  shows "\<exists>t1. extend_range t c = Some t1 \<and> rep t1 r c (replicate k None @ ss)"
proof -
  obtain nx where t: "t = TN r m (length ss) (live_count ss) nx" "nx = enc ss"
    using assms(1,2) by (cases t) auto
  have bound: "unat m + length ss \<le> 256" using assms(1) t by simp
  have oor: "out_of_range m (length ss) c" using assms(3) by (simp add: out_of_range_def)
  have k: "1 \<le> k" "unat c + (k + length ss) \<le> 256" "unat m + length ss - unat c = k + length ss"
    using assms(3) bound by (simp_all add: k_def)
  have tab: "enc (replicate k None @ ss) = Table (replicate k None @ ss)"
    using k(1) assms(2) by (intro enc_Table) (cases ss; auto)
  show ?thesis
  proof (cases "length ss = 1")
    case True
    then obtain s where s: "ss = [s]" by (cases ss) auto
    have "(replicate (k + 1) None)[k := s] = replicate k None @ ss"
      using s by (simp add: replicate_append_same [symmetric] list_update_append)
    then show ?thesis
      using True s oor tab k assms(3) by (simp add: t table_set_def k_def [symmetric])
  next
    case False
    then show ?thesis
      using oor tab k assms(2,3) by (simp add: t enc_Table k_def [symmetric])
  qed
qed

lemma openedI:
  assumes "rep t1 (payload t) m ss" "slot_of m ss = child t"
    "\<not> out_of_range m (length ss) c" "live_count ss = live_nodes t"
    "\<And>q. tight (ss[unat c - unat m := Some q])"
  shows "opened t c t1"
  using assms unfolding opened_def by blast

lemma extend_range_opened:
  assumes "shape t"
  shows "\<exists>t1. extend_range t c = Some t1 \<and> opened t c t1"
proof -
  from assms obtain m ss where rep: "rep t (payload t) m ss" and tight: "tight ss"
    by (auto simp: shape_def)
  have live: "live_nodes t = live_count ss" using rep by (cases t) simp
  note child = rep_child [OF rep]
  consider "\<not> out_of_range m (length ss) c" | "ss = []"
    | "ss \<noteq> []" "unat m + length ss \<le> unat c" | "ss \<noteq> []" "unat c < unat m"
    by (cases "ss = []") (auto simp: out_of_range_def)
  then show ?thesis
  proof cases
    case 1
    then have "extend_range t c = Some t" using rep by (cases t) simp
    moreover have "opened t c t"
      by (rule openedI [OF rep]) (use 1 child live tight tight_update in auto)
    ultimately show ?thesis by blast
  next
    case 2
    have oor: "out_of_range m 0 c" by (auto simp: out_of_range_def)
    define t1 where "t1 = TN (payload t) c 1 0 (Node (None :: 'a node option))"
    have t1: "extend_range t c = Some t1" "rep t1 (payload t) c [None]"
      using rep 2 oor by (cases t; simp add: t1_def Suc_le_eq)+
    have "opened t c t1"
    proof (rule openedI [OF t1(2)])
      show "slot_of c [None] = child t"
        by (auto simp: 2 child fun_eq_iff slot_of_def out_of_range_def)
    qed (use 2 live in \<open>auto simp: out_of_range_def tight_def\<close>)
    with t1 show ?thesis by blast
  next
    case 3
    let ?k = "unat c + 1 - (unat m + length ss)"
    from rep_extend_above [OF rep 3] obtain t1 where
      t1: "extend_range t c = Some t1" "rep t1 (payload t) m (ss @ replicate ?k None)" by auto
    have "opened t c t1"
    proof (rule openedI [OF t1(2)])
      show "tight ((ss @ replicate ?k None)[unat c - unat m := Some q])" for q
        using 3 tight by (simp add: tight_nth nth_update_if nth_append)
      show "\<not> out_of_range m (length (ss @ replicate ?k None)) c"
        using 3(2) by (auto simp: out_of_range_def)
    qed (use child live slot_of_append_None in auto)
    with t1 show ?thesis by blast
  next
    case 4
    let ?k = "unat m - unat c"
    from rep_extend_below [OF rep 4] obtain t1 where
      t1: "extend_range t c = Some t1" "rep t1 (payload t) c (replicate ?k None @ ss)" by auto
    have "opened t c t1"
    proof (rule openedI [OF t1(2)])
      show "tight ((replicate ?k None @ ss)[unat c - unat c := Some q])" for q
        using 4 tight by (cases ?k) (simp_all add: tight_def)
      show "\<not> out_of_range c (length (replicate ?k None @ ss)) c"
        using 4 by (auto simp: out_of_range_def)
    qed (use child live slot_of_prepend_None [OF 4(2)] in auto)
    with t1 show ?thesis by blast
  qed
qed

lemma opened_in_range:
  assumes "shape t" "\<not> out_of_range (nmin t) (ncount t) c"
  shows "opened t c t"
proof -
  from assms(2) have "extend_range t c = Some t" by (cases t) simp
  with extend_range_opened [OF assms(1), of c] show ?thesis by simp
qed

lemma child_out_of_range [simp]: "out_of_range (nmin t) (ncount t) c \<Longrightarrow> child t c = None"
  by (cases t) simp

lemma out_of_range_0 [simp]: "out_of_range m 0 c"
  by (auto simp: out_of_range_def)

text \<open>What the two tries need of an opened node.\<close>

lemma opened_slot_get:
  assumes "opened t c t1"
  shows "slot_get t1 c = Some (child t c)"
proof -
  from assms obtain m ss where rep: "rep t1 (payload t) m ss" "slot_of m ss = child t"
    and c: "\<not> out_of_range m (length ss) c" by (auto simp: opened_def)
  then have i: "unat c - unat m < length ss" by (auto simp: out_of_range_def)
  moreover have "child t c = ss ! (unat c - unat m)"
    using c unfolding rep(2) [symmetric] by (simp add: slot_of_def)
  ultimately show ?thesis
    using rep(1) by (cases t1; cases "length ss = 1") (auto simp: enc_Table length_Suc_conv)
qed

lemma shapeI: "rep t r m ss \<Longrightarrow> tight ss \<Longrightarrow> shape t"
  unfolding shape_def by auto

lemma shape_child_live: "shape t \<Longrightarrow> live_nodes t = 0 \<Longrightarrow> child t = (\<lambda>_. None)"
proof -
  assume "shape t" "live_nodes t = 0"
  then obtain m ss where rep: "rep t (payload t) m ss" "live_count ss = 0"
    unfolding shape_def by (cases t) auto
  then have "\<And>i. i < length ss \<Longrightarrow> ss ! i = None"
    using live_count_pos by fastforce
  then show ?thesis
    unfolding rep_child [OF rep(1)] by (auto simp: slot_of_def out_of_range_def fun_eq_iff)
qed

lemma slot_put_rep:
  assumes "rep (TN r m n l nx) r m ss" "\<not> out_of_range m (length ss) c"
  shows "slot_put (TN r m n l' nx) c p = Some (TN r m n l' (enc (ss[unat c - unat m := p])))"
proof -
  have i: "unat c - unat m < length ss" using assms(2) by (auto simp: out_of_range_def)
  show ?thesis
  proof (cases "length ss = 1")
    case True
    then obtain s where "ss = [s]" by (cases ss) auto
    then show ?thesis using assms(1) i by simp
  next
    case False
    moreover from i have "ss \<noteq> []" by auto
    ultimately show ?thesis using assms(1) i by (simp add: enc_Table)
  qed
qed

lemma slot_put_shape:
  assumes "opened t c (TN r m n l nx)"
    and l': "l' = live_nodes t + (if child t c = None then 1 else 0)"
  shows "\<exists>t2. slot_put (TN r m n l' nx) c (Some q) = Some t2 \<and> shape t2 \<and>
    payload t2 = payload t \<and> child t2 = (child t)(c \<mapsto> q)"
proof -
  from assms(1) obtain m' ss where rep: "rep (TN r m n l nx) (payload t) m' ss"
    and child: "slot_of m' ss = child t" and c: "\<not> out_of_range m' (length ss) c"
    and live: "live_count ss = live_nodes t" and tight: "tight (ss[unat c - unat m' := Some q])"
    unfolding opened_def by blast
  from rep have eqs: "payload t = r" "m' = m" "n = length ss" by auto
  let ?ss = "ss[unat c - unat m := Some q]"
  have i: "unat c - unat m < length ss" using c eqs by (auto simp: out_of_range_def)
  have "child t c = ss ! (unat c - unat m)"
    using c eqs unfolding child [symmetric] by (simp add: slot_of_def)
  then have "l' = live_count ?ss"
    using live_count_update [OF i, of "Some q"] l' live by (auto split: if_splits)
  then have "rep (TN r m n l' (enc ?ss)) r m ?ss" using rep eqs by simp
  moreover have "slot_put (TN r m n l' nx) c (Some q) = Some (TN r m n l' (enc ?ss))"
    using slot_put_rep rep c eqs by metis
  moreover have "slot_of m ?ss = (child t)(c \<mapsto> q)"
    using slot_of_update c child eqs by metis
  ultimately show ?thesis
    using tight eqs rep_child by (metis rep_payload shapeI)
qed

lemma opened_asserts:
  assumes "opened t c t1" "child t c = None"
  shows "live_nodes (inc_live t1) = live_nodes t + 1"
    "ncount t1 = 1 \<Longrightarrow> live_nodes (inc_live t1) = 1"
    "ncount t1 \<noteq> 1 \<Longrightarrow> 1 < live_nodes (inc_live t1)"
proof -
  from assms(1) obtain m ss where rep: "rep t1 (payload t) m ss"
    and child: "slot_of m ss = child t" and c: "\<not> out_of_range m (length ss) c"
    and live: "live_count ss = live_nodes t" and tight: "\<And>q. tight (ss[unat c - unat m := Some q])"
    unfolding opened_def by blast
  let ?i = "unat c - unat m"
  have i: "?i < length ss" using c by (auto simp: out_of_range_def)
  have "ss ! ?i = None"
    using c assms(2) unfolding child [symmetric] by (simp add: slot_of_def)
  then have Suc_live: "live_count (ss[?i := Some q]) = Suc (live_nodes t)" for q
    using live_count_update [OF i, of "Some q"] live by simp
  have "length ss \<le> 256" using rep by (cases t1) simp
  then have "live_nodes t < 65535" using live_count_le [of ss] live by linarith
  then show inc: "live_nodes (inc_live t1) = live_nodes t + 1"
    using rep live by (cases t1) simp
  show "live_nodes (inc_live t1) = 1" if "ncount t1 = 1"
    using that rep i live_count_le [of "ss[?i := Some q]" for q] Suc_live inc
    by (cases t1) (metis One_nat_def Suc_eq_plus1 Suc_le_mono le_zero_eq length_list_update
      node.sel(3) rep.simps)
  show "1 < live_nodes (inc_live t1)" if "ncount t1 \<noteq> 1"
  proof -
    have "2 \<le> length ss" using that rep i by (cases t1; cases ss) (auto simp: Suc_le_eq)
    then have "2 \<le> live_count (ss[?i := Some q])" for q
      using tight_live_count [OF tight] by simp
    then show ?thesis unfolding inc Suc_live by simp
  qed
qed

lemma slot_put_opened:
  assumes "opened t c t1" "child t c \<noteq> None"
  shows "\<exists>t2. slot_put t1 c (Some q) = Some t2 \<and> shape t2 \<and> payload t2 = payload t \<and>
    child t2 = (child t)(c \<mapsto> q)"
proof (cases t1)
  case (TN r m n l nx)
  moreover have "l = live_nodes t" using assms(1) TN by (auto simp: opened_def)
  ultimately show ?thesis using slot_put_shape assms by force
qed

lemma slot_put_opened_new:
  assumes "opened t c t1" "child t c = None"
  shows "\<exists>t2. slot_put (inc_live t1) c (Some q) = Some t2 \<and> shape t2 \<and>
    payload t2 = payload t \<and> child t2 = (child t)(c \<mapsto> q)"
  using slot_put_shape [of t c] opened_asserts(1) [OF assms] assms by (cases t1) force

subsection \<open>Trimming the range after a child is dropped\<close>

text \<open>
  \<open>pruned t c t2\<close>: what every compaction of the sources achieves, whichever slots it keeps.
\<close>

definition pruned :: "'p node \<Rightarrow> byte \<Rightarrow> 'p node \<Rightarrow> bool" where
  "pruned t c t2 \<longleftrightarrow> shape t2 \<and> payload t2 = payload t \<and> child t2 = (child t)(c := None)"

lemma shape_single:
  assumes "shape t" "ncount t = 1"
  obtains m s where "t = TN (payload t) m 1 1 (Node s)" "rep t (payload t) m [s]" "s \<noteq> None"
proof -
  from assms(1) obtain m ss where rep: "rep t (payload t) m ss" "tight ss"
    by (auto simp: shape_def)
  then have "length ss = 1" using assms(2) by (cases t) simp
  then obtain s where ss: "ss = [s]" by (cases ss) auto
  with rep(2) have "s \<noteq> None" by (simp add: tight_def)
  with rep ss that [of m s] show thesis by (cases t) simp
qed

lemma shape_multi:
  assumes "shape t" "ncount t \<noteq> 1" "ncount t \<noteq> 0"
  obtains m ss where "t = TN (payload t) m (length ss) (live_count ss) (Table ss)"
    "rep t (payload t) m ss" "2 \<le> length ss" "unat m + length ss \<le> 256"
proof -
  from assms(1) obtain m ss where rep: "rep t (payload t) m ss" "tight ss"
    by (auto simp: shape_def)
  have len: "length ss \<noteq> 1" "length ss \<noteq> 0" using assms(2,3) rep(1) by (cases t; simp)+
  moreover from this have "t = TN (payload t) m (length ss) (live_count ss) (Table ss)"
    "unat m + length ss \<le> 256"
    using rep(1) len by (cases t; cases ss; simp add: enc_Table)+
  moreover from len have "2 \<le> length ss" by linarith
  ultimately show thesis using that [of m ss] rep(1) by blast
qed

lemma slot_of_Some:
  assumes "unat m + length ss \<le> 256"
  shows "slot_of m ss d = Some q \<longleftrightarrow> (\<exists>j<length ss. d = m + of_nat j \<and> ss ! j = Some q)"
proof
  assume "slot_of m ss d = Some q"
  then have d: "unat m \<le> unat d" "unat d - unat m < length ss" "ss ! (unat d - unat m) = Some q"
    by (auto simp: slot_of_def out_of_range_def split: if_splits)
  then have "unat (m + of_nat (unat d - unat m)) = unat d"
    using assms by (subst unat_byte_add) auto
  with d show "\<exists>j<length ss. d = m + of_nat j \<and> ss ! j = Some q"
    by (metis unat_byte_eq_iff)
next
  assume "\<exists>j<length ss. d = m + of_nat j \<and> ss ! j = Some q"
  then obtain j where j: "j < length ss" "d = m + of_nat j" "ss ! j = Some q" by blast
  then have "unat d = unat m + j" using assms unat_byte_add [of m j] by simp
  with j show "slot_of m ss d = Some q" by (simp add: slot_of_def out_of_range_def)
qed

lemma shape_table:
  assumes "shape t" "ncount t \<noteq> 1" "child t c = Some q"
  obtains m ss where "t = TN (payload t) m (length ss) (live_count ss) (Table ss)"
    "rep t (payload t) m ss" "tight ss" "2 \<le> length ss" "unat m + length ss \<le> 256"
    "unat m \<le> unat c" "unat c - unat m < length ss" "ss ! (unat c - unat m) = Some q"
proof -
  from assms(1) obtain m ss where rep: "rep t (payload t) m ss" "tight ss"
    by (auto simp: shape_def)
  have len: "length ss \<noteq> 1" using assms(2) rep(1) by (cases t) simp
  have c: "\<not> out_of_range m (length ss) c" "ss ! (unat c - unat m) = Some q"
    using assms(3) unfolding rep_child [OF rep(1)] slot_of_def by (auto split: if_splits)
  then have "unat m \<le> unat c" "unat c - unat m < length ss" by (auto simp: out_of_range_def)
  moreover from this len have "2 \<le> length ss" by linarith
  moreover from this have "t = TN (payload t) m (length ss) (live_count ss) (Table ss)"
    "unat m + length ss \<le> 256"
    using rep(1) len by (cases t; cases ss; simp add: enc_Table)+
  ultimately show thesis using that rep c(2) by blast
qed

lemma trim_left_shape:
  fixes r :: 'p and ts :: "'p node option list"
  assumes "\<And>j. j < k \<Longrightarrow> ts ! j = None" "ts ! k \<noteq> None" "k < length ts"
    "ts ! (length ts - 1) \<noteq> None" "unat m + length ts \<le> 256"
  defines "t2 \<equiv> TN r (m + of_nat k) (length ts - k) (live_count ts) (enc (drop k ts))"
  shows "shape t2" "child t2 = slot_of m ts"
proof -
  have "unat (m + of_nat k) = unat m + k"
    using assms(3,5) by (intro unat_byte_add) simp
  then have rep: "rep t2 r (m + of_nat k) (drop k ts)"
    using assms(3,5) live_count_drop [OF assms(1)] by (simp add: t2_def)
  moreover have "tight (drop k ts)"
    using assms(2-4) by (simp add: tight_nth)
  ultimately show "shape t2" by (rule shapeI)
  show "child t2 = slot_of m ts"
    unfolding rep_child [OF rep] by (rule slot_of_drop) (use assms in auto)
qed

lemma trim_right_shape:
  fixes r :: 'p and ts :: "'p node option list"
  assumes "\<And>j. k \<le> j \<Longrightarrow> j < length ts \<Longrightarrow> ts ! j = None" "ts ! (k - 1) \<noteq> None"
    "0 < k" "k \<le> length ts" "ts ! 0 \<noteq> None" "unat m + length ts \<le> 256"
  defines "t2 \<equiv> TN r m k (live_count ts) (enc (take k ts))"
  shows "shape t2" "child t2 = slot_of m ts"
proof -
  have rep: "rep t2 r m (take k ts)"
    using assms(3,4,6) live_count_take [OF assms(1)] by (simp add: t2_def)
  moreover have "take k ts \<noteq> []" using assms(3,4) by auto
  then have "tight (take k ts)"
    using assms(2-5) by (simp add: tight_nth min_def)
  ultimately show "shape t2" by (rule shapeI)
  show "child t2 = slot_of m ts"
    unfolding rep_child [OF rep] by (rule slot_of_take) (use assms in auto)
qed

lemma live_count_1:
  assumes "live_count ts = 1" "k < length ts" "ts ! k \<noteq> None" "j < length ts" "j \<noteq> k"
  shows "ts ! j = None"
proof (rule ccontr)
  assume j: "ts ! j \<noteq> None"
  have "live_count (ts[k := None]) = 0"
    using live_count_update [OF assms(2), of None] assms(1,3) by simp
  moreover have "0 < live_count (ts[k := None])"
    by (rule live_count_pos [of j]) (use assms j in auto)
  ultimately show False by simp
qed

text \<open>Cutting the slots down to the range from the first to the last live child.\<close>

lemma cut_shape_enc:
  fixes r :: 'p and ts :: "'p node option list"
  assumes "a \<le> b" "b < length ts" "ts ! a \<noteq> None" "ts ! b \<noteq> None"
    "\<And>j. j < a \<Longrightarrow> ts ! j = None" "\<And>j. b < j \<Longrightarrow> j < length ts \<Longrightarrow> ts ! j = None"
    "unat m + length ts \<le> 256"
  defines "t2 \<equiv> TN r (m + of_nat a) (b + 1 - a) (live_count ts) (enc (take (b + 1 - a) (drop a ts)))"
  shows "shape t2" "child t2 = slot_of m ts"
proof -
  let ?ts = "take (b + 1) ts"
  have len: "length ?ts = b + 1" using assms(2) by simp
  have right: "slot_of m ?ts = slot_of m ts" "live_count ?ts = live_count ts"
    by (rule slot_of_take, use assms(6) in simp) (rule live_count_take, use assms(6) in simp)
  have "drop a ?ts = take (b + 1 - a) (drop a ts)" by (simp add: drop_take)
  then have t2: "t2 = TN r (m + of_nat a) (length ?ts - a) (live_count ?ts) (enc (drop a ?ts))"
    using right(2) len by (simp add: t2_def)
  have pre: "\<And>j. j < a \<Longrightarrow> ?ts ! j = None" "?ts ! a \<noteq> None" "a < length ?ts"
    "?ts ! (length ?ts - 1) \<noteq> None" "unat m + length ?ts \<le> 256"
    using assms(1-5,7) len by simp_all
  show "shape t2" "child t2 = slot_of m ts"
    unfolding t2 using trim_left_shape [OF pre] right(1) by simp_all
qed

lemma live_count_only:
  assumes "a < length ts" "ts ! a \<noteq> None" "\<And>j. j < length ts \<Longrightarrow> j \<noteq> a \<Longrightarrow> ts ! j = None"
  shows "live_count ts = 1"
proof -
  have "ts[a := None] = replicate (length ts) None"
    using assms(3) by (intro nth_equalityI) (auto simp: nth_update_if)
  then have "live_count (ts[a := None]) = 0" by (simp only: live_count_simps)
  then show ?thesis
    using live_count_update [of a ts None] assms(1,2) by (auto split: if_splits)
qed

lemma cut_shape:
  fixes r :: 'p and ts :: "'p node option list"
  assumes "a \<le> b" "b < length ts" "ts ! a \<noteq> None" "ts ! b \<noteq> None"
    "\<And>j. j < a \<Longrightarrow> ts ! j = None" "\<And>j. b < j \<Longrightarrow> j < length ts \<Longrightarrow> ts ! j = None"
    "unat m + length ts \<le> 256" "live_count ts \<noteq> 1"
  defines "t2 \<equiv> TN r (m + of_nat a) (b + 1 - a) (live_count ts) (Table (take (b + 1 - a) (drop a ts)))"
  shows "shape t2" "child t2 = slot_of m ts"
proof -
  note cut = cut_shape_enc [OF assms(1-7), of r]
  have "a \<noteq> b"
    using live_count_only [of a ts] assms(2,3,5,6,8) by (metis nat_neq_iff)
  then have "enc (take (b + 1 - a) (drop a ts)) = Table (take (b + 1 - a) (drop a ts))"
    using assms(1,2) by (intro enc_Table) simp
  then show "shape t2" "child t2 = slot_of m ts" using cut by (simp_all add: t2_def)
qed

lemma single_shape:
  fixes r :: 'p and ts :: "'p node option list"
  assumes "live_count ts = 1" "k < length ts" "ts ! k \<noteq> None" "unat m + length ts \<le> 256"
  defines "t2 \<equiv> TN r (m + of_nat k) 1 1 (Node (ts ! k))"
  shows "shape t2" "child t2 = slot_of m ts"
proof -
  have none: "ts ! j = None" if "j < length ts" "j \<noteq> k" for j
    using live_count_1 [OF assms(1-3)] that by blast
  have "take 1 (drop k ts) = [ts ! k]"
    using assms(2) by (simp add: take_Suc_conv_app_nth)
  moreover note cut_shape_enc [of k k ts m r]
  ultimately show "shape t2" "child t2 = slot_of m ts"
    using assms none by (simp_all add: t2_def)
qed

text \<open>The slots after the child of \<open>c\<close> is cleared in a table.\<close>

lemma prune_setup:
  assumes "shape t" "child t c = Some q" "ncount t \<noteq> 1"
  obtains m ss ts i n where
    "t = TN (payload t) m n (live_count ss) (Table ss)"
    "2 \<le> n" "n \<le> 256" "length ts = n" "unat m + length ts \<le> 256"
    "i = unat c - unat m" "i < n" "table_set ss i None = Some ts" "ts ! i = None"
    "1 < live_count ss" "dec_u16 (live_count ss) = live_count ts" "live_count ts \<noteq> 0"
    "slot_of m ts = (child t)(c := None)"
    "\<And>j. j \<noteq> i \<Longrightarrow> j = 0 \<or> j = n - 1 \<Longrightarrow> ts ! j \<noteq> None"
    "c = m \<longleftrightarrow> i = 0" "unat c = unat m + n - 1 \<longleftrightarrow> i = n - 1"
proof -
  from shape_table [OF assms(1,3,2)] obtain m ss where
    t: "t = TN (payload t) m (length ss) (live_count ss) (Table ss)"
    and rep: "rep t (payload t) m ss" and tight: "tight ss" and len: "2 \<le> length ss"
    and bound: "unat m + length ss \<le> 256"
    and c: "unat m \<le> unat c" "unat c - unat m < length ss" "ss ! (unat c - unat m) = Some q"
    by metis
  define i where "i = unat c - unat m"
  define ts where "ts = ss[i := None]"
  have live: "2 \<le> live_count ss" "live_count ss \<le> 256"
    using tight_live_count [OF tight len] live_count_le [of ss] bound by linarith+
  have lts: "live_count ts = live_count ss - 1"
    using live_count_update [of i ss None] c by (simp add: ts_def i_def)
  show thesis
  proof (rule that [of m "length ss" ss ts i])
    show "slot_of m ts = (child t)(c := None)"
      unfolding rep_child [OF rep] ts_def i_def
      by (rule slot_of_update) (use c in \<open>simp add: out_of_range_def\<close>)
    show "ts ! j \<noteq> None" if "j \<noteq> i" "j = 0 \<or> j = length ss - 1" for j
      using that tight len by (cases "ss = []") (auto simp: ts_def tight_nth nth_update_if)
    have "unat c = unat m + i" using c(1) by (simp add: i_def)
    then show "c = m \<longleftrightarrow> i = 0" "unat c = unat m + length ss - 1 \<longleftrightarrow> i = length ss - 1"
      using len by (auto simp: unat_byte_eq_iff [symmetric])
    show "dec_u16 (live_count ss) = live_count ts" using lts live by simp
  qed (use t len bound c live lts in \<open>simp_all add: i_def ts_def\<close>)
qed

subsection \<open>The payload at a key, and well-formed nodes\<close>

fun payload_at :: "'p node \<Rightarrow> byte list \<Rightarrow> 'p option" where
  "payload_at t [] = Some (payload t)"
| "payload_at t (c # cs) = (case child t c of None \<Rightarrow> None | Some q \<Rightarrow> payload_at q cs)"

text \<open>
  \<open>occ\<close> tells an occupied payload (a positive reference count, a non-empty set of pipes).
  A node is redundant when it is neither occupied nor has children; no child of a
  well-formed node is.
\<close>

definition redundant :: "('p \<Rightarrow> bool) \<Rightarrow> 'p node \<Rightarrow> bool" where
  "redundant occ t \<longleftrightarrow> \<not> occ (payload t) \<and> live_nodes t = 0"

inductive node_wf :: "('p \<Rightarrow> bool) \<Rightarrow> 'p node \<Rightarrow> bool" for occ where
  node_wfI: "shape t \<Longrightarrow> (\<And>c q. child t c = Some q \<Longrightarrow> node_wf occ q \<and> \<not> redundant occ q) \<Longrightarrow>
    node_wf occ t"

inductive_cases node_wfE: "node_wf occ t"

lemma node_wf_shape: "node_wf occ t \<Longrightarrow> shape t"
  by (auto elim: node_wfE)

lemma node_wf_child:
  "node_wf occ t \<Longrightarrow> child t c = Some q \<Longrightarrow> node_wf occ q"
  "node_wf occ t \<Longrightarrow> child t c = Some q \<Longrightarrow> \<not> redundant occ q"
  by (auto elim: node_wfE)

lemma node_wf_update:
  assumes "node_wf occ t" "shape t2" "child t2 = (child t)(c := s)"
    "\<And>q. s = Some q \<Longrightarrow> node_wf occ q \<and> \<not> redundant occ q"
  shows "node_wf occ t2"
  by (rule node_wfI) (use assms node_wf_child [OF assms(1)] in \<open>auto split: if_splits\<close>)

lemma node_wf_payload:
  assumes "node_wf occ (TN r m n l nx)"
  shows "node_wf occ (TN r' m n l nx)"
proof (rule node_wf_update [OF assms])
  from node_wf_shape [OF assms] show "shape (TN r' m n l nx)"
    by (auto simp: shape_def)
  show "child (TN r' m n l nx) = (child (TN r m n l nx))(c := child (TN r m n l nx) c)" for c
    by auto
qed (use assms node_wf_child in blast)

lemma occupied_not_redundant:
  assumes "shape q" "payload_at q p = Some r" "occ r"
  shows "\<not> redundant occ q"
  using assms shape_child_live [OF assms(1)]
  by (cases p) (auto simp: redundant_def)

lemma redundant_payload_at:
  assumes "shape q" "redundant occ q"
  shows "payload_at q p = (if p = [] then Some (payload q) else None)"
  using assms shape_child_live [OF assms(1)] by (cases p) (auto simp: redundant_def)

subsection \<open>Reading a child slot\<close>

lemma child_SomeD:
  assumes "shape t" "child t c = Some q"
  shows "\<not> out_of_range (nmin t) (ncount t) c" "ncount t \<noteq> 0" "opened t c t"
    "slot_get t c = Some (Some q)"
proof -
  show r: "\<not> out_of_range (nmin t) (ncount t) c"
    using assms(2) by (metis child_out_of_range option.distinct(1))
  then show "ncount t \<noteq> 0" by (metis out_of_range_0)
  show op: "opened t c t" by (rule opened_in_range [OF assms(1) r])
  show "slot_get t c = Some (Some q)" using opened_slot_get [OF op] assms(2) by simp
qed

lemma child_None_cases:
  assumes "shape t" "child t c = None"
  obtains "out_of_range (nmin t) (ncount t) c"
  | "\<not> out_of_range (nmin t) (ncount t) c" "slot_get t c = Some None" "ncount t \<noteq> 1"
proof (cases "out_of_range (nmin t) (ncount t) c")
  case False
  note op = opened_in_range [OF assms(1) False]
  have "ncount t \<noteq> 1"
  proof
    assume "ncount t = 1"
    from shape_single [OF assms(1) this] obtain m s where
      "t = TN (payload t) m 1 1 (Node s)" "s \<noteq> None" by blast
    with opened_slot_get [OF op] assms(2) show False
      by (metis next_node.simps(1) option.inject slot_get.simps)
  qed
  with that(2) False opened_slot_get [OF op] assms(2) show thesis by simp
qed (rule that)

subsection \<open>Lookup with a default payload\<close>

text \<open>
  \<open>pay d t\<close> maps every key to its payload, and to the unoccupied payload \<open>d\<close> where the
  trie has no node; it is the abstraction both tries are specified through.
\<close>

definition pay :: "'p \<Rightarrow> 'p node \<Rightarrow> byte list \<Rightarrow> 'p" where
  "pay d t p = (case payload_at t p of None \<Rightarrow> d | Some r \<Rightarrow> r)"

abbreviation child_pay :: "'p \<Rightarrow> 'p node option \<Rightarrow> byte list \<Rightarrow> 'p" where
  "child_pay d s \<equiv> (case s of None \<Rightarrow> (\<lambda>_. d) | Some q \<Rightarrow> pay d q)"

lemma pay_Nil: "pay d t [] = payload t"
  by (simp add: pay_def)

lemma pay_Cons: "pay d t (c # cs) = child_pay d (child t c) cs"
  by (auto simp: pay_def split: option.splits)

lemma pay_not_redundant:
  assumes "node_wf (\<lambda>r. r \<noteq> d) q" "pay d q p \<noteq> d"
  shows "\<not> redundant (\<lambda>r. r \<noteq> d) q"
proof (cases "payload_at q p")
  case None
  with assms(2) show ?thesis by (simp add: pay_def)
next
  case (Some r)
  with assms(2) have "r \<noteq> d" by (simp add: pay_def)
  with occupied_not_redundant [OF node_wf_shape [OF assms(1)] Some, of "\<lambda>r. r \<noteq> d"]
  show ?thesis by simp
qed

lemma redundant_pay: "node_wf (\<lambda>r. r \<noteq> d) q \<Longrightarrow> redundant (\<lambda>r. r \<noteq> d) q \<Longrightarrow> pay d q = (\<lambda>_. d)"
  by (rule ext, rule ccontr, drule (1) pay_not_redundant) simp

lemma pay_update_child:
  assumes "payload t2 = payload t" "child t2 = (child t)(c := s)"
    "child_pay d s = (child_pay d (child t c))(cs := v)"
  shows "pay d t2 = (pay d t)(c # cs := v)"
proof
  fix p
  show "pay d t2 p = ((pay d t)(c # cs := v)) p"
  proof (cases p)
    case Nil
    then show ?thesis using assms(1) by (simp add: pay_Nil)
  next
    case (Cons e ds)
    with assms(2) fun_cong [OF assms(3), of ds] show ?thesis
      by (auto simp: pay_Cons)
  qed
qed

lemma pay_update_payload:
  "pay d (TN r' m n l nx) = (pay d (TN r m n l nx))([] := r')"
proof
  fix p
  show "pay d (TN r' m n l nx) p = ((pay d (TN r m n l nx))([] := r')) p"
    by (cases p) (simp_all add: pay_Nil pay_Cons)
qed

lemma shape_fresh: "shape (TN d m 0 0 nx)"
proof (rule shapeI)
  show "rep (TN d m 0 0 nx) d m []"
    using unat_byte_less [of m] by (simp add: less_imp_le)
qed (simp add: tight_def)

lemma node_wf_fresh: "node_wf occ (TN d m 0 0 nx)"
  by (rule node_wfI) (simp_all add: shape_fresh)

lemma pay_fresh: "pay d (TN d m 0 0 nx) = (\<lambda>_. d)"
proof
  fix p show "pay d (TN d m 0 0 nx) p = d" by (cases p) (simp_all add: pay_Nil pay_Cons)
qed

text \<open>The keys whose payload satisfies \<open>Q\<close>, and a payload map over all children.\<close>

lemma pay_set_Cons:
  assumes "\<not> Q d"
  shows "{p. Q (pay d t p)} = (if Q (payload t) then {[]} else {}) \<union>
     {e # p | e p. \<exists>q. child t e = Some q \<and> Q (pay d q p)}" (is "?L = ?R")
proof (rule set_eqI)
  fix p
  show "p \<in> ?L \<longleftrightarrow> p \<in> ?R"
    using assms by (cases p) (auto simp: pay_Nil pay_Cons split: option.splits)
qed

lemma pay_map_children:
  assumes "payload t2 = f (payload t)"
    "\<And>c p. child_pay d (child t2 c) p = f (child_pay d (child t c) p)"
  shows "pay d t2 = (\<lambda>p. f (pay d t p))"
proof
  fix p
  show "pay d t2 p = f (pay d t p)"
    using assms by (cases p) (simp_all add: pay_Nil pay_Cons)
qed

lemma cons_set_Suc:
  "{d # p | d p. \<exists>q. \<exists>j<Suc n. P d p q j} =
   {d # p | d p. \<exists>q. P d p q 0} \<union> {d # p | d p. \<exists>q. \<exists>j<n. P d p q (Suc j)}"
  unfolding Ex_less_Suc2 by blast

end
