(* ===== verification/Store_Interface.thy ===== *)
theory Store_Interface
  imports Prelude
begin

text \<open>
  The interface the sockets use a subscription store through, whichever trie provides it:
  an operation at a key returns a result and changes the value of that key only, and
  nothing else can be observed. \<open>ok\<close> tells the values at which the operation does not
  stop the process. The client lemmas are about whole histories of operations.
\<close>

primrec run_ops :: "('t \<Rightarrow> byte list \<Rightarrow> 'op \<Rightarrow> (bool \<times> 't) option) \<Rightarrow> (byte list \<times> 'op) list \<Rightarrow> 't \<Rightarrow>
    (bool list \<times> 't) option" where
  "run_ops step [] t = Some ([], t)"
| "run_ops step (x # xs) t = do {
     (r, t) \<leftarrow> step t (fst x) (snd x);
     (rs, t) \<leftarrow> run_ops step xs t;
     Some (r # rs, t) }"

text \<open>The operations at one key, and the value they leave there.\<close>

definition ops_at :: "byte list \<Rightarrow> (byte list \<times> 'op) list \<Rightarrow> 'op list" where
  "ops_at p xs = map snd (filter (\<lambda>x. fst x = p) xs)"

definition val_after :: "('op \<Rightarrow> 'v \<Rightarrow> 'v) \<Rightarrow> 'v \<Rightarrow> 'op list \<Rightarrow> 'v" where
  "val_after app v ops = foldl (\<lambda>v op. app op v) v ops"

lemma ops_at_simps [simp]:
  "ops_at p [] = []"
  "ops_at p (x # xs) = (if fst x = p then snd x # ops_at p xs else ops_at p xs)"
  by (simp_all add: ops_at_def)

lemma length_ops_at: "length (ops_at p xs) \<le> length xs"
  by (simp add: ops_at_def)

lemma val_after_simps [simp]:
  "val_after app v [] = v"
  "val_after app v (op # ops) = val_after app (app op v) ops"
  by (simp_all add: val_after_def)

locale keyed_store =
  fixes step :: "'t \<Rightarrow> byte list \<Rightarrow> 'op \<Rightarrow> (bool \<times> 't) option"
    and wf :: "'t \<Rightarrow> bool"
    and look :: "'t \<Rightarrow> byte list \<Rightarrow> 'v"
    and ok :: "'op \<Rightarrow> 'v \<Rightarrow> bool"
    and res :: "'op \<Rightarrow> 'v \<Rightarrow> bool"
    and app :: "'op \<Rightarrow> 'v \<Rightarrow> 'v"
  assumes step_law: "wf t \<Longrightarrow> ok op (look t p) \<Longrightarrow>
    \<exists>t'. step t p op = Some (res op (look t p), t') \<and> wf t' \<and>
      look t' = (look t)(p := app op (look t p))"
begin

text \<open>Every operation is permitted at the value its key has by then.\<close>

primrec permitted :: "(byte list \<times> 'op) list \<Rightarrow> (byte list \<Rightarrow> 'v) \<Rightarrow> bool" where
  "permitted [] f \<longleftrightarrow> True"
| "permitted (x # xs) f \<longleftrightarrow>
     ok (snd x) (f (fst x)) \<and> permitted xs (f(fst x := app (snd x) (f (fst x))))"

lemma run_refines:
  assumes "wf t" "permitted xs (look t)"
  shows "\<exists>rs t'. run_ops step xs t = Some (rs, t') \<and> wf t' \<and> length rs = length xs \<and>
    look t' = (\<lambda>p. val_after app (look t p) (ops_at p xs))"
  using assms
proof (induction xs arbitrary: t)
  case (Cons x xs)
  then have "ok (snd x) (look t (fst x))" by simp
  from step_law [OF Cons.prems(1) this] obtain t1 where
    t1: "step t (fst x) (snd x) = Some (res (snd x) (look t (fst x)), t1)" "wf t1"
      "look t1 = (look t)(fst x := app (snd x) (look t (fst x)))" by blast
  have "permitted xs (look t1)" using Cons.prems(2) by (simp add: t1(3))
  from Cons.IH [OF t1(2) this] obtain rs t' where
    t': "run_ops step xs t1 = Some (rs, t')" "wf t'" "length rs = length xs"
      "look t' = (\<lambda>p. val_after app (look t1 p) (ops_at p xs))" by blast
  have "look t' = (\<lambda>p. val_after app (look t p) (ops_at p (x # xs)))"
    by (rule ext) (simp add: t'(4) t1(3))
  with t1(1) t'(1-3) show ?case by simp
qed simp

text \<open>The result of the last operation of a history.\<close>

lemma run_snoc:
  assumes "run_ops step xs t = Some (rs, t')" "step t' p op = Some (r, t'')"
  shows "run_ops step (xs @ [(p, op)]) t = Some (rs @ [r], t'')"
  using assms by (induction xs arbitrary: t rs) (auto simp: bind_eq_Some_conv)

end

end
