(* ===== verification/Subscription_Trie.thy ===== *)
theory Subscription_Trie
  imports Trie_Node Store_Interface
begin

text \<open>
  \<open>trie_t\<close> of \<open>src/zmqsrc/src/trie.cpp\<close>: the set of subscriptions of a SUB socket, a
  radix tree whose nodes carry a 32-bit reference count. The operations are \<open>add\<close>,
  \<open>rm\<close>, \<open>check\<close> and \<open>apply\<close>. A buffer pointer with a size is the list of its bytes.

  Abstractly the trie is the function \<open>refs\<close> from a prefix to its reference count:
  \<open>add\<close> and \<open>rm\<close> change one count, \<open>check\<close> asks whether some prefix of the data has a
  positive count, \<open>apply\<close> enumerates the prefixes with a positive count, and no
  \<open>zmq_assert\<close> fails on a well-formed trie.
\<close>

type_synonym trie = "u32 node"

definition new_trie :: trie where
  "new_trie = TN 0 0 0 0 (Node None)"

definition is_redundant :: "trie \<Rightarrow> bool" where
  "is_redundant t \<longleftrightarrow> payload t = 0 \<and> live_nodes t = 0"

fun trie_add :: "trie \<Rightarrow> byte list \<Rightarrow> (bool \<times> trie) option" where
  "trie_add (TN r m n l nx) [] = Some (r + 1 = 1, TN (r + 1) m n l nx)"
| "trie_add t (c # cs) = do {
     t1 \<leftarrow> extend_range t c;
     p \<leftarrow> slot_get t1 c;
     case p of
       None \<Rightarrow> do {
         let t1 = inc_live t1;
         zmq_assert (if ncount t1 = 1 then live_nodes t1 = 1 else live_nodes t1 > 1);
         (ret, q) \<leftarrow> trie_add new_trie cs;
         t2 \<leftarrow> slot_put t1 c (Some q);
         Some (ret, t2) }
     | Some q \<Rightarrow> do {
         (ret, q) \<leftarrow> trie_add q cs;
         t2 \<leftarrow> slot_put t1 c (Some q);
         Some (ret, t2) } }"

text \<open>Lines 163 to 254: drop the child of \<open>c\<close>, then compact the table.\<close>

fun trie_prune :: "trie \<Rightarrow> byte \<Rightarrow> trie option" where
  "trie_prune (TN r m n l nx) c =
     (if n = 1 then do {
        let l = dec_u16 l;
        zmq_assert (l = 0);
        Some (TN r m 0 l (Node None)) }
      else do {
        ts \<leftarrow> next_table nx;
        ts \<leftarrow> table_set ts (unat c - unat m) None;
        zmq_assert (l > 1);
        let l = dec_u16 l;
        if l = 1 then do {
          (node, m) \<leftarrow>
            (if c = m then do {
               node \<leftarrow> table_at ts (n - 1); Some (node, m + of_nat (n - 1)) }
             else if unat c = unat m + n - 1 then do {
               node \<leftarrow> table_at ts 0; Some (node, m) }
             else Some (None, m));
          zmq_assert (node \<noteq> None);
          Some (TN r m 1 l (Node node)) }
        else if c = m then do {
          let new_min =
            (case find (\<lambda>i. ts ! i \<noteq> None) [1..<n] of
               Some i \<Rightarrow> m + of_nat i | None \<Rightarrow> m);
          zmq_assert (new_min \<noteq> m);
          zmq_assert (m < new_min);
          zmq_assert (n > unat new_min - unat m);
          let k = unat new_min - unat m;
          let n = to_u16 (n - k);
          Some (TN r new_min n l (Table (take n (drop k ts)))) }
        else if unat c = unat m + n - 1 then do {
          let new_count =
            (case find (\<lambda>i. ts ! (n - 1 - i) \<noteq> None) [1..<n] of
               Some i \<Rightarrow> to_u16 (n - i) | None \<Rightarrow> n);
          zmq_assert (new_count \<noteq> n);
          Some (TN r m new_count l (Table (take new_count ts))) }
        else Some (TN r m n l (Table ts)) })"

fun trie_rm :: "trie \<Rightarrow> byte list \<Rightarrow> (bool \<times> trie) option" where
  "trie_rm (TN r m n l nx) [] =
     (if r = 0 then Some (False, TN r m n l nx)
      else Some (r - 1 = 0, TN (r - 1) m n l nx))"
| "trie_rm t (c # cs) =
     (if ncount t = 0 \<or> out_of_range (nmin t) (ncount t) c then Some (False, t)
      else do {
        p \<leftarrow> slot_get t c;
        case p of
          None \<Rightarrow> Some (False, t)
        | Some q \<Rightarrow> do {
            (ret, q) \<leftarrow> trie_rm q cs;
            t2 \<leftarrow> (if is_redundant q then trie_prune t c else slot_put t c (Some q));
            Some (ret, t2) } })"

fun trie_check :: "trie \<Rightarrow> byte list \<Rightarrow> bool option" where
  "trie_check t data =
     (if payload t \<noteq> 0 then Some True
      else case data of
        [] \<Rightarrow> Some False
      | c # cs \<Rightarrow>
          if out_of_range (nmin t) (ncount t) c then Some False
          else do {
            p \<leftarrow> slot_get t c;
            case p of
              None \<Rightarrow> if ncount t = 1 then None else Some False
            | Some q \<Rightarrow> trie_check q cs })"

subsection \<open>Pruning\<close>

lemma trie_prune_single:
  assumes "shape t" "child t c = Some q" "ncount t = 1"
  shows "\<exists>t2. trie_prune t c = Some t2 \<and> pruned t c t2"
proof -
  from shape_single [OF assms(1,3)] obtain m s where
    t: "t = TN (payload t) m 1 1 (Node s)" and rep: "rep t (payload t) m [s]" by blast
  let ?t2 = "TN (payload t) m 0 0 (Node None) :: trie"
  have "unat m \<le> 256" using unat_byte_less [of m] by linarith
  then have r2: "rep ?t2 (payload t) m []" by simp
  have "trie_prune t c = Some ?t2"
    by (subst t) simp
  moreover have "unat c = unat m"
    using assms(2) unfolding rep_child [OF rep]
    by (auto simp: slot_of_def out_of_range_def split: if_splits)
  then have "child ?t2 = (child t)(c := None)"
    unfolding rep_child [OF r2] rep_child [OF rep]
    by (auto simp: slot_of_def out_of_range_def fun_eq_iff unat_byte_eq_iff [symmetric])
  ultimately show ?thesis
    using shapeI [OF r2] by (auto simp: pruned_def tight_def)
qed

lemma trie_prune_table:
  assumes "shape t" "child t c = Some q" "ncount t \<noteq> 1"
  shows "\<exists>t2. trie_prune t c = Some t2 \<and> pruned t c t2"
proof (rule prune_setup [OF assms])
  fix m ss ts i n
  assume t: "t = TN (payload t) m n (live_count ss) (Table ss)"
    and n2: "2 \<le> n" "n \<le> 256" and nts: "length ts = n" and bnd: "unat m + length ts \<le> 256"
    and i: "i = unat c - unat m" "i < n" and step: "table_set ss i None = Some ts"
    and gone: "ts ! i = None"
    and live: "1 < live_count ss" "dec_u16 (live_count ss) = live_count ts" "live_count ts \<noteq> 0"
    and child_ts: "slot_of m ts = (child t)(c := None)"
    and ends: "\<And>j. j \<noteq> i \<Longrightarrow> j = 0 \<or> j = n - 1 \<Longrightarrow> ts ! j \<noteq> None"
    and cm: "c = m \<longleftrightarrow> i = 0" "unat c = unat m + n - 1 \<longleftrightarrow> i = n - 1"
  have done1: "\<exists>t2. trie_prune t c = Some t2 \<and> pruned t c t2"
    if "trie_prune t c = Some (TN (payload t) m' k (live_count ts) nx)"
      "shape (TN (payload t) m' k (live_count ts) nx)"
      "child (TN (payload t) m' k (live_count ts) nx) = slot_of m ts" for m' k nx
    using that by (simp add: pruned_def child_ts)
  have n1: "1 \<le> n - 1" "n - 1 < n" using n2 by auto
  have byte: "unat (m + of_nat k) = unat m + k" if "k < n" for k
    using that bnd nts by (intro unat_byte_add) simp
  note single = single_shape [of ts _ m "payload t"]
  note cut = cut_shape [of _ _ ts m "payload t"]
  note facts = live(1) cm step
  note unfolded = step live(2) i(1) [symmetric] table_at_def
  show "\<exists>t2. trie_prune t c = Some t2 \<and> pruned t c t2"
  proof (cases "live_count ts = 1")
    case True
    let ?k = "if i = 0 then n - 1 else 0"
    have k: "?k < n" "ts ! ?k \<noteq> None" using ends n2 by auto
    have "i = 0 \<or> i = n - 1"
    proof (rule ccontr)
      assume "\<not> (i = 0 \<or> i = n - 1)"
      then have "ts ! 0 \<noteq> None" "ts ! (n - 1) \<noteq> None" using ends by auto
      with live_count_1 [OF True, of 0 "n - 1"] nts n1 show False by simp
    qed
    then have "trie_prune t c = Some (TN (payload t) (m + of_nat ?k) 1 (live_count ts) (Node (ts ! ?k)))"
      using True k n2 nts facts by (subst t) (auto simp: unfolded)
    then show ?thesis
      by (rule done1) (use single [OF True _ k(2) bnd] k(1) nts True in simp_all)
  next
    case multi: False
    consider "i = 0" | "i \<noteq> 0" "i = n - 1" | "i \<noteq> 0" "i \<noteq> n - 1" by blast
    then show ?thesis
    proof cases
      case 1
      then have last: "ts ! (n - 1) \<noteq> None" using ends n2 by auto
      obtain k where k: "find (\<lambda>i. ts ! i \<noteq> None) [1..<n] = Some k" "1 \<le> k" "k \<le> n - 1"
        "ts ! k \<noteq> None" "\<And>j. 1 \<le> j \<Longrightarrow> j < k \<Longrightarrow> \<not> ts ! j \<noteq> None"
        by (rule find_upt_ex [OF n1, where P = "\<lambda>i. ts ! i \<noteq> None", OF last]) blast
      have none: "ts ! j = None" if "j < k" for j
        using k(5) [of j] gone 1 that by (cases j) auto
      have "m < m + of_nat k" "m + of_nat k \<noteq> m"
        using byte [of k] k(2,3) n1 by (auto simp: word_less_nat_alt)
      then have "trie_prune t c = Some (TN (payload t) (m + of_nat k) (n - 1 + 1 - k) (live_count ts)
          (Table (take (n - 1 + 1 - k) (drop k ts))))"
        using 1 multi k(1,3) n1 n2 byte [of k] facts by (subst t) (simp add: unfolded Let_def)
      then show ?thesis
        by (rule done1)
          (use cut [OF k(3) _ k(4) last none _ bnd multi] n1 nts in simp_all)
    next
      case 2
      then have first: "ts ! 0 \<noteq> None" using ends by auto
      obtain k where k: "find (\<lambda>i. ts ! (n - 1 - i) \<noteq> None) [1..<n] = Some k" "1 \<le> k" "k \<le> n - 1"
        "ts ! (n - 1 - k) \<noteq> None" "\<And>j. 1 \<le> j \<Longrightarrow> j < k \<Longrightarrow> \<not> ts ! (n - 1 - j) \<noteq> None"
        by (rule find_upt_ex [OF n1, where P = "\<lambda>i. ts ! (n - 1 - i) \<noteq> None"])
          (use first in simp, blast)
      have none: "ts ! j = None" if "n - 1 - k < j" "j < length ts" for j
        using k(5) [of "n - 1 - j"] gone 2 that nts by (cases "j = n - 1") auto
      have "k < n" "0 < k" using k(2,3) n1 by simp_all
      then have "trie_prune t c = Some (TN (payload t) (m + of_nat 0) (n - 1 - k + 1 - 0) (live_count ts)
          (Table (take (n - 1 - k + 1 - 0) (drop 0 ts))))"
        using 2 multi k(1) n2 facts by (subst t) (simp add: unfolded Let_def Suc_diff_Suc)
      then show ?thesis
        by (rule done1)
          (use cut [OF _ _ first k(4) _ none bnd multi] n1 nts in simp_all)
    next
      case 3
      then have ends': "ts ! 0 \<noteq> None" "ts ! (n - 1) \<noteq> None" using ends by auto
      have "trie_prune t c = Some (TN (payload t) (m + of_nat 0) (n - 1 + 1 - 0) (live_count ts)
          (Table (take (n - 1 + 1 - 0) (drop 0 ts))))"
        using 3 multi n1 n2 nts facts by (subst t) (simp add: unfolded)
      then show ?thesis
        by (rule done1)
          (use cut [OF _ _ ends' _ _ bnd multi] n1 nts in simp_all)
    qed
  qed
qed

lemma trie_prune_ok:
  assumes "shape t" "child t c = Some q"
  shows "\<exists>t2. trie_prune t c = Some t2 \<and> pruned t c t2"
  using trie_prune_single trie_prune_table assms by blast

subsection \<open>The reference count of every prefix\<close>

definition refs :: "trie \<Rightarrow> byte list \<Rightarrow> u32" where
  "refs t p = pay 0 t p"

definition trie_wf :: "trie \<Rightarrow> bool" where
  "trie_wf t \<longleftrightarrow> node_wf (\<lambda>r. r \<noteq> 0) t"

lemma refs_Nil [simp]: "refs t [] = payload t"
  by (simp add: refs_def pay_Nil)

lemma refs_Cons [simp]:
  "refs t (c # cs) = (case child t c of None \<Rightarrow> 0 | Some q \<Rightarrow> refs q cs)"
  by (simp add: refs_def pay_Cons split: option.split)

lemma refs_new_trie [simp]: "refs new_trie p = 0"
  by (simp add: refs_def new_trie_def pay_fresh)

lemma trie_wf_new: "trie_wf new_trie"
  unfolding trie_wf_def new_trie_def by (rule node_wf_fresh)

lemma is_redundant_iff: "is_redundant t \<longleftrightarrow> redundant (\<lambda>r. r \<noteq> 0) t"
  by (simp add: is_redundant_def redundant_def)

lemma refs_not_redundant: "trie_wf q \<Longrightarrow> refs q p \<noteq> 0 \<Longrightarrow> \<not> redundant (\<lambda>r. r \<noteq> 0) q"
  unfolding trie_wf_def refs_def by (rule pay_not_redundant)

lemma redundant_refs: "trie_wf q \<Longrightarrow> redundant (\<lambda>r. r \<noteq> 0) q \<Longrightarrow> refs q p = 0"
  using refs_not_redundant by blast

lemma refs_update_child:
  assumes "payload t2 = payload t" "child t2 = (child t)(c := s)"
    "(case s of None \<Rightarrow> (\<lambda>_. 0) | Some q \<Rightarrow> refs q) =
     (case child t c of None \<Rightarrow> (\<lambda>_. 0) | Some q \<Rightarrow> refs q)(cs := v)"
  shows "refs t2 = (refs t)(c # cs := v)"
proof -
  have eta: "refs q = pay 0 q" for q by (simp add: fun_eq_iff refs_def)
  show ?thesis using pay_update_child [OF assms(1,2)] assms(3) unfolding eta .
qed

lemma trie_add_ok:
  assumes "trie_wf t" "refs t p \<noteq> - 1"
  shows "\<exists>t'. trie_add t p = Some (refs t p = 0, t') \<and> trie_wf t' \<and>
    refs t' = (refs t)(p := refs t p + 1)"
  using assms
proof (induction p arbitrary: t)
  case Nil
  obtain r m n l nx where t: "t = TN r m n l nx" by (cases t)
  have "trie_wf (TN (r + 1) m n l nx)"
    using Nil(1) unfolding trie_wf_def t by (rule node_wf_payload)
  moreover have "refs (TN (r + 1) m n l nx) p = ((refs t)([] := r + 1)) p" for p
    by (cases p) (simp_all add: t)
  ultimately show ?case by (auto simp: t)
next
  case (Cons c cs)
  note wf = Cons.prems(1) [unfolded trie_wf_def]
  from extend_range_opened [OF node_wf_shape [OF wf]] obtain t1 where
    t1: "extend_range t c = Some t1" "opened t c t1" by blast
  note get = opened_slot_get [OF t1(2)]
  define q where "q = (case child t c of None \<Rightarrow> new_trie | Some q \<Rightarrow> q)"
  have q: "trie_wf q" "refs q cs = refs t (c # cs)" "refs q cs \<noteq> - 1"
    using wf node_wf_child(1) [OF wf] trie_wf_new Cons.prems(2)
    by (auto simp: q_def trie_wf_def split: option.splits)
  from Cons.IH [OF q(1,3)] obtain q' where q': "trie_add q cs = Some (refs q cs = 0, q')"
    "trie_wf q'" "refs q' = (refs q)(cs := refs q cs + 1)" by blast
  have "refs q' cs \<noteq> 0" using q'(3) q(3) by (simp add: eq_neg_iff_add_eq_0)
  then have nr: "\<not> redundant (\<lambda>r. r \<noteq> 0) q'" using refs_not_redundant q'(2) by blast
  have "\<exists>t2. trie_add t (c # cs) = Some (refs q cs = 0, t2) \<and> shape t2 \<and>
    payload t2 = payload t \<and> child t2 = (child t)(c := Some q')"
  proof (cases "child t c")
    case None
    from slot_put_opened_new [OF t1(2) None] obtain t2 where
      "slot_put (inc_live t1) c (Some q') = Some t2" "shape t2" "payload t2 = payload t"
      "child t2 = (child t)(c := Some q')" by blast
    moreover have "ncount (inc_live t1) = ncount t1" by (cases t1) simp
    ultimately show ?thesis
      using t1 get None q' opened_asserts(2,3) [OF t1(2) None]
      by (cases t) (simp add: q_def Let_def)
  next
    case (Some q0)
    then have "child t c \<noteq> None" by simp
    from slot_put_opened [OF t1(2) this] obtain t2 where
      "slot_put t1 c (Some q') = Some t2" "shape t2" "payload t2 = payload t"
      "child t2 = (child t)(c := Some q')" by blast
    then show ?thesis
      using t1 get Some q' by (cases t) (simp add: q_def)
  qed
  then obtain t2 where t2: "trie_add t (c # cs) = Some (refs q cs = 0, t2)" "shape t2"
    "payload t2 = payload t" "child t2 = (child t)(c := Some q')" by blast
  have "trie_wf t2"
    unfolding trie_wf_def by (rule node_wf_update [OF wf t2(2,4)])
      (use q'(2) nr in \<open>auto simp: trie_wf_def\<close>)
  moreover have "refs t2 = (refs t)(c # cs := refs t (c # cs) + 1)"
    by (rule refs_update_child [OF t2(3,4)])
      (auto simp: q'(3) q(2) q_def fun_eq_iff split: option.splits)
  ultimately show ?case using t2(1) unfolding q(2) by blast
qed

lemma trie_rm_ok:
  assumes "trie_wf t"
  shows "\<exists>t'. trie_rm t p = Some (refs t p = 1, t') \<and> trie_wf t' \<and>
    refs t' = (refs t)(p := if refs t p = 0 then 0 else refs t p - 1)"
  using assms
proof (induction p arbitrary: t)
  case Nil
  obtain r m n l nx where t: "t = TN r m n l nx" by (cases t)
  have "trie_wf (TN (r - 1) m n l nx)"
    using Nil unfolding trie_wf_def t by (rule node_wf_payload)
  moreover have "refs (TN (r - 1) m n l nx) p = ((refs t)([] := r - 1)) p" for p
    by (cases p) (simp_all add: t)
  moreover have "refs t = (refs t)([] := 0)" if "r = 0" using that by (auto simp: t)
  ultimately show ?case using Nil by (auto simp: t)
next
  case (Cons c cs)
  note wf = Cons.prems [unfolded trie_wf_def]
  show ?case
  proof (cases "child t c")
    case None
    have "trie_rm t (c # cs) = Some (False, t)"
      using child_None_cases [OF node_wf_shape [OF wf] None] by cases simp_all
    with None Cons.prems show ?thesis by (auto intro!: exI [of _ t])
  next
    case (Some q)
    note slot = child_SomeD [OF node_wf_shape [OF wf] Some]
    have q: "trie_wf q" using node_wf_child(1) [OF wf Some] by (simp add: trie_wf_def)
    from Cons.IH [OF q] obtain q' where q': "trie_rm q cs = Some (refs q cs = 1, q')" "trie_wf q'"
      "refs q' = (refs q)(cs := if refs q cs = 0 then 0 else refs q cs - 1)" by blast
    define s where "s = (if is_redundant q' then None else Some q')"
    have "\<exists>t2. trie_rm t (c # cs) = Some (refs q cs = 1, t2) \<and> shape t2 \<and>
      payload t2 = payload t \<and> child t2 = (child t)(c := s)"
    proof (cases "is_redundant q'")
      case True
      with trie_prune_ok [OF node_wf_shape [OF wf] Some] show ?thesis
        using slot q'(1) by (auto simp: s_def pruned_def)
    next
      case False
      with slot_put_opened [OF slot(3), of q'] show ?thesis
        using slot Some q'(1) by (auto simp: s_def)
    qed
    then obtain t2 where t2: "trie_rm t (c # cs) = Some (refs q cs = 1, t2)" "shape t2"
      "payload t2 = payload t" "child t2 = (child t)(c := s)" by blast
    have "trie_wf t2"
      unfolding trie_wf_def by (rule node_wf_update [OF wf t2(2,4)])
        (use q'(2) in \<open>auto simp: trie_wf_def s_def is_redundant_iff split: if_splits\<close>)
    moreover have "(case s of None \<Rightarrow> \<lambda>_. 0 | Some q \<Rightarrow> refs q) = refs q'"
      using redundant_refs [OF q'(2)] by (auto simp: s_def is_redundant_iff)
    then have "refs t2 = (refs t)(c # cs := if refs q cs = 0 then 0 else refs q cs - 1)"
      by (intro refs_update_child [OF t2(3,4)]) (simp add: q'(3) Some)
    ultimately show ?thesis using t2(1) Some by auto
  qed
qed

declare trie_check.simps [simp del]

lemma trie_check_ok:
  assumes "trie_wf t"
  shows "trie_check t d = Some (\<exists>k \<le> length d. refs t (take k d) \<noteq> 0)"
  using assms
proof (induction d arbitrary: t)
  case Nil
  then show ?case by (simp add: trie_check.simps [of t])
next
  case (Cons c cs)
  note wf = Cons.prems [unfolded trie_wf_def]
  have split: "(\<exists>k \<le> length (c # cs). refs t (take k (c # cs)) \<noteq> 0) \<longleftrightarrow>
    payload t \<noteq> 0 \<or> (\<exists>k \<le> length cs. refs t (c # take k cs) \<noteq> 0)"
    by (metis (no_types, lifting) Suc_le_mono le0 length_Cons not0_implies_Suc refs_Nil
      take_0 take_Suc_Cons)
  show ?case
  proof (cases "child t c")
    case None
    from child_None_cases [OF node_wf_shape [OF wf] None] show ?thesis
      unfolding split by cases (subst trie_check.simps; auto simp: None)+
  next
    case (Some q)
    note slot = child_SomeD [OF node_wf_shape [OF wf] Some]
    have "trie_wf q" using node_wf_child(1) [OF wf Some] by (simp add: trie_wf_def)
    from Cons.IH [OF this] show ?thesis
      unfolding split using slot Some
      by (subst trie_check.simps) (auto simp del: slot_get.simps)
  qed
qed

subsection \<open>Enumerating the subscriptions\<close>

text \<open>
  \<open>apply_helper\<close> (lines 301 to 335): the calls of \<open>func_\<close> in order, each with the bytes
  of the path to the node. \<open>trie_apply_table\<close> is the loop over the table from index \<open>c\<close>.
\<close>

function trie_apply_helper :: "trie \<Rightarrow> byte list \<Rightarrow> byte list list option"
  and trie_apply_table :: "trie option list \<Rightarrow> byte \<Rightarrow> nat \<Rightarrow> nat \<Rightarrow> byte list \<Rightarrow> byte list list option"
  where
  "trie_apply_helper (TN r m n l nx) buff =
     (let calls = (if r \<noteq> 0 then [buff] else []) in
      if n = 0 then Some calls
      else if n = 1 then
        (case nx of
           Node (Some q) \<Rightarrow> do { rest \<leftarrow> trie_apply_helper q (buff @ [m]); Some (calls @ rest) }
         | _ \<Rightarrow> None)
      else
        (case nx of
           Table ts \<Rightarrow> do { rest \<leftarrow> trie_apply_table ts m 0 n buff; Some (calls @ rest) }
         | _ \<Rightarrow> None))"
| "trie_apply_table ts m c n buff =
     (if c = n then Some []
      else case ts of
        [] \<Rightarrow> None
      | s # ts \<Rightarrow> do {
          calls \<leftarrow> (case s of
             None \<Rightarrow> Some []
           | Some q \<Rightarrow> trie_apply_helper q (buff @ [m + of_nat c]));
          rest \<leftarrow> trie_apply_table ts m (c + 1) n buff;
          Some (calls @ rest) })"
  by pat_completeness auto
termination
  by (relation "measure (\<lambda>x. case x of Inl (t, _) \<Rightarrow> size t
        | Inr (ts, _) \<Rightarrow> size_list (size_option size) ts)")
    auto

definition trie_apply :: "trie \<Rightarrow> byte list list option" where
  "trie_apply t = trie_apply_helper t []"

declare trie_apply_helper.simps [simp del] trie_apply_table.simps [simp del]

definition lists_subs :: "trie \<Rightarrow> bool" where
  "lists_subs t \<longleftrightarrow> (\<forall>buff. \<exists>ps. trie_apply_helper t buff = Some (map ((@) buff) ps) \<and>
     distinct ps \<and> set ps = {p. refs t p \<noteq> 0})"

lemma refs_set_Cons:
  "{p. refs t p \<noteq> 0} = (if payload t \<noteq> 0 then {[]} else {}) \<union>
     {d # p | d p. \<exists>q. child t d = Some q \<and> refs q p \<noteq> 0}"
  unfolding refs_def by (rule pay_set_Cons) simp

lemma trie_apply_table_ok:
  assumes "\<And>q. Some q \<in> set ts \<Longrightarrow> lists_subs q" "c + length ts = n" "unat m + n \<le> 256"
  shows "\<exists>ps. trie_apply_table ts m c n buff = Some (map ((@) buff) ps) \<and> distinct ps \<and>
    set ps = {d # p | d p. \<exists>q. \<exists>j<length ts. d = m + of_nat (c + j) \<and> ts ! j = Some q \<and> refs q p \<noteq> 0}"
  using assms
proof (induction ts arbitrary: c)
  case Nil
  then show ?case by (simp add: trie_apply_table.simps)
next
  case (Cons s ts)
  let ?d = "m + of_nat c :: byte"
  let ?tail = "{d # p | d p. \<exists>q. \<exists>j<length ts. d = m + of_nat (Suc c + j) \<and> ts ! j = Some q \<and> refs q p \<noteq> 0}"
  let ?hd = "{d # p | d p. \<exists>q. d = ?d \<and> s = Some q \<and> refs q p \<noteq> 0}"
  have "\<exists>ps. trie_apply_table ts m (Suc c) n buff = Some (map ((@) buff) ps) \<and> distinct ps \<and>
      set ps = ?tail"
    by (rule Cons.IH) (use Cons.prems in simp_all)
  then obtain ps where
    ps: "trie_apply_table ts m (Suc c) n buff = Some (map ((@) buff) ps)" "distinct ps" "set ps = ?tail"
    by (elim exE conjE) (rule that)
  obtain hs where hs: "(case s of None \<Rightarrow> Some []
      | Some q \<Rightarrow> trie_apply_helper q (buff @ [m + of_nat c])) = Some (map ((@) buff) hs)"
    "distinct hs" "set hs = ?hd"
  proof (cases s)
    case None
    with that [of "[]"] show thesis by simp
  next
    case (Some q)
    with Cons.prems(1) have "lists_subs q" by simp
    then obtain qs where "trie_apply_helper q (buff @ [?d]) = Some (map ((@) (buff @ [?d])) qs)"
      "distinct qs" "set qs = {p. refs q p \<noteq> 0}" unfolding lists_subs_def by blast
    moreover from this have "distinct (map ((#) ?d) qs)" "set (map ((#) ?d) qs) = ?hd"
      using Some by (auto simp: distinct_map)
    ultimately show thesis
      using Some that [of "map ((#) ?d) qs"] by (simp add: comp_def)
  qed
  have idx: "unat (m + of_nat (c + j)) = unat m + (c + j)" if "j \<le> length ts" for j
    using Cons.prems(2,3) that by (intro unat_byte_add) simp
  have "d \<noteq> ?d" if "j < length ts" "d = m + of_nat (Suc c + j)" for d j
    using idx [of 0] idx [of "Suc j"] that by (auto simp del: of_nat_Suc)
  then have "set hs \<inter> set ps = {}" unfolding hs(3) ps(3) by blast
  then have "distinct (hs @ ps)" using hs(2) ps(2) by simp
  moreover have "set (hs @ ps) = {d # p | d p. \<exists>q. \<exists>j<length (s # ts).
      d = m + of_nat (c + j) \<and> (s # ts) ! j = Some q \<and> refs q p \<noteq> 0}"
    unfolding set_append hs(3) ps(3) length_Cons cons_set_Suc nth_Cons_0 nth_Cons_Suc
      add_0_right add_Suc_right add_Suc
    by (rule refl)
  moreover have "trie_apply_table (s # ts) m c n buff = Some (map ((@) buff) (hs @ ps))"
    using Cons.prems(2) hs(1) ps(1) by (simp add: trie_apply_table.simps)
  ultimately show ?case by (intro exI [of _ "hs @ ps"] conjI)
qed

lemma trie_apply_helper_ok: "node_wf (\<lambda>r. r \<noteq> 0) t \<Longrightarrow> lists_subs t"
proof (induction rule: node_wf.induct)
  case (node_wfI t)
  have sub: "lists_subs q" if "child t c = Some q" for c q using node_wfI.IH that by blast
  let ?here = "if payload t \<noteq> 0 then [[]] else []"
  consider "ncount t = 0" | "ncount t = 1" | "ncount t \<noteq> 0" "ncount t \<noteq> 1" by blast
  then show ?case
  proof cases
    case 1
    then have "child t c = None" for c by (cases t) simp
    then have "{p. refs t p \<noteq> 0} = set ?here" by (subst refs_set_Cons) simp
    moreover have "trie_apply_helper t buff = Some (map ((@) buff) ?here)" for buff
      using 1 by (cases t) (simp add: trie_apply_helper.simps)
    moreover have "distinct ?here" by simp
    ultimately show ?thesis unfolding lists_subs_def by metis
  next
    case 2
    from shape_single [OF node_wfI.hyps 2] obtain m s where
      t: "t = TN (payload t) m 1 1 (Node s)" "rep t (payload t) m [s]" "s \<noteq> None" .
    from t(3) obtain q where s: "s = Some q" by auto
    have child: "child t d = (if d = m then Some q else None)" for d
    proof -
      have "unat d = unat m \<longleftrightarrow> d = m" by (rule unat_byte_eq_iff)
      then show ?thesis
        unfolding rep_child [OF t(2)] s slot_of_def out_of_range_def by fastforce
    qed
    then have "child t m = Some q" by simp
    then have q: "lists_subs q" by (rule sub)
    show ?thesis unfolding lists_subs_def
    proof
      fix buff
      from q obtain qs where qs: "trie_apply_helper q (buff @ [m]) = Some (map ((@) (buff @ [m])) qs)"
        "distinct qs" "set qs = {p. refs q p \<noteq> 0}" unfolding lists_subs_def by blast
      have "trie_apply_helper t buff = Some (map ((@) buff) (?here @ map ((#) m) qs))"
        by (subst t(1)) (simp add: trie_apply_helper.simps s qs(1) comp_def)
      moreover have "set (?here @ map ((#) m) qs) = {p. refs t p \<noteq> 0}"
        unfolding refs_set_Cons child using qs(3) by auto
      ultimately show "\<exists>ps. trie_apply_helper t buff = Some (map ((@) buff) ps) \<and>
        distinct ps \<and> set ps = {p. refs t p \<noteq> 0}"
        using qs(2) by (intro exI [of _ "?here @ map ((#) m) qs"]) (auto simp: distinct_map)
    qed
  next
    case 3
    from shape_multi [OF node_wfI.hyps 3(2,1)] obtain m ss where
      t: "t = TN (payload t) m (length ss) (live_count ss) (Table ss)" "rep t (payload t) m ss"
      and len: "2 \<le> length ss" and bound: "unat m + length ss \<le> 256" .
    have child: "child t d = Some q \<longleftrightarrow> (\<exists>j<length ss. d = m + of_nat j \<and> ss ! j = Some q)" for d q
      unfolding rep_child [OF t(2)] by (rule slot_of_Some [OF bound])
    have "lists_subs q" if "Some q \<in> set ss" for q
      using that sub child by (metis in_set_conv_nth)
    note tab = trie_apply_table_ok [of ss 0 "length ss" m, OF this _ bound]
    show ?thesis unfolding lists_subs_def
    proof
      fix buff
      from tab [of buff] obtain ps where ps:
        "trie_apply_table ss m 0 (length ss) buff = Some (map ((@) buff) ps)" "distinct ps"
        "set ps = {d # p | d p. \<exists>q. \<exists>j<length ss. d = m + of_nat j \<and> ss ! j = Some q \<and> refs q p \<noteq> 0}"
        by auto
      have "trie_apply_helper t buff = Some (map ((@) buff) (?here @ ps))"
        using len by (subst t(1), cases "ss = []") (simp_all add: trie_apply_helper.simps ps(1))
      moreover have "set (?here @ ps) = {p. refs t p \<noteq> 0}"
        unfolding refs_set_Cons child using ps(3) by auto
      ultimately show "\<exists>ps. trie_apply_helper t buff = Some (map ((@) buff) ps) \<and>
        distinct ps \<and> set ps = {p. refs t p \<noteq> 0}"
        using ps(2,3) by (intro exI [of _ "?here @ ps"]) auto
    qed
  qed
qed

lemma trie_apply_ok:
  assumes "trie_wf t"
  shows "\<exists>calls. trie_apply t = Some calls \<and> distinct calls \<and> set calls = {p. refs t p \<noteq> 0}"
proof -
  have eq: "((@) ([] :: byte list)) = (\<lambda>p. p)" by auto
  from trie_apply_helper_ok assms obtain ps where
    "trie_apply_helper t [] = Some (map ((@) []) ps)" "distinct ps" "set ps = {p. refs t p \<noteq> 0}"
    unfolding lists_subs_def trie_wf_def by blast
  then show ?thesis by (simp add: trie_apply_def eq)
qed

subsection \<open>Histories of subscriptions\<close>

datatype sub_op = Sub | Unsub

fun trie_step :: "trie \<Rightarrow> byte list \<Rightarrow> sub_op \<Rightarrow> (bool \<times> trie) option" where
  "trie_step t p Sub = trie_add t p"
| "trie_step t p Unsub = trie_rm t p"

definition sub_ok :: "sub_op \<Rightarrow> u32 \<Rightarrow> bool" where
  "sub_ok op v \<longleftrightarrow> (op = Sub \<longrightarrow> v \<noteq> - 1)"

definition sub_res :: "sub_op \<Rightarrow> u32 \<Rightarrow> bool" where
  "sub_res op v = (case op of Sub \<Rightarrow> v = 0 | Unsub \<Rightarrow> v = 1)"

definition sub_app :: "sub_op \<Rightarrow> u32 \<Rightarrow> u32" where
  "sub_app op v = (case op of Sub \<Rightarrow> v + 1 | Unsub \<Rightarrow> if v = 0 then 0 else v - 1)"

lemma trie_step_ok:
  assumes "trie_wf t" "sub_ok op (refs t p)"
  shows "\<exists>t'. trie_step t p op = Some (sub_res op (refs t p), t') \<and> trie_wf t' \<and>
    refs t' = (refs t)(p := sub_app op (refs t p))"
  using trie_add_ok [OF assms(1), of p] trie_rm_ok [OF assms(1), of p] assms(2)
  by (cases op) (auto simp: sub_ok_def sub_res_def sub_app_def)

interpretation trie_store: keyed_store trie_step trie_wf refs sub_ok sub_res sub_app
  by unfold_locales (rule trie_step_ok)

text \<open>
  The number of subscriptions a history leaves at one prefix. An unsubscription when there are none
  changes nothing, as \<open>rm\<close> refuses it; so this is not the difference of the two numbers.
\<close>

primrec sub_count :: "nat \<Rightarrow> sub_op list \<Rightarrow> nat" where
  "sub_count n [] = n"
| "sub_count n (op # ops) = sub_count (case op of Sub \<Rightarrow> Suc n | Unsub \<Rightarrow> n - 1) ops"

lemma unat_max_u32: "unat (- 1 :: u32) = 2 ^ 32 - 1"
  by (simp add: unsigned_minus_1_eq_mask mask_eq_exp_minus_1)

lemma unat_sub_app:
  assumes "Suc (unat v) < 2 ^ 32"
  shows "unat (sub_app op v) = (case op of Sub \<Rightarrow> Suc (unat v) | Unsub \<Rightarrow> unat v - 1)"
proof (cases op)
  case Sub
  have "v + 1 \<noteq> 0"
  proof
    assume "v + 1 = 0"
    then have "v = - 1" by (simp add: eq_neg_iff_add_eq_0)
    with assms show False by (simp add: unat_max_u32)
  qed
  then show ?thesis using Sub by (simp add: sub_app_def unat_plus_simple unatSuc add.commute)
next
  case Unsub
  then show ?thesis by (simp add: sub_app_def unat_minus_one)
qed

lemma val_after_count:
  assumes "unat v + length ops < 2 ^ 32"
  shows "unat (val_after sub_app v ops) = sub_count (unat v) ops"
  using assms
proof (induction ops arbitrary: v)
  case (Cons op ops)
  then have "unat (sub_app op v) = (case op of Sub \<Rightarrow> Suc (unat v) | Unsub \<Rightarrow> unat v - 1)"
    by (intro unat_sub_app) simp
  with Cons show ?case by (simp split: sub_op.splits)
qed simp

lemma sub_permitted:
  assumes "\<And>p. unat (f p) + length xs < 2 ^ 32"
  shows "trie_store.permitted xs f"
  using assms
proof (induction xs arbitrary: f)
  case (Cons x xs)
  have small: "Suc (unat (f p)) + length xs < 2 ^ 32" for p using Cons.prems [of p] by simp
  have "f (fst x) \<noteq> - 1" using small [of "fst x"] by (auto simp: unat_max_u32)
  moreover have "unat (sub_app (snd x) (f (fst x))) \<le> Suc (unat (f (fst x)))"
    using unat_sub_app [of "f (fst x)" "snd x"] small [of "fst x"] by (simp split: sub_op.splits)
  then have "unat (((f(fst x := sub_app (snd x) (f (fst x)))) p)) + length xs < 2 ^ 32" for p
    using small [of p] small [of "fst x"] by simp
  then have "trie_store.permitted xs (f(fst x := sub_app (snd x) (f (fst x))))"
    by (rule Cons.IH)
  ultimately show ?case
    unfolding trie_store.permitted.simps by (intro conjI) (auto simp: sub_ok_def)
qed simp

lemma trie_history_run:
  assumes "length xs < 2 ^ 32"
  obtains rs t where "run_ops trie_step xs new_trie = Some (rs, t)" "trie_wf t"
    "\<And>p. unat (refs t p) = sub_count 0 (ops_at p xs)"
proof -
  have "trie_store.permitted xs (refs new_trie)"
    by (rule sub_permitted) (use assms in simp)
  from trie_store.run_refines [OF trie_wf_new this] obtain rs t where
    t: "run_ops trie_step xs new_trie = Some (rs, t)" "trie_wf t"
      "refs t = (\<lambda>p. val_after sub_app (refs new_trie p) (ops_at p xs))" by blast
  have "unat (refs t p) = sub_count 0 (ops_at p xs)" for p
    unfolding t(3) using val_after_count [of 0 "ops_at p xs"] length_ops_at [of p xs] assms by simp
  with t(1,2) show thesis by (rule that)
qed

subsection \<open>Properties\<close>

declare trie_add.simps [simp del] trie_rm.simps [simp del] trie_check.simps [simp del]
  refs_Cons [simp del] refs_Nil [simp del]

text \<open>
  C1: Whatever sequence of subscriptions and unsubscriptions a SUB socket goes through
  (fewer than \<open>2 ^ 32\<close>, the range of the reference count), no operation of the trie stops
  the process, and afterwards \<open>check\<close> accepts a message exactly when some prefix of it still has a
  subscription: each subscription of the prefix adds one, and each unsubscription takes one back as long as
  there is one; an unsubscription of a prefix without subscriptions counts as nothing, also for the
  subscriptions that follow.
\<close>

theorem trie_history_check:
  assumes "length xs < 2 ^ 32"
  shows "\<exists>rs t. run_ops trie_step xs new_trie = Some (rs, t) \<and>
    (\<forall>data. trie_check t data =
      Some (\<exists>k \<le> length data. 0 < sub_count 0 (ops_at (take k data) xs)))"
proof (rule trie_history_run [OF assms])
  fix rs t
  assume t: "run_ops trie_step xs new_trie = Some (rs, t)" "trie_wf t"
    "\<And>p. unat (refs t p) = sub_count 0 (ops_at p xs)"
  have "refs t p \<noteq> 0 \<longleftrightarrow> 0 < sub_count 0 (ops_at p xs)" for p
    unfolding t(3) [symmetric] by (simp add: unat_gt_0)
  with t(1) trie_check_ok [OF t(2)] show ?thesis by auto
qed

theorem trie_history_check_witness:
  "\<exists>rs t. run_ops trie_step [([1, 2], Sub), ([1, 2], Sub), ([7], Sub), ([1, 2], Unsub)] new_trie = Some (rs, t) \<and>
    trie_check t [1, 2, 3] = Some True \<and> trie_check t [3] = Some False"
proof -
  let ?xs = "[([1, 2], Sub), ([1, 2], Sub), ([7], Sub), ([1, 2], Unsub)] :: (byte list \<times> sub_op) list"
  from trie_history_check [of ?xs] obtain rs t where
    t: "run_ops trie_step ?xs new_trie = Some (rs, t)"
      "\<And>data. trie_check t data = Some (\<exists>k \<le> length data. 0 < sub_count 0 (ops_at (take k data) ?xs))"
    by auto
  have "\<exists>k \<le> length [1, 2, 3 :: byte]. 0 < sub_count 0 (ops_at (take k [1, 2, 3]) ?xs)"
    by (rule exI [of _ 2]) simp
  moreover have "\<not> 0 < sub_count 0 (ops_at (take k [3]) ?xs)" for k by (cases k) auto
  then have "\<not> (\<exists>k \<le> length [3 :: byte]. 0 < sub_count 0 (ops_at (take k [3]) ?xs))" by blast
  ultimately show ?thesis using t by (intro exI conjI) (assumption, simp_all only:)
qed

text \<open>
  \<open>trie_t::add\<close> on a well-formed trie fails no assertion, answers whether the prefix is
  new, increments the count of that prefix and of no other, and keeps the trie well-formed,
  unless the 32-bit count of the prefix is at its maximum.
\<close>

theorem trie_add_correct:
  assumes "trie_wf t" "refs t p \<noteq> - 1"
  shows "\<exists>t'. trie_add t p = Some (refs t p = 0, t') \<and> trie_wf t' \<and>
    refs t' = (refs t)(p := refs t p + 1)"
  using assms by (rule trie_add_ok)

theorem trie_add_correct_witness:
  "\<exists>t'. trie_add new_trie [3, 4] = Some (True, t') \<and> trie_wf t' \<and> refs t' [3, 4] = 1"
  using trie_add_correct [OF trie_wf_new, of "[3, 4]"] by auto

text \<open>
  \<open>trie_t::rm\<close> on a well-formed trie fails no assertion of its pruning and compaction
  code, answers whether the last subscription of the prefix was removed, decrements the
  count of that prefix only, and leaves no redundant node.
\<close>

theorem trie_rm_correct:
  assumes "trie_wf t"
  shows "\<exists>t'. trie_rm t p = Some (refs t p = 1, t') \<and> trie_wf t' \<and>
    refs t' = (refs t)(p := if refs t p = 0 then 0 else refs t p - 1)"
  using assms by (rule trie_rm_ok)

theorem trie_rm_correct_witness:
  "\<exists>t t'. trie_add new_trie [3] = Some (True, t) \<and> trie_rm t [3] = Some (True, t') \<and> refs t' [3] = 0"
proof -
  from trie_add_ok [OF trie_wf_new, of "[3]"] obtain t where
    t: "trie_add new_trie [3] = Some (True, t)" "trie_wf t" "refs t [3] = 1" by auto
  from trie_rm_correct [OF t(2), of "[3]"] t show ?thesis by auto
qed

text \<open>
  C4: \<open>trie_t::apply\<close> calls the callback once for every subscribed prefix, with exactly the
  bytes of the prefix, and for nothing else.
\<close>

theorem trie_apply_correct:
  assumes "trie_wf t"
  shows "\<exists>calls. trie_apply t = Some calls \<and> distinct calls \<and> set calls = {p. refs t p \<noteq> 0}"
  using assms by (rule trie_apply_ok)

theorem trie_apply_correct_witness:
  "\<exists>t. trie_add new_trie [9, 1] = Some (True, t) \<and> trie_apply t = Some [[9, 1]]"
proof -
  from trie_add_ok [OF trie_wf_new, of "[9, 1]"] obtain t where
    t: "trie_add new_trie [9, 1] = Some (True, t)" "trie_wf t"
      "refs t = (refs new_trie)([9, 1] := 1)" by auto
  from trie_apply_correct [OF t(2)] obtain calls where
    c: "trie_apply t = Some calls" "distinct calls" "set calls = {[9, 1]}"
    using t(3) by (auto simp: fun_upd_def)
  then have "length calls = 1" using distinct_card [OF c(2)] by simp
  with c t(1) show ?thesis by (cases calls) auto
qed

end
