(* ===== verification/Multi_Trie.thy ===== *)
theory Multi_Trie
  imports Trie_Node Store_Interface
begin

text \<open>
  \<open>mtrie_t\<close> of \<open>src/zmqsrc/src/mtrie.cpp\<close>: the subscriptions of an XPUB or DISH-side
  socket, a radix tree whose nodes carry the set of pipes subscribed at that prefix. The
  \<open>pipes\<close> pointer is \<open>None\<close> when null; \<open>std::set\<close> of pointers is a set of pipe
  numbers, iterated in increasing order. The callbacks of \<open>rm\<close> and \<open>match\<close> are the
  lists of their arguments in the order of the calls.

  Abstractly the trie is the function \<open>subs\<close> from a prefix to its set of pipes.
\<close>

type_synonym pid = nat
type_synonym mtrie = "pid set option node"

definition new_mtrie :: mtrie where
  "new_mtrie = TN None 0 0 0 (Node None)"

definition mtrie_redundant :: "mtrie \<Rightarrow> bool" where
  "mtrie_redundant t \<longleftrightarrow> payload t = None \<and> live_nodes t = 0"

fun mtrie_add_helper :: "mtrie \<Rightarrow> byte list \<Rightarrow> pid \<Rightarrow> (bool \<times> mtrie) option" where
  "mtrie_add_helper (TN pipes m n l nx) [] pipe =
     (let result = (pipes = None);
          s = (case pipes of None \<Rightarrow> {} | Some s \<Rightarrow> s)
      in Some (result, TN (Some (insert pipe s)) m n l nx))"
| "mtrie_add_helper t (c # cs) pipe = do {
     t1 \<leftarrow> extend_range t c;
     p \<leftarrow> slot_get t1 c;
     case p of
       None \<Rightarrow> do {
         (ret, q) \<leftarrow> mtrie_add_helper new_mtrie cs pipe;
         t2 \<leftarrow> slot_put (inc_live t1) c (Some q);
         Some (ret, t2) }
     | Some q \<Rightarrow> do {
         (ret, q) \<leftarrow> mtrie_add_helper q cs pipe;
         t2 \<leftarrow> slot_put t1 c (Some q);
         Some (ret, t2) } }"

definition mtrie_add :: "mtrie \<Rightarrow> byte list \<Rightarrow> pid \<Rightarrow> (bool \<times> mtrie) option" where
  "mtrie_add t prefix pipe = mtrie_add_helper t prefix pipe"

text \<open>Lines 321 to 381: drop the child of \<open>c\<close>, then compact the table.\<close>

fun mtrie_prune :: "mtrie \<Rightarrow> byte \<Rightarrow> mtrie option" where
  "mtrie_prune (TN r m n l nx) c =
     (if n = 1 then do {
        let l = dec_u16 l;
        zmq_assert (l = 0);
        Some (TN r m 0 l (Node None)) }
      else do {
        ts \<leftarrow> next_table nx;
        ts \<leftarrow> table_set ts (unat c - unat m) None;
        zmq_assert (l > 1);
        let l = dec_u16 l;
        if l = 1 then do {
          i \<leftarrow> find (\<lambda>i. ts ! i \<noteq> None) [0..<n];
          oldp \<leftarrow> table_at ts i;
          Some (TN r (m + of_nat i) 1 l (Node oldp)) }
        else if c = m then do {
          i \<leftarrow> find (\<lambda>i. ts ! i \<noteq> None) [1..<n];
          let n = to_u16 (n - i);
          Some (TN r (m + of_nat i) n l (Table (take n (drop i ts)))) }
        else if unat c = unat m + n - 1 then do {
          i \<leftarrow> find (\<lambda>i. ts ! (n - 1 - i) \<noteq> None) [1..<n];
          let n = to_u16 (n - i);
          Some (TN r m n l (Table (take n ts))) }
        else Some (TN r m n l (Table ts)) })"

fun mtrie_rm_prefix_helper :: "mtrie \<Rightarrow> byte list \<Rightarrow> pid \<Rightarrow> (bool \<times> mtrie) option" where
  "mtrie_rm_prefix_helper (TN pipes m n l nx) [] pipe =
     (case pipes of
        None \<Rightarrow> Some (True, TN None m n l nx)
      | Some s \<Rightarrow> do {
          zmq_assert (pipe \<in> s);
          let s = s - {pipe};
          let pipes = (if s = {} then None else Some s);
          Some (pipes = None, TN pipes m n l nx) })"
| "mtrie_rm_prefix_helper t (c # cs) pipe =
     (if ncount t = 0 \<or> out_of_range (nmin t) (ncount t) c then Some (False, t)
      else do {
        p \<leftarrow> slot_get t c;
        case p of
          None \<Rightarrow> Some (False, t)
        | Some q \<Rightarrow> do {
            (ret, q) \<leftarrow> mtrie_rm_prefix_helper q cs pipe;
            t2 \<leftarrow> (if mtrie_redundant q then mtrie_prune t c else slot_put t c (Some q));
            Some (ret, t2) } })"

definition mtrie_rm_prefix :: "mtrie \<Rightarrow> byte list \<Rightarrow> pid \<Rightarrow> (bool \<times> mtrie) option" where
  "mtrie_rm_prefix t prefix pipe = mtrie_rm_prefix_helper t prefix pipe"

text \<open>
  The removal of a pipe everywhere (lines 162 to 284). The first component of the result
  lists the arguments of \<open>func_\<close>. \<open>mtrie_rm_table\<close> is the loop over the table from
  index \<open>c\<close>, with \<open>live_nodes\<close>, \<open>new_min\<close> and \<open>new_max\<close> as its running values.
\<close>

definition rm_here :: "pid set option \<Rightarrow> pid \<Rightarrow> bool \<Rightarrow> byte list \<Rightarrow> byte list list \<times> pid set option" where
  "rm_here pipes pipe call_on_uniq buff =
     (case pipes of
        None \<Rightarrow> ([], None)
      | Some s \<Rightarrow>
          if pipe \<in> s then
            let s = s - {pipe} in
            (if \<not> call_on_uniq \<or> s = {} then [buff] else [], if s = {} then None else Some s)
          else ([], Some s))"

text \<open>Lines 243 to 283: free, shrink to the single-node form, or cut the table.\<close>

definition mtrie_compact :: "pid set option \<Rightarrow> byte \<Rightarrow> nat \<Rightarrow> nat \<Rightarrow> mtrie option list \<Rightarrow> byte \<Rightarrow> byte \<Rightarrow>
    mtrie option" where
  "mtrie_compact r m n l ts new_min new_max = do {
     zmq_assert (n > 1);
     if l = 0 then Some (TN r m 0 l (Table []))
     else if l = 1 then do {
       zmq_assert (new_min = new_max);
       zmq_assert (m \<le> new_min \<and> unat new_min < unat m + n);
       node \<leftarrow> table_at ts (unat new_min - unat m);
       zmq_assert (node \<noteq> None);
       Some (TN r new_min 1 l (Node node)) }
     else if new_min > m \<or> unat new_max < unat m + n - 1 then do {
       zmq_assert (unat new_max > unat new_min);
       zmq_assert (m \<le> new_min);
       zmq_assert (unat new_max \<le> unat m + n - 1);
       zmq_assert (unat new_max + 1 < unat new_min + n);
       let n = to_u16 (unat new_max + 1 - unat new_min);
       Some (TN r new_min n l (Table (take n (drop (unat new_min - unat m) ts)))) }
     else Some (TN r m n l (Table ts)) }"

function mtrie_rm_helper :: "mtrie \<Rightarrow> pid \<Rightarrow> byte list \<Rightarrow> bool \<Rightarrow> (byte list list \<times> mtrie) option"
  and mtrie_rm_table :: "mtrie option list \<Rightarrow> pid \<Rightarrow> byte list \<Rightarrow> bool \<Rightarrow> byte \<Rightarrow> nat \<Rightarrow> nat \<Rightarrow>
    nat \<Rightarrow> byte \<Rightarrow> byte \<Rightarrow> (byte list list \<times> mtrie option list \<times> nat \<times> byte \<times> byte) option"
  where
  "mtrie_rm_helper (TN pipes m n l nx) pipe buff call_on_uniq =
     (let (calls, pipes) = rm_here pipes pipe call_on_uniq buff in
      if n = 0 then Some (calls, TN pipes m n l nx)
      else if n = 1 then
        (case nx of
           Node (Some q) \<Rightarrow> do {
             (rest, q) \<leftarrow> mtrie_rm_helper q pipe (buff @ [m]) call_on_uniq;
             if mtrie_redundant q then do {
               zmq_assert (dec_u16 l = 0);
               Some (calls @ rest, TN pipes m 0 (dec_u16 l) (Node None)) }
             else Some (calls @ rest, TN pipes m n l (Node (Some q))) }
         | _ \<Rightarrow> None)
      else
        (case nx of
           Table ts \<Rightarrow> do {
             (rest, ts, l, new_min, new_max) \<leftarrow>
               mtrie_rm_table ts pipe buff call_on_uniq m 0 n l (m + of_nat (n - 1)) m;
             t \<leftarrow> mtrie_compact pipes m n l ts new_min new_max;
             Some (calls @ rest, t) }
         | _ \<Rightarrow> None))"
| "mtrie_rm_table ts pipe buff call_on_uniq m c n l new_min new_max =
     (if c = n then Some ([], ts, l, new_min, new_max)
      else case ts of
        [] \<Rightarrow> None
      | None # ts \<Rightarrow> do {
          (rest, ts, l, new_min, new_max) \<leftarrow>
            mtrie_rm_table ts pipe buff call_on_uniq m (c + 1) n l new_min new_max;
          Some (rest, None # ts, l, new_min, new_max) }
      | Some q # ts \<Rightarrow> do {
          (calls, q) \<leftarrow> mtrie_rm_helper q pipe (buff @ [m + of_nat c]) call_on_uniq;
          if mtrie_redundant q then do {
            zmq_assert (l > 0);
            (rest, ts, l, new_min, new_max) \<leftarrow>
              mtrie_rm_table ts pipe buff call_on_uniq m (c + 1) n (dec_u16 l) new_min new_max;
            Some (calls @ rest, None # ts, l, new_min, new_max) }
          else do {
            let new_min = (if c + unat m < unat new_min then m + of_nat c else new_min);
            let new_max = (if c + unat m > unat new_max then m + of_nat c else new_max);
            (rest, ts, l, new_min, new_max) \<leftarrow>
              mtrie_rm_table ts pipe buff call_on_uniq m (c + 1) n l new_min new_max;
            Some (calls @ rest, Some q # ts, l, new_min, new_max) } })"
  by pat_completeness auto
termination
  by (relation "measure (\<lambda>x. case x of Inl (t, _) \<Rightarrow> size t
        | Inr (ts, _) \<Rightarrow> size_list (size_option size) ts)")
    auto

definition mtrie_rm :: "mtrie \<Rightarrow> pid \<Rightarrow> bool \<Rightarrow> (byte list list \<times> mtrie) option" where
  "mtrie_rm t pipe call_on_uniq = mtrie_rm_helper t pipe [] call_on_uniq"

text \<open>\<open>match\<close> (lines 388 to 429): the pipes signalled, in the order of the calls.\<close>

definition signalled :: "mtrie \<Rightarrow> pid list" where
  "signalled t = (case payload t of None \<Rightarrow> [] | Some s \<Rightarrow> sorted_list_of_set s)"

fun mtrie_match :: "mtrie \<Rightarrow> byte list \<Rightarrow> pid list option" where
  "mtrie_match t data =
     (case data of
        [] \<Rightarrow> Some (signalled t)
      | c # cs \<Rightarrow>
          if ncount t = 0 then Some (signalled t)
          else if ncount t = 1 then
            (if c \<noteq> nmin t then Some (signalled t)
             else do {
               p \<leftarrow> next_node (nnext t);
               q \<leftarrow> p;
               rest \<leftarrow> mtrie_match q cs;
               Some (signalled t @ rest) })
          else if out_of_range (nmin t) (ncount t) c then Some (signalled t)
          else do {
            ts \<leftarrow> next_table (nnext t);
            p \<leftarrow> table_at ts (unat c - unat (nmin t));
            case p of
              None \<Rightarrow> Some (signalled t)
            | Some q \<Rightarrow> do {
                rest \<leftarrow> mtrie_match q cs;
                Some (signalled t @ rest) } })"

declare mtrie_match.simps [simp del]
  mtrie_rm_helper.simps [simp del] mtrie_rm_table.simps [simp del]

subsection \<open>Pruning\<close>

lemma mtrie_prune_single:
  assumes "shape t" "child t c = Some q" "ncount t = 1"
  shows "\<exists>t2. mtrie_prune t c = Some t2 \<and> pruned t c t2"
proof -
  from shape_single [OF assms(1,3)] obtain m s where
    t: "t = TN (payload t) m 1 1 (Node s)" and rep: "rep t (payload t) m [s]" by blast
  let ?t2 = "TN (payload t) m 0 0 (Node None) :: mtrie"
  have "mtrie_prune t c = Some ?t2" by (subst t) simp
  moreover have "unat c = unat m"
    using assms(2) unfolding rep_child [OF rep]
    by (auto simp: slot_of_def out_of_range_def split: if_splits)
  then have "child ?t2 = (child t)(c := None)"
    unfolding rep_child [OF rep]
    by (auto simp: slot_of_def out_of_range_def fun_eq_iff unat_byte_eq_iff [symmetric])
  ultimately show ?thesis by (simp add: pruned_def shape_fresh)
qed

lemma mtrie_prune_table:
  assumes "shape t" "child t c = Some q" "ncount t \<noteq> 1"
  shows "\<exists>t2. mtrie_prune t c = Some t2 \<and> pruned t c t2"
proof (rule prune_setup [OF assms])
  fix m ss ts i n
  assume t: "t = TN (payload t) m n (live_count ss) (Table ss)"
    and n2: "2 \<le> n" "n \<le> 256" and nts: "length ts = n" and bnd: "unat m + length ts \<le> 256"
    and i: "i = unat c - unat m" "i < n" and step: "table_set ss i None = Some ts"
    and gone: "ts ! i = None"
    and live: "1 < live_count ss" "dec_u16 (live_count ss) = live_count ts" "live_count ts \<noteq> 0"
    and child_ts: "slot_of m ts = (child t)(c := None)"
    and ends: "\<And>j. j \<noteq> i \<Longrightarrow> j = 0 \<or> j = n - 1 \<Longrightarrow> ts ! j \<noteq> None"
    and cm: "c = m \<longleftrightarrow> i = 0" "unat c = unat m + n - 1 \<longleftrightarrow> i = n - 1"
  have done1: "\<exists>t2. mtrie_prune t c = Some t2 \<and> pruned t c t2"
    if "mtrie_prune t c = Some (TN (payload t) m' k (live_count ts) nx)"
      "shape (TN (payload t) m' k (live_count ts) nx)"
      "child (TN (payload t) m' k (live_count ts) nx) = slot_of m ts" for m' k nx
    using that by (simp add: pruned_def child_ts)
  have n1: "1 \<le> n - 1" "n - 1 < n" using n2 by auto
  note single = single_shape [of ts _ m "payload t"]
  note cut = cut_shape [of _ _ ts m "payload t"]
  note facts = live(1) cm step
  note unfolded = step live(2) i(1) [symmetric] table_at_def
  show "\<exists>t2. mtrie_prune t c = Some t2 \<and> pruned t c t2"
  proof (cases "live_count ts = 1")
    case True
    let ?k = "if i = 0 then n - 1 else 0"
    have "0 \<le> ?k" "?k < n" "ts ! ?k \<noteq> None" using ends n2 by auto
    then obtain k where k: "find (\<lambda>i. ts ! i \<noteq> None) [0..<n] = Some k" "k < n" "ts ! k \<noteq> None"
      using find_upt_ex [of 0 ?k n "\<lambda>i. ts ! i \<noteq> None"] by (metis le_less_trans)
    then have "mtrie_prune t c = Some (TN (payload t) (m + of_nat k) 1 (live_count ts) (Node (ts ! k)))"
      using True n2 nts facts by (subst t) (simp add: unfolded)
    then show ?thesis
      by (rule done1) (use single [OF True _ k(3) bnd] k(2) nts True in simp_all)
  next
    case multi: False
    consider "i = 0" | "i \<noteq> 0" "i = n - 1" | "i \<noteq> 0" "i \<noteq> n - 1" by blast
    then show ?thesis
    proof cases
      case 1
      then have last: "ts ! (n - 1) \<noteq> None" using ends n2 by auto
      obtain k where k: "find (\<lambda>i. ts ! i \<noteq> None) [1..<n] = Some k" "1 \<le> k" "k \<le> n - 1"
        "ts ! k \<noteq> None" "\<And>j. 1 \<le> j \<Longrightarrow> j < k \<Longrightarrow> \<not> ts ! j \<noteq> None"
        by (rule find_upt_ex [OF n1, where P = "\<lambda>i. ts ! i \<noteq> None", OF last]) blast
      have none: "ts ! j = None" if "j < k" for j
        using k(5) [of j] gone 1 that by (cases j) auto
      have "mtrie_prune t c = Some (TN (payload t) (m + of_nat k) (n - 1 + 1 - k) (live_count ts)
          (Table (take (n - 1 + 1 - k) (drop k ts))))"
        using 1 multi k(1,3) n1 n2 facts by (subst t) (simp add: unfolded Let_def)
      then show ?thesis
        by (rule done1)
          (use cut [OF k(3) _ k(4) last none _ bnd multi] n1 nts in simp_all)
    next
      case 2
      then have first: "ts ! 0 \<noteq> None" using ends by auto
      obtain k where k: "find (\<lambda>i. ts ! (n - 1 - i) \<noteq> None) [1..<n] = Some k" "1 \<le> k" "k \<le> n - 1"
        "ts ! (n - 1 - k) \<noteq> None" "\<And>j. 1 \<le> j \<Longrightarrow> j < k \<Longrightarrow> \<not> ts ! (n - 1 - j) \<noteq> None"
        by (rule find_upt_ex [OF n1, where P = "\<lambda>i. ts ! (n - 1 - i) \<noteq> None"])
          (use first in simp, blast)
      have none: "ts ! j = None" if "n - 1 - k < j" "j < length ts" for j
        using k(5) [of "n - 1 - j"] gone 2 that nts by (cases "j = n - 1") auto
      have "k < n" "0 < k" using k(2,3) n1 by simp_all
      then have "mtrie_prune t c = Some (TN (payload t) (m + of_nat 0) (n - 1 - k + 1 - 0) (live_count ts)
          (Table (take (n - 1 - k + 1 - 0) (drop 0 ts))))"
        using 2 multi k(1) n2 facts by (subst t) (simp add: unfolded Let_def Suc_diff_Suc)
      then show ?thesis
        by (rule done1)
          (use cut [OF _ _ first k(4) _ none bnd multi] n1 nts in simp_all)
    next
      case 3
      then have ends': "ts ! 0 \<noteq> None" "ts ! (n - 1) \<noteq> None" using ends by auto
      have "mtrie_prune t c = Some (TN (payload t) (m + of_nat 0) (n - 1 + 1 - 0) (live_count ts)
          (Table (take (n - 1 + 1 - 0) (drop 0 ts))))"
        using 3 multi n1 n2 nts facts by (subst t) (simp add: unfolded)
      then show ?thesis
        by (rule done1)
          (use cut [OF _ _ ends' _ _ bnd multi] n1 nts in simp_all)
    qed
  qed
qed

lemma mtrie_prune_ok:
  assumes "shape t" "child t c = Some q"
  shows "\<exists>t2. mtrie_prune t c = Some t2 \<and> pruned t c t2"
  using mtrie_prune_single mtrie_prune_table assms by blast

subsection \<open>The subscribers of every prefix\<close>

abbreviation pl :: "mtrie \<Rightarrow> byte list \<Rightarrow> pid set option" where
  "pl t \<equiv> pay None t"

definition set_of :: "pid set option \<Rightarrow> pid set" where
  "set_of x = (case x of None \<Rightarrow> {} | Some s \<Rightarrow> s)"

definition subs :: "mtrie \<Rightarrow> byte list \<Rightarrow> pid set" where
  "subs t p = set_of (pl t p)"

text \<open>No redundant node, and an allocated set is never empty (nor infinite).\<close>

definition mtrie_wf :: "mtrie \<Rightarrow> bool" where
  "mtrie_wf t \<longleftrightarrow> node_wf (\<lambda>r. r \<noteq> None) t \<and> (\<forall>p s. pl t p = Some s \<longrightarrow> s \<noteq> {} \<and> finite s)"

lemma set_of_simps [simp]: "set_of None = {}" "set_of (Some s) = s"
  by (simp_all add: set_of_def)

lemma mtrie_wf_node: "mtrie_wf t \<Longrightarrow> node_wf (\<lambda>r. r \<noteq> None) t"
  by (simp add: mtrie_wf_def)

lemma mtrie_wf_shape: "mtrie_wf t \<Longrightarrow> shape t"
  by (auto simp: mtrie_wf_def node_wf_shape)

lemma mtrie_wf_child:
  assumes "mtrie_wf t" "child t c = Some q"
  shows "mtrie_wf q"
  unfolding mtrie_wf_def
proof (intro conjI allI impI)
  show "node_wf (\<lambda>r. r \<noteq> None) q"
    using assms node_wf_child(1) by (auto simp: mtrie_wf_def)
  fix p s assume "pl q p = Some s"
  then have "pl t (c # p) = Some s" by (simp add: pay_Cons assms(2))
  then show "s \<noteq> {}" "finite s" using assms(1) by (auto simp: mtrie_wf_def)
qed

lemma pl_subs: "mtrie_wf t \<Longrightarrow> pl t p = (if subs t p = {} then None else Some (subs t p))"
  by (cases "pl t p") (auto simp: mtrie_wf_def subs_def)

lemma finite_subs: "mtrie_wf t \<Longrightarrow> finite (subs t p)"
  by (cases "pl t p") (auto simp: mtrie_wf_def subs_def)

lemma mtrie_wf_new: "mtrie_wf new_mtrie"
  by (simp add: mtrie_wf_def new_mtrie_def node_wf_fresh pay_fresh)

lemma subs_new_mtrie [simp]: "subs new_mtrie = (\<lambda>_. {})"
  by (simp add: subs_def new_mtrie_def pay_fresh fun_eq_iff)

lemma mtrie_redundant_iff: "mtrie_redundant t \<longleftrightarrow> redundant (\<lambda>r. r \<noteq> None) t"
  by (simp add: mtrie_redundant_def redundant_def)

lemma subs_update: "pl t' = (pl t)(p := x) \<Longrightarrow> subs t' = (subs t)(p := set_of x)"
  by (simp add: subs_def fun_eq_iff)

lemma mtrie_wf_update:
  assumes "mtrie_wf t" "node_wf (\<lambda>r. r \<noteq> None) t'" "pl t' = (pl t)(p := x)"
    "\<And>s. x = Some s \<Longrightarrow> s \<noteq> {} \<and> finite s"
  shows "mtrie_wf t'"
  using assms by (auto simp: mtrie_wf_def split: if_splits)

lemma mtrie_add_helper_pl:
  assumes "node_wf (\<lambda>r. r \<noteq> None) t"
  shows "\<exists>t'. mtrie_add_helper t p pipe = Some (pl t p = None, t') \<and>
    node_wf (\<lambda>r. r \<noteq> None) t' \<and> pl t' = (pl t)(p := Some (insert pipe (set_of (pl t p))))"
  using assms
proof (induction p arbitrary: t)
  case Nil
  obtain r m n l nx where t: "t = TN r m n l nx" by (cases t)
  have "node_wf (\<lambda>r. r \<noteq> None) (TN (Some (insert pipe (set_of r))) m n l nx)"
    using Nil unfolding t by (rule node_wf_payload)
  then show ?case
    using pay_update_payload [of None "Some (insert pipe (set_of r))" m n l nx r]
    by (simp add: t Let_def pay_Nil set_of_def fun_upd_def)
next
  case (Cons c cs)
  note wf = Cons.prems
  from extend_range_opened [OF node_wf_shape [OF wf]] obtain t1 where
    t1: "extend_range t c = Some t1" "opened t c t1" by blast
  note get = opened_slot_get [OF t1(2)]
  define q where "q = (case child t c of None \<Rightarrow> new_mtrie | Some q \<Rightarrow> q)"
  have q: "node_wf (\<lambda>r. r \<noteq> None) q" "pl q = child_pay None (child t c)"
    using node_wf_child(1) [OF wf] mtrie_wf_node [OF mtrie_wf_new]
    by (auto simp: q_def new_mtrie_def pay_fresh split: option.splits)
  then have qcs: "pl q cs = pl t (c # cs)" by (simp add: pay_Cons)
  from Cons.IH [OF q(1)] obtain q' where
    q': "mtrie_add_helper q cs pipe = Some (pl q cs = None, q')" "node_wf (\<lambda>r. r \<noteq> None) q'"
      "pl q' = (pl q)(cs := Some (insert pipe (set_of (pl q cs))))" by blast
  have nr: "\<not> redundant (\<lambda>r. r \<noteq> None) q'"
    by (rule pay_not_redundant [OF q'(2), of cs]) (simp add: q'(3))
  have "\<exists>t2. mtrie_add_helper t (c # cs) pipe = Some (pl q cs = None, t2) \<and> shape t2 \<and>
    payload t2 = payload t \<and> child t2 = (child t)(c := Some q')"
  proof (cases "child t c")
    case None
    with slot_put_opened_new [OF t1(2) None, of q'] t1 get q' show ?thesis
      by (cases t) (auto simp: q_def)
  next
    case (Some q0)
    then have "child t c \<noteq> None" by simp
    with slot_put_opened [OF t1(2) this, of q'] t1 get Some q' show ?thesis
      by (cases t) (auto simp: q_def)
  qed
  then obtain t2 where t2: "mtrie_add_helper t (c # cs) pipe = Some (pl q cs = None, t2)" "shape t2"
    "payload t2 = payload t" "child t2 = (child t)(c := Some q')" by blast
  have "node_wf (\<lambda>r. r \<noteq> None) t2"
    by (rule node_wf_update [OF wf t2(2,4)]) (use q'(2) nr in auto)
  moreover have "pl t2 = (pl t)(c # cs := Some (insert pipe (set_of (pl q cs))))"
    by (rule pay_update_child [OF t2(3,4)]) (simp add: q'(3) q(2))
  ultimately show ?case using t2(1) unfolding qcs by blast
qed

lemma mtrie_add_ok:
  assumes "mtrie_wf t"
  shows "\<exists>t'. mtrie_add t p pipe = Some (subs t p = {}, t') \<and> mtrie_wf t' \<and>
    subs t' = (subs t)(p := insert pipe (subs t p))"
proof -
  from mtrie_add_helper_pl [OF mtrie_wf_node [OF assms], of p pipe] obtain t' where
    t': "mtrie_add_helper t p pipe = Some (pl t p = None, t')" "node_wf (\<lambda>r. r \<noteq> None) t'"
      "pl t' = (pl t)(p := Some (insert pipe (set_of (pl t p))))" by blast
  have "mtrie_wf t'"
    by (rule mtrie_wf_update [OF assms t'(2,3)]) (use finite_subs [OF assms] in \<open>auto simp: subs_def\<close>)
  moreover have "pl t p = None \<longleftrightarrow> subs t p = {}" using pl_subs [OF assms] by simp
  ultimately show ?thesis
    using t'(1) subs_update [OF t'(3)] by (auto simp: mtrie_add_def subs_def)
qed

text \<open>
  Removing one subscription. Where other pipes but not this one subscribe to the prefix,
  the \<open>zmq_assert (erased == 1)\<close> stops the process.
\<close>

lemma mtrie_rm_prefix_pl:
  assumes "node_wf (\<lambda>r. r \<noteq> None) t" "pl t p = Some s" "pipe \<in> s"
  defines "x \<equiv> if s = {pipe} then None else Some (s - {pipe})"
  shows "\<exists>t'. mtrie_rm_prefix_helper t p pipe = Some (x = None, t') \<and>
    node_wf (\<lambda>r. r \<noteq> None) t' \<and> pl t' = (pl t)(p := x)"
  using assms(1,2)
proof (induction p arbitrary: t)
  case Nil
  obtain r m n l nx where t: "t = TN r m n l nx" by (cases t)
  have r: "r = Some s" using Nil(2) by (simp add: t pay_Nil)
  have "node_wf (\<lambda>r. r \<noteq> None) (TN x m n l nx)"
    using Nil(1) unfolding t by (rule node_wf_payload)
  moreover have "s - {pipe} = {} \<longleftrightarrow> s = {pipe}" using assms(3) by auto
  ultimately show ?case
    using pay_update_payload [of None x m n l nx r] assms(3)
    by (simp add: t r Let_def x_def fun_upd_def)
next
  case (Cons c cs)
  note wf = Cons.prems(1)
  from Cons.prems(2) obtain q where q: "child t c = Some q" "pl q cs = Some s"
    by (auto simp: pay_Cons split: option.splits)
  note slot = child_SomeD [OF node_wf_shape [OF wf] q(1)]
  from Cons.IH [OF node_wf_child(1) [OF wf q(1)] q(2)] obtain q' where
    q': "mtrie_rm_prefix_helper q cs pipe = Some (x = None, q')" "node_wf (\<lambda>r. r \<noteq> None) q'"
      "pl q' = (pl q)(cs := x)" by blast
  define sl where "sl = (if mtrie_redundant q' then None else Some q')"
  have "\<exists>t2. mtrie_rm_prefix_helper t (c # cs) pipe = Some (x = None, t2) \<and> shape t2 \<and>
    payload t2 = payload t \<and> child t2 = (child t)(c := sl)"
  proof (cases "mtrie_redundant q'")
    case True
    with mtrie_prune_ok [OF node_wf_shape [OF wf] q(1)] show ?thesis
      using slot q'(1) by (auto simp: sl_def pruned_def)
  next
    case False
    with slot_put_opened [OF slot(3), of q'] show ?thesis
      using slot q q'(1) by (auto simp: sl_def)
  qed
  then obtain t2 where t2: "mtrie_rm_prefix_helper t (c # cs) pipe = Some (x = None, t2)" "shape t2"
    "payload t2 = payload t" "child t2 = (child t)(c := sl)" by blast
  have "node_wf (\<lambda>r. r \<noteq> None) t2"
    by (rule node_wf_update [OF wf t2(2,4)])
      (use q'(2) in \<open>auto simp: sl_def mtrie_redundant_iff split: if_splits\<close>)
  moreover have "child_pay None sl = pl q'"
    using redundant_pay [OF q'(2)] by (auto simp: sl_def mtrie_redundant_iff)
  then have "pl t2 = (pl t)(c # cs := x)"
    by (intro pay_update_child [OF t2(3,4)]) (simp add: q'(3) q(1))
  ultimately show ?case using t2(1) by blast
qed

lemma mtrie_rm_prefix_ok:
  assumes "mtrie_wf t" "pipe \<in> subs t p"
  shows "\<exists>t'. mtrie_rm_prefix t p pipe = Some (subs t p = {pipe}, t') \<and> mtrie_wf t' \<and>
    subs t' = (subs t)(p := subs t p - {pipe})"
proof -
  define x where "x = (if subs t p = {pipe} then None else Some (subs t p - {pipe}))"
  have "pl t p = Some (subs t p)" using pl_subs [OF assms(1), of p] assms(2) by auto
  from mtrie_rm_prefix_pl [OF mtrie_wf_node [OF assms(1)] this assms(2)] obtain t' where
    t': "mtrie_rm_prefix_helper t p pipe = Some (x = None, t')" "node_wf (\<lambda>r. r \<noteq> None) t'"
      "pl t' = (pl t)(p := x)" unfolding x_def by blast
  have "set_of x = subs t p - {pipe}" by (auto simp: x_def)
  moreover have "mtrie_wf t'"
    by (rule mtrie_wf_update [OF assms(1) t'(2,3)])
      (use finite_subs [OF assms(1)] assms(2) in \<open>auto simp: x_def split: if_splits\<close>)
  moreover have "x = None \<longleftrightarrow> subs t p = {pipe}" by (simp add: x_def)
  ultimately show ?thesis
    using t'(1) subs_update [OF t'(3)] by (auto simp: mtrie_rm_prefix_def)
qed

lemma mtrie_rm_prefix_foreign:
  assumes "mtrie_wf t" "pipe \<notin> subs t p" "subs t p \<noteq> {}"
  shows "mtrie_rm_prefix t p pipe = None"
  unfolding mtrie_rm_prefix_def using assms
proof (induction p arbitrary: t)
  case Nil
  obtain r m n l nx where t: "t = TN r m n l nx" by (cases t)
  with Nil show ?case by (cases r) (auto simp: subs_def pay_Nil)
next
  case (Cons c cs)
  from Cons.prems(3) obtain q where q: "child t c = Some q" "subs q cs = subs t (c # cs)"
    by (auto simp: subs_def pay_Cons split: option.splits)
  from Cons.IH [OF mtrie_wf_child [OF Cons.prems(1) q(1)]] Cons.prems q
    child_SomeD [OF mtrie_wf_shape [OF Cons.prems(1)] q(1)]
  show ?case by simp
qed

subsection \<open>Matching a message\<close>

lemma signalled_subs: "mtrie_wf t \<Longrightarrow> signalled t = sorted_list_of_set (subs t [])"
  by (auto simp: signalled_def subs_def pay_Nil split: option.split)

lemma subs_Cons: "subs t (c # cs) = (case child t c of None \<Rightarrow> {} | Some q \<Rightarrow> subs q cs)"
  by (auto simp: subs_def pay_Cons split: option.split)

lemma concat_upt_Suc:
  "concat (map f [0..<Suc (length (c # cs))]) =
   f 0 @ concat (map (\<lambda>k. f (Suc k)) [0..<Suc (length cs)])"
proof -
  have "[0..<Suc (length (c # cs))] = 0 # map Suc [0..<Suc (length cs)]"
    by (simp only: length_Cons map_Suc_upt) (simp add: upt_conv_Cons del: upt_Suc)
  then show ?thesis by (simp add: comp_def del: upt_Suc)
qed

lemma mtrie_match_ok:
  assumes "mtrie_wf t"
  shows "mtrie_match t d =
    Some (concat (map (\<lambda>k. sorted_list_of_set (subs t (take k d))) [0..<Suc (length d)]))"
  using assms
proof (induction d arbitrary: t)
  case Nil
  then show ?case by (simp add: mtrie_match.simps signalled_subs)
next
  case (Cons c cs)
  note sig = signalled_subs [OF Cons.prems]
  have shape: "shape t" using Cons.prems by (rule mtrie_wf_shape)
  show ?case
  proof (cases "child t c")
    case None
    have "mtrie_match t (c # cs) = Some (signalled t)"
    proof (cases "ncount t = 1")
      case True
      from shape_single [OF shape this] obtain m s where
        t: "t = TN (payload t) m 1 1 (Node s)" "rep t (payload t) m [s]" "s \<noteq> None" by blast
      have "c \<noteq> m"
        using None t(3) unfolding rep_child [OF t(2)]
        by (auto simp: slot_of_def out_of_range_def)
      moreover have "nmin t = m" using t(1) by (metis node.sel(2))
      ultimately show ?thesis using True by (simp add: mtrie_match.simps)
    next
      case False
      obtain r m n l nx where t: "t = TN r m n l nx" by (cases t)
      from child_None_cases [OF shape None] show ?thesis
      proof cases
        case 1
        then show ?thesis using False unfolding mtrie_match.simps [of t "c # cs"] by simp
      next
        case 2
        then show ?thesis
          using False unfolding mtrie_match.simps [of t "c # cs"]
          by (cases nx) (simp_all add: t table_at_def split: if_splits)
      qed
    qed
    then show ?thesis
      unfolding concat_upt_Suc by (simp add: sig subs_Cons None del: upt_Suc)
  next
    case (Some q)
    note slot = child_SomeD [OF shape Some]
    have "nmin t = c" if "ncount t = 1"
    proof -
      have "unat (nmin t) = unat c" using slot(1) that unfolding out_of_range_def by linarith
      then show ?thesis by (simp only: unat_byte_eq_iff)
    qed
    moreover obtain r m n l nx where t: "t = TN r m n l nx" by (cases t)
    ultimately have "mtrie_match t (c # cs) = do { rest \<leftarrow> mtrie_match q cs; Some (signalled t @ rest) }"
      using slot(1,2,4) unfolding mtrie_match.simps [of t "c # cs"]
      by (cases nx; cases "n = 1") (auto simp: table_at_def split: if_splits)
    then show ?thesis
      unfolding concat_upt_Suc using Cons.IH [OF mtrie_wf_child [OF Cons.prems Some]]
      by (simp add: sig subs_Cons Some del: upt_Suc)
  qed
qed


subsection \<open>Removing a pipe everywhere\<close>

declare mtrie_rm_helper.simps [simp del] mtrie_rm_table.simps [simp del]

definition rm_val :: "pid \<Rightarrow> pid set option \<Rightarrow> pid set option" where
  "rm_val pipe x = (case x of None \<Rightarrow> None | Some s \<Rightarrow> if s = {pipe} then None else Some (s - {pipe}))"

definition told :: "pid \<Rightarrow> bool \<Rightarrow> pid set option \<Rightarrow> bool" where
  "told pipe uniq x \<longleftrightarrow> (case x of None \<Rightarrow> False | Some s \<Rightarrow> pipe \<in> s \<and> (uniq \<longrightarrow> s = {pipe}))"

lemma rm_val_None [simp]: "rm_val pipe None = None"
  by (simp add: rm_val_def)

lemma told_None [simp]: "\<not> told pipe uniq None"
  by (simp add: told_def)

lemma rm_here_eq:
  "rm_here x pipe uniq buff = (if told pipe uniq x then [buff] else [], rm_val pipe x)"
proof -
  have "s - {pipe} = {} \<longleftrightarrow> s = {pipe}" if "pipe \<in> s" for s using that by auto
  then show ?thesis
    by (auto simp: rm_here_def told_def rm_val_def Let_def split: option.split)
qed

definition rm_spec :: "pid \<Rightarrow> bool \<Rightarrow> mtrie \<Rightarrow> bool" where
  "rm_spec pipe uniq t \<longleftrightarrow> (\<forall>buff. \<exists>ps t'.
     mtrie_rm_helper t pipe buff uniq = Some (map ((@) buff) ps, t') \<and>
     node_wf (\<lambda>r. r \<noteq> None) t' \<and> pl t' = (\<lambda>p. rm_val pipe (pl t p)) \<and>
     distinct ps \<and> set ps = {p. told pipe uniq (pl t p)})"

text \<open>What the removal makes of one child slot.\<close>

definition slot_rm :: "pid \<Rightarrow> mtrie option \<Rightarrow> mtrie option \<Rightarrow> bool" where
  "slot_rm pipe s s' \<longleftrightarrow> child_pay None s' = (\<lambda>p. rm_val pipe (child_pay None s p)) \<and>
     (s = None \<longrightarrow> s' = None) \<and>
     (\<forall>q. s' = Some q \<longrightarrow> node_wf (\<lambda>r. r \<noteq> None) q \<and> \<not> redundant (\<lambda>r. r \<noteq> None) q)"

lemma slot_rm_None: "slot_rm pipe None None"
  by (simp add: slot_rm_def)

lemma slot_rm_node:
  assumes "node_wf (\<lambda>r. r \<noteq> None) q'" "pl q' = (\<lambda>p. rm_val pipe (pl q p))"
  shows "slot_rm pipe (Some q) (if mtrie_redundant q' then None else Some q')"
  using assms redundant_pay [OF assms(1)]
  by (simp add: slot_rm_def mtrie_redundant_iff)

text \<open>\<open>new_min\<close> and \<open>new_max\<close> after the loop over \<open>ts\<close> from index \<open>c\<close>.\<close>

definition min_after :: "byte \<Rightarrow> nat \<Rightarrow> 't option list \<Rightarrow> byte \<Rightarrow> byte \<Rightarrow> bool" where
  "min_after m c ts x0 x \<longleftrightarrow> unat x \<le> unat x0 \<and>
     (\<forall>j<length ts. ts ! j \<noteq> None \<longrightarrow> unat x \<le> unat m + (c + j)) \<and>
     (x = x0 \<or> (\<exists>j<length ts. ts ! j \<noteq> None \<and> x = m + of_nat (c + j)))"

definition max_after :: "byte \<Rightarrow> nat \<Rightarrow> 't option list \<Rightarrow> byte \<Rightarrow> byte \<Rightarrow> bool" where
  "max_after m c ts x0 x \<longleftrightarrow> unat x0 \<le> unat x \<and>
     (\<forall>j<length ts. ts ! j \<noteq> None \<longrightarrow> unat m + (c + j) \<le> unat x) \<and>
     (x = x0 \<or> (\<exists>j<length ts. ts ! j \<noteq> None \<and> x = m + of_nat (c + j)))"

lemmas after_Cons = length_Cons All_less_Suc2 Ex_less_Suc2 nth_Cons_0 nth_Cons_Suc add_0_right
  add_Suc_right add_Suc

lemma min_after_Cons:
  assumes "min_after m (Suc c) ts x1 x" "unat (m + of_nat c) = unat m + c"
    "x1 = (if s \<noteq> None \<and> c + unat m < unat x0 then m + of_nat c else x0)"
  shows "min_after m c (s # ts) x0 x"
  using assms unfolding min_after_def after_Cons by (auto split: if_splits)

lemma max_after_Cons:
  assumes "max_after m (Suc c) ts x1 x" "unat (m + of_nat c) = unat m + c"
    "x1 = (if s \<noteq> None \<and> c + unat m > unat x0 then m + of_nat c else x0)"
  shows "max_after m c (s # ts) x0 x"
  using assms unfolding max_after_def after_Cons by (auto split: if_splits)

lemma mtrie_rm_table_ok:
  assumes "\<And>q. Some q \<in> set ts \<Longrightarrow> rm_spec pipe uniq q" "c + length ts = n" "unat m + n \<le> 256"
    "live_count ts \<le> l" "l < 65536"
  shows "\<exists>ps ts' l' nm nx. mtrie_rm_table ts pipe buff uniq m c n l x0 y0 =
      Some (map ((@) buff) ps, ts', l', nm, nx) \<and>
    list_all2 (slot_rm pipe) ts ts' \<and> l' + live_count ts = l + live_count ts' \<and>
    min_after m c ts' x0 nm \<and> max_after m c ts' y0 nx \<and> distinct ps \<and>
    set ps = {d # p | d p. \<exists>q. \<exists>j<length ts. d = m + of_nat (c + j) \<and> ts ! j = Some q \<and>
      told pipe uniq (pl q p)}"
  using assms
proof (induction ts arbitrary: c l x0 y0)
  case Nil
  then show ?case by (simp add: mtrie_rm_table.simps min_after_def max_after_def)
next
  case (Cons s ts)
  let ?d = "m + of_nat c :: byte"
  let ?tail = "{d # p | d p. \<exists>q. \<exists>j<length ts. d = m + of_nat (Suc c + j) \<and> ts ! j = Some q \<and>
      told pipe uniq (pl q p)}"
  let ?hd = "{d # p | d p. \<exists>q. d = ?d \<and> s = Some q \<and> told pipe uniq (pl q p)}"
  have idx: "unat (m + of_nat (c + j)) = unat m + (c + j)" if "j \<le> length ts" for j
    using Cons.prems(2,3) that by (intro unat_byte_add) simp
  have uc: "unat ?d = unat m + c" using idx [of 0] by simp
  have IH: "\<exists>ps ts' l' nm nx. mtrie_rm_table ts pipe buff uniq m (Suc c) n l1 x1 y1 =
      Some (map ((@) buff) ps, ts', l', nm, nx) \<and>
    list_all2 (slot_rm pipe) ts ts' \<and> l' + live_count ts = l1 + live_count ts' \<and>
    min_after m (Suc c) ts' x1 nm \<and> max_after m (Suc c) ts' y1 nx \<and> distinct ps \<and> set ps = ?tail"
    if "live_count ts \<le> l1" "l1 < 65536" for l1 x1 y1
    by (rule Cons.IH) (use Cons.prems that in simp_all)
  have "\<exists>hs s' l1. slot_rm pipe s s' \<and> l1 + (if s = None then 0 else 1) = l + (if s' = None then 0 else 1) \<and>
    live_count ts \<le> l1 \<and> l1 < 65536 \<and> distinct hs \<and> set hs = ?hd \<and>
    (\<forall>ps ts' l' nm nx. mtrie_rm_table ts pipe buff uniq m (Suc c) n l1
        (if s' \<noteq> None \<and> c + unat m < unat x0 then ?d else x0)
        (if s' \<noteq> None \<and> c + unat m > unat y0 then ?d else y0) = Some (ps, ts', l', nm, nx) \<longrightarrow>
      mtrie_rm_table (s # ts) pipe buff uniq m c n l x0 y0 =
        Some (map ((@) buff) hs @ ps, s' # ts', l', nm, nx))"
  proof (cases s)
    case None
    then show ?thesis
      using Cons.prems slot_rm_None
      by (intro exI [of _ "[]"] exI [of _ None] exI [of _ l])
        (simp add: mtrie_rm_table.simps [of "None # ts"])
  next
    case (Some q)
    with Cons.prems(1) have "rm_spec pipe uniq q" by simp
    then obtain qs q' where q': "mtrie_rm_helper q pipe (buff @ [?d]) uniq =
        Some (map ((@) (buff @ [?d])) qs, q')"
      "node_wf (\<lambda>r. r \<noteq> None) q'" "pl q' = (\<lambda>p. rm_val pipe (pl q p))"
      "distinct qs" "set qs = {p. told pipe uniq (pl q p)}" unfolding rm_spec_def by blast
    define s' where "s' = (if mtrie_redundant q' then None else Some q')"
    have "slot_rm pipe s s'" unfolding Some s'_def by (rule slot_rm_node [OF q'(2,3)])
    moreover have "distinct (map ((#) ?d) qs)" "set (map ((#) ?d) qs) = ?hd"
      using Some q'(4,5) by (auto simp: distinct_map)
    moreover have "live_count ts \<le> l - 1" "l - 1 < 65536" using Cons.prems(4,5) Some by auto
    ultimately show ?thesis
      using Cons.prems(2-5) Some q'(1)
      by (intro exI [of _ "map ((#) ?d) qs"] exI [of _ s'] exI [of _ "if s' = None then l - 1 else l"])
        (simp add: s'_def mtrie_rm_table.simps [of "Some q # ts"] comp_def)
  qed
  then obtain hs s' l1 where hs: "slot_rm pipe s s'"
    "l1 + (if s = None then 0 else 1) = l + (if s' = None then 0 else 1)"
    "live_count ts \<le> l1" "l1 < 65536" "distinct hs" "set hs = ?hd"
    "\<forall>ps ts' l' nm nx. mtrie_rm_table ts pipe buff uniq m (Suc c) n l1
        (if s' \<noteq> None \<and> c + unat m < unat x0 then ?d else x0)
        (if s' \<noteq> None \<and> c + unat m > unat y0 then ?d else y0) = Some (ps, ts', l', nm, nx) \<longrightarrow>
      mtrie_rm_table (s # ts) pipe buff uniq m c n l x0 y0 =
        Some (map ((@) buff) hs @ ps, s' # ts', l', nm, nx)"
    by (elim exE conjE) (rule that)
  from IH [OF hs(3,4), of "if s' \<noteq> None \<and> c + unat m < unat x0 then ?d else x0"
      "if s' \<noteq> None \<and> c + unat m > unat y0 then ?d else y0"] obtain ps ts' l' nm nx where
    ps: "mtrie_rm_table ts pipe buff uniq m (Suc c) n l1
        (if s' \<noteq> None \<and> c + unat m < unat x0 then ?d else x0)
        (if s' \<noteq> None \<and> c + unat m > unat y0 then ?d else y0) = Some (map ((@) buff) ps, ts', l', nm, nx)"
    "list_all2 (slot_rm pipe) ts ts'" "l' + live_count ts = l1 + live_count ts'"
    "min_after m (Suc c) ts' (if s' \<noteq> None \<and> c + unat m < unat x0 then ?d else x0) nm"
    "max_after m (Suc c) ts' (if s' \<noteq> None \<and> c + unat m > unat y0 then ?d else y0) nx"
    "distinct ps" "set ps = ?tail"
    by (elim exE conjE) (rule that)
  have "d \<noteq> ?d" if "j < length ts" "d = m + of_nat (Suc c + j)" for d j
    using uc idx [of "Suc j"] that by (auto simp del: of_nat_Suc)
  then have "set hs \<inter> set ps = {}" unfolding hs(6) ps(7) by blast
  then have "distinct (hs @ ps)" using hs(5) ps(6) by simp
  moreover have "set (hs @ ps) = {d # p | d p. \<exists>q. \<exists>j<length (s # ts).
      d = m + of_nat (c + j) \<and> (s # ts) ! j = Some q \<and> told pipe uniq (pl q p)}"
    unfolding set_append hs(6) ps(7) length_Cons cons_set_Suc nth_Cons_0 nth_Cons_Suc
      add_0_right add_Suc_right add_Suc
    by (rule refl)
  moreover have "mtrie_rm_table (s # ts) pipe buff uniq m c n l x0 y0 =
      Some (map ((@) buff) (hs @ ps), s' # ts', l', nm, nx)"
    using hs(7) [rule_format, OF ps(1)] by simp
  moreover have "l' + live_count (s # ts) = l + live_count (s' # ts')"
    using hs(2) ps(3) by simp
  ultimately show ?case
    using hs(1) ps(2) min_after_Cons [OF ps(4) uc refl] max_after_Cons [OF ps(5) uc refl]
    by (intro exI [of _ "hs @ ps"] exI [of _ "s' # ts'"] exI [of _ l'] exI [of _ nm] exI [of _ nx] conjI)
      (simp_all only: list_all2_Cons)
qed

text \<open>The compaction of the table that the loop leaves.\<close>

lemma mtrie_compact_ok:
  fixes ts :: "mtrie option list"
  assumes n: "length ts = n" "2 \<le> n" "unat m + n \<le> 256"
    and lim: "min_after m 0 ts (m + of_nat (n - 1)) nm" "max_after m 0 ts m nx"
  shows "\<exists>t2. mtrie_compact r m n (live_count ts) ts nm nx = Some t2 \<and> shape t2 \<and>
    payload t2 = r \<and> child t2 = slot_of m ts"
proof (cases "live_count ts = 0")
  case True
  then have "ts ! j = None" if "j < length ts" for j
    using live_count_pos [OF that] by (cases "ts ! j") auto
  then have "slot_of m ts = (\<lambda>_. None)"
    by (auto simp: slot_of_def out_of_range_def fun_eq_iff)
  moreover have "child (TN r m 0 0 (Table [])) = (\<lambda>_. None)"
    by (rule ext) (auto simp: out_of_range_def)
  ultimately show ?thesis using True n(2) shape_fresh by (simp add: mtrie_compact_def)
next
  case False
  have "\<exists>j<n. ts ! j \<noteq> None"
  proof (rule ccontr)
    assume "\<not> (\<exists>j<n. ts ! j \<noteq> None)"
    then have "ts = replicate n None" using n(1) by (intro nth_equalityI) auto
    then have "live_count ts = 0" by (simp only: live_count_simps)
    with False show False by simp
  qed
  then obtain j where j: "j < n" "ts ! j \<noteq> None" by blast
  have byte: "unat (m + of_nat k) = unat m + k" if "k < n" for k
    using that n by (intro unat_byte_add) simp
  have "\<exists>a. a < n \<and> nm = m + of_nat a \<and> ts ! a \<noteq> None"
  proof (cases "nm = m + of_nat (n - 1)")
    case True
    then have "unat nm = unat m + (n - 1)" using byte [of "n - 1"] n(2) by simp
    moreover have "unat nm \<le> unat m + j" using lim(1) j n(1) by (auto simp: min_after_def)
    ultimately have "j = n - 1" using j(1) by simp
    with True j show ?thesis by blast
  qed (use lim(1) n(1) in \<open>auto simp: min_after_def\<close>)
  then obtain a where a: "a < n" "nm = m + of_nat a" "ts ! a \<noteq> None" by blast
  have "\<exists>b. b < n \<and> nx = m + of_nat b \<and> ts ! b \<noteq> None"
  proof (cases "nx = m")
    case True
    moreover have "unat m + j \<le> unat nx" using lim(2) j n(1) by (auto simp: max_after_def)
    ultimately have "j = 0" by simp
    with True j show ?thesis by auto
  qed (use lim(2) n(1) in \<open>auto simp: max_after_def\<close>)
  then obtain b where b: "b < n" "nx = m + of_nat b" "ts ! b \<noteq> None" by blast
  have ua: "unat nm = unat m + a" "unat nx = unat m + b" using a b byte by simp_all
  have below: "ts ! i = None" if "i < a" for i
    using lim(1) that a(1) n(1) ua unfolding min_after_def
    by (metis add_0 add_less_cancel_left less_trans not_le)
  have above: "ts ! i = None" if "b < i" "i < length ts" for i
    using lim(2) that ua unfolding max_after_def
    by (metis add_0 add_less_cancel_left not_le)
  have ab: "a \<le> b" using below b(3) by (metis linorder_not_less)
  note facts = n ua a b ab
  show ?thesis
  proof (cases "live_count ts = 1")
    case True
    have "a = b" using live_count_1 [OF True, of a b] a b n by auto
    then have "mtrie_compact r m n (live_count ts) ts nm nx = Some (TN r (m + of_nat a) 1 (live_count ts) (Node (ts ! a)))"
      using True facts by (simp add: mtrie_compact_def word_le_nat_alt)
    then show ?thesis
      using single_shape [OF True _ a(3), of m r] a n True by simp
  next
    case multi: False
    have "a \<noteq> b"
      using live_count_only [of a ts] below above a b n multi by (metis nat_neq_iff)
    then have "mtrie_compact r m n (live_count ts) ts nm nx =
        Some (TN r (m + of_nat a) (b + 1 - a) (live_count ts) (Table (take (b + 1 - a) (drop a ts))))"
      using multi False facts by (auto simp: mtrie_compact_def word_le_nat_alt word_less_nat_alt Let_def)
    then show ?thesis
      using cut_shape [OF ab _ a(3) b(3) below above _ multi, of m r] b n by simp
  qed
qed

lemma rm_spec_assemble:
  assumes "\<And>buff. \<exists>ps t'. mtrie_rm_helper t pipe buff uniq = Some
        ((if told pipe uniq (payload t) then [buff] else []) @ map ((@) buff) ps, t') \<and>
      distinct ps \<and> set ps = {e # p | e p. \<exists>q. child t e = Some q \<and> told pipe uniq (pl q p)} \<and>
      shape t' \<and> payload t' = rm_val pipe (payload t) \<and>
      (\<forall>c. slot_rm pipe (child t c) (child t' c))"
  shows "rm_spec pipe uniq t"
  unfolding rm_spec_def
proof
  fix buff
  let ?here = "if told pipe uniq (payload t) then [[]] else []"
  from assms [of buff] obtain ps t' where t': "mtrie_rm_helper t pipe buff uniq = Some
        ((if told pipe uniq (payload t) then [buff] else []) @ map ((@) buff) ps, t')"
    "distinct ps" "set ps = {e # p | e p. \<exists>q. child t e = Some q \<and> told pipe uniq (pl q p)}"
    "shape t'" "payload t' = rm_val pipe (payload t)" "\<And>c. slot_rm pipe (child t c) (child t' c)"
    by (elim exE conjE) (rule that, auto)
  have "node_wf (\<lambda>r. r \<noteq> None) t'"
    by (rule node_wfI [OF t'(4)]) (use t'(6) in \<open>simp add: slot_rm_def\<close>)
  moreover have "pl t' = (\<lambda>p. rm_val pipe (pl t p))"
    by (rule pay_map_children [where f = "rm_val pipe"])
      (use t'(5,6) in \<open>simp_all add: slot_rm_def\<close>)
  moreover have "set (?here @ ps) = {p. told pipe uniq (pl t p)}"
    unfolding pay_set_Cons [of "told pipe uniq" None t, OF told_None] using t'(3) by auto
  moreover have "distinct (?here @ ps)" using t'(2,3) by auto
  ultimately show "\<exists>ps t'. mtrie_rm_helper t pipe buff uniq = Some (map ((@) buff) ps, t') \<and>
     node_wf (\<lambda>r. r \<noteq> None) t' \<and> pl t' = (\<lambda>p. rm_val pipe (pl t p)) \<and>
     distinct ps \<and> set ps = {p. told pipe uniq (pl t p)}"
    using t'(1) by (intro exI [of _ "?here @ ps"] exI [of _ t'] conjI) auto
qed

lemma mtrie_rm_helper_ok: "node_wf (\<lambda>r. r \<noteq> None) t \<Longrightarrow> rm_spec pipe uniq t"
proof (induction rule: node_wf.induct)
  case (node_wfI t)
  have sub: "rm_spec pipe uniq q" if "child t c = Some q" for c q using node_wfI.IH that by blast
  consider "ncount t = 0" | "ncount t = 1" | "ncount t \<noteq> 0" "ncount t \<noteq> 1" by blast
  then show ?case
  proof cases
    case 1
    obtain r m n l nx where t: "t = TN r m n l nx" by (cases t)
    then have none: "child t c = None" "child (TN r' m n l nx) c = None" for c r'
      using 1 by simp_all
    have "shape (TN (rm_val pipe r) m n l nx)"
      using node_wfI.hyps unfolding t by (auto simp: shape_def)
    then show ?thesis
      using 1 none
      by (intro rm_spec_assemble exI [of _ "[]"] exI [of _ "TN (rm_val pipe r) m n l nx"])
        (simp add: t mtrie_rm_helper.simps rm_here_eq slot_rm_None)
  next
    case 2
    from shape_single [OF node_wfI.hyps 2] obtain m s where
      t: "t = TN (payload t) m 1 1 (Node s)" "rep t (payload t) m [s]" "s \<noteq> None" .
    from t(3) obtain q where s: "s = Some q" by auto
    have child: "child t d = (if d = m then Some q else None)" for d
    proof -
      have "unat d = unat m \<longleftrightarrow> d = m" by (rule unat_byte_eq_iff)
      then show ?thesis
        unfolding rep_child [OF t(2)] s slot_of_def out_of_range_def by fastforce
    qed
    then have "child t m = Some q" by simp
    then have q: "rm_spec pipe uniq q" by (rule sub)
    show ?thesis
    proof (rule rm_spec_assemble)
      fix buff
      from q obtain qs q' where q': "mtrie_rm_helper q pipe (buff @ [m]) uniq =
          Some (map ((@) (buff @ [m])) qs, q')" "node_wf (\<lambda>r. r \<noteq> None) q'"
        "pl q' = (\<lambda>p. rm_val pipe (pl q p))" "distinct qs"
        "set qs = {p. told pipe uniq (pl q p)}" unfolding rm_spec_def by blast
      define t' where "t' = (if mtrie_redundant q' then TN (rm_val pipe (payload t)) m 0 0 (Node None)
        else TN (rm_val pipe (payload t)) m 1 1 (Node (Some q')))"
      have "mtrie_rm_helper t pipe buff uniq = Some
          ((if told pipe uniq (payload t) then [buff] else []) @ map ((@) buff) (map ((#) m) qs), t')"
        by (subst t(1)) (simp add: mtrie_rm_helper.simps [of "payload t"] rm_here_eq s q'(1) t'_def comp_def)
      moreover have "shape t'" unfolding t'_def
        using shapeI [of "TN (rm_val pipe (payload t)) m 1 1 (Node (Some q'))" _ m "[Some q']"]
        by (simp add: shape_fresh tight_def Suc_le_eq)
      moreover have "child t' d = (if d = m \<and> \<not> mtrie_redundant q' then Some q' else None)" for d
      proof -
        have "unat d = unat m \<longleftrightarrow> d = m" by (rule unat_byte_eq_iff)
        then show ?thesis by (auto simp: t'_def out_of_range_def)
      qed
      then have "slot_rm pipe (child t d) (child t' d)" for d
        using slot_rm_node [OF q'(2,3)] slot_rm_None [of pipe]
        by (cases "mtrie_redundant q'") (simp_all add: child)
      moreover have "distinct (map ((#) m) qs)" using q'(4) by (simp add: distinct_map)
      moreover have "set (map ((#) m) qs) =
          {e # p | e p. \<exists>q. child t e = Some q \<and> told pipe uniq (pl q p)}"
        unfolding child using q'(5) by auto
      ultimately show "\<exists>ps t'. mtrie_rm_helper t pipe buff uniq = Some
          ((if told pipe uniq (payload t) then [buff] else []) @ map ((@) buff) ps, t') \<and>
        distinct ps \<and> set ps = {e # p | e p. \<exists>q. child t e = Some q \<and> told pipe uniq (pl q p)} \<and>
        shape t' \<and> payload t' = rm_val pipe (payload t) \<and>
        (\<forall>c. slot_rm pipe (child t c) (child t' c))"
        by (intro exI [of _ "map ((#) m) qs"] exI [of _ t'] conjI allI) (simp_all add: t'_def)
    qed
  next
    case 3
    from shape_multi [OF node_wfI.hyps 3(2,1)] obtain m ss where
      t: "t = TN (payload t) m (length ss) (live_count ss) (Table ss)" "rep t (payload t) m ss"
      and len: "2 \<le> length ss" and bound: "unat m + length ss \<le> 256" .
    have child: "child t d = Some q \<longleftrightarrow> (\<exists>j<length ss. d = m + of_nat j \<and> ss ! j = Some q)" for d q
      unfolding rep_child [OF t(2)] by (rule slot_of_Some [OF bound])
    have specs: "rm_spec pipe uniq q" if "Some q \<in> set ss" for q
      using that sub child by (metis in_set_conv_nth)
    have live: "live_count ss < 65536" using live_count_le [of ss] bound by linarith
    note tab = mtrie_rm_table_ok [of ss pipe uniq 0 "length ss" m "live_count ss",
        OF specs _ bound order_refl live, simplified]
    show ?thesis
    proof (rule rm_spec_assemble)
      fix buff
      from tab [of buff "m + of_nat (length ss - 1)" m] obtain ps ts l nm nx where
        ps: "mtrie_rm_table ss pipe buff uniq m 0 (length ss) (live_count ss)
            (m + of_nat (length ss - 1)) m = Some (map ((@) buff) ps, ts, l, nm, nx)"
          "list_all2 (slot_rm pipe) ss ts" "l = live_count ts"
          "min_after m 0 ts (m + of_nat (length ss - 1)) nm" "max_after m 0 ts m nx" "distinct ps"
          "set ps = {d # p | d p. \<exists>q. \<exists>j<length ss. d = m + of_nat j \<and> ss ! j = Some q \<and>
            told pipe uniq (pl q p)}"
        by (elim exE conjE) (rule that, assumption, assumption, rule refl, assumption+)
      have lts: "length ts = length ss" using ps(2) by (simp add: list_all2_lengthD)
      from mtrie_compact_ok [OF lts len bound ps(4,5), of "rm_val pipe (payload t)"] obtain t' where
        t': "mtrie_compact (rm_val pipe (payload t)) m (length ss) (live_count ts) ts nm nx = Some t'"
          "shape t'" "payload t' = rm_val pipe (payload t)" "child t' = slot_of m ts"
        by blast
      have n: "length ss \<noteq> 0" "length ss \<noteq> 1" using len by auto
      have "mtrie_rm_helper t pipe buff uniq = Some
          ((if told pipe uniq (payload t) then [buff] else []) @ map ((@) buff) ps, t')"
        by (subst t(1)) (simp only: mtrie_rm_helper.simps [of "payload t"] rm_here_eq n if_False
          link.case ps(1) Let_def prod.case bind.bind_lunit ps(3) t'(1))
      moreover have "slot_rm pipe (child t d) (child t' d)" for d
        unfolding rep_child [OF t(2)] t'(4) slot_of_def lts
        using list_all2_nthD [OF ps(2), of "unat d - unat m"]
        by (auto simp: slot_rm_None out_of_range_def)
      moreover have "set ps = {e # p | e p. \<exists>q. child t e = Some q \<and> told pipe uniq (pl q p)}"
        unfolding child ps(7) by auto
      ultimately show "\<exists>ps t'. mtrie_rm_helper t pipe buff uniq = Some
          ((if told pipe uniq (payload t) then [buff] else []) @ map ((@) buff) ps, t') \<and>
        distinct ps \<and> set ps = {e # p | e p. \<exists>q. child t e = Some q \<and> told pipe uniq (pl q p)} \<and>
        shape t' \<and> payload t' = rm_val pipe (payload t) \<and>
        (\<forall>c. slot_rm pipe (child t c) (child t' c))"
        using ps(6) t'(2,3) by (intro exI [of _ ps] exI [of _ t'] conjI allI)
    qed
  qed
qed

lemma mtrie_rm_ok:
  assumes "mtrie_wf t"
  shows "\<exists>calls t'. mtrie_rm t pipe uniq = Some (calls, t') \<and> mtrie_wf t' \<and>
    subs t' = (\<lambda>p. subs t p - {pipe}) \<and> distinct calls \<and>
    set calls = {p. pipe \<in> subs t p \<and> (uniq \<longrightarrow> subs t p = {pipe})}"
proof -
  have eq: "((@) ([] :: byte list)) = (\<lambda>p. p)" by auto
  from mtrie_rm_helper_ok [OF mtrie_wf_node [OF assms], of pipe uniq, unfolded rm_spec_def]
  obtain ps t' where t': "mtrie_rm_helper t pipe [] uniq = Some (map ((@) []) ps, t')"
    "node_wf (\<lambda>r. r \<noteq> None) t'" "pl t' = (\<lambda>p. rm_val pipe (pl t p))" "distinct ps"
    "set ps = {p. told pipe uniq (pl t p)}" by blast
  have "s - {pipe} = {} \<longleftrightarrow> s = {} \<or> s = {pipe}" for s :: "pid set" by auto
  then have "mtrie_wf t'"
    using assms t'(2) unfolding mtrie_wf_def t'(3)
    by (auto simp: rm_val_def split: option.splits if_splits)
  moreover have "subs t' = (\<lambda>p. subs t p - {pipe})"
    by (rule ext) (auto simp: subs_def t'(3) rm_val_def split: option.split)
  moreover have "told pipe uniq (pl t p) \<longleftrightarrow> pipe \<in> subs t p \<and> (uniq \<longrightarrow> subs t p = {pipe})" for p
    by (auto simp: told_def subs_def split: option.split)
  ultimately show ?thesis using t' by (auto simp: mtrie_rm_def eq)
qed

subsection \<open>Histories of subscriptions\<close>

datatype msub_op = Join pid | Leave pid

fun mtrie_step :: "mtrie \<Rightarrow> byte list \<Rightarrow> msub_op \<Rightarrow> (bool \<times> mtrie) option" where
  "mtrie_step t p (Join pipe) = mtrie_add t p pipe"
| "mtrie_step t p (Leave pipe) = mtrie_rm_prefix t p pipe"

definition msub_ok :: "msub_op \<Rightarrow> pid set \<Rightarrow> bool" where
  "msub_ok op v = (case op of Join pipe \<Rightarrow> True | Leave pipe \<Rightarrow> pipe \<in> v)"

definition msub_res :: "msub_op \<Rightarrow> pid set \<Rightarrow> bool" where
  "msub_res op v = (case op of Join pipe \<Rightarrow> v = {} | Leave pipe \<Rightarrow> v = {pipe})"

definition msub_app :: "msub_op \<Rightarrow> pid set \<Rightarrow> pid set" where
  "msub_app op v = (case op of Join pipe \<Rightarrow> insert pipe v | Leave pipe \<Rightarrow> v - {pipe})"

lemma mtrie_step_ok:
  assumes "mtrie_wf t" "msub_ok op (subs t p)"
  shows "\<exists>t'. mtrie_step t p op = Some (msub_res op (subs t p), t') \<and> mtrie_wf t' \<and>
    subs t' = (subs t)(p := msub_app op (subs t p))"
  using mtrie_add_ok [OF assms(1)] mtrie_rm_prefix_ok [OF assms(1)] assms(2)
  by (cases op) (simp_all add: msub_ok_def msub_res_def msub_app_def)

interpretation mtrie_store: keyed_store mtrie_step mtrie_wf subs msub_ok msub_res msub_app
  by unfold_locales (rule mtrie_step_ok)

text \<open>Every \<open>Leave\<close> is that of a pipe that is subscribed to the prefix by then.\<close>

primrec leaves_ok :: "pid set \<Rightarrow> msub_op list \<Rightarrow> bool" where
  "leaves_ok v [] \<longleftrightarrow> True"
| "leaves_ok v (op # ops) \<longleftrightarrow> msub_ok op v \<and> leaves_ok (msub_app op v) ops"

lemma msub_permitted:
  assumes "\<And>p. leaves_ok (f p) (ops_at p xs)"
  shows "mtrie_store.permitted xs f"
  using assms
proof (induction xs arbitrary: f)
  case (Cons x xs)
  have "leaves_ok (((f(fst x := msub_app (snd x) (f (fst x)))) p)) (ops_at p xs)" for p
    using Cons.prems [of p] by (simp split: if_splits)
  then have "mtrie_store.permitted xs (f(fst x := msub_app (snd x) (f (fst x))))"
    by (rule Cons.IH)
  moreover have "msub_ok (snd x) (f (fst x))" using Cons.prems [of "fst x"] by simp
  ultimately show ?case unfolding mtrie_store.permitted.simps by blast
qed simp

subsection \<open>Properties\<close>

declare mtrie_add_helper.simps [simp del] mtrie_rm_prefix_helper.simps [simp del]

text \<open>
  C2: Whatever sequence of subscriptions and unsubscriptions the peers of an XPUB socket
  send, each peer unsubscribing only from what it is subscribed to, no operation of the
  trie stops the process, and afterwards \<open>match\<close> signals, prefix by prefix of the message,
  exactly the pipes subscribed to that prefix.
\<close>

theorem mtrie_history_match:
  assumes "\<forall>p. leaves_ok {} (ops_at p xs)"
  shows "\<exists>rs t. run_ops mtrie_step xs new_mtrie = Some (rs, t) \<and>
    (\<forall>data. mtrie_match t data = Some (concat (map
      (\<lambda>k. sorted_list_of_set (val_after msub_app {} (ops_at (take k data) xs)))
      [0..<Suc (length data)])))"
proof -
  have "mtrie_store.permitted xs (subs new_mtrie)"
    by (rule msub_permitted) (use assms in simp)
  from mtrie_store.run_refines [OF mtrie_wf_new this] obtain rs t where
    t: "run_ops mtrie_step xs new_mtrie = Some (rs, t)" "mtrie_wf t"
      "subs t = (\<lambda>p. val_after msub_app {} (ops_at p xs))" by auto
  with mtrie_match_ok [OF t(2)] show ?thesis by simp
qed

theorem mtrie_history_match_witness:
  "\<exists>rs t. run_ops mtrie_step [([1], Join 4), ([1], Join 5), ([], Join 6), ([1], Leave 4)] new_mtrie = Some (rs, t) \<and>
    mtrie_match t [1] = Some [6, 5]"
proof -
  let ?xs = "[([1], Join 4), ([1], Join 5), ([], Join 6), ([1], Leave 4)] :: (byte list \<times> msub_op) list"
  have "leaves_ok {} (ops_at p ?xs)" for p by (simp add: msub_ok_def msub_app_def)
  then have "\<forall>p. leaves_ok {} (ops_at p ?xs)" by blast
  from mtrie_history_match [OF this] obtain rs t where
    t: "run_ops mtrie_step ?xs new_mtrie = Some (rs, t)" and
    m: "mtrie_match t [1] = Some (concat (map
      (\<lambda>k. sorted_list_of_set (val_after msub_app {} (ops_at (take k [1]) ?xs))) [0..<Suc (length [1 :: byte])]))"
    by (elim exE conjE) (rule that, assumption, erule spec)
  have "val_after msub_app {} (ops_at [1] ?xs) = {5}" "val_after msub_app {} (ops_at [] ?xs) = {6}"
    by (auto simp: msub_app_def)
  then have "mtrie_match t [1] = Some [6, 5]"
    unfolding m by (simp only: concat_upt_Suc) simp
  with t show ?thesis by blast
qed

text \<open>
  C3: \<open>mtrie_t::rm (pipe, func, arg, call_on_uniq)\<close> takes the pipe out of every
  subscription, fails none of its assertions while it prunes and compacts the tables, and
  calls the callback once for each prefix the pipe was subscribed to (only for those where
  it was the last subscriber when \<open>call_on_uniq\<close> is set), with the bytes of the prefix.
\<close>

theorem mtrie_rm_correct:
  assumes "mtrie_wf t"
  shows "\<exists>calls t'. mtrie_rm t pipe call_on_uniq = Some (calls, t') \<and> mtrie_wf t' \<and>
    subs t' = (\<lambda>p. subs t p - {pipe}) \<and> distinct calls \<and>
    set calls = {p. pipe \<in> subs t p \<and> (call_on_uniq \<longrightarrow> subs t p = {pipe})}"
  using assms by (rule mtrie_rm_ok)

theorem mtrie_rm_correct_witness:
  "\<exists>t calls t'. mtrie_add new_mtrie [8] 3 = Some (True, t) \<and>
     mtrie_rm t 3 True = Some (calls, t') \<and> set calls = {[8]} \<and> subs t' [8] = {}"
proof -
  from mtrie_add_ok [OF mtrie_wf_new, of "[8]" 3] obtain t where
    t: "mtrie_add new_mtrie [8] 3 = Some (True, t)" "mtrie_wf t" "subs t = (\<lambda>_. {})([8] := {3})"
    by auto
  from mtrie_rm_correct [OF t(2), of 3 True] obtain calls t' where
    c: "mtrie_rm t 3 True = Some (calls, t')" "subs t' = (\<lambda>p. subs t p - {3})"
    "set calls = {p. 3 \<in> subs t p \<and> (True \<longrightarrow> subs t p = {3})}"
    by (elim exE conjE) (rule that)
  have "set calls = {[8]}" unfolding c(3) t(3) by auto
  moreover have "subs t' [8] = {}" unfolding c(2) t(3) by simp
  ultimately show ?thesis using t(1) c(1) by (intro exI [of _ t] exI [of _ calls] exI [of _ t']) simp
qed

text \<open>
  \<open>mtrie_t::rm (prefix, size, pipe)\<close> for a subscribed pipe removes that subscription
  only and answers whether it was the last one of the prefix.
\<close>

theorem mtrie_rm_prefix_correct:
  assumes "mtrie_wf t" "pipe \<in> subs t p"
  shows "\<exists>t'. mtrie_rm_prefix t p pipe = Some (subs t p = {pipe}, t') \<and> mtrie_wf t' \<and>
    subs t' = (subs t)(p := subs t p - {pipe})"
  using assms by (rule mtrie_rm_prefix_ok)

theorem mtrie_rm_prefix_correct_witness:
  "\<exists>t t'. mtrie_add new_mtrie [8] 3 = Some (True, t) \<and> mtrie_rm_prefix t [8] 3 = Some (True, t')"
proof -
  from mtrie_add_ok [OF mtrie_wf_new, of "[8]" 3] obtain t where
    t: "mtrie_add new_mtrie [8] 3 = Some (True, t)" "mtrie_wf t" "subs t [8] = {3}" by auto
  with mtrie_rm_prefix_correct [OF t(2), of 3 "[8]"] show ?thesis by auto
qed

text \<open>
  The unsubscription of a prefix that other pipes but not the given one subscribe to
  stops the process: \<open>zmq_assert (erased == 1)\<close> fails.
\<close>

theorem mtrie_rm_prefix_aborts:
  assumes "mtrie_wf t" "pipe \<notin> subs t p" "subs t p \<noteq> {}"
  shows "mtrie_rm_prefix t p pipe = None"
  using assms by (rule mtrie_rm_prefix_foreign)

theorem mtrie_rm_prefix_aborts_witness:
  "\<exists>t. mtrie_add new_mtrie [8] 3 = Some (True, t) \<and> mtrie_rm_prefix t [8] 4 = None"
proof -
  from mtrie_add_ok [OF mtrie_wf_new, of "[8]" 3] obtain t where
    t: "mtrie_add new_mtrie [8] 3 = Some (True, t)" "mtrie_wf t" "subs t [8] = {3}" by auto
  with mtrie_rm_prefix_aborts [OF t(2), of 4 "[8]"] show ?thesis by auto
qed

end
