(* ===== verification/Message.thy ===== *)
theory Message
  imports Prelude "HOL-Library.Multiset"
begin

unbundle bit_operations_syntax

text \<open>
  \<open>msg_t\<close> of \<open>src/zmqsrc/src/msg.cpp\<close>. Messages live in slots (C++ variables of type
  \<open>msg_t\<close>, addressed by their index), large contents and metadata objects in a store with
  their reference counts; \<open>calls\<close> logs the calls of user deallocation functions. A message
  is a union: reading the content pointer of a message whose body is something else, or one
  that is null or dangling, is a fault.

  The invariant counts: the reference count of every content is the number of slots that
  refer to it, plus the references \<open>owed\<close> that \<open>add_refs\<close> reserved for plain copies to
  come; a message without the \<open>shared\<close> flag is the only one. So no operation leaks a
  content, frees it twice, or leaves a slot that refers to freed memory.
\<close>

abbreviation type_vsm :: byte where "type_vsm \<equiv> 101"
abbreviation type_lmsg :: byte where "type_lmsg \<equiv> 102"
abbreviation type_delimiter :: byte where "type_delimiter \<equiv> 103"
abbreviation type_cmsg :: byte where "type_cmsg \<equiv> 104"
abbreviation type_zclmsg :: byte where "type_zclmsg \<equiv> 105"
abbreviation type_join :: byte where "type_join \<equiv> 106"
abbreviation type_leave :: byte where "type_leave \<equiv> 107"

abbreviation more_flag :: byte where "more_flag \<equiv> 1"
abbreviation command_flag :: byte where "command_flag \<equiv> 2"
abbreviation credential_flag :: byte where "credential_flag \<equiv> 32"
abbreviation identity_flag :: byte where "identity_flag \<equiv> 64"
abbreviation shared_flag :: byte where "shared_flag \<equiv> 128"

text \<open>\<open>max_vsm_size\<close> with 64-bit pointers: 64 - (8 + 3 + 16 + 4).\<close>

definition max_vsm_size :: nat where
  "max_vsm_size = 33"

text \<open>\<open>sizeof (content_t)\<close> with 64-bit pointers: four words and a padded counter.\<close>

definition content_size :: nat where
  "content_size = 40"

record content =
  cdata :: "byte list"
  ffn :: "nat option"
  hint :: nat
  refcnt :: u32

datatype body = Vsm "byte list" | Content "nat option" | Cdata "byte list" | NoData

record msg =
  mtype :: byte
  mflags :: byte
  mbody :: body
  metadata :: "nat option"
  mgroup :: "byte list"
  routing_id :: u32

record mem =
  slots :: "msg list"
  contents :: "nat \<rightharpoonup> content"
  metas :: "nat \<rightharpoonup> u32"
  calls :: "(nat \<times> byte list \<times> nat) list"

definition msg_check :: "msg \<Rightarrow> bool" where
  "msg_check m \<longleftrightarrow> 101 \<le> mtype m \<and> mtype m \<le> 107"

definition is_shared :: "msg \<Rightarrow> bool" where
  "is_shared m \<longleftrightarrow> mflags m AND shared_flag \<noteq> 0"

fun content_ptr :: "body \<Rightarrow> nat option" where
  "content_ptr (Content p) = p"
| "content_ptr _ = None"

subsection \<open>Initialisation\<close>

definition blank :: "byte \<Rightarrow> body \<Rightarrow> msg" where
  "blank t b = \<lparr>mtype = t, mflags = 0, mbody = b, metadata = None, mgroup = [], routing_id = 0\<rparr>"

definition put_slot :: "nat \<Rightarrow> msg \<Rightarrow> mem \<Rightarrow> mem option" where
  "put_slot i m s = do { ms \<leftarrow> table_set (slots s) i m; Some (s\<lparr>slots := ms\<rparr>) }"

definition msg_init :: "nat \<Rightarrow> mem \<Rightarrow> (int \<times> mem) option" where
  "msg_init i s = do { s \<leftarrow> put_slot i (blank type_vsm (Vsm [])) s; Some (0, s) }"

text \<open>
  \<open>init_size\<close>: \<open>raw\<close> is the indeterminate content of the new buffer (its length is the
  argument \<open>size_\<close>), \<open>a\<close> the result of \<open>malloc\<close>. The test before \<open>malloc\<close> is on 64-bit sizes.
\<close>

definition msg_init_size :: "byte list \<Rightarrow> nat option \<Rightarrow> nat \<Rightarrow> mem \<Rightarrow> (int \<times> mem) option" where
  "msg_init_size raw a i s =
     (if length raw \<le> max_vsm_size then do {
        s \<leftarrow> put_slot i (blank type_vsm (Vsm raw)) s; Some (0, s) }
      else let p = (if (content_size + length raw) mod 2 ^ 64 > length raw then a else None) in
        case p of
          None \<Rightarrow> do { s \<leftarrow> put_slot i (blank type_lmsg (Content None)) s; Some (-1, s) }
        | Some c \<Rightarrow> do {
            zmq_assert (contents s c = None);
            s \<leftarrow> put_slot i (blank type_lmsg (Content (Some c))) s;
            Some (0, s\<lparr>contents := (contents s)(c \<mapsto>
              \<lparr>cdata = raw, ffn = None, hint = 0, refcnt = 0\<rparr>)\<rparr>) })"

text \<open>\<open>c\<close> is the content structure inside the storage that the caller provides.\<close>

definition msg_init_external :: "nat option \<Rightarrow> byte list option \<Rightarrow> nat option \<Rightarrow> nat \<Rightarrow> nat \<Rightarrow> mem \<Rightarrow>
    (int \<times> mem) option" where
  "msg_init_external c data fn h i s = do {
     zmq_assert (data \<noteq> None);
     zmq_assert (c \<noteq> None);
     c \<leftarrow> c;
     data \<leftarrow> data;
     s \<leftarrow> put_slot i (blank type_zclmsg (Content (Some c))) s;
     Some (0, s\<lparr>contents := (contents s)(c \<mapsto>
       \<lparr>cdata = data, ffn = fn, hint = h, refcnt = 0\<rparr>)\<rparr>) }"

definition msg_init_data :: "byte list option \<Rightarrow> nat \<Rightarrow> nat option \<Rightarrow> nat \<Rightarrow> nat option \<Rightarrow> nat \<Rightarrow> mem \<Rightarrow>
    (int \<times> mem) option" where
  "msg_init_data data n fn h a i s = do {
     zmq_assert (data \<noteq> None \<or> n = 0);
     let bytes = (case data of None \<Rightarrow> [] | Some d \<Rightarrow> take n d);
     if fn = None then do {
       s \<leftarrow> put_slot i (blank type_cmsg (Cdata bytes)) s; Some (0, s) }
     else case a of
       None \<Rightarrow> do { s \<leftarrow> put_slot i (blank type_lmsg (Content None)) s; Some (-1, s) }
     | Some c \<Rightarrow> do {
         zmq_assert (contents s c = None);
         s \<leftarrow> put_slot i (blank type_lmsg (Content (Some c))) s;
         Some (0, s\<lparr>contents := (contents s)(c \<mapsto>
           \<lparr>cdata = bytes, ffn = fn, hint = h, refcnt = 0\<rparr>)\<rparr>) } }"

text \<open>The five-argument \<open>init\<close>: small messages are copied, others refer to the data.\<close>

definition msg_init_any :: "byte list \<Rightarrow> nat option \<Rightarrow> nat \<Rightarrow> nat option \<Rightarrow> nat option \<Rightarrow> nat \<Rightarrow> mem \<Rightarrow>
    (int \<times> mem) option" where
  "msg_init_any data fn h c a i s =
     (if length data < max_vsm_size then msg_init_size data a i s
      else if c \<noteq> None then msg_init_external c (Some data) fn h i s
      else msg_init_data (Some data) (length data) fn h a i s)"

definition msg_init_delimiter :: "nat \<Rightarrow> mem \<Rightarrow> (int \<times> mem) option" where
  "msg_init_delimiter i s = do { s \<leftarrow> put_slot i (blank type_delimiter NoData) s; Some (0, s) }"

definition msg_init_join :: "nat \<Rightarrow> mem \<Rightarrow> (int \<times> mem) option" where
  "msg_init_join i s = do { s \<leftarrow> put_slot i (blank type_join NoData) s; Some (0, s) }"

definition msg_init_leave :: "nat \<Rightarrow> mem \<Rightarrow> (int \<times> mem) option" where
  "msg_init_leave i s = do { s \<leftarrow> put_slot i (blank type_leave NoData) s; Some (0, s) }"

subsection \<open>Close, move and copy\<close>

text \<open>
  Deallocating a content: the user function is called if there is one. An external content
  (zero-copy message) goes back to its storage by that call.
\<close>

definition release :: "nat \<Rightarrow> content \<Rightarrow> mem \<Rightarrow> mem" where
  "release a c s = s\<lparr>contents := (contents s)(a := None),
     calls := calls s @ (case ffn c of None \<Rightarrow> [] | Some f \<Rightarrow> [(f, cdata c, hint c)])\<rparr>"

text \<open>Lines 224 to 258: \<open>n\<close> references to the content of \<open>m\<close> go; the last one releases it.\<close>

definition drop_content :: "msg \<Rightarrow> mem \<Rightarrow> mem option" where
  "drop_content m s =
     (if mtype m = type_lmsg \<or> mtype m = type_zclmsg then do {
        a \<leftarrow> content_ptr (mbody m);
        c \<leftarrow> contents s a;
        zmq_assert (mtype m = type_zclmsg \<longrightarrow> ffn c \<noteq> None);
        if \<not> is_shared m then Some (release a c s)
        else let n = refcnt c - 1 in
          if n = 0 then Some (release a c s)
          else Some (s\<lparr>contents := (contents s)(a \<mapsto> c\<lparr>refcnt := n\<rparr>)\<rparr>) }
      else Some s)"

text \<open>\<open>metadata_t::add_ref\<close>, and \<open>drop_ref\<close> with the deletion at zero.\<close>

definition meta_add_ref :: "nat \<Rightarrow> mem \<Rightarrow> mem option" where
  "meta_add_ref a s = do { k \<leftarrow> metas s a; Some (s\<lparr>metas := (metas s)(a \<mapsto> k + 1)\<rparr>) }"

definition meta_drop_ref :: "nat \<Rightarrow> mem \<Rightarrow> mem option" where
  "meta_drop_ref a s = do {
     k \<leftarrow> metas s a;
     Some (s\<lparr>metas := (metas s)(a := if k - 1 = 0 then None else Some (k - 1))\<rparr>) }"

definition drop_meta :: "msg \<Rightarrow> mem \<Rightarrow> mem option" where
  "drop_meta m s = (case metadata m of None \<Rightarrow> Some s | Some a \<Rightarrow> meta_drop_ref a s)"

definition msg_close :: "nat \<Rightarrow> mem \<Rightarrow> (int \<times> mem) option" where
  "msg_close i s = do {
     m \<leftarrow> table_at (slots s) i;
     if \<not> msg_check m then Some (-1, s)
     else do {
       s \<leftarrow> drop_content m s;
       s \<leftarrow> drop_meta m s;
       s \<leftarrow> put_slot i (m\<lparr>metadata := None, mtype := 0\<rparr>) s;
       Some (0, s) } }"

definition msg_move :: "nat \<Rightarrow> nat \<Rightarrow> mem \<Rightarrow> (int \<times> mem) option" where
  "msg_move i j s = do {
     src \<leftarrow> table_at (slots s) j;
     if \<not> msg_check src then Some (-1, s)
     else do {
       (rc, s) \<leftarrow> msg_close i s;
       if rc < 0 then Some (rc, s)
       else do {
         src \<leftarrow> table_at (slots s) j;
         s \<leftarrow> put_slot i src s;
         msg_init j s } } }"

text \<open>Lines 306 to 328: one more reference to the content of the source in slot \<open>j\<close>.\<close>

definition share_content :: "nat \<Rightarrow> mem \<Rightarrow> mem option" where
  "share_content j s = do {
     m \<leftarrow> table_at (slots s) j;
     if mtype m = type_lmsg \<or> mtype m = type_zclmsg then do {
       a \<leftarrow> content_ptr (mbody m);
       c \<leftarrow> contents s a;
       if is_shared m then Some (s\<lparr>contents := (contents s)(a \<mapsto> c\<lparr>refcnt := refcnt c + 1\<rparr>)\<rparr>)
       else do {
         s \<leftarrow> put_slot j (m\<lparr>mflags := mflags m OR shared_flag\<rparr>) s;
         Some (s\<lparr>contents := (contents s)(a \<mapsto> c\<lparr>refcnt := 2\<rparr>)\<rparr>) } }
     else Some s }"

definition msg_copy :: "nat \<Rightarrow> nat \<Rightarrow> mem \<Rightarrow> (int \<times> mem) option" where
  "msg_copy i j s = do {
     src \<leftarrow> table_at (slots s) j;
     if \<not> msg_check src then Some (-1, s)
     else do {
       (rc, s) \<leftarrow> msg_close i s;
       if rc < 0 then Some (rc, s)
       else do {
         s \<leftarrow> share_content j s;
         src \<leftarrow> table_at (slots s) j;
         s \<leftarrow> (case metadata src of None \<Rightarrow> Some s | Some a \<Rightarrow> meta_add_ref a s);
         s \<leftarrow> put_slot i src s;
         Some (0, s) } } }"

subsection \<open>Accessors\<close>

definition msg_data :: "msg \<Rightarrow> mem \<Rightarrow> byte list option" where
  "msg_data m s = do {
     zmq_assert (msg_check m);
     case mbody m of
       Vsm d \<Rightarrow> if mtype m = type_vsm then Some d else None
     | Content p \<Rightarrow> if mtype m = type_lmsg \<or> mtype m = type_zclmsg then do {
         a \<leftarrow> p; c \<leftarrow> contents s a; Some (cdata c) } else None
     | Cdata d \<Rightarrow> if mtype m = type_cmsg then Some d else None
     | NoData \<Rightarrow> None }"

definition msg_size :: "msg \<Rightarrow> mem \<Rightarrow> nat option" where
  "msg_size m s = map_option length (msg_data m s)"

definition set_flags :: "byte \<Rightarrow> msg \<Rightarrow> msg" where
  "set_flags f m = m\<lparr>mflags := mflags m OR f\<rparr>"

definition reset_flags :: "byte \<Rightarrow> msg \<Rightarrow> msg" where
  "reset_flags f m = m\<lparr>mflags := mflags m AND NOT f\<rparr>"

definition msg_set_metadata :: "nat \<Rightarrow> nat \<Rightarrow> mem \<Rightarrow> mem option" where
  "msg_set_metadata a i s = do {
     m \<leftarrow> table_at (slots s) i;
     zmq_assert (metadata m = None);
     s \<leftarrow> meta_add_ref a s;
     put_slot i (m\<lparr>metadata := Some a\<rparr>) s }"

definition msg_reset_metadata :: "nat \<Rightarrow> mem \<Rightarrow> mem option" where
  "msg_reset_metadata i s = do {
     m \<leftarrow> table_at (slots s) i;
     s \<leftarrow> drop_meta m s;
     put_slot i (m\<lparr>metadata := None\<rparr>) s }"

definition is_identity :: "msg \<Rightarrow> bool" where
  "is_identity m \<longleftrightarrow> mflags m AND identity_flag = identity_flag"

definition is_credential :: "msg \<Rightarrow> bool" where
  "is_credential m \<longleftrightarrow> mflags m AND credential_flag = credential_flag"

definition is_delimiter :: "msg \<Rightarrow> bool" where
  "is_delimiter m \<longleftrightarrow> mtype m = type_delimiter"

definition set_routing_id :: "u32 \<Rightarrow> msg \<Rightarrow> int \<times> msg" where
  "set_routing_id r m = (if r \<noteq> 0 then (0, m\<lparr>routing_id := r\<rparr>) else (-1, m))"

definition set_group :: "byte list \<Rightarrow> msg \<Rightarrow> int \<times> msg" where
  "set_group g m = (if length g > 15 then (-1, m) else (0, m\<lparr>mgroup := g\<rparr>))"

subsection \<open>Reserved references\<close>

definition msg_add_refs :: "int \<Rightarrow> nat \<Rightarrow> mem \<Rightarrow> mem option" where
  "msg_add_refs refs i s = do {
     m \<leftarrow> table_at (slots s) i;
     zmq_assert (refs \<ge> 0);
     zmq_assert (metadata m = None);
     if refs = 0 then Some s
     else if mtype m = type_lmsg \<or> mtype m = type_zclmsg then do {
       a \<leftarrow> content_ptr (mbody m);
       c \<leftarrow> contents s a;
       if is_shared m
       then Some (s\<lparr>contents := (contents s)(a \<mapsto> c\<lparr>refcnt := refcnt c + of_int refs\<rparr>)\<rparr>)
       else put_slot i (m\<lparr>mflags := mflags m OR shared_flag\<rparr>)
         (s\<lparr>contents := (contents s)(a \<mapsto> c\<lparr>refcnt := of_int refs + 1\<rparr>)\<rparr>) }
     else Some s }"

definition msg_rm_refs :: "int \<Rightarrow> nat \<Rightarrow> mem \<Rightarrow> (bool \<times> mem) option" where
  "msg_rm_refs refs i s = do {
     m \<leftarrow> table_at (slots s) i;
     zmq_assert (refs \<ge> 0);
     zmq_assert (metadata m = None);
     if refs = 0 then Some (True, s)
     else if (mtype m \<noteq> type_zclmsg \<and> mtype m \<noteq> type_lmsg) \<or> \<not> is_shared m then do {
       (_, s) \<leftarrow> msg_close i s;
       Some (False, s) }
     else do {
       a \<leftarrow> content_ptr (mbody m);
       c \<leftarrow> contents s a;
       let n = refcnt c - of_int refs;
       if n = 0 then Some (False, release a c s)
       else Some (True, s\<lparr>contents := (contents s)(a \<mapsto> c\<lparr>refcnt := n\<rparr>)\<rparr>) } }"

subsection \<open>The invariant\<close>

definition has_content :: "msg \<Rightarrow> bool" where
  "has_content m \<longleftrightarrow> mtype m = type_lmsg \<or> mtype m = type_zclmsg"

definition refers :: "nat \<Rightarrow> msg \<Rightarrow> bool" where
  "refers a m \<longleftrightarrow> has_content m \<and> mbody m = Content (Some a)"

definition msg_wf :: "msg \<Rightarrow> bool" where
  "msg_wf m \<longleftrightarrow> (has_content m \<longrightarrow> (\<exists>a. mbody m = Content (Some a)))"

definition meta_refers :: "nat \<Rightarrow> msg \<Rightarrow> bool" where
  "meta_refers a m \<longleftrightarrow> msg_check m \<and> metadata m = Some a"

text \<open>A content, the messages \<open>R\<close> that refer to it, and \<open>k\<close> reserved references.\<close>

definition cont_ok :: "msg multiset \<Rightarrow> nat \<Rightarrow> content option \<Rightarrow> bool" where
  "cont_ok R k x = (case x of
     None \<Rightarrow> R = {#} \<and> k = 0
   | Some c \<Rightarrow> 1 \<le> size R + k \<and> size R + k < 2 ^ 32 \<and>
       ((\<exists>m \<in># R. \<not> is_shared m) \<longrightarrow> size R + k = 1) \<and>
       ((\<forall>m \<in># R. is_shared m) \<longrightarrow> refcnt c = of_nat (size R + k)) \<and>
       ((\<exists>m \<in># R. mtype m = type_zclmsg) \<longrightarrow> ffn c \<noteq> None))"

definition meta_ok :: "nat \<Rightarrow> u32 option \<Rightarrow> bool" where
  "meta_ok n x = (case x of None \<Rightarrow> n = 0 | Some k \<Rightarrow> 1 \<le> n \<and> n < 2 ^ 32 \<and> k = of_nat n)"

definition held :: "nat \<Rightarrow> msg list \<Rightarrow> msg multiset" where
  "held a ms = filter_mset (refers a) (mset ms)"

definition meta_held :: "nat \<Rightarrow> msg list \<Rightarrow> nat" where
  "meta_held a ms = size (filter_mset (meta_refers a) (mset ms))"

text \<open>\<open>ext\<close> counts the references to metadata that the engines hold.\<close>

definition mem_inv :: "mem \<Rightarrow> (nat \<Rightarrow> nat) \<Rightarrow> (nat \<Rightarrow> nat) \<Rightarrow> bool" where
  "mem_inv s owed ext \<longleftrightarrow> (\<forall>m \<in> set (slots s). msg_wf m) \<and>
     (\<forall>a. cont_ok (held a (slots s)) (owed a) (contents s a)) \<and>
     (\<forall>a. meta_ok (meta_held a (slots s) + ext a) (metas s a))"

lemma filter_mset_update:
  assumes "i < length xs"
  shows "filter_mset P (mset (xs[i := x])) + (if P (xs ! i) then {#xs ! i#} else {#}) =
    filter_mset P (mset xs) + (if P x then {#x#} else {#})"
  using assms
proof (induction xs arbitrary: i)
  case (Cons y ys)
  show ?case
  proof (cases i)
    case 0
    then show ?thesis by simp
  next
    case (Suc k)
    with Cons have "filter_mset P (mset (ys[k := x])) + (if P (ys ! k) then {#ys ! k#} else {#}) =
        filter_mset P (mset ys) + (if P x then {#x#} else {#})" by simp
    then show ?thesis using Suc by (cases "P y") (simp_all add: add_mset_commute split: if_splits)
  qed
qed simp

lemma held_update:
  assumes "i < length ms"
  shows "held a (ms[i := m]) + (if refers a (ms ! i) then {#ms ! i#} else {#}) =
    held a ms + (if refers a m then {#m#} else {#})"
  unfolding held_def by (rule filter_mset_update [OF assms])

lemma meta_held_update:
  assumes "i < length ms"
  shows "meta_held a (ms[i := m]) + (if meta_refers a (ms ! i) then 1 else 0) =
    meta_held a ms + (if meta_refers a m then 1 else 0)"
  using arg_cong [OF filter_mset_update [OF assms, of "meta_refers a" m], of size]
  by (simp add: meta_held_def split: if_splits)

lemma held_size: "size (held a ms) \<le> length ms"
  unfolding held_def by (metis size_filter_mset_lesseq size_mset)

lemma meta_held_size: "meta_held a ms \<le> length ms"
  unfolding meta_held_def by (metis size_filter_mset_lesseq size_mset)

lemma held_mem: "m \<in># held a ms \<longleftrightarrow> m \<in> set ms \<and> refers a m"
  by (auto simp: held_def)

lemma of_nat_minus_1: "1 \<le> n \<Longrightarrow> (of_nat n :: u32) - 1 = of_nat (n - 1)"
  by (simp add: of_nat_diff)

lemma of_nat_0_u32: "n < 2 ^ 32 \<Longrightarrow> (of_nat n :: u32) = 0 \<longleftrightarrow> n = 0"
  by (auto simp: word_of_nat_eq_0_iff dest: dvd_imp_le)

text \<open>One reference to a content goes, or comes.\<close>

lemma cont_drop:
  assumes "cont_ok (add_mset m R) k (Some c)" "is_shared m"
  shows "refcnt c - 1 = 0 \<longleftrightarrow> size R + k = 0"
    "size R + k \<noteq> 0 \<Longrightarrow> cont_ok R k (Some (c\<lparr>refcnt := refcnt c - 1\<rparr>))"
proof -
  let ?n = "size (add_mset m R) + k"
  have sh: "\<forall>x \<in># add_mset m R. is_shared x"
  proof (rule ccontr)
    assume no: "\<not> (\<forall>x \<in># add_mset m R. is_shared x)"
    then have "R \<noteq> {#}" using assms(2) by auto
    then have "1 \<le> size R" by (simp add: Suc_le_eq nonempty_has_size)
    moreover have "?n = 1" using assms(1) no by (auto simp: cont_ok_def)
    ultimately show False by simp
  qed
  then have r: "refcnt c = of_nat ?n" and n: "?n < 2 ^ 32" using assms(1) by (auto simp: cont_ok_def)
  have r1: "refcnt c - 1 = of_nat (size R + k)" unfolding r by (simp add: algebra_simps)
  then show z: "refcnt c - 1 = 0 \<longleftrightarrow> size R + k = 0" using of_nat_0_u32 [of "size R + k"] n by simp
  assume "size R + k \<noteq> 0"
  then have "Suc 0 \<le> size R + k" by linarith
  then show "cont_ok R k (Some (c\<lparr>refcnt := refcnt c - 1\<rparr>))"
    using assms(1) sh n r1 unfolding cont_ok_def by auto
qed

lemma cont_drop_last:
  assumes "cont_ok (add_mset m R) k (Some c)" "\<not> is_shared m"
  shows "R = {#}" "k = 0"
  using assms by (auto simp: cont_ok_def)

lemma cont_add:
  assumes "cont_ok R k (Some c)" "m \<in># R" "is_shared m" "size R + k + 1 < 2 ^ 32"
  shows "cont_ok (add_mset m R) k (Some (c\<lparr>refcnt := refcnt c + 1\<rparr>))"
proof -
  have "\<forall>x \<in># R. is_shared x"
  proof (rule ccontr)
    assume "\<not> (\<forall>x \<in># R. is_shared x)"
    then obtain x where x: "x \<in># R" "\<not> is_shared x" by blast
    then have "size R + k = 1" using assms(1) by (auto simp: cont_ok_def)
    moreover have "1 \<le> size R" using x(1) by (metis Suc_leI One_nat_def nonempty_has_size empty_iff set_mset_empty)
    ultimately have "size R = 1" by simp
    then obtain y where "R = {#y#}" by (metis size_1_singleton_mset)
    with x assms(2,3) show False by simp
  qed
  then show ?thesis using assms unfolding cont_ok_def by (auto simp: algebra_simps)
qed

lemma cont_share:
  assumes "cont_ok R k (Some c)" "m \<in># R" "\<not> is_shared m" "is_shared m'" "mtype m' = mtype m"
  shows "R = {#m#}" "k = 0" "cont_ok {#m', m'#} 0 (Some (c\<lparr>refcnt := 2\<rparr>))"
proof -
  have "size R + k = 1" using assms by (auto simp: cont_ok_def)
  moreover have "1 \<le> size R" using assms(2) by (metis Suc_leI One_nat_def nonempty_has_size empty_iff set_mset_empty)
  ultimately have "size R = 1" "k = 0" by simp_all
  then obtain y where "R = {#y#}" by (metis size_1_singleton_mset)
  then show R: "R = {#m#}" using assms(2) by simp
  show "k = 0" by fact
  show "cont_ok {#m', m'#} 0 (Some (c\<lparr>refcnt := 2\<rparr>))"
    using assms(1,4,5) R by (auto simp: cont_ok_def)
qed

subsection \<open>Closing\<close>

lemma mem_invI:
  assumes "\<And>m. m \<in> set (slots s) \<Longrightarrow> msg_wf m"
    "\<And>a. cont_ok (held a (slots s)) (owed a) (contents s a)"
    "\<And>a. meta_ok (meta_held a (slots s) + ext a) (metas s a)"
  shows "mem_inv s owed ext"
  using assms by (simp add: mem_inv_def)

lemma mem_invD:
  assumes "mem_inv s owed ext"
  shows "m \<in> set (slots s) \<Longrightarrow> msg_wf m" "cont_ok (held a (slots s)) (owed a) (contents s a)"
    "meta_ok (meta_held a (slots s) + ext a) (metas s a)"
  using assms by (simp_all add: mem_inv_def)

text \<open>The freed content: one whose last reference is the one that slot \<open>i\<close> holds.\<close>

definition last_ref :: "mem \<Rightarrow> (nat \<Rightarrow> nat) \<Rightarrow> nat \<Rightarrow> nat \<Rightarrow> bool" where
  "last_ref s owed i a \<longleftrightarrow> refers a (slots s ! i) \<and> size (held a (slots s)) + owed a = 1"

lemma refers_unique: "refers a m \<Longrightarrow> refers b m \<Longrightarrow> a = b"
  by (auto simp: refers_def)

lemma not_refers: "\<not> has_content m \<Longrightarrow> \<not> refers a m"
  by (simp add: refers_def)

text \<open>
  Slot \<open>i\<close> gives up its content: whatever message without a content takes its place, the
  counts are right.
\<close>

lemma drop_content_ok:
  assumes inv: "mem_inv s owed ext" and i: "i < length (slots s)"
  shows "\<exists>s'. drop_content (slots s ! i) s = Some s' \<and> slots s' = slots s \<and> metas s' = metas s \<and>
    (\<forall>a. map_option cdata (contents s' a) = (if last_ref s owed i a then None else map_option cdata (contents s a))) \<and>
    (\<forall>m' a. \<not> has_content m' \<longrightarrow> cont_ok (held a ((slots s)[i := m'])) (owed a) (contents s' a)) \<and>
    calls s' = calls s @ concat (map (\<lambda>a. case ffn (the (contents s a)) of None \<Rightarrow> []
      | Some f \<Rightarrow> [(f, cdata (the (contents s a)), hint (the (contents s a)))])
      (filter (last_ref s owed i) (case content_ptr (mbody (slots s ! i)) of None \<Rightarrow> [] | Some a \<Rightarrow> [a])))"
proof (cases "has_content (slots s ! i)")
  case False
  have eq: "held a ((slots s)[i := m']) = held a (slots s)" if "\<not> has_content m'" for m' a
    using held_update [OF i, of a m'] not_refers [OF False] not_refers [OF that] by simp
  have "\<not> last_ref s owed i a" for a using not_refers [OF False] by (simp add: last_ref_def)
  then show ?thesis
    using False mem_invD(2) [OF inv]
    by (simp add: drop_content_def has_content_def eq split: option.split)
next
  case True
  let ?m = "slots s ! i"
  have m: "?m \<in> set (slots s)" using i by simp
  from mem_invD(1) [OF inv m] True obtain a where a: "mbody ?m = Content (Some a)"
    by (auto simp: msg_wf_def)
  have ref: "refers a ?m" using a True by (simp add: refers_def)
  let ?R = "held a (slots s) - {#?m#}"
  have R: "held a (slots s) = add_mset ?m ?R" using m ref by (simp add: held_mem)
  note ok = mem_invD(2) [OF inv, of a]
  have "held a (slots s) \<noteq> {#}" using R by (metis empty_not_add_mset)
  with ok obtain c where c: "contents s a = Some c"
    by (cases "contents s a") (auto simp: cont_ok_def)
  have ok': "cont_ok (add_mset ?m ?R) (owed a) (Some c)" using ok R c by metis
  have others: "\<not> refers b ?m" if "b \<noteq> a" for b using refers_unique [OF ref] that by blast
  have eq: "held b ((slots s)[i := m']) = (if b = a then ?R else held b (slots s))"
    if "\<not> has_content m'" for m' b
  proof (cases "b = a")
    case True
    have "add_mset ?m (held a ((slots s)[i := m'])) = held a (slots s)"
      using held_update [OF i, of a m'] not_refers [OF that] ref by simp
    then show ?thesis unfolding True by (metis add_mset_remove_trivial)
  next
    case False
    then show ?thesis using held_update [OF i, of b m'] others not_refers [OF that] by simp
  qed
  have ffn: "mtype ?m = type_zclmsg \<longrightarrow> ffn c \<noteq> None" using ok' by (auto simp: cont_ok_def)
  have last: "last_ref s owed i b \<longleftrightarrow> b = a \<and> size ?R + owed a = 0" for b
  proof (cases "b = a")
    case True
    have "size (held a (slots s)) = Suc (size ?R)" by (subst R) simp
    then show ?thesis using ref True by (simp add: last_ref_def)
  qed (use others in \<open>simp add: last_ref_def\<close>)
  have t: "mtype ?m = type_lmsg \<or> mtype ?m = type_zclmsg" using True by (simp add: has_content_def)
  show ?thesis
  proof (cases "size ?R + owed a = 0")
    case lst: True
    have d: "drop_content ?m s = Some (release a c s)"
      using t a c ffn cont_drop(1) [OF ok'] lst
      by (cases "is_shared ?m") (auto simp: drop_content_def Let_def)
    have "cont_ok (held b ((slots s)[i := m'])) (owed b) (contents (release a c s) b)"
      if "\<not> has_content m'" for m' b
      unfolding eq [OF that] using lst mem_invD(2) [OF inv, of b] by (auto simp: release_def cont_ok_def)
    then show ?thesis
      using d lst a c by (simp add: last release_def split: option.split)
  next
    case more: False
    have sh: "is_shared ?m"
    proof (rule ccontr)
      assume "\<not> is_shared ?m"
      from cont_drop_last [OF ok' this] more show False by simp
    qed
    let ?s = "s\<lparr>contents := (contents s)(a \<mapsto> c\<lparr>refcnt := refcnt c - 1\<rparr>)\<rparr>"
    have d: "drop_content ?m s = Some ?s"
      using t a c ffn cont_drop(1) [OF ok' sh] more sh by (auto simp: drop_content_def Let_def)
    have "cont_ok (held b ((slots s)[i := m'])) (owed b) (contents ?s b)"
      if "\<not> has_content m'" for m' b
      unfolding eq [OF that] using cont_drop(2) [OF ok' sh more] mem_invD(2) [OF inv, of b] by simp
    then show ?thesis using d more a c by (simp add: last)
  qed
qed

lemma meta_drop_ok:
  assumes "meta_ok (Suc n) (metas s a)"
  shows "\<exists>s'. meta_drop_ref a s = Some s' \<and> slots s' = slots s \<and> contents s' = contents s \<and>
    calls s' = calls s \<and> meta_ok n (metas s' a) \<and> (\<forall>b. b \<noteq> a \<longrightarrow> metas s' b = metas s b)"
proof -
  from assms obtain k where k: "metas s a = Some k" "k = of_nat (Suc n)" "Suc n < 2 ^ 32"
    by (cases "metas s a") (auto simp: meta_ok_def)
  have "k - 1 = of_nat n" using k(2) by simp
  moreover have "(of_nat n :: u32) = 0 \<longleftrightarrow> n = 0" using of_nat_0_u32 [of n] k(3) by simp
  ultimately show ?thesis using k by (auto simp: meta_drop_ref_def meta_ok_def Suc_le_eq)
qed

text \<open>Slot \<open>i\<close> gives up its metadata object.\<close>

lemma drop_meta_ok:
  assumes inv: "\<And>a. meta_ok (meta_held a (slots s) + ext a) (metas s a)"
    and i: "i < length (slots s)" and m: "msg_check (slots s ! i)"
  shows "\<exists>s'. drop_meta (slots s ! i) s = Some s' \<and> slots s' = slots s \<and> contents s' = contents s \<and>
    calls s' = calls s \<and>
    (\<forall>m' a. metadata m' = None \<longrightarrow> meta_ok (meta_held a ((slots s)[i := m']) + ext a) (metas s' a))"
proof (cases "metadata (slots s ! i)")
  case None
  have "meta_held a ((slots s)[i := m']) = meta_held a (slots s)" if "metadata m' = None" for m' a
    using meta_held_update [OF i, of a m'] None that by (simp add: meta_refers_def)
  then show ?thesis using None inv by (simp add: drop_meta_def)
next
  case (Some b)
  have eq: "meta_held a ((slots s)[i := m']) + (if a = b then 1 else 0) = meta_held a (slots s)"
    if "metadata m' = None" for m' a
    using meta_held_update [OF i, of a m'] Some that m by (auto simp: meta_refers_def)
  define n where "n = meta_held b ((slots s)[i := (slots s ! i)\<lparr>metadata := None\<rparr>]) + ext b"
  have "meta_held b (slots s) + ext b = Suc n"
    using eq [of "(slots s ! i)\<lparr>metadata := None\<rparr>" b] by (simp add: n_def)
  with inv [of b] have "meta_ok (Suc n) (metas s b)" by simp
  from meta_drop_ok [OF this] obtain s' where s': "meta_drop_ref b s = Some s'" "slots s' = slots s"
    "contents s' = contents s" "calls s' = calls s" "meta_ok n (metas s' b)"
    "\<And>a. a \<noteq> b \<Longrightarrow> metas s' a = metas s a" by blast
  have "meta_ok (meta_held a ((slots s)[i := m']) + ext a) (metas s' a)" if "metadata m' = None" for m' a
  proof (cases "a = b")
    case True
    have "meta_held b ((slots s)[i := m']) + ext b = n"
      using eq [OF that, of b] eq [of "(slots s ! i)\<lparr>metadata := None\<rparr>" b] by (simp add: n_def)
    then show ?thesis using s'(5) True by simp
  next
    case False
    then show ?thesis using eq [OF that, of a] inv [of a] s'(6) by simp
  qed
  then show ?thesis using s' Some by (simp add: drop_meta_def)
qed

text \<open>The calls of deallocation functions that the release of slot \<open>i\<close>'s content makes.\<close>

definition free_calls :: "mem \<Rightarrow> (nat \<Rightarrow> nat) \<Rightarrow> nat \<Rightarrow> (nat \<times> byte list \<times> nat) list" where
  "free_calls s owed i = concat (map (\<lambda>a. case ffn (the (contents s a)) of None \<Rightarrow> []
      | Some f \<Rightarrow> [(f, cdata (the (contents s a)), hint (the (contents s a)))])
      (filter (last_ref s owed i) (case content_ptr (mbody (slots s ! i)) of None \<Rightarrow> [] | Some a \<Rightarrow> [a])))"

lemma drop_both_ok:
  assumes inv: "mem_inv s owed ext" and i: "i < length (slots s)" and m: "msg_check (slots s ! i)"
  shows "\<exists>s1 s2. drop_content (slots s ! i) s = Some s1 \<and> drop_meta (slots s ! i) s1 = Some s2 \<and>
    slots s2 = slots s \<and> (\<forall>a. map_option cdata (contents s2 a) = (if last_ref s owed i a then None else map_option cdata (contents s a))) \<and>
    calls s2 = calls s @ free_calls s owed i \<and>
    (\<forall>m'. \<not> has_content m' \<longrightarrow> metadata m' = None \<longrightarrow>
      mem_inv (s2\<lparr>slots := (slots s)[i := m']\<rparr>) owed ext)"
proof -
  from drop_content_ok [OF inv i] obtain s1 where s1: "drop_content (slots s ! i) s = Some s1"
    "slots s1 = slots s" "metas s1 = metas s"
    "\<And>a. map_option cdata (contents s1 a) = (if last_ref s owed i a then None else map_option cdata (contents s a))"
    "\<And>m' a. \<not> has_content m' \<Longrightarrow> cont_ok (held a ((slots s)[i := m'])) (owed a) (contents s1 a)"
    "calls s1 = calls s @ free_calls s owed i"
    unfolding free_calls_def by blast
  have "\<exists>s2. drop_meta (slots s1 ! i) s1 = Some s2 \<and> slots s2 = slots s1 \<and> contents s2 = contents s1 \<and>
    calls s2 = calls s1 \<and>
    (\<forall>m' a. metadata m' = None \<longrightarrow> meta_ok (meta_held a ((slots s1)[i := m']) + ext a) (metas s2 a))"
    by (rule drop_meta_ok) (use mem_invD(3) [OF inv] i m s1 in simp_all)
  then obtain s2 where s2: "drop_meta (slots s ! i) s1 = Some s2" "slots s2 = slots s"
    "contents s2 = contents s1" "calls s2 = calls s1"
    "\<And>m' a. metadata m' = None \<Longrightarrow> meta_ok (meta_held a ((slots s)[i := m']) + ext a) (metas s2 a)"
    unfolding s1(2) by blast
  have "mem_inv (s2\<lparr>slots := (slots s)[i := m']\<rparr>) owed ext" if "\<not> has_content m'" "metadata m' = None" for m'
  proof (rule mem_invI)
    fix x assume "x \<in> set (slots (s2\<lparr>slots := (slots s)[i := m']\<rparr>))"
    then have "x = m' \<or> x \<in> set (slots s)" using set_update_subset_insert [of "slots s" i m'] by auto
    then show "msg_wf x" using mem_invD(1) [OF inv] that(1) by (auto simp: msg_wf_def)
  qed (use s1(5) [OF that(1)] s2(3,5) that in simp_all)
  then show ?thesis using s1 s2 by (intro exI [of _ s1] exI [of _ s2]) simp
qed

lemma close_ok:
  assumes inv: "mem_inv s owed ext" and i: "i < length (slots s)" and m: "msg_check (slots s ! i)"
  shows "\<exists>s'. msg_close i s = Some (0, s') \<and> mem_inv s' owed ext \<and>
    slots s' = (slots s)[i := (slots s ! i)\<lparr>metadata := None, mtype := 0\<rparr>] \<and>
    (\<forall>a. map_option cdata (contents s' a) = (if last_ref s owed i a then None else map_option cdata (contents s a))) \<and>
    calls s' = calls s @ free_calls s owed i"
proof -
  let ?m = "(slots s ! i)\<lparr>metadata := None, mtype := 0\<rparr>"
  from drop_both_ok [OF inv i m] obtain s1 s2 where
    s: "drop_content (slots s ! i) s = Some s1" "drop_meta (slots s ! i) s1 = Some s2" "slots s2 = slots s"
      "\<And>a. map_option cdata (contents s2 a) = (if last_ref s owed i a then None else map_option cdata (contents s a))"
      "calls s2 = calls s @ free_calls s owed i"
      "\<And>m'. \<not> has_content m' \<Longrightarrow> metadata m' = None \<Longrightarrow>
        mem_inv (s2\<lparr>slots := (slots s)[i := m']\<rparr>) owed ext" by blast
  have "\<not> has_content ?m" by (simp add: has_content_def)
  with s(6) [of ?m] s(1-5) i m show ?thesis by (simp add: msg_close_def put_slot_def)
qed

lemma close_invalid:
  assumes "i < length (slots s)" "\<not> msg_check (slots s ! i)"
  shows "msg_close i s = Some (-1, s)"
  using assms by (simp add: msg_close_def)

subsection \<open>Putting a message into a slot, move and copy\<close>

text \<open>A slot that can be overwritten: no content and no metadata would be leaked.\<close>

definition idle :: "msg \<Rightarrow> bool" where
  "idle m \<longleftrightarrow> \<not> has_content m \<and> (msg_check m \<longrightarrow> metadata m = None)"

lemma idle_update:
  assumes inv: "mem_inv s owed ext" and i: "i < length (slots s)" and idle: "idle (slots s ! i)" "idle m"
  shows "mem_inv (s\<lparr>slots := (slots s)[i := m]\<rparr>) owed ext"
proof (rule mem_invI)
  have "\<not> refers a (slots s ! i)" "\<not> refers a m" for a using idle by (simp_all add: idle_def not_refers)
  then have "held a ((slots s)[i := m]) = held a (slots s)" for a using held_update [OF i, of a m] by simp
  then show "cont_ok (held a (slots (s\<lparr>slots := (slots s)[i := m]\<rparr>))) (owed a)
      (contents (s\<lparr>slots := (slots s)[i := m]\<rparr>) a)" for a
    using mem_invD(2) [OF inv] by simp
  have "\<not> meta_refers a (slots s ! i)" "\<not> meta_refers a m" for a
    using idle by (simp_all add: idle_def meta_refers_def)
  then have "meta_held a ((slots s)[i := m]) = meta_held a (slots s)" for a
    using meta_held_update [OF i, of a m] by simp
  then show "meta_ok (meta_held a (slots (s\<lparr>slots := (slots s)[i := m]\<rparr>)) + ext a)
      (metas (s\<lparr>slots := (slots s)[i := m]\<rparr>) a)" for a
    using mem_invD(3) [OF inv] by simp
  fix x assume "x \<in> set (slots (s\<lparr>slots := (slots s)[i := m]\<rparr>))"
  then have "x = m \<or> x \<in> set (slots s)" using set_update_subset_insert [of "slots s" i m] by auto
  then show "msg_wf x" using mem_invD(1) [OF inv] idle(2) by (auto simp: msg_wf_def idle_def)
qed

lemma idle_blank: "t \<noteq> type_lmsg \<Longrightarrow> t \<noteq> type_zclmsg \<Longrightarrow> idle (blank t b)"
  by (simp add: idle_def blank_def has_content_def)

lemma idle_closed: "idle (m\<lparr>metadata := None, mtype := 0\<rparr>)"
  by (simp add: idle_def has_content_def)

text \<open>Swapping the contents of two slots keeps the counts.\<close>

lemma mset_swap_slots:
  assumes "i < length xs" "j < length xs" "i \<noteq> j"
  shows "mset (xs[i := xs ! j, j := y]) = add_mset y (mset xs - {#xs ! i#})"
proof -
  have "mset (xs[i := xs ! j, j := y]) = add_mset y (mset (xs[i := xs ! j]) - {#xs[i := xs ! j] ! j#})"
    using assms by (simp add: mset_update)
  also have "xs[i := xs ! j] ! j = xs ! j" using assms by simp
  also have "mset (xs[i := xs ! j]) = add_mset (xs ! j) (mset xs - {#xs ! i#})"
    using assms by (simp add: mset_update)
  finally show ?thesis by simp
qed

lemma move_update:
  assumes inv: "mem_inv s owed ext" and ij: "i < length (slots s)" "j < length (slots s)" "i \<noteq> j"
    and idle: "idle (slots s ! i)" "idle m"
  shows "mem_inv (s\<lparr>slots := (slots s)[i := slots s ! j, j := m]\<rparr>) owed ext"
proof -
  let ?xs = "(slots s)[i := slots s ! j, j := m]"
  have eq: "mset ?xs = mset ((slots s)[i := m])"
    using mset_swap_slots [OF ij, of m] ij(1) by (simp add: mset_update)
  have "mem_inv (s\<lparr>slots := (slots s)[i := m]\<rparr>) owed ext"
    by (rule idle_update [OF inv ij(1) idle])
  moreover have "set ?xs = set ((slots s)[i := m])" using eq by (metis set_mset_mset)
  ultimately show ?thesis using eq by (simp add: mem_inv_def held_def meta_held_def)
qed

lemma move_ok:
  assumes inv: "mem_inv s owed ext" and ij: "i < length (slots s)" "j < length (slots s)" "i \<noteq> j"
    and valid: "msg_check (slots s ! i)" "msg_check (slots s ! j)"
  shows "\<exists>s'. msg_move i j s = Some (0, s') \<and> mem_inv s' owed ext \<and>
    slots s' = (slots s)[i := slots s ! j, j := blank type_vsm (Vsm [])] \<and>
    (\<forall>a. map_option cdata (contents s' a) = (if last_ref s owed i a then None else map_option cdata (contents s a))) \<and>
    calls s' = calls s @ free_calls s owed i"
proof -
  from close_ok [OF inv ij(1) valid(1)] obtain s1 where
    s1: "msg_close i s = Some (0, s1)" "mem_inv s1 owed ext"
      "slots s1 = (slots s)[i := (slots s ! i)\<lparr>metadata := None, mtype := 0\<rparr>]"
      "\<forall>a. map_option cdata (contents s1 a) = (if last_ref s owed i a then None else map_option cdata (contents s a))"
      "calls s1 = calls s @ free_calls s owed i" by blast
  let ?s = "s1\<lparr>slots := (slots s1)[i := slots s1 ! j, j := blank type_vsm (Vsm [])]\<rparr>"
  have "mem_inv ?s owed ext"
    by (rule move_update [OF s1(2)]) (use ij s1(3) idle_closed idle_blank in simp_all)
  moreover have "slots s1 ! j = slots s ! j" using ij s1(3) by simp
  moreover have "msg_move i j s = Some (0, ?s)"
    using ij valid s1(1,3) by (simp add: msg_move_def put_slot_def msg_init_def)
  ultimately show ?thesis using s1 ij by (intro exI [of _ ?s]) simp
qed

text \<open>The source of a copy, with the flag it then has.\<close>

definition copied :: "msg \<Rightarrow> msg" where
  "copied m = (if has_content m \<and> \<not> is_shared m then m\<lparr>mflags := mflags m OR shared_flag\<rparr> else m)"

lemma shared_or [simp]: "is_shared (m\<lparr>mflags := mflags m OR shared_flag\<rparr>)"
  unfolding is_shared_def
proof
  assume "mflags (m\<lparr>mflags := mflags m OR shared_flag\<rparr>) AND shared_flag = 0"
  then have "bit ((mflags m OR shared_flag) AND shared_flag) 7 = bit (0 :: byte) 7" by simp
  moreover have "bit shared_flag 7" by (simp add: bit_iff_odd)
  ultimately show False by (simp only: bit_and_iff bit_or_iff) simp
qed

lemma shared_refers: "refers a (m\<lparr>mflags := f\<rparr>) = refers a m"
  by (simp add: refers_def has_content_def)

lemma held_two:
  assumes "i < length ms" "j < length ms" "i \<noteq> j"
  shows "held a (ms[j := m, i := m']) + (if refers a (ms ! j) then {#ms ! j#} else {#}) +
      (if refers a (ms ! i) then {#ms ! i#} else {#}) =
    held a ms + (if refers a m then {#m#} else {#}) + (if refers a m' then {#m'#} else {#})"
    (is "?A + ?Z + ?X = ?C + ?W + ?Y")
proof -
  have "ms[j := m] ! i = ms ! i" using assms by simp
  with held_update [of i "ms[j := m]" a m'] assms(1)
  have "?A + ?X = held a (ms[j := m]) + ?Y" by (simp only: length_list_update)
  moreover have "held a (ms[j := m]) + ?Z = ?C + ?W" by (rule held_update [OF assms(2)])
  moreover have "?A + ?Z + ?X = (?A + ?X) + ?Z" by (simp only: union_assoc union_commute [of ?Z])
  moreover have "held a (ms[j := m]) + ?Y + ?Z = (held a (ms[j := m]) + ?Z) + ?Y"
    by (simp only: union_assoc union_commute [of ?Y])
  ultimately show ?thesis by (simp only:)
qed

text \<open>Slot \<open>j\<close> is the source, slot \<open>i\<close> holds nothing; the copy makes both refer.\<close>

lemma share_content_ok:
  assumes inv: "mem_inv s owed ext" and ij: "i < length (slots s)" "j < length (slots s)" "i \<noteq> j"
    and idle: "\<not> has_content (slots s ! i)" and bound: "\<And>a. length (slots s) + owed a < 2 ^ 32"
  defines "m \<equiv> copied (slots s ! j)"
  shows "\<exists>s'. share_content j s = Some s' \<and> slots s' = (slots s)[j := m] \<and>
    metas s' = metas s \<and> calls s' = calls s \<and> (\<forall>a. map_option cdata (contents s' a) = map_option cdata (contents s a)) \<and>
    (\<forall>a. cont_ok (held a ((slots s)[j := m, i := m])) (owed a) (contents s' a))"
proof (cases "has_content (slots s ! j)")
  case False
  then have m: "m = slots s ! j" by (simp add: m_def copied_def)
  have "held a ((slots s)[j := m, i := m]) = held a (slots s)" for a
    using held_two [OF ij, of a m m] not_refers [OF False] not_refers [OF idle] by (simp add: m)
  then show ?thesis
    using False ij mem_invD(2) [OF inv]
    by (simp add: share_content_def has_content_def m list_update_id)
next
  case True
  let ?j = "slots s ! j"
  have mem: "?j \<in> set (slots s)" using ij by simp
  from mem_invD(1) [OF inv mem] True obtain a where a: "mbody ?j = Content (Some a)"
    by (auto simp: msg_wf_def)
  have ref: "refers a ?j" using a True by (simp add: refers_def)
  have refm: "refers b m \<longleftrightarrow> refers b ?j" for b by (simp add: m_def copied_def shared_refers)
  have others: "\<not> refers b ?j" if "b \<noteq> a" for b using refers_unique [OF ref] that by blast
  have shm: "is_shared m" and tm: "mtype m = mtype ?j" using True by (auto simp: m_def copied_def)
  have jR: "?j \<in># held a (slots s)" using mem ref by (simp add: held_mem)
  note ok = mem_invD(2) [OF inv, of a]
  from ok jR obtain c where c: "contents s a = Some c"
    by (cases "contents s a") (auto simp: cont_ok_def)
  have t: "mtype ?j = type_lmsg \<or> mtype ?j = type_zclmsg" using True by (simp add: has_content_def)
  have two: "held b ((slots s)[j := m, i := m]) + (if b = a then {#?j#} else {#}) =
      held b (slots s) + (if b = a then {#m, m#} else {#})" for b
    using held_two [OF ij, of b m m] refm others ref not_refers [OF idle] by (cases "b = a") simp_all
  have nb: "held b ((slots s)[j := m, i := m]) = held b (slots s)" if "b \<noteq> a" for b
    using two [of b] that by simp
  have free: "size (held a (slots s)) + owed a + 1 < 2 ^ 32"
  proof -
    have "Suc (size (held a (slots s))) \<le> length (slots s)"
    proof -
      have "held a (slots s) \<subseteq># mset (slots s) - {#slots s ! i#}"
        unfolding held_def using not_refers [OF idle, of a]
        by (metis filter_mset_eq_conv multiset_filter_subset ij(1) insert_DiffM nth_mem_mset
            filter_mset_add_mset)
      from size_mset_mono [OF this] show ?thesis
        using ij(1) by (simp add: size_Diff_singleton)
    qed
    then show ?thesis using bound [of a] by simp
  qed
  show ?thesis
  proof (cases "is_shared ?j")
    case sh: True
    then have m: "m = ?j" by (simp add: m_def copied_def)
    let ?s = "s\<lparr>contents := (contents s)(a \<mapsto> c\<lparr>refcnt := refcnt c + 1\<rparr>)\<rparr>"
    have "share_content j s = Some ?s" using t a c sh ij by (simp add: share_content_def)
    moreover have "held a ((slots s)[j := m, i := m]) = add_mset ?j (held a (slots s))"
      using two [of a] by (simp add: m)
    moreover have "cont_ok (add_mset ?j (held a (slots s))) (owed a) (Some (c\<lparr>refcnt := refcnt c + 1\<rparr>))"
      by (rule cont_add [OF _ jR sh free]) (use ok c in simp)
    ultimately show ?thesis
      using nb mem_invD(2) [OF inv] c by (intro exI [of _ ?s]) (auto simp: m list_update_id)
  next
    case sh: False
    let ?s = "s\<lparr>slots := (slots s)[j := m], contents := (contents s)(a \<mapsto> c\<lparr>refcnt := 2\<rparr>)\<rparr>"
    have m: "m = ?j\<lparr>mflags := mflags ?j OR shared_flag\<rparr>" using True sh by (simp add: m_def copied_def)
    have step: "share_content j s = Some ?s"
      using t a c sh ij by (simp add: share_content_def put_slot_def m)
    have ok': "cont_ok (held a (slots s)) (owed a) (Some c)" using ok c by simp
    note share = cont_share [OF ok' jR sh shm tm]
    have "held a ((slots s)[j := m, i := m]) = {#m, m#}"
      using two [of a] share(1) by simp
    then have "cont_ok (held b ((slots s)[j := m, i := m])) (owed b) (contents ?s b)" for b
      using nb [of b] share(2,3) mem_invD(2) [OF inv, of b] by (cases "b = a") simp_all
    then show ?thesis using step c by (intro exI [of _ ?s]) auto
  qed
qed

lemma copied_simps [simp]:
  "metadata (copied m) = metadata m" "mtype (copied m) = mtype m" "mbody (copied m) = mbody m"
  "msg_check (copied m) = msg_check m"
  by (simp_all add: copied_def msg_check_def)

lemma meta_add_ok:
  assumes "meta_ok n (metas s a)" "1 \<le> n" "n + 1 < 2 ^ 32"
  shows "\<exists>s'. meta_add_ref a s = Some s' \<and> slots s' = slots s \<and> contents s' = contents s \<and>
    calls s' = calls s \<and> meta_ok (n + 1) (metas s' a) \<and> (\<forall>b. b \<noteq> a \<longrightarrow> metas s' b = metas s b)"
proof -
  from assms obtain k where "metas s a = Some k" "k = of_nat n"
    by (cases "metas s a") (auto simp: meta_ok_def)
  then show ?thesis using assms(3) by (simp add: meta_add_ref_def meta_ok_def add.commute)
qed

lemma copy_ok:
  assumes inv: "mem_inv s owed ext" and ij: "i < length (slots s)" "j < length (slots s)" "i \<noteq> j"
    and valid: "msg_check (slots s ! i)" "msg_check (slots s ! j)"
    and bound: "\<And>a. length (slots s) + owed a < 2 ^ 32" "\<And>a. length (slots s) + ext a < 2 ^ 32"
  shows "\<exists>s'. msg_copy i j s = Some (0, s') \<and> mem_inv s' owed ext \<and>
    slots s' = (slots s)[j := copied (slots s ! j), i := copied (slots s ! j)] \<and>
    (\<forall>a. map_option cdata (contents s' a) = (if last_ref s owed i a then None else map_option cdata (contents s a))) \<and>
    calls s' = calls s @ free_calls s owed i"
proof -
  let ?m = "copied (slots s ! j)"
  from close_ok [OF inv ij(1) valid(1)] obtain s1 where
    s1: "msg_close i s = Some (0, s1)" "mem_inv s1 owed ext"
      "slots s1 = (slots s)[i := (slots s ! i)\<lparr>metadata := None, mtype := 0\<rparr>]"
      "\<forall>a. map_option cdata (contents s1 a) = (if last_ref s owed i a then None else map_option cdata (contents s a))"
      "calls s1 = calls s @ free_calls s owed i" by blast
  have len: "length (slots s1) = length (slots s)" and j1: "slots s1 ! j = slots s ! j"
    and i1: "slots s1 ! i = (slots s ! i)\<lparr>metadata := None, mtype := 0\<rparr>"
    using s1(3) ij by simp_all
  have "\<not> has_content (slots s1 ! i)" by (simp add: i1 has_content_def)
  from share_content_ok [OF s1(2) _ _ ij(3) this] ij bound(1) obtain s2 where
    s2: "share_content j s1 = Some s2" "slots s2 = (slots s1)[j := ?m]" "metas s2 = metas s1"
      "calls s2 = calls s1" "\<And>a. map_option cdata (contents s2 a) = map_option cdata (contents s1 a)"
      "\<And>a. cont_ok (held a ((slots s1)[j := ?m, i := ?m])) (owed a) (contents s2 a)"
    unfolding len j1 by blast
  let ?xs = "(slots s1)[j := ?m, i := ?m]"
  have mh: "meta_held a ?xs = meta_held a (slots s1) + (if meta_refers a ?m then 1 else 0)" for a
  proof -
    have "meta_held a ((slots s1)[j := ?m]) = meta_held a (slots s1)"
      using meta_held_update [of j "slots s1" a ?m] ij len j1 by (simp add: meta_refers_def)
    moreover have "\<not> meta_refers a (slots s1 ! i)" by (simp add: i1 meta_refers_def)
    ultimately show ?thesis
      using meta_held_update [of i "(slots s1)[j := ?m]" a ?m] ij len by simp
  qed
  have "\<exists>s3. (case metadata ?m of None \<Rightarrow> Some s2 | Some a \<Rightarrow> meta_add_ref a s2) = Some s3 \<and>
    slots s3 = slots s2 \<and> contents s3 = contents s2 \<and> calls s3 = calls s2 \<and>
    (\<forall>a. meta_ok (meta_held a ?xs + ext a) (metas s3 a))"
  proof (cases "metadata ?m")
    case None
    then show ?thesis using mh mem_invD(3) [OF s1(2)] s2(3) by (simp add: meta_refers_def)
  next
    case (Some b)
    have ref: "meta_refers a ?m \<longleftrightarrow> a = b" for a using Some valid(2) by (auto simp: meta_refers_def)
    have "meta_refers b (slots s1 ! j)" using Some valid(2) j1 by (simp add: meta_refers_def)
    then have "slots s1 ! j \<in># filter_mset (meta_refers b) (mset (slots s1))" using ij len by simp
    then have "filter_mset (meta_refers b) (mset (slots s1)) \<noteq> {#}" by (metis empty_iff set_mset_empty)
    then have "0 < meta_held b (slots s1)" unfolding meta_held_def by (rule nonempty_has_size [THEN iffD1])
    then have "1 \<le> meta_held b (slots s1) + ext b" by simp
    moreover have "meta_held b (slots s1) + ext b + 1 < 2 ^ 32"
    proof -
      have "meta_held b ?xs \<le> length (slots s)" using meta_held_size [of b ?xs] len by simp
      then show ?thesis using mh [of b] ref bound(2) [of b] by simp
    qed
    moreover have "meta_ok (meta_held b (slots s1) + ext b) (metas s2 b)"
      using mem_invD(3) [OF s1(2)] s2(3) by simp
    ultimately obtain s3 where s3: "meta_add_ref b s2 = Some s3" "slots s3 = slots s2"
      "contents s3 = contents s2" "calls s3 = calls s2"
      "meta_ok (meta_held b (slots s1) + ext b + 1) (metas s3 b)"
      "\<And>a. a \<noteq> b \<Longrightarrow> metas s3 a = metas s2 a"
      using meta_add_ok [of "meta_held b (slots s1) + ext b" s2 b] by blast
    have "meta_ok (meta_held a ?xs + ext a) (metas s3 a)" for a
      using mh [of a] ref s3(5) s3(6) [of a] mem_invD(3) [OF s1(2), of a] s2(3)
      by (cases "a = b") (simp_all add: add.commute add.left_commute)
    then show ?thesis using s3(1-4) Some by simp
  qed
  then obtain s3 where s3: "(case metadata ?m of None \<Rightarrow> Some s2 | Some a \<Rightarrow> meta_add_ref a s2) = Some s3"
    "slots s3 = slots s2" "contents s3 = contents s2" "calls s3 = calls s2"
    "\<And>a. meta_ok (meta_held a ?xs + ext a) (metas s3 a)" by blast
  let ?s = "s3\<lparr>slots := ?xs\<rparr>"
  have "mem_inv ?s owed ext"
  proof (rule mem_invI)
    fix x assume "x \<in> set (slots ?s)"
    then have "x \<in> set ?xs" by simp
    then have "x = ?m \<or> x \<in> set (slots s1)"
      using set_update_subset_insert [of "(slots s1)[j := ?m]" i ?m]
        set_update_subset_insert [of "slots s1" j ?m] by blast
    moreover have "msg_wf (slots s ! j)" using mem_invD(1) [OF inv] ij by simp
    then have "msg_wf ?m" by (simp add: msg_wf_def has_content_def)
    ultimately show "msg_wf x" using mem_invD(1) [OF s1(2)] by blast
  qed (use s2(6) s3(3,5) in simp_all)
  moreover have "slots s2 ! j = ?m" using s2(2) ij len by simp
  then have "msg_copy i j s = Some (0, ?s)"
    using ij valid s1(1) s2(1,2) s3(1,2) len by (simp add: msg_copy_def put_slot_def)
  ultimately show ?thesis
    using s1(3-5) s2(4,5) s3(3,4) ij by (intro exI [of _ ?s]) (simp add: list_update_swap)
qed

subsection \<open>Initialisation and the accessors\<close>

lemma init_ok:
  assumes inv: "mem_inv s owed ext" and i: "i < length (slots s)" and idle: "idle (slots s ! i)"
    and t: "t \<noteq> type_lmsg" "t \<noteq> type_zclmsg"
  shows "\<exists>s'. put_slot i (blank t b) s = Some s' \<and> mem_inv s' owed ext \<and>
    slots s' = (slots s)[i := blank t b] \<and> contents s' = contents s \<and> calls s' = calls s"
  using idle_update [OF inv i idle idle_blank [OF t, of b]] i by (simp add: put_slot_def)

text \<open>A message with a content of its own is put into slot \<open>i\<close>.\<close>

lemma fresh_content_ok:
  assumes inv: "mem_inv s owed ext" and i: "i < length (slots s)" and idle: "idle (slots s ! i)"
    and fresh: "contents s c = None" and t: "t = type_lmsg \<or> t = type_zclmsg"
    and f: "t = type_zclmsg \<longrightarrow> ffn x \<noteq> None"
  defines "m \<equiv> blank t (Content (Some c))"
  shows "mem_inv (s\<lparr>slots := (slots s)[i := m], contents := (contents s)(c \<mapsto> x)\<rparr>) owed ext"
proof (rule mem_invI)
  let ?s = "s\<lparr>slots := (slots s)[i := m], contents := (contents s)(c \<mapsto> x)\<rparr>"
  have ref: "refers a m \<longleftrightarrow> a = c" for a using t by (auto simp: m_def blank_def refers_def has_content_def)
  have "\<not> refers a (slots s ! i)" for a using idle by (simp add: idle_def not_refers)
  then have held: "held a ((slots s)[i := m]) = (if a = c then add_mset m (held a (slots s)) else held a (slots s))" for a
    using held_update [OF i, of a m] ref by simp
  have nsh: "\<not> is_shared m" by (simp add: m_def blank_def is_shared_def)
  have mt: "mtype m = t" by (simp add: m_def blank_def)
  have "held c (slots s) = {#}" "owed c = 0"
    using mem_invD(2) [OF inv, of c] fresh by (simp_all add: cont_ok_def)
  then show "cont_ok (held a (slots ?s)) (owed a) (contents ?s a)" for a
    using mem_invD(2) [OF inv, of a] held [of a] nsh f mt by (cases "a = c") (auto simp: cont_ok_def)
  have "\<not> meta_refers a (slots s ! i)" "\<not> meta_refers a m" for a
    using idle by (simp_all add: idle_def meta_refers_def m_def blank_def)
  then have "meta_held a ((slots s)[i := m]) = meta_held a (slots s)" for a
    using meta_held_update [OF i, of a m] by simp
  then show "meta_ok (meta_held a (slots ?s) + ext a) (metas ?s a)" for a
    using mem_invD(3) [OF inv, of a] by simp
  fix y assume "y \<in> set (slots ?s)"
  then have "y = m \<or> y \<in> set (slots s)" using set_update_subset_insert [of "slots s" i m] by auto
  then show "msg_wf y" using mem_invD(1) [OF inv] by (auto simp: msg_wf_def m_def blank_def)
qed

lemma init_size_ok:
  assumes inv: "mem_inv s owed ext" and i: "i < length (slots s)" and idle: "idle (slots s ! i)"
    and fresh: "contents s c = None" and small: "content_size + length raw < 2 ^ 64"
  shows "\<exists>s'. msg_init_size raw (Some c) i s = Some (0, s') \<and> mem_inv s' owed ext \<and>
    msg_data (slots s' ! i) s' = Some raw \<and> calls s' = calls s"
proof (cases "length raw \<le> max_vsm_size")
  case True
  have "\<exists>s'. put_slot i (blank type_vsm (Vsm raw)) s = Some s' \<and> mem_inv s' owed ext \<and>
    slots s' = (slots s)[i := blank type_vsm (Vsm raw)] \<and> contents s' = contents s \<and> calls s' = calls s"
    by (rule init_ok [OF inv i idle]) simp_all
  then show ?thesis using True i
    by (auto simp: msg_init_size_def msg_data_def msg_check_def blank_def)
next
  case False
  let ?x = "\<lparr>cdata = raw, ffn = None, hint = 0, refcnt = 0\<rparr>"
  have "(content_size + length raw) mod 2 ^ 64 = content_size + length raw" using small by simp
  then have room: "(content_size + length raw) mod 2 ^ 64 > length raw" by (simp add: content_size_def)
  have "mem_inv (s\<lparr>slots := (slots s)[i := blank type_lmsg (Content (Some c))],
      contents := (contents s)(c \<mapsto> ?x)\<rparr>) owed ext"
    by (rule fresh_content_ok [OF inv i idle fresh]) simp_all
  moreover have "msg_init_size raw (Some c) i s = Some (0, s\<lparr>slots := (slots s)[i := blank type_lmsg
      (Content (Some c))], contents := (contents s)(c \<mapsto> ?x)\<rparr>)"
    using False i fresh room by (simp add: msg_init_size_def put_slot_def)
  ultimately show ?thesis using i by (simp add: msg_data_def msg_check_def blank_def)
qed

text \<open>The content that a slot shows.\<close>

lemma copied_data: "msg_data (copied m) s = msg_data m s"
  by (auto simp: msg_data_def split: body.split)

subsection \<open>Reserved references\<close>

lemma of_int_nat_u32: "0 \<le> r \<Longrightarrow> (of_int r :: u32) = of_nat (nat r)"
  by (metis int_nat_eq of_int_of_nat_eq)

lemma cont_reserve:
  assumes ok: "cont_ok R k (Some c)" "m \<in># R" "is_shared m" "size R + k + r < 2 ^ 32"
  shows "cont_ok R (k + r) (Some (c\<lparr>refcnt := refcnt c + of_nat r\<rparr>))"
proof -
  have "\<forall>x \<in># R. is_shared x"
  proof (rule ccontr)
    assume no: "\<not> (\<forall>x \<in># R. is_shared x)"
    then have "size R + k = 1" using ok(1) by (auto simp: cont_ok_def)
    moreover have "R \<noteq> {#}" using ok(2) by auto
    then have "1 \<le> size R" by (simp add: Suc_le_eq nonempty_has_size)
    ultimately have "size R = 1" by simp
    then obtain y where "R = {#y#}" by (metis size_1_singleton_mset)
    with no ok(2,3) show False by simp
  qed
  then show ?thesis using ok unfolding cont_ok_def by (auto simp: algebra_simps)
qed

lemma holder:
  assumes inv: "mem_inv s owed ext" and i: "i < length (slots s)" and ref: "refers a (slots s ! i)"
  obtains c where "contents s a = Some c" "slots s ! i \<in># held a (slots s)"
    "cont_ok (held a (slots s)) (owed a) (Some c)"
proof -
  have mem: "slots s ! i \<in># held a (slots s)" using i ref by (simp add: held_mem)
  then have "held a (slots s) \<noteq> {#}" by auto
  with mem_invD(2) [OF inv, of a] obtain c where "contents s a = Some c"
    by (cases "contents s a") (auto simp: cont_ok_def)
  with that mem mem_invD(2) [OF inv, of a] show thesis by simp
qed

lemma refers_copied: "refers b (copied m) = refers b m"
  by (simp add: refers_def has_content_def)

lemma held_copied:
  assumes "i < length ms" "refers a (ms ! i)"
  shows "b \<noteq> a \<Longrightarrow> held b (ms[i := copied (ms ! i)]) = held b ms"
    "add_mset (ms ! i) (held a (ms[i := copied (ms ! i)])) = add_mset (copied (ms ! i)) (held a ms)"
  using held_update [OF assms(1), of b "copied (ms ! i)"] held_update [OF assms(1), of a "copied (ms ! i)"]
    refers_unique [OF assms(2), of b] assms(2) by (auto simp: refers_copied split: if_splits)

lemma copied_inv:
  assumes inv: "mem_inv s owed ext" and i: "i < length (slots s)" and ref: "refers a (slots s ! i)"
    and ok: "cont_ok (held a ((slots s)[i := copied (slots s ! i)])) k (Some c')"
  shows "mem_inv (s\<lparr>slots := (slots s)[i := copied (slots s ! i)], contents := (contents s)(a \<mapsto> c')\<rparr>)
    (owed(a := k)) ext"
proof (rule mem_invI)
  let ?s = "s\<lparr>slots := (slots s)[i := copied (slots s ! i)], contents := (contents s)(a \<mapsto> c')\<rparr>"
  show "cont_ok (held b (slots ?s)) ((owed(a := k)) b) (contents ?s b)" for b
    using ok held_copied(1) [OF i ref, of b] mem_invD(2) [OF inv, of b] by (cases "b = a") simp_all
  have "meta_held b ((slots s)[i := copied (slots s ! i)]) = meta_held b (slots s)" for b
    using meta_held_update [OF i, of b "copied (slots s ! i)"] by (simp add: meta_refers_def)
  then show "meta_ok (meta_held b (slots ?s) + ext b) (metas ?s b)" for b
    using mem_invD(3) [OF inv, of b] by simp
  fix x assume "x \<in> set (slots ?s)"
  then have "x = copied (slots s ! i) \<or> x \<in> set (slots s)"
    using set_update_subset_insert [of "slots s" i "copied (slots s ! i)"] by auto
  then show "msg_wf x"
    using mem_invD(1) [OF inv] mem_invD(1) [OF inv, of "slots s ! i"] i
    by (auto simp: msg_wf_def has_content_def)
qed

lemma add_refs_ok:
  assumes inv: "mem_inv s owed ext" and i: "i < length (slots s)" and ref: "refers a (slots s ! i)"
    and meta: "metadata (slots s ! i) = None"
    and bound: "length (slots s) + owed a + r < 2 ^ 32"
  shows "\<exists>s'. msg_add_refs (int r) i s = Some s' \<and> mem_inv s' (owed(a := owed a + r)) ext \<and>
    slots s' = (slots s)[i := if r = 0 then slots s ! i else copied (slots s ! i)] \<and> calls s' = calls s"
proof (cases "r = 0")
  case True
  then show ?thesis using inv i meta by (intro exI [of _ s]) (simp add: msg_add_refs_def)
next
  case False
  let ?m = "slots s ! i"
  from holder [OF inv i ref] obtain c where c: "contents s a = Some c" "?m \<in># held a (slots s)"
    "cont_ok (held a (slots s)) (owed a) (Some c)" .
  have t: "mtype ?m = type_lmsg \<or> mtype ?m = type_zclmsg" and b: "mbody ?m = Content (Some a)"
    using ref by (auto simp: refers_def has_content_def)
  have sz: "size (held a (slots s)) + owed a + r < 2 ^ 32" using held_size [of a "slots s"] bound by simp
  note h = held_copied(2) [OF i ref]
  show ?thesis
  proof (cases "is_shared ?m")
    case True
    let ?c = "c\<lparr>refcnt := refcnt c + of_nat r\<rparr>"
    have m: "copied ?m = ?m" using True by (simp add: copied_def)
    have "cont_ok (held a ((slots s)[i := copied ?m])) (owed a + r) (Some ?c)"
      using cont_reserve [OF c(3,2) True sz] by (simp add: m)
    from copied_inv [OF inv i ref this] show ?thesis
      using False True t b c i meta by (simp add: msg_add_refs_def m)
  next
    case nsh: False
    let ?c = "c\<lparr>refcnt := of_nat r + 1\<rparr>"
    have m: "copied ?m = ?m\<lparr>mflags := mflags ?m OR shared_flag\<rparr>"
      using nsh ref by (simp add: copied_def refers_def)
    have "is_shared (copied ?m)" "mtype (copied ?m) = mtype ?m" by (simp_all only: m shared_or, simp)
    note one = cont_share(1,2) [OF c(3,2) nsh this]
    have "held a ((slots s)[i := copied ?m]) = {#copied ?m#}"
      using h unfolding one(1) by (metis add_mset_commute add_mset_add_mset_same_iff)
    then have "cont_ok (held a ((slots s)[i := copied ?m])) (owed a + r) (Some ?c)"
      using c(3) one sz by (auto simp: cont_ok_def m)
    note inv' = copied_inv [OF inv i ref this]
    have "msg_add_refs (int r) i s =
        Some (s\<lparr>slots := (slots s)[i := copied ?m], contents := (contents s)(a \<mapsto> ?c)\<rparr>)"
      using False nsh t b c i meta by (simp add: msg_add_refs_def put_slot_def m)
    with inv' show ?thesis using False by simp
  qed
qed

text \<open>A plain copy of slot \<open>i\<close> into an idle slot \<open>k\<close> uses up one reserved reference.\<close>

lemma pod_copy_ok:
  assumes inv: "mem_inv s owed ext" and ik: "i < length (slots s)" "k < length (slots s)"
    and idle: "idle (slots s ! k)" and ref: "refers a (slots s ! i)" and meta: "metadata (slots s ! i) = None"
    and owed: "0 < owed a"
  shows "mem_inv (s\<lparr>slots := (slots s)[k := slots s ! i]\<rparr>) (owed(a := owed a - 1)) ext"
proof (rule mem_invI)
  let ?m = "slots s ! i" let ?s = "s\<lparr>slots := (slots s)[k := ?m]\<rparr>"
  have nk: "\<not> refers b (slots s ! k)" for b using idle by (simp add: idle_def not_refers)
  have h: "held b ((slots s)[k := ?m]) = (if b = a then add_mset ?m (held b (slots s)) else held b (slots s))" for b
  proof (cases "b = a")
    case True
    then show ?thesis using held_update [OF ik(2), of a ?m] nk [of a] ref by simp
  next
    case False
    then have "\<not> refers b ?m" using refers_unique [OF ref] by blast
    then show ?thesis using held_update [OF ik(2), of b ?m] nk [of b] False by simp
  qed
  from holder [OF inv ik(1) ref] obtain c where c: "contents s a = Some c" "?m \<in># held a (slots s)"
    "cont_ok (held a (slots s)) (owed a) (Some c)" .
  have "cont_ok (add_mset ?m (held a (slots s))) (owed a - 1) (Some c)"
  proof -
    have "held a (slots s) \<noteq> {#}" using c(2) by auto
    then have "1 \<le> size (held a (slots s))" by (simp add: Suc_le_eq nonempty_has_size)
    then have "size (held a (slots s)) + owed a \<noteq> 1" using owed by simp
    moreover have "size (add_mset ?m (held a (slots s))) + (owed a - 1) = size (held a (slots s)) + owed a"
      using owed by simp
    ultimately show ?thesis using c(2,3) unfolding cont_ok_def by (auto split: option.splits)
  qed
  then show "cont_ok (held b (slots ?s)) ((owed(a := owed a - 1)) b) (contents ?s b)" for b
    using h [of b] c(1) mem_invD(2) [OF inv, of b] by (cases "b = a") simp_all
  have "\<not> meta_refers b (slots s ! k)" "\<not> meta_refers b ?m" for b
    using idle meta by (simp_all add: idle_def meta_refers_def)
  then have "meta_held b ((slots s)[k := ?m]) = meta_held b (slots s)" for b
    using meta_held_update [OF ik(2), of b ?m] by simp
  then show "meta_ok (meta_held b (slots ?s) + ext b) (metas ?s b)" for b
    using mem_invD(3) [OF inv, of b] by simp
  fix x assume "x \<in> set (slots ?s)"
  then have "x = ?m \<or> x \<in> set (slots s)" using set_update_subset_insert [of "slots s" k ?m] by auto
  then show "msg_wf x" using mem_invD(1) [OF inv] ik(1) by auto
qed

lemma cont_unreserve:
  assumes "cont_ok R k (Some c)" "m \<in># R" "is_shared m" "r \<le> k" "0 < r"
  shows "refcnt c - of_nat r \<noteq> 0" "cont_ok R (k - r) (Some (c\<lparr>refcnt := refcnt c - of_nat r\<rparr>))"
proof -
  have R: "R \<noteq> {#}" using assms(2) by auto
  then have one: "1 \<le> size R" by (simp add: Suc_le_eq nonempty_has_size)
  have sh: "\<forall>x \<in># R. is_shared x"
    using assms(1,4,5) one by (auto simp: cont_ok_def)
  have n: "size R + k < 2 ^ 32" "refcnt c = of_nat (size R + k)" using assms(1) sh by (auto simp: cont_ok_def)
  have "refcnt c - of_nat r = of_nat (size R + k - r)"
    unfolding n(2) using assms(4) by (subst of_nat_diff) simp_all
  then have d: "refcnt c - of_nat r = of_nat (size R + (k - r))" using assms(4) by simp
  then show "refcnt c - of_nat r \<noteq> 0" using of_nat_0_u32 [of "size R + (k - r)"] n(1) R by simp
  show "cont_ok R (k - r) (Some (c\<lparr>refcnt := refcnt c - of_nat r\<rparr>))"
    using assms(1) sh n(1) one d unfolding cont_ok_def by auto
qed

lemma rm_refs_some:
  assumes inv: "mem_inv s owed ext" and i: "i < length (slots s)" and ref: "refers a (slots s ! i)"
    and meta: "metadata (slots s ! i) = None" and r: "r \<le> owed a"
  shows "\<exists>s'. msg_rm_refs (int r) i s = Some (True, s') \<and> mem_inv s' (owed(a := owed a - r)) ext \<and>
    slots s' = slots s \<and> calls s' = calls s"
proof (cases "r = 0")
  case True
  then show ?thesis using inv i meta by (intro exI [of _ s]) (simp add: msg_rm_refs_def)
next
  case False
  let ?m = "slots s ! i"
  from holder [OF inv i ref] obtain c where c: "contents s a = Some c" "?m \<in># held a (slots s)"
    "cont_ok (held a (slots s)) (owed a) (Some c)" .
  have t: "mtype ?m = type_lmsg \<or> mtype ?m = type_zclmsg" and b: "mbody ?m = Content (Some a)"
    using ref by (auto simp: refers_def has_content_def)
  have "held a (slots s) \<noteq> {#}" using c(2) by auto
  then have "1 \<le> size (held a (slots s))" by (simp add: Suc_le_eq nonempty_has_size)
  then have sh: "is_shared ?m" using c(2,3) r False by (auto simp: cont_ok_def)
  note un = cont_unreserve [OF c(3,2) sh r]
  let ?s = "s\<lparr>contents := (contents s)(a \<mapsto> c\<lparr>refcnt := refcnt c - of_nat r\<rparr>)\<rparr>"
  have "mem_inv ?s (owed(a := owed a - r)) ext"
    using inv un(2) False by (auto simp: mem_inv_def)
  moreover have "msg_rm_refs (int r) i s = Some (True, ?s)"
    using False t b c i meta sh un(1) by (auto simp: msg_rm_refs_def Let_def)
  ultimately show ?thesis by (intro exI [of _ ?s]) simp
qed

text \<open>All references go, the slot's own included; the caller then reinitialises the slot.\<close>

lemma rm_refs_all:
  assumes inv: "mem_inv s owed ext" and i: "i < length (slots s)" and ref: "refers a (slots s ! i)"
    and meta: "metadata (slots s ! i) = None" and only: "size (held a (slots s)) = 1"
    and check: "msg_check (slots s ! i)"
  shows "\<exists>s'. msg_rm_refs (int (Suc (owed a))) i s = Some (False, s') \<and> contents s' a = None \<and>
    mem_inv (s'\<lparr>slots := (slots s)[i := blank type_vsm (Vsm [])]\<rparr>) (owed(a := 0)) ext"
proof -
  let ?m = "slots s ! i" and ?b = "blank type_vsm (Vsm [])"
  from holder [OF inv i ref] obtain c where c: "contents s a = Some c" "?m \<in># held a (slots s)"
    "cont_ok (held a (slots s)) (owed a) (Some c)" .
  have t: "mtype ?m = type_lmsg \<or> mtype ?m = type_zclmsg" and b: "mbody ?m = Content (Some a)"
    using ref by (auto simp: refers_def has_content_def)
  from only obtain y where "held a (slots s) = {#y#}" by (metis size_1_singleton_mset)
  with c(2) have R: "held a (slots s) = {#?m#}" by simp
  have nb: "\<not> refers x ?b" for x by (simp add: refers_def has_content_def blank_def)
  have hb: "held x ((slots s)[i := ?b]) = (if x = a then {#} else held x (slots s))" for x
  proof (cases "x = a")
    case True
    then show ?thesis using held_update [OF i, of a ?b] nb R ref by simp
  next
    case False
    then have "\<not> refers x ?m" using refers_unique [OF ref] by blast
    then show ?thesis using held_update [OF i, of x ?b] nb False by simp
  qed
  have mh: "meta_held x ((slots s)[i := ?b]) = meta_held x (slots s)" for x
    using meta_held_update [OF i, of x ?b] meta by (simp add: meta_refers_def blank_def)
  have after: "mem_inv (s'\<lparr>slots := (slots s)[i := ?b]\<rparr>) (owed(a := 0)) ext"
    if "contents s' = (contents s)(a := None)" "metas s' = metas s" for s'
  proof (rule mem_invI)
    show "cont_ok (held x (slots (s'\<lparr>slots := (slots s)[i := ?b]\<rparr>))) ((owed(a := 0)) x)
        (contents (s'\<lparr>slots := (slots s)[i := ?b]\<rparr>) x)" for x
      using hb [of x] mem_invD(2) [OF inv, of x] that by (cases "x = a") (simp_all add: cont_ok_def)
    show "meta_ok (meta_held x (slots (s'\<lparr>slots := (slots s)[i := ?b]\<rparr>)) + ext x)
        (metas (s'\<lparr>slots := (slots s)[i := ?b]\<rparr>) x)" for x
      using mem_invD(3) [OF inv, of x] mh that by simp
    fix y assume "y \<in> set (slots (s'\<lparr>slots := (slots s)[i := ?b]\<rparr>))"
    then have "y = ?b \<or> y \<in> set (slots s)" using set_update_subset_insert [of "slots s" i ?b] by auto
    then show "msg_wf y" using mem_invD(1) [OF inv] by (auto simp: msg_wf_def has_content_def blank_def)
  qed
  show ?thesis
  proof (cases "is_shared ?m")
    case True
    then have "refcnt c = of_nat (Suc (owed a))" using c(3) R by (simp add: cont_ok_def)
    then have "msg_rm_refs (int (Suc (owed a))) i s = Some (False, release a c s)"
      using t b c i meta True by (auto simp: msg_rm_refs_def Let_def)
    then show ?thesis using after [of "release a c s"] by (simp add: release_def)
  next
    case False
    then have o: "owed a = 0" using c(3) R by (simp add: cont_ok_def)
    have f: "mtype ?m = type_zclmsg \<longrightarrow> ffn c \<noteq> None" using c(3) R by (simp add: cont_ok_def)
    let ?s = "release a c s" let ?s' = "?s\<lparr>slots := (slots s)[i := ?m\<lparr>metadata := None, mtype := 0\<rparr>]\<rparr>"
    have "msg_close i s = Some (0, ?s')"
      using t b c i meta False f check
      by (auto simp: msg_close_def drop_content_def drop_meta_def put_slot_def release_def)
    then have "msg_rm_refs (int (Suc (owed a))) i s = Some (False, ?s')"
      using t b c i meta False o by (simp add: msg_rm_refs_def)
    then show ?thesis using after [of "?s'"] by (simp add: release_def)
  qed
qed

subsection \<open>The bytes a slot shows\<close>

lemma other_not_last:
  assumes "i < length (slots s)" "j < length (slots s)" "i \<noteq> j" "refers a (slots s ! j)"
  shows "\<not> last_ref s owed i a"
proof
  assume l: "last_ref s owed i a"
  let ?ms = "(slots s)[i := blank type_vsm NoData]"
  have "\<not> refers a (blank type_vsm NoData)" by (simp add: blank_def refers_def)
  then have "add_mset (slots s ! i) (held a ?ms) = held a (slots s)"
    using held_update [OF assms(1), of a "blank type_vsm NoData"] l by (simp add: last_ref_def)
  then have "Suc (size (held a ?ms)) = size (held a (slots s))" by (metis size_add_mset)
  then have "size (held a ?ms) = 0" using l unfolding last_ref_def by linarith
  moreover have "?ms ! j = slots s ! j" using assms(3) by simp
  then have "slots s ! j \<in> set ?ms" using assms(2) by (metis length_list_update nth_mem)
  then have "slots s ! j \<in># held a ?ms" using assms(4) by (simp add: held_mem)
  ultimately show False by auto
qed

lemma msg_data_cong:
  assumes "mtype m' = mtype m" "mbody m' = mbody m"
    "\<And>a. refers a m \<Longrightarrow> map_option cdata (contents s' a) = map_option cdata (contents s a)"
  shows "msg_data m' s' = msg_data m s"
proof (cases "has_content m")
  case False
  then show ?thesis using assms(1,2)
    by (auto simp: msg_data_def msg_check_def has_content_def split: body.split)
next
  case True
  have cont: "(do { c \<leftarrow> contents s' a; Some (cdata c) }) = (do { c \<leftarrow> contents s a; Some (cdata c) })"
    if "mbody m = Content (Some a)" for a
    using assms(3) [of a] True that by (cases "contents s a"; cases "contents s' a") (simp_all add: refers_def)
  show ?thesis
  proof (cases "mbody m")
    case (Content p)
    then show ?thesis using assms(1,2) cont
      by (cases p) (simp_all add: msg_data_def msg_check_def)
  qed (use assms(1,2) in \<open>simp_all add: msg_data_def msg_check_def\<close>)
qed

text \<open>An initial memory: \<open>n\<close> slots that hold nothing.\<close>

definition mem0 :: "nat \<Rightarrow> mem" where
  "mem0 n = \<lparr>slots = replicate n (blank 0 NoData), contents = (\<lambda>_. None), metas = (\<lambda>_. None), calls = []\<rparr>"

lemma mem0_inv: "mem_inv (mem0 n) (\<lambda>_. 0) (\<lambda>_. 0)"
proof (rule mem_invI)
  have "refers a (blank 0 NoData) = False" "meta_refers a (blank 0 NoData) = False" for a
    by (simp_all add: refers_def blank_def meta_refers_def)
  then have "held a (replicate n (blank 0 NoData)) = {#}" "meta_held a (replicate n (blank 0 NoData)) = 0" for a
    by (simp_all add: held_def meta_held_def)
  then show "cont_ok (held a (slots (mem0 n))) 0 (contents (mem0 n) a)"
    "meta_ok (meta_held a (slots (mem0 n)) + 0) (metas (mem0 n) a)" for a
    by (simp_all add: mem0_def cont_ok_def meta_ok_def)
  fix m assume "m \<in> set (slots (mem0 n))"
  then show "msg_wf m" by (simp add: mem0_def msg_wf_def blank_def has_content_def)
qed

lemma mem0_idle: "i < n \<Longrightarrow> idle (slots (mem0 n) ! i)"
  by (simp add: mem0_def idle_def blank_def has_content_def msg_check_def)

lemma data_check: "msg_data m s = Some d \<Longrightarrow> msg_check m"
  by (simp add: msg_data_def)

text \<open>A memory of two slots, the first with a message of 40 bytes, the second an empty message.\<close>

lemma mem2:
  obtains s where "mem_inv s (\<lambda>_. 0) (\<lambda>_. 0)" "length (slots s) = 2"
    "slots s ! 0 = blank type_lmsg (Content (Some 7))" "msg_data (slots s ! 0) s = Some (replicate 40 9)"
    "slots s ! 1 = blank type_vsm (Vsm [])"
proof -
  let ?x = "\<lparr>cdata = replicate 40 9, ffn = None, hint = 0, refcnt = 0\<rparr>"
  let ?s = "(mem0 2)\<lparr>slots := (slots (mem0 2))[0 := blank type_lmsg (Content (Some 7))],
      contents := (contents (mem0 2))(7 \<mapsto> ?x)\<rparr>"
  have "mem_inv ?s (\<lambda>_. 0) (\<lambda>_. 0)"
    by (rule fresh_content_ok [OF mem0_inv _ mem0_idle]) (simp_all add: mem0_def)
  then have "mem_inv (?s\<lparr>slots := (slots ?s)[1 := blank type_vsm (Vsm [])]\<rparr>) (\<lambda>_. 0) (\<lambda>_. 0)"
    by (rule idle_update) (simp_all add: mem0_def idle_def blank_def has_content_def msg_check_def)
  then show thesis
    by (rule that) (simp_all add: mem0_def msg_data_def blank_def msg_check_def)
qed

subsection \<open>Properties\<close>

text \<open>
  C10: Closing a valid message keeps every reference count right: its content is freed, and
  the user's deallocation function called with the data and the hint, exactly when this was
  the last reference to it; no other content is touched.
\<close>

theorem msg_close_correct:
  assumes "mem_inv s owed ext" "i < length (slots s)" "msg_check (slots s ! i)"
  shows "\<exists>s'. msg_close i s = Some (0, s') \<and> mem_inv s' owed ext \<and> \<not> msg_check (slots s' ! i) \<and>
    (\<forall>a. map_option cdata (contents s' a) =
      (if last_ref s owed i a then None else map_option cdata (contents s a))) \<and>
    calls s' = calls s @ free_calls s owed i"
proof -
  from close_ok [OF assms] obtain s' where s': "msg_close i s = Some (0, s')" "mem_inv s' owed ext"
    "slots s' = (slots s)[i := (slots s ! i)\<lparr>metadata := None, mtype := 0\<rparr>]"
    "\<forall>a. map_option cdata (contents s' a) =
      (if last_ref s owed i a then None else map_option cdata (contents s a))"
    "calls s' = calls s @ free_calls s owed i" by blast
  have "\<not> msg_check (slots s' ! i)" using s'(3) assms(2) by (simp add: msg_check_def)
  with s' show ?thesis by blast
qed

theorem msg_close_correct_witness:
  "\<exists>s s'. contents s 7 \<noteq> None \<and> msg_close 0 s = Some (0, s') \<and> contents s' 7 = None"
proof (rule mem2)
  fix s assume s: "mem_inv s (\<lambda>_. 0) (\<lambda>_. 0)" "length (slots s) = 2"
    "slots s ! 0 = blank type_lmsg (Content (Some 7))" "msg_data (slots s ! 0) s = Some (replicate 40 9)"
  have m: "msg_check (slots s ! 0)" by (rule data_check [OF s(4)])
  from msg_close_correct [OF s(1) _ m] s(2) obtain s' where s': "msg_close 0 s = Some (0, s')"
    "mem_inv s' (\<lambda>_. 0) (\<lambda>_. 0)"
    "map_option cdata (contents s' 7) = (if last_ref s (\<lambda>_. 0) 0 7 then None else map_option cdata (contents s 7))"
    by auto
  have r: "refers 7 (slots s ! 0)" by (simp add: s(3) blank_def refers_def has_content_def)
  from holder [OF s(1) _ r] s(2) obtain c where "contents s 7 = Some c" "cont_ok (held 7 (slots s)) 0 (Some c)"
    "slots s ! 0 \<in># held 7 (slots s)" by auto
  moreover have "\<not> is_shared (slots s ! 0)" by (simp add: s(3) blank_def is_shared_def)
  ultimately have "contents s 7 \<noteq> None" "last_ref s (\<lambda>_. 0) 0 7"
    using r unfolding last_ref_def cont_ok_def by auto
  then show ?thesis using s'(1,3) by auto
qed

text \<open>
  C11: Copying a message makes both messages the same: they show the bytes of the source and, when
  these lie in a content block (a small message holds its bytes itself), both refer to the block of the
  source and are marked as sharing it; no block is allocated and the other messages stay. What
  the destination held before is released as by \<open>close\<close>, and the counts stay right.
\<close>

theorem msg_copy_correct:
  assumes "mem_inv s owed ext" "i < length (slots s)" "j < length (slots s)" "i \<noteq> j"
    "msg_check (slots s ! i)" "msg_check (slots s ! j)"
    "\<And>a. length (slots s) + owed a < 2 ^ 32" "\<And>a. length (slots s) + ext a < 2 ^ 32"
  shows "\<exists>s'. msg_copy i j s = Some (0, s') \<and> mem_inv s' owed ext \<and>
    msg_data (slots s' ! i) s' = msg_data (slots s ! j) s \<and>
    msg_data (slots s' ! j) s' = msg_data (slots s ! j) s \<and>
    slots s' ! i = slots s' ! j \<and> mbody (slots s' ! i) = mbody (slots s ! j) \<and>
    (has_content (slots s ! j) \<longrightarrow> is_shared (slots s' ! i)) \<and>
    (\<forall>k. k \<noteq> i \<and> k \<noteq> j \<longrightarrow> slots s' ! k = slots s ! k) \<and>
    dom (contents s') \<subseteq> dom (contents s) \<and>
    calls s' = calls s @ free_calls s owed i"
proof -
  let ?m = "copied (slots s ! j)"
  from copy_ok [OF assms(1-8)] obtain s' where s': "msg_copy i j s = Some (0, s')" "mem_inv s' owed ext"
    "slots s' = (slots s)[j := ?m, i := ?m]"
    "\<And>a. map_option cdata (contents s' a) = (if last_ref s owed i a then None else map_option cdata (contents s a))"
    "calls s' = calls s @ free_calls s owed i" by blast
  have "msg_data ?m s' = msg_data (slots s ! j) s"
    by (rule msg_data_cong) (simp_all add: s'(4) other_not_last [OF assms(2-4)])
  moreover have "slots s' ! i = ?m" "slots s' ! j = ?m" using s'(3) assms(2-4) by simp_all
  moreover have "has_content (slots s ! j) \<longrightarrow> is_shared ?m" by (auto simp: copied_def)
  moreover have "dom (contents s') \<subseteq> dom (contents s)"
  proof
    fix a assume "a \<in> dom (contents s')"
    with s'(4) [of a] show "a \<in> dom (contents s)" by (cases "contents s a") (auto simp: dom_def split: if_splits)
  qed
  moreover have "\<forall>k. k \<noteq> i \<and> k \<noteq> j \<longrightarrow> slots s' ! k = slots s ! k" using s'(3) by simp
  ultimately show ?thesis using s' by simp
qed

theorem msg_copy_correct_witness:
  "\<exists>s s'. msg_copy 1 0 s = Some (0, s') \<and> msg_data (slots s' ! 1) s' = Some (replicate 40 9)"
proof (rule mem2)
  fix s assume s: "mem_inv s (\<lambda>_. 0) (\<lambda>_. 0)" "length (slots s) = 2"
    "slots s ! 0 = blank type_lmsg (Content (Some 7))" "msg_data (slots s ! 0) s = Some (replicate 40 9)"
    "slots s ! 1 = blank type_vsm (Vsm [])"
  have "msg_check (slots s ! 1)" unfolding s(5) by (simp add: blank_def msg_check_def)
  with msg_copy_correct [OF s(1), of 1 0] s(2,4) data_check [OF s(4)] show ?thesis by auto
qed

text \<open>
  Moving a message transfers its bytes to the destination and leaves an empty message;
  the destination's old content is released and no count changes hands wrongly.
\<close>

theorem msg_move_correct:
  assumes "mem_inv s owed ext" "i < length (slots s)" "j < length (slots s)" "i \<noteq> j"
    "msg_check (slots s ! i)" "msg_check (slots s ! j)"
  shows "\<exists>s'. msg_move i j s = Some (0, s') \<and> mem_inv s' owed ext \<and>
    msg_data (slots s' ! i) s' = msg_data (slots s ! j) s \<and> msg_data (slots s' ! j) s' = Some [] \<and>
    calls s' = calls s @ free_calls s owed i"
proof -
  from move_ok [OF assms] obtain s' where s': "msg_move i j s = Some (0, s')" "mem_inv s' owed ext"
    "slots s' = (slots s)[i := slots s ! j, j := blank type_vsm (Vsm [])]"
    "\<And>a. map_option cdata (contents s' a) = (if last_ref s owed i a then None else map_option cdata (contents s a))"
    "calls s' = calls s @ free_calls s owed i" by blast
  have "msg_data (slots s ! j) s' = msg_data (slots s ! j) s"
    by (rule msg_data_cong) (simp_all add: s'(4) other_not_last [OF assms(2-4)])
  moreover have "slots s' ! i = slots s ! j" "slots s' ! j = blank type_vsm (Vsm [])"
    using s'(3) assms(2-4) by simp_all
  moreover have "msg_data (blank type_vsm (Vsm [])) s' = Some []"
    by (simp add: msg_data_def blank_def msg_check_def)
  ultimately show ?thesis using s' by simp
qed

theorem msg_move_correct_witness:
  "\<exists>s s'. msg_move 1 0 s = Some (0, s') \<and> msg_data (slots s' ! 1) s' = Some (replicate 40 9)"
proof (rule mem2)
  fix s assume s: "mem_inv s (\<lambda>_. 0) (\<lambda>_. 0)" "length (slots s) = 2"
    "slots s ! 0 = blank type_lmsg (Content (Some 7))" "msg_data (slots s ! 0) s = Some (replicate 40 9)"
    "slots s ! 1 = blank type_vsm (Vsm [])"
  have "msg_check (slots s ! 1)" unfolding s(5) by (simp add: blank_def msg_check_def)
  with msg_move_correct [OF s(1), of 1 0] s(2,4) data_check [OF s(4)] show ?thesis by auto
qed

text \<open>
  C12: \<open>add_refs\<close> reserves references that plain copies then use; \<open>rm_refs\<close> gives back
  those that were not used, and frees the content exactly when all of them, and the
  message's own, are given back.
\<close>

theorem msg_refs_correct:
  assumes "mem_inv s owed ext" "i < length (slots s)" "refers a (slots s ! i)"
    "metadata (slots s ! i) = None" "msg_check (slots s ! i)"
  shows "(length (slots s) + owed a + r < 2 ^ 32 \<longrightarrow>
      (\<exists>s'. msg_add_refs (int r) i s = Some s' \<and> mem_inv s' (owed(a := owed a + r)) ext)) \<and>
    (r \<le> owed a \<longrightarrow>
      (\<exists>s'. msg_rm_refs (int r) i s = Some (True, s') \<and> mem_inv s' (owed(a := owed a - r)) ext \<and>
        calls s' = calls s)) \<and>
    (size (held a (slots s)) = 1 \<longrightarrow>
      (\<exists>s'. msg_rm_refs (int (Suc (owed a))) i s = Some (False, s') \<and> contents s' a = None \<and>
        mem_inv (s'\<lparr>slots := (slots s)[i := blank type_vsm (Vsm [])]\<rparr>) (owed(a := 0)) ext))"
  using add_refs_ok [OF assms(1-4)] rm_refs_some [OF assms(1-4)] rm_refs_all [OF assms(1-4) _ assms(5)]
  by blast

theorem msg_refs_correct_witness:
  "\<exists>s s'. refers 7 (slots s ! 0) \<and> msg_add_refs 3 0 s = Some s' \<and> mem_inv s' ((\<lambda>_. 0)(7 := 3)) (\<lambda>_. 0)"
proof (rule mem2)
  fix s assume s: "mem_inv s (\<lambda>_. 0) (\<lambda>_. 0)" "length (slots s) = 2"
    "slots s ! 0 = blank type_lmsg (Content (Some 7))"
  have "refers 7 (slots s ! 0)" "metadata (slots s ! 0) = None" "msg_check (slots s ! 0)"
    by (simp_all add: s(3) blank_def refers_def has_content_def msg_check_def)
  with msg_refs_correct [OF s(1), of 0 7 3] s(2) show ?thesis by auto
qed

end
