(* ===== verification/Ypipe_Conflate.thy ===== *)
theory Ypipe_Conflate
  imports Message
begin

text \<open>
  \<open>dbuffer_t\<close> of \<open>src/zmqsrc/src/dbuffer.hpp\<close> and \<open>ypipe_conflate_t\<close> of
  \<open>ypipe_conflate.hpp\<close>: the pipe of the conflate option, which keeps the last message only.
  The two buffers are the slots \<open>dback\<close> and \<open>dfront\<close> of the memory of \<open>Message\<close>, so that the
  plain copies and moves of messages keep their reference counts in view. An operation
  holds the mutex for its whole critical section; whether \<open>try_lock\<close> succeeds is an argument.
\<close>

record dbuffer =
  dback :: nat
  dfront :: nat
  has_msg :: bool
  dmem :: mem

definition new_dbuffer :: "nat \<Rightarrow> nat \<Rightarrow> mem \<Rightarrow> dbuffer option" where
  "new_dbuffer i j s = do {
     (_, s) \<leftarrow> msg_init i s;
     (_, s) \<leftarrow> msg_init j s;
     Some \<lparr>dback = i, dfront = j, has_msg = False, dmem = s\<rparr> }"

definition destroy_dbuffer :: "dbuffer \<Rightarrow> mem option" where
  "destroy_dbuffer d = do {
     (_, s) \<leftarrow> msg_close (dback d) (dmem d);
     (_, s) \<leftarrow> msg_close (dfront d) s;
     Some s }"

definition dbuffer_write :: "bool \<Rightarrow> nat \<Rightarrow> dbuffer \<Rightarrow> dbuffer option" where
  "dbuffer_write locked v d = do {
     x \<leftarrow> table_at (slots (dmem d)) v;
     zmq_assert (msg_check x);
     (_, s) \<leftarrow> msg_move (dback d) v (dmem d);
     b \<leftarrow> table_at (slots s) (dback d);
     zmq_assert (msg_check b);
     if locked then Some (d\<lparr>dmem := s, dback := dfront d, dfront := dback d, has_msg := True\<rparr>)
     else Some (d\<lparr>dmem := s\<rparr>) }"

text \<open>\<open>*value_ = *front\<close> is a plain copy; \<open>None\<close> for the value is the null pointer.\<close>

definition dbuffer_read :: "nat option \<Rightarrow> dbuffer \<Rightarrow> (bool \<times> dbuffer) option" where
  "dbuffer_read v d =
     (case v of
        None \<Rightarrow> Some (False, d)
      | Some i \<Rightarrow>
          if \<not> has_msg d then Some (False, d)
          else do {
            f \<leftarrow> table_at (slots (dmem d)) (dfront d);
            zmq_assert (msg_check f);
            s \<leftarrow> put_slot i f (dmem d);
            (_, s) \<leftarrow> msg_init (dfront d) s;
            Some (True, d\<lparr>dmem := s, has_msg := False\<rparr>) })"

definition dbuffer_check_read :: "dbuffer \<Rightarrow> bool" where
  "dbuffer_check_read d = has_msg d"

definition dbuffer_probe :: "(msg \<Rightarrow> bool) \<Rightarrow> dbuffer \<Rightarrow> bool option" where
  "dbuffer_probe fn d = do { f \<leftarrow> table_at (slots (dmem d)) (dfront d); Some (fn f) }"

record conflate =
  dbuf :: dbuffer
  reader_awake :: bool

definition new_conflate :: "nat \<Rightarrow> nat \<Rightarrow> mem \<Rightarrow> conflate option" where
  "new_conflate i j s = do { d \<leftarrow> new_dbuffer i j s; Some \<lparr>dbuf = d, reader_awake = False\<rparr> }"

definition conflate_write :: "bool \<Rightarrow> nat \<Rightarrow> bool \<Rightarrow> conflate \<Rightarrow> conflate option" where
  "conflate_write locked v incomplete c = do {
     d \<leftarrow> dbuffer_write locked v (dbuf c); Some (c\<lparr>dbuf := d\<rparr>) }"

definition conflate_unwrite :: "conflate \<Rightarrow> bool" where
  "conflate_unwrite c = False"

definition conflate_flush :: "conflate \<Rightarrow> bool" where
  "conflate_flush c = reader_awake c"

definition conflate_check_read :: "conflate \<Rightarrow> bool \<times> conflate" where
  "conflate_check_read c =
     (let res = dbuffer_check_read (dbuf c)
      in (res, if \<not> res then c\<lparr>reader_awake := False\<rparr> else c))"

definition conflate_read :: "nat option \<Rightarrow> conflate \<Rightarrow> (bool \<times> conflate) option" where
  "conflate_read v c =
     (let (res, c) = conflate_check_read c in
      if \<not> res then Some (False, c)
      else do { (r, d) \<leftarrow> dbuffer_read v (dbuf c); Some (r, c\<lparr>dbuf := d\<rparr>) })"

definition conflate_probe :: "(msg \<Rightarrow> bool) \<Rightarrow> conflate \<Rightarrow> bool option" where
  "conflate_probe fn c = dbuffer_probe fn (dbuf c)"

subsection \<open>The invariant and the operations\<close>

definition dbuffer_inv :: "dbuffer \<Rightarrow> (nat \<Rightarrow> nat) \<Rightarrow> (nat \<Rightarrow> nat) \<Rightarrow> bool" where
  "dbuffer_inv d owed ext \<longleftrightarrow> mem_inv (dmem d) owed ext \<and> dback d \<noteq> dfront d \<and>
     dback d < length (slots (dmem d)) \<and> dfront d < length (slots (dmem d)) \<and>
     msg_check (slots (dmem d) ! dback d) \<and> msg_check (slots (dmem d) ! dfront d)"

lemma new_dbuffer_ok:
  assumes "mem_inv s owed ext" "i < length (slots s)" "j < length (slots s)" "i \<noteq> j"
    "idle (slots s ! i)" "idle (slots s ! j)"
  shows "\<exists>d. new_dbuffer i j s = Some d \<and> dbuffer_inv d owed ext \<and> \<not> has_msg d \<and>
    dback d = i \<and> dfront d = j \<and> slots (dmem d) = (slots s)[i := blank type_vsm (Vsm []), j := blank type_vsm (Vsm [])]"
proof -
  let ?b = "blank type_vsm (Vsm [])"
  from init_ok [OF assms(1,2,5), of type_vsm "Vsm []"] obtain s1 where
    s1: "put_slot i ?b s = Some s1" "mem_inv s1 owed ext" "slots s1 = (slots s)[i := ?b]" by auto
  have "\<exists>s2. put_slot j ?b s1 = Some s2 \<and> mem_inv s2 owed ext \<and> slots s2 = (slots s1)[j := ?b] \<and>
      contents s2 = contents s1 \<and> calls s2 = calls s1"
    by (rule init_ok [OF s1(2)]) (use assms s1(3) in simp_all)
  then obtain s2 where "put_slot j ?b s1 = Some s2" "mem_inv s2 owed ext" "slots s2 = (slots s1)[j := ?b]"
    by blast
  with s1 assms show ?thesis
    by (simp add: new_dbuffer_def msg_init_def dbuffer_inv_def blank_def msg_check_def)
qed

lemma dbuffer_write_ok:
  assumes inv: "dbuffer_inv d owed ext" and v: "v < length (slots (dmem d))" "msg_check (slots (dmem d) ! v)"
    "v \<noteq> dback d" "v \<noteq> dfront d"
  shows "\<exists>d'. dbuffer_write locked v d = Some d' \<and> dbuffer_inv d' owed ext \<and>
    has_msg d' = (has_msg d \<or> locked) \<and>
    {dback d', dfront d'} = {dback d, dfront d} \<and>
    slots (dmem d') ! v = blank type_vsm (Vsm []) \<and> length (slots (dmem d')) = length (slots (dmem d)) \<and>
    (locked \<longrightarrow> msg_data (slots (dmem d') ! dfront d') (dmem d') = msg_data (slots (dmem d) ! v) (dmem d)) \<and>
    (\<forall>k. k \<noteq> v \<longrightarrow> k \<noteq> dback d \<longrightarrow> slots (dmem d') ! k = slots (dmem d) ! k)"
proof -
  let ?s = "dmem d" let ?b = "dback d"
  note i = inv [unfolded dbuffer_inv_def]
  from i have ib: "mem_inv ?s owed ext" "?b < length (slots ?s)" "msg_check (slots ?s ! ?b)" by blast+
  from move_ok [OF ib(1,2) v(1) v(3) [symmetric] ib(3) v(2)] obtain s' where
    s': "msg_move ?b v ?s = Some (0, s')" "mem_inv s' owed ext"
      "slots s' = (slots ?s)[?b := slots ?s ! v, v := blank type_vsm (Vsm [])]"
      "\<And>a. map_option cdata (contents s' a) =
        (if last_ref ?s owed ?b a then None else map_option cdata (contents ?s a))" by blast
  have data: "msg_data (slots ?s ! v) s' = msg_data (slots ?s ! v) ?s"
    by (rule msg_data_cong) (simp_all add: s'(4) other_not_last [OF ib(2) v(1) v(3) [symmetric]])
  have at: "slots s' ! ?b = slots ?s ! v" "slots s' ! v = blank type_vsm (Vsm [])"
    "length (slots s') = length (slots ?s)"
    using s'(3) v ib(2) by auto
  have oth: "slots s' ! k = slots ?s ! k" if "k \<noteq> v" "k \<noteq> ?b" for k using s'(3) that by simp
  let ?d = "if locked then d\<lparr>dmem := s', dback := dfront d, dfront := dback d, has_msg := True\<rparr>
    else d\<lparr>dmem := s'\<rparr>"
  have "dbuffer_write locked v d = Some ?d"
    using v s'(1) at ib(2) by (simp add: dbuffer_write_def)
  moreover have "dbuffer_inv ?d owed ext" using i s'(2) at v oth by (auto simp: dbuffer_inv_def)
  ultimately show ?thesis using at data oth by (intro exI [of _ ?d]) auto
qed

lemma dbuffer_read_ok:
  assumes inv: "dbuffer_inv d owed ext" and has: "has_msg d"
    and v: "v < length (slots (dmem d))" "idle (slots (dmem d) ! v)" "v \<noteq> dback d" "v \<noteq> dfront d"
  shows "\<exists>d'. dbuffer_read (Some v) d = Some (True, d') \<and> dbuffer_inv d' owed ext \<and> \<not> has_msg d' \<and>
    msg_data (slots (dmem d') ! v) (dmem d') = msg_data (slots (dmem d) ! dfront d) (dmem d) \<and>
    dback d' = dback d \<and> dfront d' = dfront d"
proof -
  let ?s = "dmem d" and ?f = "dfront d" and ?b = "blank type_vsm (Vsm [])"
  note i = inv [unfolded dbuffer_inv_def]
  let ?s' = "?s\<lparr>slots := (slots ?s)[v := slots ?s ! ?f, ?f := ?b]\<rparr>"
  have "mem_inv ?s' owed ext"
    by (rule move_update) (use i v idle_blank in auto)
  moreover have "dbuffer_read (Some v) d = Some (True, d\<lparr>dmem := ?s', has_msg := False\<rparr>)"
    using i v has by (simp add: dbuffer_read_def put_slot_def msg_init_def)
  moreover have "msg_data (slots ?s' ! v) ?s' = msg_data (slots ?s ! ?f) ?s"
    using v by (intro msg_data_cong) simp_all
  moreover have "msg_check ?b" by (simp add: blank_def msg_check_def)
  ultimately show ?thesis using i v
    by (intro exI [of _ "d\<lparr>dmem := ?s', has_msg := False\<rparr>"]) (auto simp: dbuffer_inv_def)
qed

subsection \<open>Properties\<close>

text \<open>
  C13: The conflating pipe keeps the last message: once a write got the lock, the next read
  delivers exactly the bytes of that message, whatever was in the pipe before, the write leaves the
  slot written from an empty message, and no reference count goes wrong on the way.
\<close>

theorem conflate_last_wins:
  assumes "dbuffer_inv (dbuf c) owed ext"
    "v < length (slots (dmem (dbuf c)))" "msg_check (slots (dmem (dbuf c)) ! v)"
    "v \<noteq> dback (dbuf c)" "v \<noteq> dfront (dbuf c)"
    "w < length (slots (dmem (dbuf c)))" "idle (slots (dmem (dbuf c)) ! w)"
    "w \<noteq> dback (dbuf c)" "w \<noteq> dfront (dbuf c)" "w \<noteq> v"
  shows "\<exists>c1 c2. conflate_write True v incomplete c = Some c1 \<and>
    slots (dmem (dbuf c1)) ! v = blank type_vsm (Vsm []) \<and>
    conflate_read (Some w) c1 = Some (True, c2) \<and> dbuffer_inv (dbuf c2) owed ext \<and>
    msg_data (slots (dmem (dbuf c2)) ! w) (dmem (dbuf c2)) =
      msg_data (slots (dmem (dbuf c)) ! v) (dmem (dbuf c)) \<and>
    \<not> fst (conflate_check_read c2)"
proof -
  from dbuffer_write_ok [OF assms(1-5), of True] obtain d1 where
    d1: "dbuffer_write True v (dbuf c) = Some d1" "dbuffer_inv d1 owed ext" "has_msg d1"
      "{dback d1, dfront d1} = {dback (dbuf c), dfront (dbuf c)}"
      "length (slots (dmem d1)) = length (slots (dmem (dbuf c)))"
      "msg_data (slots (dmem d1) ! dfront d1) (dmem d1) = msg_data (slots (dmem (dbuf c)) ! v) (dmem (dbuf c))"
      "slots (dmem d1) ! w = slots (dmem (dbuf c)) ! w" "slots (dmem d1) ! v = blank type_vsm (Vsm [])"
    using assms(8,10) by auto
  have "w \<noteq> dback d1" "w \<noteq> dfront d1" using d1(4) assms(8,9) by auto
  with dbuffer_read_ok [OF d1(2,3), of w] assms(6,7) d1(5,7) obtain d2 where
    "dbuffer_read (Some w) d1 = Some (True, d2)" "dbuffer_inv d2 owed ext" "\<not> has_msg d2"
    "msg_data (slots (dmem d2) ! w) (dmem d2) = msg_data (slots (dmem d1) ! dfront d1) (dmem d1)" by auto
  with d1 show ?thesis
    by (intro exI [of _ "c\<lparr>dbuf := d1\<rparr>"] exI [of _ "c\<lparr>dbuf := d2\<rparr>"])
      (simp add: conflate_write_def conflate_read_def conflate_check_read_def dbuffer_check_read_def Let_def)
qed

text \<open>A pipe with buffers 0 and 1, an empty message in slot 2 and nothing in slot 3.\<close>

lemma conflate4:
  obtains c where "new_conflate 0 1 (mem0 4) = Some c" "dbuffer_inv (dbuf c) (\<lambda>_. 0) (\<lambda>_. 0)"
    "dback (dbuf c) = 0" "dfront (dbuf c) = 1"
    "slots (dmem (dbuf c)) = (slots (mem0 4))[0 := blank type_vsm (Vsm []), 1 := blank type_vsm (Vsm [])]"
proof -
  have l: "length (slots (mem0 4)) = 4" by (simp add: mem0_def)
  have "\<exists>d. new_dbuffer 0 1 (mem0 4) = Some d \<and> dbuffer_inv d (\<lambda>_. 0) (\<lambda>_. 0) \<and> \<not> has_msg d \<and>
    dback d = 0 \<and> dfront d = 1 \<and>
    slots (dmem d) = (slots (mem0 4))[0 := blank type_vsm (Vsm []), 1 := blank type_vsm (Vsm [])]"
    by (rule new_dbuffer_ok [OF mem0_inv]) (rule mem0_idle | simp add: l)+
  then obtain d where
    "new_dbuffer 0 1 (mem0 4) = Some d" "dbuffer_inv d (\<lambda>_. 0) (\<lambda>_. 0)" "dback d = 0" "dfront d = 1"
    "slots (dmem d) = (slots (mem0 4))[0 := blank type_vsm (Vsm []), 1 := blank type_vsm (Vsm [])]"
    by blast
  then show thesis by (intro that [of "\<lparr>dbuf = d, reader_awake = False\<rparr>"]) (simp_all add: new_conflate_def)
qed

theorem conflate_last_wins_witness:
  "\<exists>c c1 c2. conflate_write True 2 False c = Some c1 \<and> conflate_read (Some 3) c1 = Some (True, c2) \<and>
    msg_data (slots (dmem (dbuf c2)) ! 3) (dmem (dbuf c2)) = Some [5, 6]"
proof (rule conflate4)
  fix c :: conflate assume c: "dbuffer_inv (dbuf c) (\<lambda>_. 0) (\<lambda>_. 0)" "dback (dbuf c) = 0" "dfront (dbuf c) = 1"
    "slots (dmem (dbuf c)) = (slots (mem0 4))[0 := blank type_vsm (Vsm []), 1 := blank type_vsm (Vsm [])]"
  let ?m = "blank type_vsm (Vsm [5, 6])"
  let ?c = "c\<lparr>dbuf := (dbuf c)\<lparr>dmem := (dmem (dbuf c))\<lparr>slots := (slots (dmem (dbuf c)))[2 := ?m]\<rparr>\<rparr>\<rparr>"
  have "mem_inv ((dmem (dbuf c))\<lparr>slots := (slots (dmem (dbuf c)))[2 := ?m]\<rparr>) (\<lambda>_. 0) (\<lambda>_. 0)"
    by (rule idle_update) (use c in \<open>simp_all add: dbuffer_inv_def mem0_def idle_def blank_def
      has_content_def msg_check_def\<close>)
  moreover have "msg_check (blank type_vsm (Vsm []))" by (simp add: blank_def msg_check_def)
  ultimately have "dbuffer_inv (dbuf ?c) (\<lambda>_. 0) (\<lambda>_. 0)" using c by (simp add: dbuffer_inv_def mem0_def)
  note w = conflate_last_wins [OF this, of 2 3 False]
  have l: "length (slots (dmem (dbuf c))) = 4" using c(4) by (simp add: mem0_def)
  have "slots (dmem (dbuf ?c)) ! 2 = ?m" "slots (dmem (dbuf ?c)) ! 3 = blank 0 NoData"
    using c(4) by (simp_all add: mem0_def numeral_3_eq_3 numeral_2_eq_2)
  moreover have "msg_check ?m" "idle (blank 0 NoData)" "msg_data ?m s = Some [5, 6]" for s
    by (simp_all add: blank_def msg_check_def idle_def has_content_def msg_data_def)
  ultimately obtain c1 c2 where "conflate_write True 2 False ?c = Some c1"
    "conflate_read (Some 3) c1 = Some (True, c2)"
    "msg_data (slots (dmem (dbuf c2)) ! 3) (dmem (dbuf c2)) = Some [5, 6]"
    using w l c(2,3) by auto
  then show ?thesis by (intro exI conjI)
qed

inductive conflate_reach :: "conflate \<Rightarrow> bool" where
  c_start: "new_conflate i j s = Some c \<Longrightarrow> conflate_reach c"
| c_write: "conflate_reach c \<Longrightarrow> conflate_write l v inc c = Some c' \<Longrightarrow> conflate_reach c'"
| c_check: "conflate_reach c \<Longrightarrow> conflate_check_read c = (b, c') \<Longrightarrow> conflate_reach c'"
| c_read: "conflate_reach c \<Longrightarrow> conflate_read v c = Some (b, c') \<Longrightarrow> conflate_reach c'"

lemma conflate_asleep: "conflate_reach c \<Longrightarrow> \<not> reader_awake c"
proof (induction rule: conflate_reach.induct)
  case (c_start i j s c)
  then show ?case by (auto simp: new_conflate_def bind_eq_Some_conv)
next
  case (c_write c l v inc c')
  then show ?case by (auto simp: conflate_write_def bind_eq_Some_conv)
next
  case (c_check c b c')
  then show ?case by (auto simp: conflate_check_read_def Let_def split: if_splits)
next
  case (c_read c v b c')
  then show ?case
    by (auto simp: conflate_read_def conflate_check_read_def Let_def bind_eq_Some_conv split: if_splits)
qed

text \<open>
  \<open>flush\<close> of a conflating pipe always reports a sleeping reader: \<open>reader_awake\<close> starts
  false and nothing ever sets it, so every flush makes the caller wake the reader up.
\<close>

theorem conflate_flush_false:
  assumes "conflate_reach c"
  shows "\<not> conflate_flush c"
  using conflate_asleep [OF assms] by (simp add: conflate_flush_def)

theorem conflate_flush_false_witness: "\<exists>c. conflate_reach c \<and> \<not> conflate_flush c"
  by (rule conflate4) (use conflate_flush_false conflate_reach.c_start in blast)

end
