(* ===== verification/Queue_Interface.thy ===== *)
theory Queue_Interface
  imports Prelude
begin

text \<open>
  What the pipes use of the queue under them: it represents a list of cells with pairwise
  distinct addresses; the writer fills the last cell and appends another one, or takes the
  last cell back; the reader takes the first cell. \<open>room a q\<close> says that the memory \<open>a\<close> offered
  to \<open>push\<close> is not in use.
\<close>

locale cell_queue =
  fixes rel :: "'q \<Rightarrow> ('p \<times> 'v option) list \<Rightarrow> bool"
    and front_p :: "'q \<Rightarrow> 'p" and back_p :: "'q \<Rightarrow> 'p option"
    and get_front :: "'q \<Rightarrow> 'v option" and get_back :: "'q \<Rightarrow> 'v option"
    and put_back :: "'q \<Rightarrow> 'v \<Rightarrow> 'q option"
    and add :: "'a \<Rightarrow> 'q \<Rightarrow> 'q option" and room :: "'a \<Rightarrow> 'q \<Rightarrow> bool"
    and unadd :: "'q \<Rightarrow> 'q option" and drop_front :: "'q \<Rightarrow> 'q option"
  assumes distinct_law: "rel q cs \<Longrightarrow> distinct (map fst cs)"
    and front_law: "rel q (c # cs) \<Longrightarrow> front_p q = fst c \<and> get_front q = snd c"
    and back_law: "rel q (cs @ [c]) \<Longrightarrow> back_p q = Some (fst c) \<and> get_back q = snd c"
    and put_law: "rel q (cs @ [(p, x)]) \<Longrightarrow>
      \<exists>q'. put_back q v = Some q' \<and> rel q' (cs @ [(p, Some v)]) \<and> (\<forall>a. room a q' = room a q)"
    and add_law: "rel q cs \<Longrightarrow> room a q \<Longrightarrow> \<exists>q' p x. add a q = Some q' \<and> rel q' (cs @ [(p, x)])"
    and unadd_law: "rel q (c # cs @ [d]) \<Longrightarrow> \<exists>q'. unadd q = Some q' \<and> rel q' (c # cs)"
    and drop_law: "rel q (c # cs) \<Longrightarrow> \<exists>q'. drop_front q = Some q' \<and> rel q' cs"
begin

lemma same_cell:
  "rel q cs \<Longrightarrow> i < length cs \<Longrightarrow> j < length cs \<Longrightarrow> fst (cs ! i) = fst (cs ! j) \<longleftrightarrow> i = j"
  using distinct_law [of q cs] nth_eq_iff_index_eq [of "map fst cs" i j] by simp

lemma front_nth: "rel q cs \<Longrightarrow> cs \<noteq> [] \<Longrightarrow> front_p q = fst (cs ! 0)"
  using front_law by (cases cs) auto

lemma back_nth: "rel q cs \<Longrightarrow> length cs = Suc n \<Longrightarrow> back_p q = Some (fst (cs ! n))"
  using back_law by (cases cs rule: rev_cases) (auto simp: nth_append)

lemma enqueue:
  assumes "rel q (cs @ [(p, x)])" "room a q"
  shows "\<exists>q' p' x'. do { q \<leftarrow> put_back q v; add a q } = Some q' \<and>
    rel q' (cs @ [(p, Some v), (p', x')])"
proof -
  from put_law [OF assms(1), of v] obtain q1 where
    q1: "put_back q v = Some q1" "rel q1 (cs @ [(p, Some v)])" "room a q1" using assms(2) by blast
  from add_law [OF q1(2,3)] q1(1) show ?thesis by auto
qed

lemma dequeue:
  assumes "rel q ((p, Some v) # cs)"
  shows "\<exists>q'. get_front q = Some v \<and> drop_front q = Some q' \<and> rel q' cs"
  using front_law [OF assms] drop_law [OF assms] by auto

lemma take_back:
  assumes "rel q (cs @ [(p, Some v), t])"
  shows "\<exists>q'. unadd q = Some q' \<and> get_back q' = Some v \<and> rel q' (cs @ [(p, Some v)])"
proof -
  obtain x xs where x: "cs @ [(p, Some v)] = x # xs" by (cases cs) auto
  have "rel q (x # xs @ [t])" using assms x by (metis append.assoc append_Cons append_Nil)
  from unadd_law [OF this] obtain q' where "unadd q = Some q'" "rel q' (cs @ [(p, Some v)])"
    unfolding x by blast
  with back_law show ?thesis by fastforce
qed

end

end
