(* ===== verification/Yqueue.thy ===== *)
theory Yqueue
  imports Queue_Interface
begin

text \<open>
  \<open>yqueue_t\<close> of \<open>src/zmqsrc/src/yqueue.hpp\<close>: a queue of cells in a doubly linked list of
  chunks of \<open>N\<close> cells. The heap is explicit: a chunk that is not in it is freed or was
  never allocated, and following a pointer to it is a fault (\<open>None\<close>), as is a double free.
  \<open>malloc\<close> may return any address that is not in use, also one freed before: the address
  is an argument of the operations that allocate.

  Abstractly the queue is the list of its cells, each with its address and its content;
  \<open>push\<close> appends a cell, \<open>unpush\<close> drops the last, \<open>pop\<close> the first, and the addresses are
  pairwise distinct. The pipe of \<open>Ypipe\<close> compares these addresses.
\<close>

record 'a chunk =
  vals :: "'a option list"
  prev :: "nat option"
  nxt :: "nat option"

type_synonym 'a heap = "nat \<rightharpoonup> 'a chunk"
type_synonym cell = "nat \<times> nat"

record 'a yqueue =
  chunks :: "'a heap"
  begin_chunk :: nat
  begin_pos :: nat
  back_chunk :: "nat option"
  back_pos :: nat
  end_chunk :: nat
  end_pos :: nat
  spare_chunk :: "nat option"

definition heap_free :: "'a heap \<Rightarrow> nat option \<Rightarrow> 'a heap option" where
  "heap_free h p = (case p of
     None \<Rightarrow> Some h
   | Some a \<Rightarrow> if h a = None then None else Some (h(a := None)))"

definition set_next :: "'a heap \<Rightarrow> nat \<Rightarrow> nat option \<Rightarrow> 'a heap option" where
  "set_next h a p = do { ch \<leftarrow> h a; Some (h(a \<mapsto> ch\<lparr>nxt := p\<rparr>)) }"

definition set_prev :: "'a heap \<Rightarrow> nat \<Rightarrow> nat option \<Rightarrow> 'a heap option" where
  "set_prev h a p = do { ch \<leftarrow> h a; Some (h(a \<mapsto> ch\<lparr>prev := p\<rparr>)) }"

text \<open>A new chunk: its content is indeterminate.\<close>

definition allocate_chunk :: "nat \<Rightarrow> 'a heap \<Rightarrow> nat \<Rightarrow> 'a heap option" where
  "allocate_chunk N h a =
     (if h a = None then Some (h(a \<mapsto> \<lparr>vals = replicate N None, prev = None, nxt = None\<rparr>)) else None)"

definition new_yqueue :: "nat \<Rightarrow> nat \<Rightarrow> 'a yqueue option" where
  "new_yqueue N a = do {
     h \<leftarrow> allocate_chunk N (\<lambda>_. None) a;
     Some \<lparr>chunks = h, begin_chunk = a, begin_pos = 0, back_chunk = None, back_pos = 0,
       end_chunk = a, end_pos = 0, spare_chunk = None\<rparr> }"

text \<open>\<open>&queue.front ()\<close> and \<open>&queue.back ()\<close>, and the cells behind them.\<close>

definition front_cell :: "'a yqueue \<Rightarrow> cell" where
  "front_cell q = (begin_chunk q, begin_pos q)"

definition back_cell :: "'a yqueue \<Rightarrow> cell option" where
  "back_cell q = do { b \<leftarrow> back_chunk q; Some (b, back_pos q) }"

definition load :: "'a heap \<Rightarrow> cell \<Rightarrow> 'a option option" where
  "load h p = do { ch \<leftarrow> h (fst p); table_at (vals ch) (snd p) }"

definition store :: "'a heap \<Rightarrow> cell \<Rightarrow> 'a \<Rightarrow> 'a heap option" where
  "store h p v = do {
     ch \<leftarrow> h (fst p);
     vs \<leftarrow> table_set (vals ch) (snd p) (Some v);
     Some (h(fst p \<mapsto> ch\<lparr>vals := vs\<rparr>)) }"

definition front_val :: "'a yqueue \<Rightarrow> 'a option" where
  "front_val q = do { v \<leftarrow> load (chunks q) (front_cell q); v }"

definition back_val :: "'a yqueue \<Rightarrow> 'a option" where
  "back_val q = do { p \<leftarrow> back_cell q; v \<leftarrow> load (chunks q) p; v }"

definition set_back :: "'a yqueue \<Rightarrow> 'a \<Rightarrow> 'a yqueue option" where
  "set_back q v = do {
     p \<leftarrow> back_cell q;
     h \<leftarrow> store (chunks q) p v;
     Some (q\<lparr>chunks := h\<rparr>) }"

definition push :: "nat \<Rightarrow> nat \<Rightarrow> 'a yqueue \<Rightarrow> 'a yqueue option" where
  "push N a q =
     (let q = q\<lparr>back_chunk := Some (end_chunk q), back_pos := end_pos q, end_pos := end_pos q + 1\<rparr>
      in if end_pos q \<noteq> N then Some q
         else do {
           (h, a) \<leftarrow> (case spare_chunk q of
              Some sc \<Rightarrow> do {
                h \<leftarrow> set_next (chunks q) (end_chunk q) (Some sc);
                h \<leftarrow> set_prev h sc (Some (end_chunk q));
                Some (h, sc) }
            | None \<Rightarrow> do {
                h \<leftarrow> allocate_chunk N (chunks q) a;
                h \<leftarrow> set_next h (end_chunk q) (Some a);
                h \<leftarrow> set_prev h a (Some (end_chunk q));
                Some (h, a) });
           Some (q\<lparr>chunks := h, spare_chunk := None, end_chunk := a, end_pos := 0\<rparr>) })"

definition unpush :: "nat \<Rightarrow> 'a yqueue \<Rightarrow> 'a yqueue option" where
  "unpush N q = do {
     q \<leftarrow> (if back_pos q \<noteq> 0 then Some (q\<lparr>back_pos := back_pos q - 1\<rparr>)
          else do {
            b \<leftarrow> back_chunk q;
            ch \<leftarrow> chunks q b;
            Some (q\<lparr>back_pos := N - 1, back_chunk := prev ch\<rparr>) });
     if end_pos q \<noteq> 0 then Some (q\<lparr>end_pos := end_pos q - 1\<rparr>)
     else do {
       ch \<leftarrow> chunks q (end_chunk q);
       e \<leftarrow> prev ch;
       ech \<leftarrow> chunks q e;
       h \<leftarrow> heap_free (chunks q) (nxt ech);
       h \<leftarrow> set_next h e None;
       Some (q\<lparr>end_pos := N - 1, end_chunk := e, chunks := h\<rparr>) } }"

definition pop :: "nat \<Rightarrow> 'a yqueue \<Rightarrow> 'a yqueue option" where
  "pop N q =
     (let q' = q\<lparr>begin_pos := begin_pos q + 1\<rparr>
      in if begin_pos q' = N then do {
           let a = begin_chunk q;
           ch \<leftarrow> chunks q a;
           b \<leftarrow> nxt ch;
           h \<leftarrow> set_prev (chunks q) b None;
           h \<leftarrow> heap_free h (spare_chunk q);
           Some (q\<lparr>chunks := h, begin_chunk := b, begin_pos := 0, spare_chunk := Some a\<rparr>) }
         else Some q')"

text \<open>The destructor: the heap it leaves. The loop ends where it meets \<open>end_chunk\<close>.\<close>

partial_function (option) free_chain :: "'a heap \<Rightarrow> nat \<Rightarrow> nat \<Rightarrow> 'a heap option" where
  "free_chain h a e =
     (if a = e then heap_free h (Some a)
      else do {
        ch \<leftarrow> h a;
        h \<leftarrow> heap_free h (Some a);
        b \<leftarrow> nxt ch;
        free_chain h b e })"

definition destroy_yqueue :: "'a yqueue \<Rightarrow> 'a heap option" where
  "destroy_yqueue q = do {
     h \<leftarrow> free_chain (chunks q) (begin_chunk q) (end_chunk q);
     heap_free h (spare_chunk q) }"

subsection \<open>The chain of chunks\<close>

definition chain :: "nat \<Rightarrow> 'a heap \<Rightarrow> nat list \<Rightarrow> bool" where
  "chain N h cl \<longleftrightarrow> cl \<noteq> [] \<and> distinct cl \<and>
     (\<forall>a \<in> set cl. \<exists>ch. h a = Some ch \<and> length (vals ch) = N) \<and>
     (\<forall>i. Suc i < length cl \<longrightarrow>
        (\<exists>ch. h (cl ! i) = Some ch \<and> nxt ch = Some (cl ! Suc i)) \<and>
        (\<exists>ch. h (cl ! Suc i) = Some ch \<and> prev ch = Some (cl ! i)))"

text \<open>The cell with absolute number \<open>j\<close>, and the number of cells before \<open>end\<close>.\<close>

definition cell_at :: "nat \<Rightarrow> nat list \<Rightarrow> nat \<Rightarrow> cell" where
  "cell_at N cl j = (cl ! (j div N), j mod N)"

definition end_idx :: "nat \<Rightarrow> 'a yqueue \<Rightarrow> nat list \<Rightarrow> nat" where
  "end_idx N q cl = (length cl - 1) * N + end_pos q"

definition yq_inv :: "nat \<Rightarrow> 'a yqueue \<Rightarrow> nat list \<Rightarrow> bool" where
  "yq_inv N q cl \<longleftrightarrow> 0 < N \<and> chain N (chunks q) cl \<and>
     hd cl = begin_chunk q \<and> last cl = end_chunk q \<and> begin_pos q < N \<and> end_pos q < N \<and>
     begin_pos q \<le> end_idx N q cl \<and>
     (begin_pos q < end_idx N q cl \<longrightarrow> back_cell q = Some (cell_at N cl (end_idx N q cl - 1))) \<and>
     (\<forall>s. spare_chunk q = Some s \<longrightarrow>
        s \<notin> set cl \<and> (\<exists>ch. chunks q s = Some ch \<and> length (vals ch) = N)) \<and>
     dom (chunks q) = set cl \<union> set_option (spare_chunk q)"

text \<open>The queue \<open>q\<close> represents the cells \<open>cs\<close>: their addresses and contents in order.\<close>

definition cells :: "nat \<Rightarrow> 'a yqueue \<Rightarrow> nat list \<Rightarrow> (cell \<times> 'a option) list" where
  "cells N q cl = map (\<lambda>j. (cell_at N cl j, the (load (chunks q) (cell_at N cl j))))
     [begin_pos q..<end_idx N q cl]"

definition yq_rel :: "nat \<Rightarrow> 'a yqueue \<Rightarrow> (cell \<times> 'a option) list \<Rightarrow> bool" where
  "yq_rel N q cs \<longleftrightarrow> (\<exists>cl. yq_inv N q cl \<and> cs = cells N q cl)"

lemma cell_at_less: "j < length cl * N \<Longrightarrow> j div N < length cl"
  by (simp add: less_mult_imp_div_less)

lemma cell_at_append: "j < length cl * N \<Longrightarrow> cell_at N (cl @ xs) j = cell_at N cl j"
  by (simp add: cell_at_def nth_append cell_at_less)

lemma cell_at_Cons: "0 < N \<Longrightarrow> cell_at N (c # cl) (j + N) = cell_at N cl j"
  by (simp add: cell_at_def div_add_self2)

lemma cell_at_inj:
  assumes "distinct cl" "i < length cl * N" "j < length cl * N" "cell_at N cl i = cell_at N cl j"
  shows "i = j"
proof -
  from assms have "i div N = j div N"
    using nth_eq_iff_index_eq [OF assms(1) cell_at_less cell_at_less] by (simp add: cell_at_def)
  moreover have "i mod N = j mod N" using assms(4) by (simp add: cell_at_def)
  ultimately show ?thesis by (metis div_mult_mod_eq)
qed

lemma end_idx_less: "cl \<noteq> [] \<Longrightarrow> end_pos q < N \<Longrightarrow> end_idx N q cl < length cl * N"
  by (cases cl) (simp_all add: end_idx_def)

lemma chain_load:
  assumes "chain N h cl" "j < length cl * N"
  shows "\<exists>ch. h (fst (cell_at N cl j)) = Some ch \<and> length (vals ch) = N \<and>
    snd (cell_at N cl j) < N \<and> load h (cell_at N cl j) = Some (vals ch ! (j mod N))"
proof -
  have N: "0 < N" using assms(2) by (cases N) auto
  have "cl ! (j div N) \<in> set cl" using cell_at_less [OF assms(2)] by simp
  then obtain ch where "h (cl ! (j div N)) = Some ch" "length (vals ch) = N"
    using assms(1) unfolding chain_def by blast
  with N show ?thesis by (simp add: cell_at_def load_def)
qed

lemma load_cong: "map_option vals (h (fst p)) = map_option vals (h' (fst p)) \<Longrightarrow> load h p = load h' p"
  by (cases "h (fst p)"; cases "h' (fst p)") (simp_all add: load_def)

text \<open>Two heaps that agree on the contents of the chunks in \<open>A\<close>.\<close>

definition same_vals :: "nat set \<Rightarrow> 'a heap \<Rightarrow> 'a heap \<Rightarrow> bool" where
  "same_vals A h h' \<longleftrightarrow> (\<forall>a\<in>A. map_option vals (h' a) = map_option vals (h a))"

lemma cells_cong:
  assumes "same_vals (set cl) (chunks q) (chunks q')" "begin_pos q' = begin_pos q"
    "end_idx N q cl \<le> length cl * N"
  shows "map (\<lambda>j. (cell_at N cl j, the (load (chunks q') (cell_at N cl j)))) [begin_pos q..<end_idx N q cl] =
    cells N q cl"
  unfolding cells_def
proof (rule map_cong [OF refl])
  fix j assume "j \<in> set [begin_pos q..<end_idx N q cl]"
  then have "j div N < length cl" using assms(3) by (intro cell_at_less) simp
  then have "fst (cell_at N cl j) \<in> set cl" by (simp add: cell_at_def)
  then have "load (chunks q') (cell_at N cl j) = load (chunks q) (cell_at N cl j)"
    using assms(1) by (intro load_cong) (simp add: same_vals_def)
  then show "(cell_at N cl j, the (load (chunks q') (cell_at N cl j))) =
    (cell_at N cl j, the (load (chunks q) (cell_at N cl j)))" by simp
qed

lemma length_cells: "length (cells N q cl) = end_idx N q cl - begin_pos q"
  by (simp add: cells_def)

lemma cells_nth:
  "i < end_idx N q cl - begin_pos q \<Longrightarrow> cells N q cl ! i =
     (cell_at N cl (begin_pos q + i), the (load (chunks q) (cell_at N cl (begin_pos q + i))))"
  by (simp add: cells_def)

lemma yq_inv_end:
  assumes "yq_inv N q cl"
  shows "end_idx N q cl < length cl * N" "cl \<noteq> []" "distinct cl"
  using assms end_idx_less [of cl q N] by (auto simp: yq_inv_def chain_def)

lemma distinct_cells:
  assumes "yq_inv N q cl"
  shows "distinct (map fst (cells N q cl))"
proof -
  note e = yq_inv_end [OF assms]
  have "inj_on (cell_at N cl) {begin_pos q..<end_idx N q cl}"
  proof (rule inj_onI)
    fix i j assume "i \<in> {begin_pos q..<end_idx N q cl}" "j \<in> {begin_pos q..<end_idx N q cl}"
      "cell_at N cl i = cell_at N cl j"
    with e(1) show "i = j" by (intro cell_at_inj [OF e(3)]) auto
  qed
  then show ?thesis by (simp add: cells_def distinct_map comp_def)
qed

subsection \<open>Front and back\<close>

lemma front_cell_at: "yq_inv N q cl \<Longrightarrow> front_cell q = cell_at N cl (begin_pos q)"
  unfolding yq_inv_def chain_def by (auto simp: front_cell_def cell_at_def hd_conv_nth)

lemma front_rel:
  assumes "yq_rel N q cs" "cs \<noteq> []"
  shows "front_cell q = fst (hd cs)" "front_val q = snd (hd cs)"
proof -
  from assms(1) obtain cl where q: "yq_inv N q cl" and cs: "cs = cells N q cl"
    unfolding yq_rel_def by blast
  note e = yq_inv_end [OF q]
  from assms(2) have "begin_pos q < end_idx N q cl" by (simp add: cs cells_def)
  then have hd: "hd cs = (front_cell q, the (load (chunks q) (front_cell q)))"
    by (simp add: cs hd_conv_nth [OF assms(2) [unfolded cs]] cells_nth front_cell_at [OF q])
  then show "front_cell q = fst (hd cs)" by simp
  have "chain N (chunks q) cl" using q by (simp add: yq_inv_def)
  from chain_load [OF this, of "begin_pos q"] \<open>begin_pos q < end_idx N q cl\<close> e(1)
  show "front_val q = snd (hd cs)" by (auto simp: front_val_def hd front_cell_at [OF q])
qed

lemma last_cells:
  assumes "begin_pos q < end_idx N q cl"
  shows "last (cells N q cl) = (cell_at N cl (end_idx N q cl - 1),
    the (load (chunks q) (cell_at N cl (end_idx N q cl - 1))))"
proof -
  have "cells N q cl \<noteq> []" using assms by (simp add: cells_def)
  then show ?thesis using assms by (simp add: last_conv_nth length_cells cells_nth)
qed

lemma back_rel:
  assumes "yq_rel N q cs" "cs \<noteq> []"
  shows "back_cell q = Some (fst (last cs))" "back_val q = snd (last cs)"
proof -
  from assms(1) obtain cl where q: "yq_inv N q cl" and cs: "cs = cells N q cl"
    unfolding yq_rel_def by blast
  note e = yq_inv_end [OF q]
  from assms(2) have b: "begin_pos q < end_idx N q cl" by (simp add: cs cells_def)
  then have bk: "back_cell q = Some (cell_at N cl (end_idx N q cl - 1))"
    using q by (simp add: yq_inv_def)
  then show "back_cell q = Some (fst (last cs))" by (simp add: cs last_cells [OF b])
  have "chain N (chunks q) cl" using q by (simp add: yq_inv_def)
  moreover have "end_idx N q cl - 1 < length cl * N" using e(1) by simp
  ultimately obtain x where "load (chunks q) (cell_at N cl (end_idx N q cl - 1)) = Some x"
    using chain_load by blast
  then show "back_val q = snd (last cs)"
    by (simp add: back_val_def bk cs last_cells [OF b])
qed

subsection \<open>Growing and shrinking the chain\<close>

lemma chain_snoc:
  assumes "chain N h cl" "b \<notin> set cl" "h b = Some chb" "length (vals chb) = N" "h (last cl) = Some ech"
  shows "chain N (h(last cl \<mapsto> ech\<lparr>nxt := Some b\<rparr>, b \<mapsto> chb\<lparr>prev := Some (last cl)\<rparr>)) (cl @ [b])"
    (is "chain N ?h _")
  unfolding chain_def
proof (intro conjI allI impI ballI)
  note c = assms(1) [unfolded chain_def]
  show "distinct (cl @ [b])" using c assms(2) by simp
  have "\<exists>ch. h (last cl) = Some ch \<and> length (vals ch) = N" using c last_in_set by blast
  then have lc: "length (vals ech) = N" using assms(5) by auto
  show "\<exists>ch. ?h a = Some ch \<and> length (vals ch) = N" if "a \<in> set (cl @ [b])" for a
    using that c assms(4) lc by auto
  fix i assume i: "Suc i < length (cl @ [b])"
  have lst: "cl ! j = last cl \<longleftrightarrow> j = length cl - 1" if "j < length cl" for j
    using c that by (metis last_conv_nth diff_less length_greater_0_conv nth_eq_iff_index_eq zero_less_one)
  have nb: "cl ! j \<noteq> b" if "j < length cl" for j using assms(2) that nth_mem by blast
  show "\<exists>ch. ?h ((cl @ [b]) ! i) = Some ch \<and> nxt ch = Some ((cl @ [b]) ! Suc i)"
  proof (cases "Suc i < length cl")
    case True
    then have "\<exists>ch. h (cl ! i) = Some ch \<and> nxt ch = Some (cl ! Suc i)" using c by blast
    moreover have "i \<noteq> length cl - 1" using True by simp
    ultimately show ?thesis using True lst [of i] nb [of i] by (simp add: nth_append)
  next
    case False
    with i have "Suc i = length cl" by simp
    then have j: "i = length cl - 1" "i < length cl" by auto
    with lst [of i] have "cl ! i = last cl" by simp
    with nb [of i] j(2) \<open>Suc i = length cl\<close> show ?thesis by (simp add: nth_append)
  qed
  show "\<exists>ch. ?h ((cl @ [b]) ! Suc i) = Some ch \<and> prev ch = Some ((cl @ [b]) ! i)"
  proof (cases "Suc i < length cl")
    case True
    then have "\<exists>ch. h (cl ! Suc i) = Some ch \<and> prev ch = Some (cl ! i)" using c by blast
    with True lst [of "Suc i"] nb [of "Suc i"] assms(5) show ?thesis
      by (auto simp: nth_append)
  next
    case False
    with i have "Suc i = length cl" by simp
    then have j: "i = length cl - 1" "i < length cl" by auto
    with lst [of i] have "cl ! i = last cl" by simp
    with nb [of i] j(2) \<open>Suc i = length cl\<close> show ?thesis by (simp add: nth_append)
  qed
qed simp

lemma chain_tl:
  assumes "chain N h (c # cl)" "cl \<noteq> []" "h (hd cl) = Some ch" "a \<notin> set cl"
  shows "chain N (h(hd cl \<mapsto> ch\<lparr>prev := None\<rparr>)) cl"
    "chain N (h(hd cl \<mapsto> ch\<lparr>prev := None\<rparr>, a := x)) cl"
proof -
  note c = assms(1) [unfolded chain_def]
  have hd: "cl ! j = hd cl \<longleftrightarrow> j = 0" if "j < length cl" for j
    using c that assms(2) by (metis distinct.simps(2) hd_conv_nth length_greater_0_conv nth_eq_iff_index_eq)
  have N: "length (vals ch) = N" using c assms(2,3) by (metis hd_in_set list.set_intros(2) option.inject)
  have cs: "(\<exists>ch. h (cl ! i) = Some ch \<and> nxt ch = Some (cl ! Suc i)) \<and>
      (\<exists>ch. h (cl ! Suc i) = Some ch \<and> prev ch = Some (cl ! i))" if "Suc i < length cl" for i
    using c that by (metis Suc_less_eq length_Cons nth_Cons_Suc)
  have na: "cl ! j \<noteq> a" if "j < length cl" for j using assms(4) that nth_mem by blast
  have "\<forall>i. Suc i < length cl \<longrightarrow>
        (\<exists>ch'. (h(hd cl \<mapsto> ch\<lparr>prev := None\<rparr>)) (cl ! i) = Some ch' \<and> nxt ch' = Some (cl ! Suc i)) \<and>
        (\<exists>ch'. (h(hd cl \<mapsto> ch\<lparr>prev := None\<rparr>)) (cl ! Suc i) = Some ch' \<and> prev ch' = Some (cl ! i))"
  proof (intro allI impI)
    fix i assume i: "Suc i < length cl"
    then have j: "i < length cl" by simp
    show "(\<exists>ch'. (h(hd cl \<mapsto> ch\<lparr>prev := None\<rparr>)) (cl ! i) = Some ch' \<and> nxt ch' = Some (cl ! Suc i)) \<and>
        (\<exists>ch'. (h(hd cl \<mapsto> ch\<lparr>prev := None\<rparr>)) (cl ! Suc i) = Some ch' \<and> prev ch' = Some (cl ! i))"
      using cs [OF i] hd [OF i] hd [OF j] assms(3) by (cases "cl ! i = hd cl") auto
  qed
  then show g: "chain N (h(hd cl \<mapsto> ch\<lparr>prev := None\<rparr>)) cl"
    using c assms(2) N unfolding chain_def by simp
  show "chain N (h(hd cl \<mapsto> ch\<lparr>prev := None\<rparr>, a := x)) cl"
    using g na assms(4) unfolding chain_def by (auto simp: Suc_lessD)
qed

lemma chain_butlast:
  assumes "chain N h (cl @ [d, e])" "h d = Some ch"
  shows "chain N (h(e := None, d \<mapsto> ch\<lparr>nxt := None\<rparr>)) (cl @ [d])"
proof -
  note c = assms(1) [unfolded chain_def]
  have ne: "(cl @ [d]) ! j \<noteq> e" if "j < length (cl @ [d])" for j
    using c nth_mem [OF that] by auto
  have nd: "(cl @ [d]) ! j = d \<longleftrightarrow> j = length cl" if "j < length (cl @ [d])" for j
    using c that nth_mem [of j cl] by (auto simp: nth_append)
  have cs: "(\<exists>ch. h ((cl @ [d]) ! i) = Some ch \<and> nxt ch = Some ((cl @ [d]) ! Suc i)) \<and>
      (\<exists>ch. h ((cl @ [d]) ! Suc i) = Some ch \<and> prev ch = Some ((cl @ [d]) ! i))"
    if "Suc i < length (cl @ [d])" for i
  proof -
    have "(cl @ [d, e]) ! i = (cl @ [d]) ! i" "(cl @ [d, e]) ! Suc i = (cl @ [d]) ! Suc i"
      using that by (auto simp: nth_append)
    moreover have "Suc i < length (cl @ [d, e])" using that by simp
    ultimately show ?thesis using c by metis
  qed
  show ?thesis unfolding chain_def
  proof (intro conjI allI impI ballI)
    show "\<exists>ch'. (h(e := None, d \<mapsto> ch\<lparr>nxt := None\<rparr>)) a = Some ch' \<and> length (vals ch') = N"
      if "a \<in> set (cl @ [d])" for a
      using that c assms(2) by auto
  next
    fix i assume i: "Suc i < length (cl @ [d])"
    then have j: "i < length (cl @ [d])" by simp
    show "\<exists>ch'. (h(e := None, d \<mapsto> ch\<lparr>nxt := None\<rparr>)) ((cl @ [d]) ! i) = Some ch' \<and>
        nxt ch' = Some ((cl @ [d]) ! Suc i)"
      using cs [OF i] ne [OF j] nd [OF j] i by auto
    show "\<exists>ch'. (h(e := None, d \<mapsto> ch\<lparr>nxt := None\<rparr>)) ((cl @ [d]) ! Suc i) = Some ch' \<and>
        prev ch' = Some ((cl @ [d]) ! i)"
      using cs [OF i] ne [OF i] nd [OF i] assms(2) by auto
  qed (use c in auto)
qed

subsection \<open>The operations on the cell list\<close>

lemma end_cell:
  assumes "yq_inv N q cl"
  shows "cell_at N cl (end_idx N q cl) = (end_chunk q, end_pos q)"
proof -
  have "cl \<noteq> []" "end_pos q < N" "last cl = end_chunk q" using assms by (auto simp: yq_inv_def chain_def)
  then show ?thesis by (simp add: cell_at_def end_idx_def last_conv_nth)
qed

lemma push_room:
  assumes "yq_inv N q cl" "end_pos q + 1 \<noteq> N"
  shows "\<exists>q' p v. push N a q = Some q' \<and> yq_inv N q' cl \<and> cells N q' cl = cells N q cl @ [(p, v)]"
proof -
  let ?q = "q\<lparr>back_chunk := Some (end_chunk q), back_pos := end_pos q, end_pos := end_pos q + 1\<rparr>"
  have e: "end_idx N ?q cl = Suc (end_idx N q cl)" by (simp add: end_idx_def)
  have "yq_inv N ?q cl"
    using assms end_cell [OF assms(1)] unfolding yq_inv_def e
    by (auto simp: back_cell_def)
  moreover have "begin_pos q \<le> end_idx N q cl" using assms(1) by (simp add: yq_inv_def)
  then have "cells N ?q cl = cells N q cl @ [(cell_at N cl (end_idx N q cl),
      the (load (chunks q) (cell_at N cl (end_idx N q cl))))]"
    unfolding cells_def e by simp
  moreover have "push N a q = Some ?q" using assms(2) by (simp add: push_def)
  ultimately show ?thesis by blast
qed

lemma push_chunk:
  assumes "yq_inv N q cl" "end_pos q + 1 = N" "chunks q a = None"
  shows "\<exists>q' b p v. push N a q = Some q' \<and> yq_inv N q' (cl @ [b]) \<and>
    cells N q' (cl @ [b]) = cells N q cl @ [(p, v)]"
proof -
  let ?h = "chunks q"
  have ch: "chain N ?h cl" and N: "0 < N" and lst: "last cl = end_chunk q" and ne: "cl \<noteq> []"
    using assms(1) by (auto simp: yq_inv_def chain_def)
  then obtain ech where ech: "?h (end_chunk q) = Some ech"
    unfolding chain_def by (metis last_in_set)
  note dom = assms(1) [unfolded yq_inv_def]
  define b where "b = (case spare_chunk q of Some s \<Rightarrow> s | None \<Rightarrow> a)"
  define h0 where "h0 = (case spare_chunk q of Some s \<Rightarrow> ?h
    | None \<Rightarrow> ?h(a \<mapsto> \<lparr>vals = replicate N None, prev = None, nxt = None\<rparr>))"
  have b: "b \<notin> set cl" "\<exists>chb. h0 b = Some chb \<and> length (vals chb) = N"
    using dom assms(3) by (auto simp: b_def h0_def split: option.splits)
  then obtain chb where chb: "h0 b = Some chb" "length (vals chb) = N" by blast
  have agree: "h0 c = ?h c" if "c \<in> set cl" for c
    using that dom assms(3) by (auto simp: h0_def split: option.splits)
  have ne_b: "end_chunk q \<noteq> b" using b(1) lst ne by (metis last_in_set)
  define h1 where "h1 = h0(end_chunk q \<mapsto> ech\<lparr>nxt := Some b\<rparr>, b \<mapsto> chb\<lparr>prev := Some (end_chunk q)\<rparr>)"
  let ?q = "q\<lparr>back_chunk := Some (end_chunk q), back_pos := end_pos q, end_pos := 0, chunks := h1,
      spare_chunk := None, end_chunk := b\<rparr>"
  have h0e: "h0 (end_chunk q) = Some ech"
    using agree [of "end_chunk q"] ech lst ne by (metis last_in_set)
  have "push N a q = Some ?q"
  proof (cases "spare_chunk q")
    case None
    have "a \<noteq> end_chunk q" using ech assms(3) by auto
    then show ?thesis
      using None assms(2,3) ech chb(1)
      by (simp add: push_def b_def h0_def h1_def allocate_chunk_def set_next_def set_prev_def)
  next
    case (Some s)
    then show ?thesis
      using assms(2) ech chb(1) ne_b
      by (simp add: push_def b_def h0_def h1_def set_next_def set_prev_def)
  qed
  moreover have "chain N h0 cl"
    using ch agree unfolding chain_def by (auto simp: Suc_lessD)
  then have chain1: "chain N h1 (cl @ [b])"
    unfolding h1_def lst [symmetric] by (rule chain_snoc) (use b(1) chb h0e lst in auto)
  have e: "end_idx N ?q (cl @ [b]) = Suc (end_idx N q cl)" "end_idx N ?q (cl @ [b]) = length cl * N"
    using assms(2) ne by (cases cl; simp add: end_idx_def)+
  have lt: "end_idx N q cl < length cl * N" using yq_inv_end [OF assms(1)] by simp
  have same: "same_vals (set cl) ?h h1"
    using agree ech b(1) h0e by (auto simp: same_vals_def h1_def)
  have "dom h1 = insert b (set cl)"
  proof -
    have "end_chunk q \<in> set cl" using lst ne by (metis last_in_set)
    then show ?thesis
      using dom unfolding h1_def b_def h0_def by (auto split: option.splits if_splits)
  qed
  then have "yq_inv N ?q (cl @ [b])"
    using chain1 N ne lt dom e(1) end_cell [OF assms(1)] cell_at_append [OF lt, of "[b]"]
    unfolding yq_inv_def e(1) by (auto simp: back_cell_def hd_append)
  moreover have "cells N ?q (cl @ [b]) = cells N q cl @ [(cell_at N cl (end_idx N q cl),
      the (load h1 (cell_at N cl (end_idx N q cl))))]"
  proof -
    have "cells N ?q (cl @ [b]) = map (\<lambda>j. (cell_at N cl j, the (load h1 (cell_at N cl j))))
        [begin_pos q..<Suc (end_idx N q cl)]"
      unfolding cells_def e(1) by (rule map_cong) (use lt in \<open>auto simp: cell_at_append\<close>)
    then show ?thesis using cells_cong [of cl q ?q N] same lt dom by simp
  qed
  ultimately show ?thesis
    by (intro exI [of _ ?q] exI [of _ b] exI [of _ "cell_at N cl (end_idx N q cl)"]
      exI [of _ "the (load h1 (cell_at N cl (end_idx N q cl)))"] conjI)
qed

lemma push_rel:
  assumes "yq_rel N q cs" "chunks q a = None"
  shows "\<exists>q' p v. push N a q = Some q' \<and> yq_rel N q' (cs @ [(p, v)])"
proof -
  from assms(1) obtain cl where q: "yq_inv N q cl" "cs = cells N q cl"
    unfolding yq_rel_def by blast
  show ?thesis
  proof (cases "end_pos q + 1 = N")
    case True
    from push_chunk [OF q(1) True assms(2)] q(2) show ?thesis unfolding yq_rel_def by metis
  next
    case False
    from push_room [OF q(1) False] q(2) show ?thesis unfolding yq_rel_def by metis
  qed
qed

lemma set_back_rel:
  assumes "yq_rel N q cs" "cs \<noteq> []"
  shows "\<exists>q'. set_back q v = Some q' \<and> yq_rel N q' (butlast cs @ [(fst (last cs), Some v)]) \<and>
    dom (chunks q') = dom (chunks q)"
proof -
  from assms(1) obtain cl where q: "yq_inv N q cl" and cs: "cs = cells N q cl"
    unfolding yq_rel_def by blast
  note e = yq_inv_end [OF q]
  define k where "k = end_idx N q cl - 1"
  let ?p = "cell_at N cl k"
  from assms(2) have b: "begin_pos q < end_idx N q cl" by (simp add: cs cells_def)
  then have bk: "back_cell q = Some ?p" using q by (simp add: yq_inv_def k_def)
  have ch: "chain N (chunks q) cl" using q by (simp add: yq_inv_def)
  have k: "k < length cl * N" "end_idx N q cl = Suc k" "begin_pos q \<le> k"
    using e(1) b by (simp_all add: k_def)
  from chain_load [OF ch k(1)] obtain c where c: "chunks q (fst ?p) = Some c" "length (vals c) = N"
    "snd ?p < N" by blast
  define h where "h = (chunks q)(fst ?p \<mapsto> c\<lparr>vals := (vals c)[snd ?p := Some v]\<rparr>)"
  let ?q = "q\<lparr>chunks := h\<rparr>"
  have set: "set_back q v = Some ?q" using c by (simp add: set_back_def bk store_def h_def)
  have "chain N h cl" using ch c unfolding chain_def h_def by auto
  moreover have dom: "dom h = dom (chunks q)" using c by (auto simp: h_def)
  moreover have "\<exists>ch. h s = Some ch \<and> length (vals ch) = N"
    if "\<exists>ch. chunks q s = Some ch \<and> length (vals ch) = N" for s
    using that c by (auto simp: h_def)
  ultimately have inv: "yq_inv N ?q cl"
    using q unfolding yq_inv_def end_idx_def back_cell_def by simp
  have ld: "load h (cell_at N cl j) = (if j = k then Some (Some v) else load (chunks q) (cell_at N cl j))"
    if "j < length cl * N" for j
  proof (cases "j = k")
    case True
    then show ?thesis using c by (simp add: load_def h_def)
  next
    case False
    then have "cell_at N cl j \<noteq> ?p" using cell_at_inj [OF e(3) that k(1)] by blast
    then show ?thesis using False c
      by (cases "fst (cell_at N cl j) = fst ?p") (auto simp: load_def h_def table_at_def prod_eq_iff)
  qed
  have "cells N ?q cl = map (\<lambda>j. (cell_at N cl j, the (load (chunks q) (cell_at N cl j)))) [begin_pos q..<k] @
      [(?p, Some v)]"
  proof -
    have eq: "[begin_pos q..<end_idx N ?q cl] = [begin_pos q..<k] @ [k]"
      using k by (simp add: end_idx_def)
    have "map (\<lambda>j. (cell_at N cl j, the (load h (cell_at N cl j)))) [begin_pos q..<k] =
        map (\<lambda>j. (cell_at N cl j, the (load (chunks q) (cell_at N cl j)))) [begin_pos q..<k]"
      using ld k(1) by (intro map_cong) auto
    then show ?thesis unfolding cells_def using eq ld [OF k(1)] by simp
  qed
  moreover have "cs = map (\<lambda>j. (cell_at N cl j, the (load (chunks q) (cell_at N cl j)))) [begin_pos q..<k] @
      [(?p, the (load (chunks q) ?p))]"
    unfolding cs cells_def k(2) using k(3) by simp
  ultimately have "butlast cs @ [(fst (last cs), Some v)] = cells N ?q cl" by simp
  then have "yq_rel N ?q (butlast cs @ [(fst (last cs), Some v)])"
    unfolding yq_rel_def using inv by (intro exI [of _ cl] conjI)
  then show ?thesis using set dom by (intro exI [of _ ?q] conjI) simp_all
qed

lemma pop_rel:
  assumes "yq_rel N q cs" "cs \<noteq> []"
  shows "\<exists>q'. pop N q = Some q' \<and> yq_rel N q' (tl cs)"
proof -
  from assms(1) obtain cl where q: "yq_inv N q cl" and cs: "cs = cells N q cl"
    unfolding yq_rel_def by blast
  note inv = q [unfolded yq_inv_def]
  from assms(2) have b: "begin_pos q < end_idx N q cl" by (simp add: cs cells_def)
  have tl: "tl cs = map (\<lambda>j. (cell_at N cl j, the (load (chunks q) (cell_at N cl j))))
      [Suc (begin_pos q)..<end_idx N q cl]"
    using b by (simp add: cs cells_def upt_conv_Cons)
  show ?thesis
  proof (cases "begin_pos q + 1 = N")
    case False
    let ?q = "q\<lparr>begin_pos := begin_pos q + 1\<rparr>"
    have "yq_inv N ?q cl"
      using inv b False unfolding yq_inv_def end_idx_def back_cell_def by auto
    moreover have "cells N ?q cl = tl cs" by (simp add: tl cells_def end_idx_def)
    moreover have "pop N q = Some ?q" using False by (simp add: pop_def)
    ultimately show ?thesis unfolding yq_rel_def by metis
  next
    case True
    obtain c cl' where cl: "cl = c # cl'" using yq_inv_end(2) [OF q] by (cases cl) auto
    have "cl' \<noteq> []" using b True inv by (auto simp: cl end_idx_def)
    then obtain d cl'' where cl': "cl' = d # cl''" by (cases cl') auto
    have c: "c = begin_chunk q" using inv by (simp add: cl)
    have ch: "chain N (chunks q) (c # cl')" using inv unfolding cl by (rule conjunct1 [OF conjunct2])
    then obtain cc dc where cc: "chunks q c = Some cc" "nxt cc = Some d"
      and dc: "chunks q d = Some dc" "length (vals cc) = N"
      unfolding chain_def cl' by force
    have dist: "distinct (c # cl')" using ch by (simp add: chain_def)
    define h1 where "h1 = (chunks q)(d \<mapsto> dc\<lparr>prev := None\<rparr>)"
    define h where "h = (case spare_chunk q of None \<Rightarrow> h1 | Some s \<Rightarrow> h1(s := None))"
    let ?q = "q\<lparr>chunks := h, begin_chunk := d, begin_pos := 0, spare_chunk := Some c\<rparr>"
    have sp: "s \<notin> set (c # cl')" "\<exists>x. chunks q s = Some x" if "spare_chunk q = Some s" for s
      using inv that by (auto simp: cl)
    have "pop N q = Some ?q"
      using True cc dc sp by (auto simp: pop_def c [symmetric] set_prev_def heap_free_def h_def h1_def
        cl' Let_def split: option.splits)
    moreover have "chain N h cl'"
    proof (cases "spare_chunk q")
      case None
      with chain_tl(1) [OF ch \<open>cl' \<noteq> []\<close>, of dc c] dc dist show ?thesis
        by (simp add: h_def h1_def cl')
    next
      case (Some s)
      with chain_tl(2) [OF ch \<open>cl' \<noteq> []\<close>, of dc s None] dc sp [OF Some] show ?thesis
        by (simp add: h_def h1_def cl')
    qed
    moreover have "h c = Some cc"
      using cc dist sp by (auto simp: h_def h1_def cl' split: option.split)
    moreover have "dom h = set cl' \<union> {c}"
      using inv dc dist sp by (auto simp: h_def h1_def cl cl' split: option.splits if_splits)
    moreover have e: "end_idx N q cl = end_idx N ?q cl' + N"
      using \<open>cl' \<noteq> []\<close> by (cases cl') (simp_all add: cl end_idx_def)
    moreover have N: "0 < N" using inv by simp
    moreover have "back_cell ?q = back_cell q" by (simp add: back_cell_def)
    moreover have "cell_at N cl (end_idx N q cl - 1) = cell_at N cl' (end_idx N ?q cl' - 1)"
      if "0 < end_idx N ?q cl'"
      using cell_at_Cons [OF N, of c cl' "end_idx N ?q cl' - 1"] e that by (simp add: cl)
    ultimately have "yq_inv N ?q cl'"
      using inv b dist dc(2) unfolding yq_inv_def by (auto simp: cl cl')
    moreover have "tl cs = cells N ?q cl'"
    proof -
      have "load h (cell_at N cl' j) = load (chunks q) (cell_at N cl' j)" if "j < length cl' * N" for j
      proof (rule load_cong)
        have "fst (cell_at N cl' j) \<in> set cl'" using cell_at_less [OF that] by (simp add: cell_at_def)
        then show "map_option vals (h (fst (cell_at N cl' j))) = map_option vals (chunks q (fst (cell_at N cl' j)))"
          using dc dist sp by (auto simp: h_def h1_def cl' split: option.split)
      qed
      moreover have "end_idx N ?q cl' < length cl' * N"
        using \<open>cl' \<noteq> []\<close> inv by (intro end_idx_less) simp_all
      ultimately have ld: "load h (cell_at N cl' j) = load (chunks q) (cell_at N cl' j)"
        if "j < end_idx N ?q cl'" for j using that by simp
      have "tl cs = map (\<lambda>j. (cell_at N cl (j + N), the (load (chunks q) (cell_at N cl (j + N)))))
          [0..<end_idx N ?q cl']"
        unfolding tl e True [simplified] map_add_upt [of N "end_idx N ?q cl'", symmetric]
        by (simp only: map_map comp_def)
      also have "\<dots> = cells N ?q cl'"
        unfolding cells_def using ld cell_at_Cons [OF N, of c cl'] by (auto simp: cl)
      finally show ?thesis .
    qed
    ultimately show ?thesis unfolding yq_rel_def using \<open>pop N q = Some ?q\<close> by metis
  qed
qed

lemma yq_invI:
  assumes "0 < N" "chain N (chunks q) cl" "hd cl = begin_chunk q" "last cl = end_chunk q"
    "begin_pos q < N" "end_pos q < N" "end_idx N q cl = k" "begin_pos q \<le> k"
    "begin_pos q < k \<Longrightarrow> back_cell q = Some (cell_at N cl (k - 1))"
    "\<And>s. spare_chunk q = Some s \<Longrightarrow>
      s \<notin> set cl \<and> (\<exists>ch. chunks q s = Some ch \<and> length (vals ch) = N)"
    "dom (chunks q) = set cl \<union> set_option (spare_chunk q)"
  shows "yq_inv N q cl"
  using assms unfolding yq_inv_def by blast

lemma unpush_back:
  assumes "yq_inv N q cl" "begin_pos q < end_idx N q cl"
  shows "\<exists>bc bp. (if back_pos q \<noteq> 0 then Some (q\<lparr>back_pos := back_pos q - 1\<rparr>)
      else do {
        b \<leftarrow> back_chunk q;
        ch \<leftarrow> chunks q b;
        Some (q\<lparr>back_pos := N - 1, back_chunk := prev ch\<rparr>) }) = Some (q\<lparr>back_chunk := bc, back_pos := bp\<rparr>) \<and>
    (begin_pos q < end_idx N q cl - 1 \<longrightarrow> bc = Some (fst (cell_at N cl (end_idx N q cl - 1 - 1))) \<and>
      bp = snd (cell_at N cl (end_idx N q cl - 1 - 1)))"
proof -
  define k where "k = end_idx N q cl - 1"
  have N: "0 < N" and ch: "chain N (chunks q) cl" using assms(1) by (auto simp: yq_inv_def)
  have kl: "k < length cl * N" using yq_inv_end(1) [OF assms(1)] k_def by linarith
  have "back_cell q = Some (cell_at N cl k)"
    using assms unfolding yq_inv_def k_def by simp
  then have bk: "back_chunk q = Some (cl ! (k div N))" "back_pos q = k mod N"
    by (auto simp: back_cell_def cell_at_def bind_eq_Some_conv)
  show ?thesis
  proof (cases "k mod N = 0")
    case False
    then have "k = Suc (k - 1)" by (cases k) auto
    with False have "k div N = (k - 1) div N" "k mod N - 1 = (k - 1) mod N"
      by (metis div_Suc, metis diff_Suc_1 mod_Suc)
    then show ?thesis using False bk unfolding k_def [symmetric]
      by (intro exI [of _ "back_chunk q"] exI [of _ "back_pos q - 1"]) (simp add: cell_at_def)
  next
    case True
    have lt: "k div N < length cl" using cell_at_less [OF kl] .
    then obtain c where c: "chunks q (cl ! (k div N)) = Some c" using ch unfolding chain_def by (meson nth_mem)
    have "prev c = Some (cl ! ((k - 1) div N)) \<and> N - 1 = (k - 1) mod N" if bk0: "begin_pos q < k"
    proof -
      obtain j where j: "k = Suc j" using bk0 by (cases k) auto
      then have dm: "k div N = Suc (j div N)" "j mod N = N - 1"
        using N True by (auto simp: div_Suc mod_Suc split: if_splits)
      with lt ch c j show ?thesis unfolding chain_def by force
    qed
    then show ?thesis using True bk c unfolding k_def [symmetric]
      by (intro exI [of _ "prev c"] exI [of _ "N - 1"]) (simp add: cell_at_def)
  qed
qed

lemma unpush_rel:
  assumes "yq_rel N q cs" "cs \<noteq> []"
  shows "\<exists>q'. unpush N q = Some q' \<and> yq_rel N q' (butlast cs)"
proof -
  from assms(1) obtain cl where q: "yq_inv N q cl" and cs: "cs = cells N q cl"
    unfolding yq_rel_def by blast
  note inv = q [unfolded yq_inv_def]
  from assms(2) have b: "begin_pos q < end_idx N q cl" by (simp add: cs cells_def)
  let ?k = "end_idx N q cl - 1"
  have k: "begin_pos q \<le> ?k" using b by simp
  have bl: "butlast cs = map (\<lambda>j. (cell_at N cl j, the (load (chunks q) (cell_at N cl j))))
      [begin_pos q..<?k]"
  proof -
    have "end_idx N q cl = Suc ?k" using b by simp
    then have "[begin_pos q..<end_idx N q cl] = [begin_pos q..<?k] @ [?k]"
      using k by (metis upt_Suc_append)
    then show ?thesis by (simp add: cs cells_def)
  qed
  from unpush_back [OF q b] obtain bc bp where step1: "(if back_pos q \<noteq> 0 then Some (q\<lparr>back_pos := back_pos q - 1\<rparr>)
      else do {
        b \<leftarrow> back_chunk q;
        ch \<leftarrow> chunks q b;
        Some (q\<lparr>back_pos := N - 1, back_chunk := prev ch\<rparr>) }) = Some (q\<lparr>back_chunk := bc, back_pos := bp\<rparr>)"
    and bk: "begin_pos q < ?k \<Longrightarrow> bc = Some (fst (cell_at N cl (?k - 1))) \<and> bp = snd (cell_at N cl (?k - 1))" by auto
  let ?q1 = "q\<lparr>back_chunk := bc, back_pos := bp\<rparr>"
  show ?thesis
  proof (cases "end_pos q = 0")
    case False
    let ?q = "?q1\<lparr>end_pos := end_pos q - 1\<rparr>"
    have un: "unpush N q = Some ?q"
      using step1 False by (auto simp: unpush_def)
    have e: "end_idx N ?q cl = ?k" using False b by (simp add: end_idx_def)
    have "yq_inv N ?q cl"
      using inv k bk unfolding yq_inv_def e by (auto simp: back_cell_def)
    moreover have "butlast cs = cells N ?q cl" unfolding bl cells_def e by simp
    ultimately show ?thesis using un unfolding yq_rel_def by metis
  next
    case True
    obtain cl0 z where cl0: "cl = cl0 @ [z]" using yq_inv_end(2) [OF q] by (cases cl rule: rev_cases) auto
    have "cl0 \<noteq> []" using b True by (auto simp: cl0 end_idx_def)
    then obtain cl1 d where cl: "cl = cl1 @ [d, z]" by (cases cl0 rule: rev_cases) (auto simp: cl0)
    have ch: "chain N (chunks q) (cl1 @ [d, z])" using inv unfolding cl by blast
    then have "\<exists>c. chunks q ((cl1 @ [d, z]) ! length cl1) = Some c \<and> nxt c = Some ((cl1 @ [d, z]) ! Suc (length cl1))"
      "\<exists>c. chunks q ((cl1 @ [d, z]) ! Suc (length cl1)) = Some c \<and> prev c = Some ((cl1 @ [d, z]) ! length cl1)"
      unfolding chain_def by (metis (no_types) Suc_lessI length_append length_Cons lessI list.size(3) add_Suc_right add_0_right)+
    then obtain dc zc where dc: "chunks q d = Some dc" "nxt dc = Some z"
      and zc: "chunks q z = Some zc" "prev zc = Some d"
      by (auto simp: nth_append)
    have dist: "distinct (cl1 @ [d, z])" using ch by (simp add: chain_def)
    have z: "z = end_chunk q" using inv by (simp add: cl)
    define h where "h = (chunks q)(z := None, d \<mapsto> dc\<lparr>nxt := None\<rparr>)"
    let ?q = "?q1\<lparr>end_pos := N - 1, end_chunk := d, chunks := h\<rparr>"
    have un: "unpush N q = Some ?q"
      using step1 True dc zc dist
      by (auto simp: unpush_def z [symmetric] heap_free_def set_next_def h_def)
    have N: "0 < N" using inv by blast
    have e: "end_idx N ?q (cl1 @ [d]) = ?k" "end_idx N q cl = length (cl1 @ [d]) * N"
      using True b N by (simp_all add: cl end_idx_def)
    have kl: "j < length (cl1 @ [d]) * N" if "j < ?k" for j using that e(2) b by simp
    have at: "cell_at N cl j = cell_at N (cl1 @ [d]) j" if "j < ?k" for j
      using cell_at_append [OF kl [OF that], of "[z]"] by (simp add: cl)
    have chain': "chain N h (cl1 @ [d])" unfolding h_def by (rule chain_butlast [OF ch dc(1)])
    have dom: "dom h = set (cl1 @ [d]) \<union> set_option (spare_chunk q)"
    proof -
      have "dom (chunks q) = set (cl1 @ [d, z]) \<union> set_option (spare_chunk q)" using inv by (simp add: cl)
      moreover have "z \<notin> set_option (spare_chunk q)" using inv by (auto simp: cl)
      ultimately show ?thesis using dist by (auto simp: h_def)
    qed
    have sp: "s \<notin> set (cl1 @ [d]) \<and> (\<exists>ch. h s = Some ch \<and> length (vals ch) = N)"
      if "spare_chunk q = Some s" for s
      using inv that by (auto simp: cl h_def)
    have "hd (cl1 @ [d]) = begin_chunk q" using inv by (cases cl1) (simp_all add: cl)
    then have "yq_inv N ?q (cl1 @ [d])"
      by (intro yq_invI [OF N _ _ _ _ _ e(1)])
        (use inv k bk chain' dom sp N at [of "?k - 1"] in \<open>simp_all add: back_cell_def\<close>)
    moreover have "butlast cs = cells N ?q (cl1 @ [d])"
    proof -
      have "load h (cell_at N (cl1 @ [d]) j) = load (chunks q) (cell_at N cl j)" if "j < ?k" for j
        unfolding at [OF that]
      proof (rule load_cong)
        have "fst (cell_at N (cl1 @ [d]) j) \<in> set (cl1 @ [d])"
          using cell_at_less [OF kl [OF that]] unfolding cell_at_def fst_conv by (rule nth_mem)
        then show "map_option vals (h (fst (cell_at N (cl1 @ [d]) j))) =
            map_option vals (chunks q (fst (cell_at N (cl1 @ [d]) j)))"
          using dc dist by (auto simp: h_def)
      qed
      then show ?thesis
        unfolding bl cells_def e(1) by (intro map_cong) (use at in \<open>simp_all del: upt_Suc\<close>)
    qed
    ultimately show ?thesis using un unfolding yq_rel_def by metis
  qed
qed

lemma new_yqueue_rel:
  assumes "0 < N"
  shows "\<exists>q. new_yqueue N a = Some q \<and> yq_rel N q []"
proof -
  let ?h = "[a \<mapsto> \<lparr>vals = replicate N None, prev = None, nxt = None\<rparr>] :: 'a heap"
  let ?q = "\<lparr>chunks = ?h, begin_chunk = a, begin_pos = 0, back_chunk = None, back_pos = 0,
       end_chunk = a, end_pos = 0, spare_chunk = None\<rparr> :: 'a yqueue"
  have "yq_inv N ?q [a]"
    by (rule yq_invI [where k = 0]) (use assms in \<open>simp_all add: chain_def end_idx_def\<close>)
  moreover have "[] = cells N ?q [a]" by (simp add: cells_def end_idx_def)
  ultimately have "yq_rel N ?q []" unfolding yq_rel_def by blast
  then show ?thesis by (simp add: new_yqueue_def allocate_chunk_def)
qed

subsection \<open>The destructor\<close>

lemma chain_free:
  assumes "chain N h (c # cl)" "cl \<noteq> []"
  shows "chain N (h(c := None)) cl"
proof -
  note c = assms(1) [unfolded chain_def]
  have nc: "cl ! j \<noteq> c" if "j < length cl" for j using c nth_mem [OF that] by auto
  have "(\<exists>ch. h (cl ! i) = Some ch \<and> nxt ch = Some (cl ! Suc i)) \<and>
      (\<exists>ch. h (cl ! Suc i) = Some ch \<and> prev ch = Some (cl ! i))" if "Suc i < length cl" for i
    using c that by (metis Suc_less_eq length_Cons nth_Cons_Suc)
  then show ?thesis
    using c assms(2) nc unfolding chain_def by (auto simp: Suc_lessD)
qed

lemma free_chain_ok:
  assumes "chain N h cl"
  shows "free_chain h (hd cl) (last cl) = Some (\<lambda>a. if a \<in> set cl then None else h a)"
  using assms
proof (induction cl arbitrary: h)
  case Nil
  then show ?case by (simp add: chain_def)
next
  case (Cons c cl)
  show ?case
  proof (cases cl)
    case Nil
    with Cons.prems show ?thesis
      by (auto simp: free_chain.simps chain_def heap_free_def fun_eq_iff)
  next
    case (Cons d ds)
    note IH = Cons.IH [OF chain_free [OF Cons.prems]]
    have "c \<noteq> last cl" using Cons.prems Cons unfolding chain_def by (auto split: if_splits)
    moreover obtain cc where "h c = Some cc" "nxt cc = Some d"
      using Cons.prems unfolding chain_def Cons by force
    moreover have "(\<lambda>a. if a \<in> set cl then None else (h(c := None)) a) =
        (\<lambda>a. if a \<in> set (c # cl) then None else h a)" by auto
    moreover have "hd cl = d" "cl \<noteq> []" by (simp_all add: Cons)
    ultimately have "free_chain h c (last cl) = Some (\<lambda>a. if a \<in> set (c # cl) then None else h a)"
      using IH by (simp add: free_chain.simps [of h c] heap_free_def del: fun_upd_apply)
    then show ?thesis by (simp add: Cons)
  qed
qed

lemma destroy_yqueue_ok:
  assumes "yq_rel N q cs"
  shows "destroy_yqueue q = Some (\<lambda>_. None)"
proof -
  from assms obtain cl where q: "yq_inv N q cl" unfolding yq_rel_def by blast
  note inv = q [unfolded yq_inv_def]
  have "free_chain (chunks q) (begin_chunk q) (end_chunk q) =
      Some (\<lambda>a. if a \<in> set cl then None else chunks q a)"
    using free_chain_ok [of N "chunks q" cl] inv by simp
  moreover have "chunks q a = None" if "a \<notin> set cl" "spare_chunk q \<noteq> Some a" for a
    using inv that by auto
  moreover have "s \<notin> set cl \<and> chunks q s \<noteq> None" if "spare_chunk q = Some s" for s
    using inv that by auto
  ultimately show ?thesis
    by (auto simp: destroy_yqueue_def heap_free_def fun_eq_iff split: option.split)
qed

subsection \<open>The queue interface\<close>

lemma yq_rel_distinct: "yq_rel N q cs \<Longrightarrow> distinct (map fst cs)"
  using distinct_cells unfolding yq_rel_def by blast

interpretation yq: cell_queue "yq_rel N" front_cell back_cell front_val back_val set_back
  "push N" "\<lambda>a q. chunks q a = None" "unpush N" "pop N" for N
proof
  show "distinct (map fst cs)" if "yq_rel N q cs" for q :: "'a yqueue" and cs
    using that by (rule yq_rel_distinct)
  show "front_cell q = fst x \<and> front_val q = snd x" if "yq_rel N q (x # cs)" for q :: "'a yqueue" and x cs
    using front_rel [OF that] by simp
  show "back_cell q = Some (fst x) \<and> back_val q = snd x" if "yq_rel N q (cs @ [x])"
    for q :: "'a yqueue" and x cs
    using back_rel [OF that] by simp
  show "\<exists>q'. set_back q v = Some q' \<and> yq_rel N q' (cs @ [(p, Some v)]) \<and>
      (\<forall>a. (chunks q' a = None) = (chunks q a = None))" if "yq_rel N q (cs @ [(p, x)])"
    for q :: "'a yqueue" and cs p x v
  proof -
    from set_back_rel [OF that, of v] obtain q' where "set_back q v = Some q'"
      "yq_rel N q' (cs @ [(p, Some v)])" "dom (chunks q') = dom (chunks q)" by auto
    moreover from this(3) have "chunks q' a = None \<longleftrightarrow> chunks q a = None" for a by (metis domIff)
    ultimately show ?thesis by simp
  qed
  show "\<exists>q' p x. push N a q = Some q' \<and> yq_rel N q' (cs @ [(p, x)])"
    if "yq_rel N q cs" "chunks q a = None" for q :: "'a yqueue" and cs a
    using that by (rule push_rel)
  show "\<exists>q'. unpush N q = Some q' \<and> yq_rel N q' (x # cs)" if "yq_rel N q (x # cs @ [y])"
    for q :: "'a yqueue" and x cs y
    using unpush_rel [OF that] by (simp add: butlast_append)
  show "\<exists>q'. pop N q = Some q' \<and> yq_rel N q' cs" if "yq_rel N q (x # cs)" for q :: "'a yqueue" and x cs
    using pop_rel [OF that] by simp
qed

subsection \<open>Properties\<close>

text \<open>
  C8: The chunked queue is a list of cells: \<open>push\<close> (given memory that is not in use)
  appends a cell at an address that no cell has, \<open>unpush\<close> takes the last and \<open>pop\<close> the first
  cell of a queue that is not empty away, \<open>front\<close> and \<open>back\<close> are the first and the last cell, which
  a store through \<open>back\<close> changes, each without touching the other cells, following a dangling
  pointer or freeing a chunk twice, also where they cross a chunk boundary.
\<close>

theorem yqueue_refines_list:
  assumes "yq_rel N q cs"
  shows "(chunks q a = None \<longrightarrow>
      (\<exists>q' p v. push N a q = Some q' \<and> p \<notin> fst ` set cs \<and> yq_rel N q' (cs @ [(p, v)]))) \<and>
    (cs \<noteq> [] \<longrightarrow> (\<exists>q'. unpush N q = Some q' \<and> yq_rel N q' (butlast cs))) \<and>
    (cs \<noteq> [] \<longrightarrow> front_val q = snd (hd cs) \<and> (\<exists>q'. pop N q = Some q' \<and> yq_rel N q' (tl cs))) \<and>
    (cs \<noteq> [] \<longrightarrow> back_val q = snd (last cs) \<and>
      (\<exists>q'. set_back q v = Some q' \<and> yq_rel N q' (butlast cs @ [(fst (last cs), Some v)])))"
proof (intro conjI impI)
  assume "chunks q a = None"
  from push_rel [OF assms this] obtain q' p v where
    q': "push N a q = Some q'" "yq_rel N q' (cs @ [(p, v)])" by blast
  from yq_rel_distinct [OF q'(2)] have "p \<notin> fst ` set cs" by auto
  with q' show "\<exists>q' p v. push N a q = Some q' \<and> p \<notin> fst ` set cs \<and> yq_rel N q' (cs @ [(p, v)])"
    by blast
next
  assume "cs \<noteq> []"
  from set_back_rel [OF assms this, of v]
  show "\<exists>q'. set_back q v = Some q' \<and> yq_rel N q' (butlast cs @ [(fst (last cs), Some v)])" by blast
qed (use unpush_rel [OF assms] pop_rel [OF assms] front_rel [OF assms] back_rel [OF assms] in auto)

theorem yqueue_refines_list_witness:
  "\<exists>q q' q''. new_yqueue 1 5 = Some q \<and> push 1 6 q = Some q' \<and> unpush 1 q' = Some (q'' :: nat yqueue)"
proof -
  from new_yqueue_rel [of 1 5] obtain q :: "nat yqueue" where
    q: "new_yqueue 1 5 = Some q" "yq_rel 1 q []" by auto
  have "chunks q 6 = None" using q(1) by (auto simp: new_yqueue_def allocate_chunk_def)
  with yqueue_refines_list [OF q(2), of 6] obtain q' p v where
    q': "push 1 6 q = Some q'" "yq_rel 1 q' [(p, v)]" by auto
  from yqueue_refines_list [OF q'(2)] have "\<exists>q''. unpush 1 q' = Some q''" by blast
  with q(1) q'(1) show ?thesis by blast
qed

text \<open>
  C9: The destructor of the queue frees every chunk, the spare one included, and none twice:
  the heap is empty afterwards.
\<close>

theorem yqueue_destroy_frees_all:
  assumes "yq_rel N q cs"
  shows "destroy_yqueue q = Some (\<lambda>_. None)"
  using assms by (rule destroy_yqueue_ok)

theorem yqueue_destroy_frees_all_witness:
  "\<exists>q. new_yqueue 4 7 = Some (q :: nat yqueue) \<and> destroy_yqueue q = Some (\<lambda>_. None)"
proof -
  from new_yqueue_rel [of 4 7] obtain q :: "nat yqueue" where
    "new_yqueue 4 7 = Some q" "yq_rel 4 q []" by auto
  then show ?thesis using yqueue_destroy_frees_all by blast
qed

end
