(* ===== verification/Ypipe.thy ===== *)
theory Ypipe
  imports Yqueue
begin

text \<open>
  \<open>ypipe_t\<close> of \<open>src/zmqsrc/src/ypipe.hpp\<close>: the lock-free pipe between one writer and one
  reader thread. \<open>w\<close>, \<open>r\<close> and \<open>f\<close> are addresses of cells of the queue, \<open>c\<close> is the one
  variable both threads use, by compare-and-swap (\<open>atomic_ptr_t\<close>); it is \<open>NULL\<close> while the
  reader sleeps.

  The second half interleaves the two threads. A step of the relation is one atomic action
  with the thread-local code around it; the only operation with two accesses to \<open>c\<close>,
  \<open>flush\<close> to a sleeping reader, is two steps, and the reader may run between them.
\<close>

record 'a ypipe =
  queue :: "'a yqueue"
  w_ptr :: cell
  r_ptr :: "cell option"
  f_ptr :: cell
  c_ptr :: "cell option"

text \<open>\<open>atomic_ptr_t::cas\<close>: the old value, and the new content.\<close>

definition cas :: "'p option \<Rightarrow> 'p option \<Rightarrow> 'p option \<Rightarrow> 'p option \<times> 'p option" where
  "cas cur cmp val = (cur, if cur = cmp then val else cur)"

definition new_ypipe :: "nat \<Rightarrow> nat \<Rightarrow> nat \<Rightarrow> 'a ypipe option" where
  "new_ypipe N a b = do {
     q \<leftarrow> new_yqueue N a;
     q \<leftarrow> push N b q;
     p \<leftarrow> back_cell q;
     Some \<lparr>queue = q, w_ptr = p, r_ptr = Some p, f_ptr = p, c_ptr = Some p\<rparr> }"

definition ypipe_write :: "nat \<Rightarrow> nat \<Rightarrow> 'a \<Rightarrow> bool \<Rightarrow> 'a ypipe \<Rightarrow> 'a ypipe option" where
  "ypipe_write N a v incomplete y = do {
     q \<leftarrow> do { q \<leftarrow> set_back (queue y) v; push N a q };
     p \<leftarrow> back_cell q;
     Some (y\<lparr>queue := q, f_ptr := (if \<not> incomplete then p else f_ptr y)\<rparr>) }"

definition ypipe_unwrite :: "nat \<Rightarrow> 'a ypipe \<Rightarrow> ('a option \<times> 'a ypipe) option" where
  "ypipe_unwrite N y = do {
     p \<leftarrow> back_cell (queue y);
     if f_ptr y = p then Some (None, y)
     else do {
       q \<leftarrow> unpush N (queue y);
       v \<leftarrow> back_val q;
       Some (Some v, y\<lparr>queue := q\<rparr>) } }"

text \<open>\<open>flush\<close>: the compare-and-swap, and the wake-up branch (lines 125 and 126).\<close>

definition ypipe_flush_cas :: "'a ypipe \<Rightarrow> bool \<times> 'a ypipe" where
  "ypipe_flush_cas y =
     (if w_ptr y = f_ptr y then (True, y)
      else let (old, c) = cas (c_ptr y) (Some (w_ptr y)) (Some (f_ptr y))
           in if old \<noteq> Some (w_ptr y) then (False, y\<lparr>c_ptr := c\<rparr>)
              else (True, y\<lparr>c_ptr := c, w_ptr := f_ptr y\<rparr>))"

definition ypipe_flush_wake :: "'a ypipe \<Rightarrow> 'a ypipe" where
  "ypipe_flush_wake y = y\<lparr>c_ptr := Some (f_ptr y), w_ptr := f_ptr y\<rparr>"

definition ypipe_flush :: "'a ypipe \<Rightarrow> bool \<times> 'a ypipe" where
  "ypipe_flush y = (let (ok, y') = ypipe_flush_cas y
     in if ok then (True, y') else (False, ypipe_flush_wake y'))"

definition ypipe_check_read :: "'a ypipe \<Rightarrow> bool \<times> 'a ypipe" where
  "ypipe_check_read y =
     (let front = front_cell (queue y) in
      if r_ptr y \<noteq> Some front \<and> r_ptr y \<noteq> None then (True, y)
      else let (r, c) = cas (c_ptr y) (Some front) None
           in (\<not> (r = Some front \<or> r = None), y\<lparr>r_ptr := r, c_ptr := c\<rparr>))"

definition ypipe_read :: "nat \<Rightarrow> 'a ypipe \<Rightarrow> ('a option \<times> 'a ypipe) option" where
  "ypipe_read N y =
     (let (ok, y) = ypipe_check_read y in
      if \<not> ok then Some (None, y)
      else do {
        v \<leftarrow> front_val (queue y);
        q \<leftarrow> pop N (queue y);
        Some (Some v, y\<lparr>queue := q\<rparr>) })"

definition ypipe_probe :: "('a \<Rightarrow> bool) \<Rightarrow> 'a ypipe \<Rightarrow> (bool \<times> 'a ypipe) option" where
  "ypipe_probe fn y =
     (let (rc, y) = ypipe_check_read y in
      do {
        zmq_assert rc;
        v \<leftarrow> front_val (queue y);
        Some (fn v, y) })"

subsection \<open>The two threads\<close>

text \<open>
  Besides the pipe: \<open>waking\<close> while the writer is between the failed compare-and-swap of
  \<open>flush\<close> and the store of \<open>c\<close>; \<open>asleep\<close> from a \<open>check_read\<close> that returned false to the
  \<open>flush\<close> that returns false (and so wakes the reader up). \<open>log\<close> are the items written
  and not taken back, with their flag \<open>incomplete\<close>, \<open>flushed\<close> how many of them are flushed,
  \<open>got\<close> the items read.
\<close>

record 'a ysys =
  pipe :: "'a ypipe"
  waking :: bool
  asleep :: bool
  log :: "('a \<times> bool) list"
  flushed :: nat
  got :: "'a list"

text \<open>The items up to the last complete one.\<close>

definition complete :: "('a \<times> bool) list \<Rightarrow> nat" where
  "complete xs = length (dropWhile snd (rev xs))"

inductive ystep :: "nat \<Rightarrow> 'a ysys \<Rightarrow> 'a ysys \<Rightarrow> bool" for N where
  y_write: "\<not> waking s \<Longrightarrow> chunks (queue (pipe s)) a = None \<Longrightarrow>
    ypipe_write N a v inc (pipe s) = Some y \<Longrightarrow>
    ystep N s (s\<lparr>pipe := y, log := log s @ [(v, inc)]\<rparr>)"
| y_unwrite: "\<not> waking s \<Longrightarrow> ypipe_unwrite N (pipe s) = Some (Some v, y) \<Longrightarrow>
    ystep N s (s\<lparr>pipe := y, log := butlast (log s)\<rparr>)"
| y_flush_done: "\<not> waking s \<Longrightarrow> ypipe_flush_cas (pipe s) = (True, y) \<Longrightarrow>
    ystep N s (s\<lparr>pipe := y, flushed := complete (log s)\<rparr>)"
| y_flush_fail: "\<not> waking s \<Longrightarrow> ypipe_flush_cas (pipe s) = (False, y) \<Longrightarrow>
    ystep N s (s\<lparr>pipe := y, waking := True\<rparr>)"
| y_flush_wake: "waking s \<Longrightarrow>
    ystep N s (s\<lparr>pipe := ypipe_flush_wake (pipe s), waking := False, asleep := False,
      flushed := complete (log s)\<rparr>)"
| y_check: "ypipe_check_read (pipe s) = (b, y) \<Longrightarrow>
    ystep N s (s\<lparr>pipe := y, asleep := (asleep s \<or> \<not> b)\<rparr>)"
| y_read: "ypipe_read N (pipe s) = Some (r, y) \<Longrightarrow>
    ystep N s (s\<lparr>pipe := y, asleep := (asleep s \<or> r = None),
      got := got s @ (case r of None \<Rightarrow> [] | Some v \<Rightarrow> [v])\<rparr>)"

inductive yreach :: "nat \<Rightarrow> 'a ysys \<Rightarrow> bool" for N where
  y_start: "a \<noteq> b \<Longrightarrow> new_ypipe N a b = Some y \<Longrightarrow> yreach N \<lparr>pipe = y, waking = False, asleep = False,
    log = [], flushed = 0, got = []\<rparr>"
| y_step: "yreach N s \<Longrightarrow> ystep N s s' \<Longrightarrow> yreach N s'"

subsection \<open>The invariant\<close>

lemma complete_le: "complete xs \<le> length xs"
  unfolding complete_def by (metis length_dropWhile_le length_rev)

lemma complete_snoc [simp]:
  "complete (xs @ [(v, inc)]) = (if inc then complete xs else Suc (length xs))"
  by (simp add: complete_def)

lemma complete_Nil [simp]: "complete [] = 0"
  by (simp add: complete_def)

lemma complete_butlast: "complete xs < length xs \<Longrightarrow> complete (butlast xs) = complete xs"
  by (cases xs rule: rev_cases) (auto split: if_splits)

text \<open>The cell of item number \<open>k\<close>, where \<open>n\<close> items have been read.\<close>

abbreviation adr :: "(cell \<times> 'v option) list \<Rightarrow> nat \<Rightarrow> nat \<Rightarrow> cell" where
  "adr cs n k \<equiv> fst (cs ! (k - n))"

definition yrep :: "nat \<Rightarrow> 'a ysys \<Rightarrow> (cell \<times> 'a option) list \<Rightarrow> bool" where
  "yrep N s cs \<longleftrightarrow> yq_rel N (queue (pipe s)) cs \<and>
     length cs = Suc (length (log s) - length (got s)) \<and>
     (\<forall>i < length (log s) - length (got s). snd (cs ! i) = Some (fst (log s ! (length (got s) + i))))"

definition ptrs :: "'a ysys \<Rightarrow> (cell \<times> 'a option) list \<Rightarrow> bool" where
  "ptrs s cs \<longleftrightarrow> (let R = length (got s); y = pipe s in
     w_ptr y = adr cs R (flushed s) \<and>
     f_ptr y = adr cs R (complete (log s)) \<and>
     (c_ptr y = None \<or> c_ptr y = Some (adr cs R (flushed s))) \<and>
     (r_ptr y = None \<or> (\<exists>P. R \<le> P \<and> P \<le> flushed s \<and> r_ptr y = Some (adr cs R P))))"

definition yctl :: "'a ysys \<Rightarrow> bool" where
  "yctl s \<longleftrightarrow> length (got s) \<le> flushed s \<and> flushed s \<le> complete (log s) \<and>
     got s = map fst (take (length (got s)) (log s)) \<and>
     (c_ptr (pipe s) = None \<longleftrightarrow> asleep s) \<and> (asleep s \<longrightarrow> length (got s) = flushed s) \<and>
     (waking s \<longrightarrow> asleep s \<and> flushed s < complete (log s))"

definition yinv :: "nat \<Rightarrow> 'a ysys \<Rightarrow> bool" where
  "yinv N s \<longleftrightarrow> yctl s \<and> (\<exists>cs. yrep N s cs \<and> ptrs s cs)"

lemma yinvE:
  assumes "yinv N s"
  obtains cs where "yctl s" "yrep N s cs" "ptrs s cs" "length (got s) \<le> flushed s"
    "flushed s \<le> complete (log s)" "complete (log s) \<le> length (log s)"
    "yq_rel N (queue (pipe s)) cs" "length cs = Suc (length (log s) - length (got s))"
proof -
  from assms obtain cs where cs: "yctl s" "yrep N s cs" "ptrs s cs" unfolding yinv_def by blast
  from cs(1) have "length (got s) \<le> flushed s" "flushed s \<le> complete (log s)"
    by (auto simp: yctl_def)
  moreover from cs(2) have "yq_rel N (queue (pipe s)) cs"
    "length cs = Suc (length (log s) - length (got s))" by (auto simp: yrep_def)
  ultimately show thesis using cs complete_le by (intro that) auto
qed

lemma yinv_start:
  assumes "0 < N" "a \<noteq> b"
  shows "\<exists>y :: 'v ypipe. new_ypipe N a b = Some y \<and>
    yinv N \<lparr>pipe = y, waking = False, asleep = False, log = [], flushed = 0, got = []\<rparr>"
proof -
  from new_yqueue_rel [OF assms(1), of a] obtain q :: "'v yqueue" where
    q: "new_yqueue N a = Some q" "yq_rel N q []" by blast
  have "chunks q b = None" using q(1) assms(2) by (auto simp: new_yqueue_def allocate_chunk_def)
  from yq.add_law [OF q(2) this] obtain q' p x where
    q': "push N b q = Some q'" "yq_rel N q' [(p, x)]" by auto
  have p: "back_cell q' = Some p" using yq.back_law [of N q' "[]"] q'(2) by simp
  define y where "y = \<lparr>queue = q', w_ptr = p, r_ptr = Some p, f_ptr = p, c_ptr = Some p\<rparr>"
  have "yinv N \<lparr>pipe = y, waking = False, asleep = False, log = [], flushed = 0, got = []\<rparr>"
    unfolding yinv_def
    by (intro conjI exI [of _ "[(p, x)]"]) (simp_all add: yctl_def yrep_def ptrs_def y_def q')
  moreover have "new_ypipe N a b = Some y" using q(1) q'(1) p by (simp add: new_ypipe_def y_def)
  ultimately show ?thesis by blast
qed

lemma write_ok:
  assumes "yinv N s" "\<not> waking s" "chunks (queue (pipe s)) a = None"
  shows "\<exists>y. ypipe_write N a v inc (pipe s) = Some y \<and>
    yinv N (s\<lparr>pipe := y, log := log s @ [(v, inc)]\<rparr>)"
proof -
  from assms(1) obtain cs where cs: "yctl s" "yrep N s cs" "ptrs s cs" "length (got s) \<le> flushed s"
    "flushed s \<le> complete (log s)" "complete (log s) \<le> length (log s)"
    "yq_rel N (queue (pipe s)) cs" "length cs = Suc (length (log s) - length (got s))"
    by (rule yinvE)
  let ?R = "length (got s)" and ?n = "length (log s) - length (got s)"
  obtain cs0 p x where cs0: "cs = cs0 @ [(p, x)]" "length cs0 = ?n"
    using cs(8) by (cases cs rule: rev_cases) auto
  from yq.enqueue [OF cs(7) [unfolded cs0(1)] assms(3), of v] obtain q' p' x' where
    q': "do { q \<leftarrow> set_back (queue (pipe s)) v; push N a q } = Some q'"
      "yq_rel N q' (cs0 @ [(p, Some v), (p', x')])" by blast
  let ?cs = "cs0 @ [(p, Some v), (p', x')]"
  let ?y = "(pipe s)\<lparr>queue := q', f_ptr := (if \<not> inc then p' else f_ptr (pipe s))\<rparr>"
  let ?s = "s\<lparr>pipe := ?y, log := log s @ [(v, inc)]\<rparr>"
  have "yq_rel N q' ((cs0 @ [(p, Some v)]) @ [(p', x')])" using q'(2) by simp
  then have p': "back_cell q' = Some p'" using yq.back_law by fastforce
  have same: "fst (?cs ! i) = fst (cs ! i)" if "i \<le> ?n" for i
    using that cs0 by (auto simp: nth_append nth_Cons')
  have len: "Suc (length (log s)) - ?R = Suc ?n" using cs(4-6) by simp
  have "yctl ?s"
    using cs(1,4-6) assms(2) unfolding yctl_def by simp
  moreover have "yrep N ?s ?cs"
    unfolding yrep_def
  proof (intro conjI allI impI)
    show "yq_rel N (queue (pipe ?s)) ?cs" using q'(2) by simp
    show "length ?cs = Suc (length (log ?s) - length (got ?s))" using len cs0(2) by simp
    fix i assume i: "i < length (log ?s) - length (got ?s)"
    have c: "\<forall>i < ?n. snd (cs ! i) = Some (fst (log s ! (?R + i)))" using cs(2) by (simp add: yrep_def)
    show "snd (?cs ! i) = Some (fst (log ?s ! (length (got ?s) + i)))"
    proof (cases "i < ?n")
      case True
      then have "snd (?cs ! i) = snd (cs ! i)" using cs0 by (simp add: nth_append)
      with True c show ?thesis by (simp add: nth_append less_diff_conv add.commute)
    next
      case False
      with i len have "i = ?n" by simp
      then show ?thesis using cs0(2) cs(4-6) by (simp add: nth_append)
    qed
  qed
  moreover have "ptrs ?s ?cs"
  proof -
    have "fst (?cs ! (flushed s - ?R)) = fst (cs ! (flushed s - ?R))"
      "fst (?cs ! (complete (log s) - ?R)) = fst (cs ! (complete (log s) - ?R))"
      using cs(4-6) by (intro same; simp)+
    moreover have "fst (?cs ! (P - ?R)) = fst (cs ! (P - ?R))" if "P \<le> flushed s" for P
      using cs(4-6) that by (intro same) simp
    moreover have "fst (?cs ! (Suc (length (log s)) - ?R)) = p'"
      using cs0(2) len by (simp add: nth_append)
    ultimately show ?thesis
      using cs(3) unfolding ptrs_def Let_def by auto
  qed
  ultimately have "yinv N ?s" unfolding yinv_def by blast
  moreover have "ypipe_write N a v inc (pipe s) = Some ?y"
    using q'(1) p' by (simp add: ypipe_write_def)
  ultimately show ?thesis by blast
qed

lemma unwrite_ok:
  assumes "yinv N s"
  shows "(complete (log s) = length (log s) \<and> ypipe_unwrite N (pipe s) = Some (None, pipe s)) \<or>
    (\<exists>y. complete (log s) < length (log s) \<and>
      ypipe_unwrite N (pipe s) = Some (Some (fst (last (log s))), y) \<and>
      (\<not> waking s \<longrightarrow> yinv N (s\<lparr>pipe := y, log := butlast (log s)\<rparr>)))"
proof -
  from assms obtain cs where cs: "yctl s" "yrep N s cs" "ptrs s cs" "length (got s) \<le> flushed s"
    "flushed s \<le> complete (log s)" "complete (log s) \<le> length (log s)"
    "yq_rel N (queue (pipe s)) cs" "length cs = Suc (length (log s) - length (got s))"
    by (rule yinvE)
  let ?R = "length (got s)" and ?n = "length (log s) - length (got s)"
  have bk: "back_cell (queue (pipe s)) = Some (fst (cs ! ?n))" by (rule yq.back_nth [OF cs(7,8)])
  have f: "f_ptr (pipe s) = fst (cs ! (complete (log s) - ?R))" using cs(3) by (simp add: ptrs_def Let_def)
  have eq: "f_ptr (pipe s) = fst (cs ! ?n) \<longleftrightarrow> complete (log s) - ?R = ?n"
    unfolding f by (rule yq.same_cell [OF cs(7)]) (use cs(4-6,8) in auto)
  show ?thesis
  proof (cases "complete (log s) = length (log s)")
    case True
    then show ?thesis using bk eq by (simp add: ypipe_unwrite_def)
  next
    case False
    then have lt: "complete (log s) < length (log s)" using cs(6) by simp
    then obtain cs0 p z t where cs0: "cs = cs0 @ [(p, z), t]" "length cs0 = ?n - 1"
      using cs(4-6,8) by (cases cs rule: rev_cases; cases "butlast cs" rule: rev_cases) auto
    have n: "0 < ?n" using lt cs(4-6) by simp
    have ne: "log s \<noteq> []" using lt by auto
    have c: "\<forall>i < ?n. snd (cs ! i) = Some (fst (log s ! (?R + i)))" using cs(2) by (simp add: yrep_def)
    have "?R + (?n - 1) = length (log s) - 1" using n by simp
    moreover have "snd (cs ! (?n - 1)) = z" using cs0 by (simp add: nth_append)
    ultimately have z: "z = Some (fst (last (log s)))"
      using c n ne by (metis diff_less last_conv_nth zero_less_one)
    from yq.take_back [OF cs(7) [unfolded cs0(1) z]] obtain q' where
      q': "unpush N (queue (pipe s)) = Some q'" "back_val q' = Some (fst (last (log s)))"
        "yq_rel N q' (cs0 @ [(p, z)])" by (auto simp: z)
    let ?y = "(pipe s)\<lparr>queue := q'\<rparr>" let ?cs = "cs0 @ [(p, z)]"
    let ?s = "s\<lparr>pipe := ?y, log := butlast (log s)\<rparr>"
    have un: "ypipe_unwrite N (pipe s) = Some (Some (fst (last (log s))), ?y)"
      using bk eq lt cs(4-6) q'(1,2) by (auto simp: ypipe_unwrite_def)
    have comp: "complete (butlast (log s)) = complete (log s)" using lt by (rule complete_butlast)
    have same: "?cs ! i = cs ! i" if "i < ?n" for i
      using that cs0 n by (auto simp: nth_append nth_Cons')
    have "yinv N ?s" if "\<not> waking s"
      unfolding yinv_def
    proof (intro conjI exI [of _ ?cs])
      show "yctl ?s" using cs(1,4-6) lt that unfolding yctl_def by (simp add: comp take_butlast)
      show "yrep N ?s ?cs"
        unfolding yrep_def using q'(3) cs0(2) n c same by (auto simp: nth_butlast)
      have "fst (?cs ! (P - ?R)) = fst (cs ! (P - ?R))" if "P \<le> complete (log s)" for P
      proof -
        have "P - ?R < ?n" using that lt cs(4-6) by simp
        from same [OF this] show ?thesis by simp
      qed
      moreover have "P \<le> complete (log s)" if "P \<le> flushed s" for P using that cs(5) by simp
      ultimately show "ptrs ?s ?cs"
        using cs(3,5) unfolding ptrs_def Let_def by (auto simp: comp)
    qed
    then show ?thesis using lt un by blast
  qed
qed

lemma flush_ok:
  assumes "yinv N s" "\<not> waking s"
  shows "\<exists>ok y. ypipe_flush_cas (pipe s) = (ok, y) \<and>
    (ok \<longrightarrow> yinv N (s\<lparr>pipe := y, flushed := complete (log s)\<rparr>)) \<and>
    (\<not> ok \<longrightarrow> yinv N (s\<lparr>pipe := y, waking := True\<rparr>)) \<and>
    (ok \<longleftrightarrow> \<not> asleep s \<or> flushed s = complete (log s))"
proof -
  from assms(1) obtain cs where cs: "yctl s" "yrep N s cs" "ptrs s cs" "length (got s) \<le> flushed s"
    "flushed s \<le> complete (log s)" "complete (log s) \<le> length (log s)"
    "yq_rel N (queue (pipe s)) cs" "length cs = Suc (length (log s) - length (got s))"
    by (rule yinvE)
  let ?R = "length (got s)"
  have "fst (cs ! (flushed s - ?R)) = fst (cs ! (complete (log s) - ?R)) \<longleftrightarrow>
      flushed s - ?R = complete (log s) - ?R"
    by (rule yq.same_cell [OF cs(7)]) (use cs(4-6,8) in auto)
  then have eq: "w_ptr (pipe s) = f_ptr (pipe s) \<longleftrightarrow> flushed s = complete (log s)"
    using cs(3-5) by (auto simp: ptrs_def Let_def)
  have repI: "yinv N s'" if "queue (pipe s') = queue (pipe s)" "log s' = log s" "got s' = got s"
      "yctl s'" "ptrs s' cs" for s'
    using that cs(2) unfolding yinv_def yrep_def by auto
  show ?thesis
  proof (cases "flushed s = complete (log s)")
    case True
    then have "ypipe_flush_cas (pipe s) = (True, pipe s)" using eq by (simp add: ypipe_flush_cas_def)
    then show ?thesis using True assms(1) by (auto simp: eq_commute [of "flushed s"])
  next
    case False
    show ?thesis
    proof (cases "asleep s")
      case True
      then have "c_ptr (pipe s) = None" using cs(1) by (simp add: yctl_def)
      then have "ypipe_flush_cas (pipe s) = (False, pipe s)"
        using False eq by (simp add: ypipe_flush_cas_def cas_def)
      moreover have "yinv N (s\<lparr>pipe := pipe s, waking := True\<rparr>)"
        by (rule repI) (use True False cs in \<open>auto simp: yctl_def ptrs_def\<close>)
      ultimately show ?thesis using True False by auto
    next
      case awake: False
      then have "c_ptr (pipe s) \<noteq> None" using cs(1) by (simp add: yctl_def)
      then have c: "c_ptr (pipe s) = Some (w_ptr (pipe s))" using cs(3) by (auto simp: ptrs_def Let_def)
      let ?y = "(pipe s)\<lparr>c_ptr := Some (f_ptr (pipe s)), w_ptr := f_ptr (pipe s)\<rparr>"
      have "ypipe_flush_cas (pipe s) = (True, ?y)"
        using False eq c by (simp add: ypipe_flush_cas_def cas_def)
      moreover have "yinv N (s\<lparr>pipe := ?y, flushed := complete (log s)\<rparr>)"
        by (rule repI) (use awake assms(2) cs in \<open>auto simp: yctl_def ptrs_def Let_def\<close>)
      ultimately show ?thesis using awake by auto
    qed
  qed
qed

lemma wake_ok:
  assumes "yinv N s" "waking s"
  shows "yinv N (s\<lparr>pipe := ypipe_flush_wake (pipe s), waking := False, asleep := False,
    flushed := complete (log s)\<rparr>)"
proof -
  from assms(1) obtain cs where cs: "yctl s" "yrep N s cs" "ptrs s cs" "length (got s) \<le> flushed s"
    "flushed s \<le> complete (log s)" by (rule yinvE)
  then show ?thesis
    unfolding yinv_def
    by (intro conjI exI [of _ cs]) (auto simp: yctl_def yrep_def ptrs_def Let_def ypipe_flush_wake_def)
qed

lemma check_ok:
  assumes "yinv N s"
  shows "\<exists>y. ypipe_check_read (pipe s) = (length (got s) < flushed s, y) \<and>
    queue y = queue (pipe s) \<and>
    yinv N (s\<lparr>pipe := y, asleep := (asleep s \<or> \<not> length (got s) < flushed s)\<rparr>)"
proof -
  from assms(1) obtain cs where cs: "yctl s" "yrep N s cs" "ptrs s cs" "length (got s) \<le> flushed s"
    "flushed s \<le> complete (log s)" "complete (log s) \<le> length (log s)"
    "yq_rel N (queue (pipe s)) cs" "length cs = Suc (length (log s) - length (got s))"
    by (rule yinvE)
  let ?R = "length (got s)" and ?F = "flushed s"
  have fr: "front_cell (queue (pipe s)) = fst (cs ! 0)"
    by (rule yq.front_nth [OF cs(7)]) (use cs(8) in auto)
  have eq: "fst (cs ! 0) = fst (cs ! (P - ?R)) \<longleftrightarrow> P \<le> ?R" if "P \<le> ?F" for P
  proof -
    have "fst (cs ! 0) = fst (cs ! (P - ?R)) \<longleftrightarrow> 0 = P - ?R"
      by (rule yq.same_cell [OF cs(7)]) (use cs(5,6,8) that in auto)
    then show ?thesis by auto
  qed
  have repI: "yinv N s'" if "queue (pipe s') = queue (pipe s)" "log s' = log s" "got s' = got s"
      "yctl s'" "ptrs s' cs" for s'
    using that cs(2) unfolding yinv_def yrep_def by auto
  consider P where "r_ptr (pipe s) = Some (fst (cs ! (P - ?R)))" "?R < P" "P \<le> ?F"
    | "r_ptr (pipe s) = None \<or> r_ptr (pipe s) = Some (fst (cs ! 0))"
    using cs(3) unfolding ptrs_def Let_def by (metis diff_self_eq_0 le_neq_implies_less)
  then show ?thesis
  proof cases
    case 1
    then have "ypipe_check_read (pipe s) = (True, pipe s)"
      using eq [of P] by (simp add: ypipe_check_read_def fr Let_def)
    moreover have "?R < ?F" using 1 by simp
    ultimately show ?thesis using assms by simp
  next
    case 2
    then have step: "ypipe_check_read (pipe s) =
        (let (r, c) = cas (c_ptr (pipe s)) (Some (fst (cs ! 0))) None
         in (\<not> (r = Some (fst (cs ! 0)) \<or> r = None), (pipe s)\<lparr>r_ptr := r, c_ptr := c\<rparr>))"
      by (auto simp: ypipe_check_read_def fr Let_def)
    show ?thesis
    proof (cases "asleep s")
      case True
      then have "c_ptr (pipe s) = None" "?R = ?F" using cs(1) by (auto simp: yctl_def)
      moreover have "yinv N (s\<lparr>pipe := (pipe s)\<lparr>r_ptr := None, c_ptr := None\<rparr>, asleep := True\<rparr>)"
        by (rule repI) (use True cs in \<open>auto simp: yctl_def ptrs_def Let_def\<close>)
      ultimately show ?thesis using step True by (simp add: cas_def)
    next
      case False
      then have c: "c_ptr (pipe s) = Some (fst (cs ! (?F - ?R)))"
        using cs(1,3) by (auto simp: yctl_def ptrs_def Let_def)
      let ?r = "Some (fst (cs ! (?F - ?R)))"
      show ?thesis
      proof (cases "?R < ?F")
        case True
        then have "fst (cs ! (?F - ?R)) \<noteq> fst (cs ! 0)" using eq [of ?F] by auto
        moreover have "yinv N (s\<lparr>pipe := (pipe s)\<lparr>r_ptr := ?r, c_ptr := ?r\<rparr>, asleep := False\<rparr>)"
          by (rule repI) (use False cs in \<open>auto simp: yctl_def ptrs_def Let_def\<close>)
        ultimately show ?thesis using step c True False by (simp add: cas_def)
      next
        case R: False
        then have "fst (cs ! (?F - ?R)) = fst (cs ! 0)" by simp
        moreover have "yinv N (s\<lparr>pipe := (pipe s)\<lparr>r_ptr := ?r, c_ptr := None\<rparr>, asleep := True\<rparr>)"
          by (rule repI) (use R False cs in \<open>auto simp: yctl_def ptrs_def Let_def\<close>)
        ultimately show ?thesis using step c R False by (simp add: cas_def)
      qed
    qed
  qed
qed

lemma check_read_True: "ypipe_check_read p = (True, y) \<Longrightarrow> r_ptr y \<noteq> Some (front_cell (queue y))"
  by (auto simp: ypipe_check_read_def Let_def split: prod.splits if_splits)

lemma read_ok:
  assumes "yinv N s"
  shows "\<exists>y. ypipe_read N (pipe s) =
      Some (if length (got s) < flushed s then Some (fst (log s ! length (got s))) else None, y) \<and>
    yinv N (s\<lparr>pipe := y, asleep := (asleep s \<or> \<not> length (got s) < flushed s),
      got := got s @ (if length (got s) < flushed s then [fst (log s ! length (got s))] else [])\<rparr>)"
proof -
  from check_ok [OF assms] obtain y where
    y: "ypipe_check_read (pipe s) = (length (got s) < flushed s, y)" "queue y = queue (pipe s)"
      "yinv N (s\<lparr>pipe := y, asleep := (asleep s \<or> \<not> length (got s) < flushed s)\<rparr>)"
      (is "yinv N ?s1") by blast
  show ?thesis
  proof (cases "length (got s) < flushed s")
    case False
    with y show ?thesis by (simp add: ypipe_read_def)
  next
    case True
    let ?R = "length (got s)" and ?v = "fst (log s ! length (got s))"
    from y(3) obtain cs where cs: "yctl ?s1" "yrep N ?s1 cs" "ptrs ?s1 cs" "length (got ?s1) \<le> flushed ?s1"
      "flushed ?s1 \<le> complete (log ?s1)" "complete (log ?s1) \<le> length (log ?s1)"
      "yq_rel N (queue (pipe ?s1)) cs" "length cs = Suc (length (log ?s1) - length (got ?s1))"
      by (rule yinvE)
    obtain x cs' where cs': "cs = x # cs'" using cs(8) by (cases cs) auto
    have n: "0 < length (log s) - ?R" using True cs(5,6) by simp
    have vals: "\<forall>i < length (log s) - ?R. snd (cs ! i) = Some (fst (log s ! (?R + i)))"
      using cs(2) by (simp add: yrep_def)
    then have "snd (cs ! 0) = Some ?v" using n by fastforce
    then obtain p where x: "x = (p, Some ?v)" by (cases x) (simp add: cs')
    from yq.dequeue [OF cs(7) [unfolded cs' x]] obtain q' where
      q': "front_val (queue y) = Some ?v" "pop N (queue y) = Some q'" "yq_rel N q' cs'" by auto
    let ?y = "y\<lparr>queue := q'\<rparr>"
    let ?s = "s\<lparr>pipe := ?y, asleep := asleep s, got := got s @ [?v]\<rparr>"
    have same: "fst (cs' ! (P - Suc ?R)) = fst (cs ! (P - ?R))" if "?R < P" for P
      using that by (simp add: cs' nth_Cons' )
    have slp: "\<not> asleep s" using cs(1) True by (auto simp: yctl_def)
    have "yinv N ?s"
      unfolding yinv_def
    proof (intro conjI exI [of _ cs'])
      have "got s = map fst (take ?R (log s))" using cs(1) by (simp add: yctl_def)
      then have "got s @ [?v] = map fst (take (Suc ?R) (log s))"
        using n by (simp add: take_Suc_conv_app_nth)
      moreover have "Suc ?R \<le> length (log s)" using n by simp
      ultimately show "yctl ?s" using cs(1) True slp by (simp add: yctl_def)
      have "snd (cs' ! i) = Some (fst (log s ! (Suc ?R + i)))" if "i < length (log s) - Suc ?R" for i
      proof -
        have "Suc i < length (log s) - ?R" using that by simp
        with vals have "snd (cs ! Suc i) = Some (fst (log s ! (?R + Suc i)))" by blast
        then show ?thesis by (simp add: cs')
      qed
      then show "yrep N ?s cs'"
        using q'(3) cs(8) n unfolding yrep_def by (simp add: cs' Suc_diff_Suc)
      have "r_ptr y = None \<or> (\<exists>P. Suc ?R \<le> P \<and> P \<le> flushed s \<and> r_ptr y = Some (fst (cs ! (P - ?R))))"
      proof -
        have "r_ptr y \<noteq> Some (fst (cs ! 0))"
          using check_read_True [of "pipe s" y] y(1) True yq.front_nth [OF cs(7)] by (auto simp: cs')
        moreover have "r_ptr y = None \<or>
            (\<exists>P. ?R \<le> P \<and> P \<le> flushed s \<and> r_ptr y = Some (fst (cs ! (P - ?R))))"
          using cs(3) by (simp add: ptrs_def Let_def)
        moreover have "Suc ?R \<le> P" if "?R \<le> P" "fst (cs ! (P - ?R)) \<noteq> fst (cs ! 0)" for P
          using that by (cases "P = ?R") auto
        ultimately show ?thesis by metis
      qed
      moreover have "w_ptr y = fst (cs ! (flushed s - ?R)) \<and> f_ptr y = fst (cs ! (complete (log s) - ?R)) \<and>
          (c_ptr y = None \<or> c_ptr y = Some (fst (cs ! (flushed s - ?R))))"
        using cs(3) by (simp add: ptrs_def Let_def)
      moreover have "?R < complete (log s)" using True cs(5) by simp
      ultimately show "ptrs ?s cs'"
        using True same unfolding ptrs_def Let_def by (auto simp: Suc_le_eq)
    qed
    then show ?thesis using y(1) True q'(1,2) by (simp add: ypipe_read_def)
  qed
qed

subsection \<open>Reachable states\<close>

inductive_cases ystepE: "ystep N s s'"

lemma ystep_inv:
  assumes "yinv N s" "ystep N s s'"
  shows "yinv N s'"
  using assms(2)
proof (rule ystepE)
  fix a v inc y
  assume "s' = s\<lparr>pipe := y, log := log s @ [(v, inc)]\<rparr>" "\<not> waking s"
    "chunks (queue (pipe s)) a = None" "ypipe_write N a v inc (pipe s) = Some y"
  with write_ok [OF assms(1), of a v inc] show ?thesis by auto
next
  fix v y
  assume "s' = s\<lparr>pipe := y, log := butlast (log s)\<rparr>" "\<not> waking s"
    "ypipe_unwrite N (pipe s) = Some (Some v, y)"
  with unwrite_ok [OF assms(1)] show ?thesis by auto
next
  fix y
  assume "s' = s\<lparr>pipe := y, flushed := complete (log s)\<rparr>" "\<not> waking s" "ypipe_flush_cas (pipe s) = (True, y)"
  with flush_ok [OF assms(1)] show ?thesis by auto
next
  fix y
  assume "s' = s\<lparr>pipe := y, waking := True\<rparr>" "\<not> waking s" "ypipe_flush_cas (pipe s) = (False, y)"
  with flush_ok [OF assms(1)] show ?thesis by auto
next
  assume "s' = s\<lparr>pipe := ypipe_flush_wake (pipe s), waking := False, asleep := False,
      flushed := complete (log s)\<rparr>" "waking s"
  with wake_ok [OF assms(1)] show ?thesis by simp
next
  fix b y
  assume "s' = s\<lparr>pipe := y, asleep := (asleep s \<or> \<not> b)\<rparr>" "ypipe_check_read (pipe s) = (b, y)"
  with check_ok [OF assms(1)] show ?thesis by auto
next
  fix r y
  assume "s' = s\<lparr>pipe := y, asleep := (asleep s \<or> r = None),
      got := got s @ (case r of None \<Rightarrow> [] | Some v \<Rightarrow> [v])\<rparr>" "ypipe_read N (pipe s) = Some (r, y)"
  with read_ok [OF assms(1)] show ?thesis by (auto split: if_splits)
qed

lemma yreach_inv:
  fixes s :: "'v ysys"
  shows "yreach N s \<Longrightarrow> 0 < N \<Longrightarrow> yinv N s"
proof (induction rule: yreach.induct)
  case (y_start a b y)
  from yinv_start [OF y_start(3,1)] obtain y' :: "'v ypipe" where
    "new_ypipe N a b = Some y'"
    "yinv N \<lparr>pipe = y', waking = False, asleep = False, log = [], flushed = 0, got = []\<rparr>" by blast
  with y_start(2) show ?case by simp
next
  case (y_step s s')
  then show ?case using ystep_inv by blast
qed

lemma yreach_start:
  assumes "0 < N" "a \<noteq> (b :: nat)"
  obtains y :: "'v ypipe" where "yreach N \<lparr>pipe = y, waking = False, asleep = False, log = [], flushed = 0, got = []\<rparr>"
  using yinv_start [OF assms, where 'v = 'v] y_start [OF assms(2), where 'a = 'v] by blast

subsection \<open>Properties\<close>

text \<open>
  C5: However the writer and the reader thread are interleaved, the reader gets exactly the
  items written, in order, none twice and none lost; it never gets an item that was not
  flushed, nor one of a message whose last part has not been written yet.
\<close>

theorem ypipe_fifo:
  assumes "yreach N s" "0 < N"
  shows "got s = map fst (take (length (got s)) (log s)) \<and> length (got s) \<le> flushed s \<and>
    flushed s \<le> complete (log s)"
  using yreach_inv [OF assms] by (simp add: yinv_def yctl_def)

theorem ypipe_fifo_witness:
  "\<exists>s :: nat ysys. yreach 1 s \<and> got s = [] \<and> flushed s = 0"
  by (rule yreach_start [of 1 0 1, where 'v = nat]) (use ypipe_fifo [of 1] in \<open>auto\<close>)

text \<open>
  C6: No wake-up is lost: while the reader sleeps and the writer is not about to wake it up,
  every flushed item has been read; and a \<open>flush\<close> of new complete items fails its
  compare-and-swap, and so wakes the reader up, exactly when the reader sleeps.
\<close>

theorem ypipe_no_lost_wakeup:
  assumes "yreach N s" "0 < N" "\<not> waking s"
  shows "(asleep s \<longrightarrow> length (got s) = flushed s) \<and>
    (flushed s < complete (log s) \<longrightarrow> fst (ypipe_flush (pipe s)) = (\<not> asleep s))"
proof -
  note inv = yreach_inv [OF assms(1,2)]
  from flush_ok [OF inv assms(3)] obtain ok y where
    "ypipe_flush_cas (pipe s) = (ok, y)" "ok \<longleftrightarrow> \<not> asleep s \<or> flushed s = complete (log s)"
    by blast
  moreover have "asleep s \<longrightarrow> length (got s) = flushed s"
    using inv by (simp add: yinv_def yctl_def)
  ultimately show ?thesis by (auto simp: ypipe_flush_def)
qed

theorem ypipe_no_lost_wakeup_witness:
  "\<exists>s :: nat ysys. yreach 2 s \<and> \<not> waking s \<and> asleep s \<and> length (got s) = flushed s"
proof (rule yreach_start [of 2 0 1, where 'v = nat])
  fix y :: "nat ypipe"
  let ?s = "\<lparr>pipe = y, waking = False, asleep = False, log = [], flushed = 0, got = []\<rparr>"
  assume s: "yreach 2 ?s"
  then have "yinv 2 ?s" by (rule yreach_inv) simp
  from check_ok [OF this] obtain z where "ypipe_check_read y = (False, z)" by auto
  then have "ystep 2 ?s (?s\<lparr>pipe := z, asleep := True\<rparr>)" using y_check [of ?s False z 2] by simp
  with s have "yreach 2 (?s\<lparr>pipe := z, asleep := True\<rparr>)" by (rule y_step)
  with ypipe_no_lost_wakeup [OF this] show ?thesis
    by (intro exI [of _ "?s\<lparr>pipe := z, asleep := True\<rparr>"]) simp
qed simp_all

lemma ypipe_probe_ok:
  assumes "yinv N s"
  shows "map_option fst (ypipe_probe fn (pipe s)) =
    (if length (got s) < flushed s then Some (fn (fst (log s ! length (got s)))) else None)"
proof -
  from check_ok [OF assms] obtain y where
    y: "ypipe_check_read (pipe s) = (length (got s) < flushed s, y)" by blast
  show ?thesis
  proof (cases "length (got s) < flushed s")
    case True
    with y read_ok [OF assms] have "front_val (queue y) = Some (fst (log s ! length (got s)))"
      by (auto simp: ypipe_read_def bind_eq_Some_conv)
    with True y show ?thesis by (simp add: ypipe_probe_def)
  qed (use y in \<open>simp add: ypipe_probe_def\<close>)
qed

text \<open>
  C7: \<open>read\<close>, \<open>write\<close> and \<open>unwrite\<close> do not fault in a reachable state: no null or dangling pointer
  is followed, no indeterminate cell is read. \<open>check_read\<close> says true exactly when a
  flushed item has not been read, \<open>read\<close> takes that item, \<open>unwrite\<close> gives back only unflushed
  parts of an incomplete message, and \<open>probe\<close> applies its function to the next flushed item that has not been
  read; it stops the process (its assertion) exactly when there is none.
\<close>

theorem ypipe_no_fault:
  assumes "yreach N s" "0 < N"
  shows "fst (ypipe_check_read (pipe s)) = (length (got s) < flushed s) \<and>
    map_option fst (ypipe_read N (pipe s)) =
      Some (if length (got s) < flushed s then Some (fst (log s ! length (got s))) else None) \<and>
    map_option fst (ypipe_unwrite N (pipe s)) =
      Some (if complete (log s) < length (log s) then Some (fst (last (log s))) else None) \<and>
    map_option fst (ypipe_probe fn (pipe s)) =
      (if length (got s) < flushed s then Some (fn (fst (log s ! length (got s)))) else None) \<and>
    (\<not> waking s \<longrightarrow> chunks (queue (pipe s)) a = None \<longrightarrow>
      ypipe_write N a v incomplete (pipe s) \<noteq> None)"
proof (intro conjI impI)
  note inv = yreach_inv [OF assms]
  show "fst (ypipe_check_read (pipe s)) = (length (got s) < flushed s)" using check_ok [OF inv] by auto
  show "map_option fst (ypipe_read N (pipe s)) =
      Some (if length (got s) < flushed s then Some (fst (log s ! length (got s))) else None)"
    using read_ok [OF inv] by auto
  show "map_option fst (ypipe_unwrite N (pipe s)) =
      Some (if complete (log s) < length (log s) then Some (fst (last (log s))) else None)"
    using unwrite_ok [OF inv] by auto
  show "map_option fst (ypipe_probe fn (pipe s)) =
      (if length (got s) < flushed s then Some (fn (fst (log s ! length (got s)))) else None)"
    by (rule ypipe_probe_ok [OF inv])
  assume "\<not> waking s" "chunks (queue (pipe s)) a = None"
  with write_ok [OF inv, of a v incomplete] show "ypipe_write N a v incomplete (pipe s) \<noteq> None" by auto
qed

theorem ypipe_no_fault_witness:
  "\<exists>s :: nat ysys. yreach 3 s \<and> map_option fst (ypipe_read 3 (pipe s)) = Some None"
proof (rule yreach_start [of 3 0 1, where 'v = nat])
  fix y :: "nat ypipe"
  assume "yreach 3 \<lparr>pipe = y, waking = False, asleep = False, log = [], flushed = 0, got = []\<rparr>"
  with ypipe_no_fault [OF this] show ?thesis by (intro exI conjI) (assumption, simp)
qed simp_all

end
