(* ===== verification/Upipe.thy ===== *)
theory Upipe
  imports Ypipe Message
begin

text \<open>
  The two kinds of pipe behind a \<open>pipe_t\<close> (\<open>ypipe_base_t\<close>), as their operations look to
  a caller: \<open>lpipe\<close> is what a lock-free pipe promises, and the property below shows that the
  pointer and chunk code of \<open>Ypipe\<close> keeps the promise. Message parts are values here
  (\<open>vmsg\<close>): type, flags, bytes, group and routing id; how their storage is shared is the
  matter of \<open>Message\<close>.
\<close>

record vmsg =
  vtype :: byte
  vflags :: byte
  vdata :: "byte list"
  vgroup :: "byte list"
  vrouting :: u32

definition vmsg_of :: "mem \<Rightarrow> msg \<Rightarrow> vmsg option" where
  "vmsg_of s m = do { d \<leftarrow> msg_data m s;
     Some \<lparr>vtype = mtype m, vflags = mflags m, vdata = d, vgroup = mgroup m, vrouting = routing_id m\<rparr> }"

definition has_more :: "vmsg \<Rightarrow> bool" where
  "has_more m \<longleftrightarrow> vflags m AND more_flag \<noteq> 0"

definition v_is_identity :: "vmsg \<Rightarrow> bool" where
  "v_is_identity m \<longleftrightarrow> vflags m AND identity_flag = identity_flag"

definition v_is_credential :: "vmsg \<Rightarrow> bool" where
  "v_is_credential m \<longleftrightarrow> vflags m AND credential_flag = credential_flag"

definition v_is_delimiter :: "vmsg \<Rightarrow> bool" where
  "v_is_delimiter m \<longleftrightarrow> vtype m = type_delimiter"

definition plain :: "byte \<Rightarrow> byte \<Rightarrow> byte list \<Rightarrow> vmsg" where
  "plain t f d = \<lparr>vtype = t, vflags = f, vdata = d, vgroup = [], vrouting = 0\<rparr>"

text \<open>\<open>msg_t::init_delimiter\<close>, and an empty message as \<open>msg_t::init\<close> makes it.\<close>

abbreviation delimiter :: vmsg where "delimiter \<equiv> plain type_delimiter 0 []"
abbreviation empty_msg :: vmsg where "empty_msg \<equiv> plain type_vsm 0 []"

lemma vmsg_of_flags:
  assumes "vmsg_of s m = Some v"
  shows "v_is_identity v = is_identity m" "v_is_credential v = is_credential m"
  using assms by (auto simp: vmsg_of_def bind_eq_Some_conv v_is_identity_def is_identity_def
    v_is_credential_def is_credential_def)

lemma not_more_empty [simp]: "\<not> has_more (plain t 0 d)" "v_is_delimiter (plain t f d) = (t = type_delimiter)"
  "\<not> v_is_credential (plain t 0 d)" "\<not> v_is_identity (plain t 0 d)"
  by (simp_all add: has_more_def plain_def v_is_delimiter_def v_is_credential_def v_is_identity_def)

subsection \<open>The lock-free pipe as a queue\<close>

text \<open>
  \<open>ready\<close> is flushed and not read yet, \<open>unflushed\<close> are parts of complete messages,
  \<open>partial\<close> the parts of the message being written; \<open>sleeping\<close> is the null in \<open>c\<close>.
\<close>

record 'a lpipe =
  ready :: "'a list"
  unflushed :: "'a list"
  partial :: "'a list"
  sleeping :: bool

definition new_lpipe :: "'a lpipe" where
  "new_lpipe = \<lparr>ready = [], unflushed = [], partial = [], sleeping = False\<rparr>"

definition lp_write :: "'a \<Rightarrow> bool \<Rightarrow> 'a lpipe \<Rightarrow> 'a lpipe" where
  "lp_write v incomplete l =
     (if incomplete then l\<lparr>partial := partial l @ [v]\<rparr>
      else l\<lparr>unflushed := unflushed l @ partial l @ [v], partial := []\<rparr>)"

definition lp_unwrite :: "'a lpipe \<Rightarrow> 'a option \<times> 'a lpipe" where
  "lp_unwrite l = (if partial l = [] then (None, l)
     else (Some (last (partial l)), l\<lparr>partial := butlast (partial l)\<rparr>))"

definition lp_flush :: "'a lpipe \<Rightarrow> bool \<times> 'a lpipe" where
  "lp_flush l = (if unflushed l = [] then (True, l)
     else (\<not> sleeping l, l\<lparr>ready := ready l @ unflushed l, unflushed := [], sleeping := False\<rparr>))"

definition lp_check_read :: "'a lpipe \<Rightarrow> bool \<times> 'a lpipe" where
  "lp_check_read l = (if ready l = [] then (False, l\<lparr>sleeping := True\<rparr>) else (True, l))"

definition lp_read :: "'a lpipe \<Rightarrow> 'a option \<times> 'a lpipe" where
  "lp_read l = (case ready l of [] \<Rightarrow> (None, l\<lparr>sleeping := True\<rparr>)
     | v # vs \<Rightarrow> (Some v, l\<lparr>ready := vs\<rparr>))"

definition lp_of :: "'a ysys \<Rightarrow> 'a lpipe" where
  "lp_of s = \<lparr>ready = map fst (drop (length (got s)) (take (flushed s) (log s))),
     unflushed = map fst (drop (flushed s) (take (complete (log s)) (log s))),
     partial = map fst (drop (complete (log s)) (log s)), sleeping = asleep s\<rparr>"

subsection \<open>The lock-free pipe implements the queue\<close>

lemma drop_map_snoc: "k \<le> length xs \<Longrightarrow> map fst (drop k (xs @ [p])) = map fst (drop k xs) @ [fst p]"
  by simp

lemma butlast_drop_map: "butlast (map f (drop k xs)) = map f (drop k (butlast xs))"
  by (simp add: map_butlast [symmetric] butlast_drop [symmetric])

lemma lp_of_bounds:
  assumes "yinv N s"
  shows "length (got s) \<le> flushed s" "flushed s \<le> complete (log s)" "complete (log s) \<le> length (log s)"
    "asleep s \<Longrightarrow> length (got s) = flushed s"
  using assms complete_le [of "log s"] by (auto simp: yinv_def yctl_def)

lemma lp_write_refines:
  assumes "yreach N s" "0 < N" "\<not> waking s" "chunks (queue (pipe s)) a = None"
  shows "\<exists>y s'. ypipe_write N a v inc (pipe s) = Some y \<and> pipe s' = y \<and> \<not> waking s' \<and>
    yreach N s' \<and> lp_of s' = lp_write v inc (lp_of s)"
proof -
  note inv = yreach_inv [OF assms(1,2)] note b = lp_of_bounds [OF inv]
  from write_ok [OF inv assms(3,4), of v inc] obtain y where
    y: "ypipe_write N a v inc (pipe s) = Some y" by blast
  let ?s = "s\<lparr>pipe := y, log := log s @ [(v, inc)]\<rparr>"
  have "yreach N ?s" by (rule y_step [OF assms(1) y_write [OF assms(3,4) y]])
  moreover have "lp_of ?s = lp_write v inc (lp_of s)"
  proof (cases inc)
    case True
    with b show ?thesis by (simp add: lp_of_def lp_write_def)
  next
    case False
    have "drop (flushed s) (log s) = drop (flushed s) (take (complete (log s)) (log s) @ drop (complete (log s)) (log s))"
      by simp
    also have "\<dots> = drop (flushed s) (take (complete (log s)) (log s)) @ drop (complete (log s)) (log s)"
      using b by (simp only: drop_append) simp
    finally show ?thesis using False b by (simp add: lp_of_def lp_write_def)
  qed
  ultimately show ?thesis using y assms(3) by (intro exI [of _ y] exI [of _ ?s]) simp
qed

lemma lp_unwrite_refines:
  assumes "yreach N s" "0 < N" "\<not> waking s"
  shows "\<exists>y s'. ypipe_unwrite N (pipe s) = Some (fst (lp_unwrite (lp_of s)), y) \<and>
    pipe s' = y \<and> \<not> waking s' \<and> yreach N s' \<and> lp_of s' = snd (lp_unwrite (lp_of s))"
proof -
  note inv = yreach_inv [OF assms(1,2)] note b = lp_of_bounds [OF inv]
  from unwrite_ok [OF inv] consider
    (none) "complete (log s) = length (log s)" "ypipe_unwrite N (pipe s) = Some (None, pipe s)"
  | (some) y where "complete (log s) < length (log s)"
      "ypipe_unwrite N (pipe s) = Some (Some (fst (last (log s))), y)" by blast
  then show ?thesis
  proof cases
    case none
    with assms show ?thesis
      by (intro exI [of _ "pipe s"] exI [of _ s]) (simp add: lp_of_def lp_unwrite_def)
  next
    case some
    let ?s = "s\<lparr>pipe := y, log := butlast (log s)\<rparr>"
    have "yreach N ?s" by (rule y_step [OF assms(1) y_unwrite [OF assms(3) some(2)]])
    moreover have "lp_of ?s = snd (lp_unwrite (lp_of s))" "fst (lp_unwrite (lp_of s)) = Some (fst (last (log s)))"
      using some(1) b complete_butlast [OF some(1)]
      by (simp_all add: lp_of_def lp_unwrite_def take_butlast map_butlast last_map last_drop butlast_drop_map)
    ultimately show ?thesis using some assms(3) by (intro exI [of _ y] exI [of _ ?s]) simp
  qed
qed

lemma lp_flush_refines:
  assumes "yreach N s" "0 < N" "\<not> waking s"
  shows "\<exists>s'. ypipe_flush (pipe s) = (fst (lp_flush (lp_of s)), pipe s') \<and>
    \<not> waking s' \<and> yreach N s' \<and> lp_of s' = snd (lp_flush (lp_of s))"
proof -
  note inv = yreach_inv [OF assms(1,2)] note b = lp_of_bounds [OF inv]
  let ?C = "complete (log s)"
  from flush_ok [OF inv assms(3)] obtain ok y where
    y: "ypipe_flush_cas (pipe s) = (ok, y)" "ok \<longleftrightarrow> \<not> asleep s \<or> flushed s = ?C" by blast
  have join: "map fst (drop (length (got s)) (take ?C (log s))) =
      map fst (drop (length (got s)) (take (flushed s) (log s))) @ map fst (drop (flushed s) (take ?C (log s)))"
  proof -
    let ?X = "drop (flushed s) (take ?C (log s))"
    have "take ?C (log s) = take (flushed s) (log s) @ ?X"
      using b(2) by (metis append_take_drop_id min.absorb1 take_take)
    then have "drop (length (got s)) (take ?C (log s)) = drop (length (got s)) (take (flushed s) (log s) @ ?X)"
      by (rule arg_cong)
    also have "\<dots> = drop (length (got s)) (take (flushed s) (log s)) @ ?X" using b by simp
    finally have "drop (length (got s)) (take ?C (log s)) =
      drop (length (got s)) (take (flushed s) (log s)) @ ?X" .
    then show ?thesis by simp
  qed
  have em: "unflushed (lp_of s) = [] \<longleftrightarrow> flushed s = ?C" using b by (auto simp: lp_of_def)
  have same: "lp_of (s\<lparr>pipe := p, waking := False, asleep := False, flushed := ?C\<rparr>) = snd (lp_flush (lp_of s))"
    if "\<not> (\<not> asleep s \<or> flushed s = ?C)" for p
    using em that join by (simp add: lp_flush_def) (simp add: lp_of_def)
  have same': "lp_of (s\<lparr>pipe := p, flushed := ?C\<rparr>) = snd (lp_flush (lp_of s))"
    if "\<not> asleep s \<or> flushed s = ?C" for p
    using em that join b by (auto simp: lp_flush_def) (auto simp: lp_of_def)
  have fst: "fst (lp_flush (lp_of s)) = ok" using em y(2) by (auto simp: lp_flush_def lp_of_def)
  show ?thesis
  proof (cases ok)
    case True
    with y_flush_done [OF assms(3), of y N] y have "ystep N s (s\<lparr>pipe := y, flushed := ?C\<rparr>)" by simp
    with assms(1) have "yreach N (s\<lparr>pipe := y, flushed := ?C\<rparr>)" by (rule y_step)
    with True y fst same' [of y] assms(3) show ?thesis
      by (intro exI [of _ "s\<lparr>pipe := y, flushed := ?C\<rparr>"]) (auto simp: ypipe_flush_def)
  next
    case False
    let ?m = "s\<lparr>pipe := y, waking := True\<rparr>"
    have "ystep N s ?m" using False y y_flush_fail [OF assms(3), of y N] by simp
    with assms(1) have "yreach N ?m" by (rule y_step)
    moreover have "ystep N ?m (?m\<lparr>pipe := ypipe_flush_wake y, waking := False, asleep := False,
        flushed := ?C\<rparr>)" using y_flush_wake [of ?m N] by simp
    ultimately have "yreach N (?m\<lparr>pipe := ypipe_flush_wake y, waking := False, asleep := False,
        flushed := ?C\<rparr>)" by (rule y_step)
    with False y fst same [of "ypipe_flush_wake y"] show ?thesis
      by (intro exI [of _ "?m\<lparr>pipe := ypipe_flush_wake y, waking := False, asleep := False,
        flushed := ?C\<rparr>"]) (auto simp: ypipe_flush_def)
  qed
qed

lemma ready_cases:
  assumes "yinv N s"
  shows "ready (lp_of s) = (if length (got s) < flushed s
    then fst (log s ! length (got s)) # map fst (drop (Suc (length (got s))) (take (flushed s) (log s))) else [])"
proof -
  note b = lp_of_bounds [OF assms]
  have "drop (length (got s)) (take (flushed s) (log s)) =
      log s ! length (got s) # drop (Suc (length (got s))) (take (flushed s) (log s))"
    if "length (got s) < flushed s"
    using Cons_nth_drop_Suc [of "length (got s)" "take (flushed s) (log s)"] that b by simp
  with b show ?thesis by (simp add: lp_of_def)
qed

lemma lp_check_read_refines:
  assumes "yreach N s" "0 < N"
  shows "\<exists>s'. ypipe_check_read (pipe s) = (fst (lp_check_read (lp_of s)), pipe s') \<and>
    waking s' = waking s \<and> yreach N s' \<and> lp_of s' = snd (lp_check_read (lp_of s))"
proof -
  note inv = yreach_inv [OF assms(1,2)] note b = lp_of_bounds [OF inv]
  let ?r = "length (got s) < flushed s"
  from check_ok [OF inv] obtain y where y: "ypipe_check_read (pipe s) = (?r, y)" by blast
  let ?s = "s\<lparr>pipe := y, asleep := (asleep s \<or> \<not> ?r)\<rparr>"
  have "yreach N ?s" by (rule y_step [OF assms(1) y_check [OF y]])
  moreover have "ready (lp_of s) = [] \<longleftrightarrow> \<not> ?r" by (simp add: ready_cases [OF inv])
  moreover have "lp_of ?s = (if ?r then lp_of s else (lp_of s)\<lparr>sleeping := True\<rparr>)"
    using b(4) by (auto simp: lp_of_def)
  ultimately show ?thesis using y by (intro exI [of _ ?s]) (auto simp: lp_check_read_def)
qed

lemma lp_read_refines:
  assumes "yreach N s" "0 < N"
  shows "\<exists>s'. ypipe_read N (pipe s) = Some (fst (lp_read (lp_of s)), pipe s') \<and>
    waking s' = waking s \<and> yreach N s' \<and> lp_of s' = snd (lp_read (lp_of s))"
proof -
  note inv = yreach_inv [OF assms(1,2)] note b = lp_of_bounds [OF inv]
  let ?r = "length (got s) < flushed s" let ?v = "if ?r then Some (fst (log s ! length (got s))) else None"
  from read_ok [OF inv] obtain y where y: "ypipe_read N (pipe s) = Some (?v, y)" by blast
  let ?s = "s\<lparr>pipe := y, asleep := (asleep s \<or> ?v = None),
    got := got s @ (case ?v of None \<Rightarrow> [] | Some v \<Rightarrow> [v])\<rparr>"
  have "yreach N ?s" by (rule y_step [OF assms(1) y_read [OF y]])
  moreover have "lp_read (lp_of s) = (?v, lp_of ?s)"
    using b(4) ready_cases [OF inv] by (auto simp: lp_read_def) (auto simp: lp_of_def)
  ultimately show ?thesis using y by (intro exI [of _ ?s]) auto
qed

text \<open>The two accesses of \<open>flush\<close> one by one: the compare-and-swap, and the store that follows when it fails.\<close>

lemma lp_flush_cas_refines:
  assumes "yreach N s" "0 < N" "\<not> waking s"
  shows "\<exists>s'. ypipe_flush_cas (pipe s) = (fst (lp_flush (lp_of s)), pipe s') \<and> yreach N s' \<and>
    (if fst (lp_flush (lp_of s)) then \<not> waking s' \<and> lp_of s' = snd (lp_flush (lp_of s)) else waking s' \<and> lp_of s' = lp_of s)"
proof -
  from flush_ok [OF yreach_inv [OF assms(1,2)] assms(3)] obtain ok y where
    y: "ypipe_flush_cas (pipe s) = (ok, y)" by blast
  from lp_flush_refines [OF assms] obtain s' where
    s': "ypipe_flush (pipe s) = (fst (lp_flush (lp_of s)), pipe s')" "\<not> waking s'" "yreach N s'" "lp_of s' = snd (lp_flush (lp_of s))"
    by blast
  show ?thesis
  proof (cases ok)
    case True
    with y s' show ?thesis by (auto simp: ypipe_flush_def)
  next
    case False
    with y s'(1) have n: "\<not> fst (lp_flush (lp_of s))" by (simp add: ypipe_flush_def)
    let ?s = "s\<lparr>pipe := y, waking := True\<rparr>"
    have "ystep N s ?s" using False y y_flush_fail [OF assms(3), of y N] by simp
    with assms(1) have "yreach N ?s" by (rule y_step)
    moreover have "lp_of ?s = lp_of s" by (simp add: lp_of_def)
    ultimately show ?thesis using n False y by (intro exI [of _ ?s]) simp
  qed
qed

lemma lp_flush_wake_refines:
  assumes "yreach N s" "0 < N" "waking s"
  shows "\<exists>s'. ypipe_flush_wake (pipe s) = pipe s' \<and> \<not> waking s' \<and> yreach N s' \<and>
    lp_flush (lp_of s) = (False, lp_of s')"
proof -
  note inv = yreach_inv [OF assms(1,2)] note b = lp_of_bounds [OF inv]
  have c: "asleep s" "flushed s < complete (log s)" using inv assms(3) by (auto simp: yinv_def yctl_def)
  let ?C = "complete (log s)"
  let ?s = "s\<lparr>pipe := ypipe_flush_wake (pipe s), waking := False, asleep := False, flushed := ?C\<rparr>"
  have "ystep N s ?s" using y_flush_wake [OF assms(3)] .
  with assms(1) have "yreach N ?s" by (rule y_step)
  moreover have "lp_flush (lp_of s) = (False, lp_of ?s)" using b c by (auto simp: lp_flush_def lp_of_def)
  ultimately show ?thesis by (intro exI [of _ ?s]) simp
qed

text \<open>
  C17: The pointer and chunk code of \<open>ypipe_t\<close> implements a queue: each operation of the lock-free pipe gives
  the result that \<open>lpipe\<close> gives and leads to the corresponding state. The reader's operations do so in
  any state reached by the two threads, also while the writer is between the two accesses of
  \<open>flush\<close> (\<open>waking\<close>), the writer's operations in any state in which it is not, as one thread calls them one
  after the other. Of a \<open>flush\<close> that finds the reader asleep, the first access changes nothing that \<open>lpipe\<close> shows
  and the second makes the parts visible.
\<close>

theorem ypipe_refines_lpipe:
  assumes "yreach N s" "0 < N"
  shows "(\<exists>s'. ypipe_read N (pipe s) = Some (fst (lp_read (lp_of s)), pipe s') \<and>
      waking s' = waking s \<and> yreach N s' \<and> lp_of s' = snd (lp_read (lp_of s))) \<and>
    (\<exists>s'. ypipe_check_read (pipe s) = (fst (lp_check_read (lp_of s)), pipe s') \<and>
      waking s' = waking s \<and> yreach N s' \<and> lp_of s' = snd (lp_check_read (lp_of s))) \<and>
    (waking s \<longrightarrow> (\<exists>s'. ypipe_flush_wake (pipe s) = pipe s' \<and> \<not> waking s' \<and> yreach N s' \<and>
      lp_flush (lp_of s) = (False, lp_of s'))) \<and>
    (\<not> waking s \<longrightarrow>
      (\<exists>s'. ypipe_flush (pipe s) = (fst (lp_flush (lp_of s)), pipe s') \<and>
        \<not> waking s' \<and> yreach N s' \<and> lp_of s' = snd (lp_flush (lp_of s))) \<and>
      (\<exists>s'. ypipe_flush_cas (pipe s) = (fst (lp_flush (lp_of s)), pipe s') \<and> yreach N s' \<and>
        (if fst (lp_flush (lp_of s)) then \<not> waking s' \<and> lp_of s' = snd (lp_flush (lp_of s)) else waking s' \<and> lp_of s' = lp_of s)) \<and>
      (\<exists>y s'. ypipe_unwrite N (pipe s) = Some (fst (lp_unwrite (lp_of s)), y) \<and>
        pipe s' = y \<and> \<not> waking s' \<and> yreach N s' \<and> lp_of s' = snd (lp_unwrite (lp_of s))) \<and>
      (chunks (queue (pipe s)) a = None \<longrightarrow>
        (\<exists>y s'. ypipe_write N a v inc (pipe s) = Some y \<and> pipe s' = y \<and> \<not> waking s' \<and>
          yreach N s' \<and> lp_of s' = lp_write v inc (lp_of s))))"
  by (intro conjI impI lp_read_refines [OF assms] lp_check_read_refines [OF assms]
      lp_flush_refines [OF assms] lp_unwrite_refines [OF assms] lp_write_refines [OF assms]
      lp_flush_cas_refines [OF assms] lp_flush_wake_refines [OF assms])

theorem ypipe_refines_lpipe_witness:
  "\<exists>s s' :: nat ysys. yreach 2 s \<and> ypipe_read 2 (pipe s) = Some (None, pipe s') \<and>
    lp_of s' = new_lpipe\<lparr>sleeping := True\<rparr>"
proof (rule yreach_start [of 2 0 1, where 'v = nat])
  fix y :: "nat ypipe"
  let ?s = "\<lparr>pipe = y, waking = False, asleep = False, log = [], flushed = 0, got = []\<rparr>"
  assume s: "yreach 2 ?s"
  from ypipe_refines_lpipe [OF s, THEN conjunct1] obtain s' where
    "ypipe_read 2 y = Some (fst (lp_read (lp_of ?s)), pipe s')" "lp_of s' = snd (lp_read (lp_of ?s))"
    by auto
  moreover have "lp_of ?s = new_lpipe" by (simp add: lp_of_def new_lpipe_def)
  ultimately show ?thesis using s
    by (intro exI [of _ ?s] exI [of _ s']) (simp add: lp_read_def new_lpipe_def)
qed simp_all

end
