(* ===== verification/Pipe.thy ===== *)
theory Pipe
  imports Upipe
begin

text \<open>
  \<open>pipe_t\<close> of \<open>src/zmqsrc/src/pipe.cpp\<close>: one end of a bidirectional pipe. The pipe
  objects behind it (\<open>upipes\<close>, addressed by number) are shared with the other end; a null
  or deleted one is a fault. An operation returns the new end and the new surroundings: the
  commands it has sent, each with its destination, and the events delivered to the sink (each
  event is the last action of its handler). \<open>contended\<close> says that the reader holds the
  lock of a conflating pipe at this moment, so that \<open>try_lock\<close> in its \<open>write\<close> fails.
  Fields of type \<open>int\<close> in the code are integers here, with the overflow of signed
  arithmetic written out as wrap-around; the message counters are 64-bit words.
\<close>

datatype upipe = Normal "vmsg lpipe" | Conflated "vmsg option"

definition new_upipe :: "bool \<Rightarrow> upipe" where
  "new_upipe confl = (if confl then Conflated None else Normal new_lpipe)"

fun up_write :: "bool \<Rightarrow> vmsg \<Rightarrow> bool \<Rightarrow> upipe \<Rightarrow> upipe" where
  "up_write locked v incomplete (Normal l) = Normal (lp_write v incomplete l)"
| "up_write locked v incomplete (Conflated x) = Conflated (if locked then x else Some v)"

fun up_unwrite :: "upipe \<Rightarrow> vmsg option \<times> upipe" where
  "up_unwrite (Normal l) = (let (r, l) = lp_unwrite l in (r, Normal l))"
| "up_unwrite (Conflated x) = (None, Conflated x)"

fun up_flush :: "upipe \<Rightarrow> bool \<times> upipe" where
  "up_flush (Normal l) = (let (r, l) = lp_flush l in (r, Normal l))"
| "up_flush (Conflated x) = (False, Conflated x)"

fun up_check_read :: "upipe \<Rightarrow> bool \<times> upipe" where
  "up_check_read (Normal l) = (let (r, l) = lp_check_read l in (r, Normal l))"
| "up_check_read (Conflated x) = (x \<noteq> None, Conflated x)"

fun up_read :: "upipe \<Rightarrow> vmsg option \<times> upipe" where
  "up_read (Normal l) = (let (r, l) = lp_read l in (r, Normal l))"
| "up_read (Conflated x) = (x, Conflated None)"

fun up_probe :: "(vmsg \<Rightarrow> bool) \<Rightarrow> upipe \<Rightarrow> bool option" where
  "up_probe fn (Normal l) = do { zmq_assert (ready l \<noteq> []); Some (fn (hd (ready l))) }"
| "up_probe fn (Conflated x) = Some (case x of None \<Rightarrow> fn empty_msg | Some m \<Rightarrow> fn m)"

fun up_size :: "upipe \<Rightarrow> nat" where
  "up_size (Normal l) = length (ready l)"
| "up_size (Conflated x) = (case x of None \<Rightarrow> 0 | Some _ \<Rightarrow> 1)"

lemma up_read_size: "up_read u = (Some m, u') \<Longrightarrow> up_size u' < up_size u"
  by (cases u) (auto simp: lp_read_def split: list.splits option.splits)

datatype command = Activate_read | Activate_write u64 | Hiccup nat | Pipe_term | Pipe_term_ack
  | Pipe_hwm int int

datatype event = Read_activated | Write_activated | Hiccuped | Pipe_terminated

record net =
  upipes :: "nat \<rightharpoonup> upipe"
  sent :: "(nat \<times> command) list"
  events :: "(nat \<times> nat \<times> event) list"
  contended :: bool

datatype pstate = Active | Delimiter_received | Waiting_for_delimiter | Term_ack_sent
  | Term_req_sent1 | Term_req_sent2

record pipe_t =
  address :: nat
  inpipe :: "nat option"
  outpipe :: "nat option"
  in_active :: bool
  out_active :: bool
  hwm :: int
  lwm :: int
  inhwmboost :: int
  outhwmboost :: int
  msgs_read :: u64
  msgs_written :: u64
  peers_msgs_read :: u64
  peer :: "nat option"
  sink :: "nat option"
  state :: pstate
  delay :: bool
  p_identity :: "byte list"
  p_routing_id :: u32
  p_credential :: "byte list"
  is_conflate :: bool

subsection \<open>Creation and simple accessors\<close>

text \<open>Overflow of a signed 32-bit addition.\<close>

definition wrap32 :: "int \<Rightarrow> int" where
  "wrap32 i = (i + 2147483648) mod 4294967296 - 2147483648"

text \<open>Division of C++ truncates towards zero.\<close>

definition compute_lwm :: "int \<Rightarrow> int" where
  "compute_lwm h = (let n = wrap32 (h + 1) in if 0 \<le> n then n div 2 else - ((- n) div 2))"

definition new_pipe :: "nat \<Rightarrow> nat \<Rightarrow> nat \<Rightarrow> int \<Rightarrow> int \<Rightarrow> bool \<Rightarrow> pipe_t" where
  "new_pipe a inp outp inhwm outhwm confl =
     \<lparr>address = a, inpipe = Some inp, outpipe = Some outp, in_active = True, out_active = True,
      hwm = outhwm, lwm = compute_lwm inhwm, inhwmboost = -1, outhwmboost = -1, msgs_read = 0,
      msgs_written = 0, peers_msgs_read = 0, peer = None, sink = None, state = Active,
      delay = True, p_identity = [], p_routing_id = 0, p_credential = [], is_conflate = confl\<rparr>"

definition set_peer :: "nat \<Rightarrow> pipe_t \<Rightarrow> pipe_t option" where
  "set_peer a p = do { zmq_assert (peer p = None); Some (p\<lparr>peer := Some a\<rparr>) }"

definition set_event_sink :: "nat \<Rightarrow> pipe_t \<Rightarrow> pipe_t option" where
  "set_event_sink a p = do { zmq_assert (sink p = None); Some (p\<lparr>sink := Some a\<rparr>) }"

text \<open>The addresses of the two new ends and of the two new pipes are arguments.\<close>

definition pipepair :: "nat \<times> nat \<Rightarrow> nat \<times> nat \<Rightarrow> int \<times> int \<Rightarrow> bool \<times> bool \<Rightarrow> net \<Rightarrow>
    (pipe_t \<times> pipe_t \<times> net) option" where
  "pipepair as us hwms confl s = (let (a0, a1) = as; (u1, u2) = us in do {
     p0 \<leftarrow> set_peer a1 (new_pipe a0 u1 u2 (snd hwms) (fst hwms) (fst confl));
     p1 \<leftarrow> set_peer a0 (new_pipe a1 u2 u1 (fst hwms) (snd hwms) (snd confl));
     Some (p0, p1, s\<lparr>upipes := (upipes s)(u1 \<mapsto> new_upipe (fst confl), u2 \<mapsto> new_upipe (snd confl))\<rparr>) })"

definition p_set_routing_id :: "u32 \<Rightarrow> pipe_t \<Rightarrow> pipe_t" where
  "p_set_routing_id r p = p\<lparr>p_routing_id := r\<rparr>"

definition p_set_identity :: "byte list \<Rightarrow> pipe_t \<Rightarrow> pipe_t" where
  "p_set_identity i p = p\<lparr>p_identity := i\<rparr>"

definition p_set_nodelay :: "pipe_t \<Rightarrow> pipe_t" where
  "p_set_nodelay p = p\<lparr>delay := False\<rparr>"

definition p_set_hwms :: "int \<Rightarrow> int \<Rightarrow> pipe_t \<Rightarrow> pipe_t" where
  "p_set_hwms inhwm outhwm p =
     (let inn = wrap32 (inhwm + (if inhwmboost p > 0 then inhwmboost p else 0));
          out = wrap32 (outhwm + (if outhwmboost p > 0 then outhwmboost p else 0));
          inn = (if inhwm \<le> 0 \<or> inhwmboost p = 0 then 0 else inn);
          out = (if outhwm \<le> 0 \<or> outhwmboost p = 0 then 0 else out)
      in p\<lparr>lwm := compute_lwm inn, hwm := out\<rparr>)"

definition p_set_hwms_boost :: "int \<Rightarrow> int \<Rightarrow> pipe_t \<Rightarrow> pipe_t" where
  "p_set_hwms_boost i j p = p\<lparr>inhwmboost := i, outhwmboost := j\<rparr>"

definition p_check_hwm :: "pipe_t \<Rightarrow> bool" where
  "p_check_hwm p \<longleftrightarrow>
     \<not> (hwm p > 0 \<and> word_of_int (hwm p) \<le> msgs_written p - peers_msgs_read p)"

definition send :: "pipe_t \<Rightarrow> command \<Rightarrow> net \<Rightarrow> net option" where
  "send p c s = do { a \<leftarrow> peer p; Some (s\<lparr>sent := sent s @ [(a, c)]\<rparr>) }"

definition notify :: "pipe_t \<Rightarrow> event \<Rightarrow> net \<Rightarrow> net option" where
  "notify p e s = do { a \<leftarrow> sink p; Some (s\<lparr>events := events s @ [(a, address p, e)]\<rparr>) }"

definition put_upipe :: "nat \<Rightarrow> upipe \<Rightarrow> net \<Rightarrow> net" where
  "put_upipe a u s = s\<lparr>upipes := (upipes s)(a \<mapsto> u)\<rparr>"

definition delete_upipe :: "nat \<Rightarrow> net \<Rightarrow> net" where
  "delete_upipe a s = s\<lparr>upipes := (upipes s)(a := None)\<rparr>"

subsection \<open>Reading\<close>

definition p_process_delimiter :: "pipe_t \<Rightarrow> net \<Rightarrow> (pipe_t \<times> net) option" where
  "p_process_delimiter p s = do {
     zmq_assert (state p = Active \<or> state p = Waiting_for_delimiter);
     if state p = Active then Some (p\<lparr>state := Delimiter_received\<rparr>, s)
     else do {
       let p = p\<lparr>outpipe := None\<rparr>;
       s \<leftarrow> send p Pipe_term_ack s;
       Some (p\<lparr>state := Term_ack_sent\<rparr>, s) } }"

definition p_check_read :: "pipe_t \<Rightarrow> net \<Rightarrow> (bool \<times> pipe_t \<times> net) option" where
  "p_check_read p s =
     (if \<not> in_active p then Some (False, p, s)
      else if state p \<noteq> Active \<and> state p \<noteq> Waiting_for_delimiter then Some (False, p, s)
      else do {
        a \<leftarrow> inpipe p;
        u \<leftarrow> upipes s a;
        let (ok, u) = up_check_read u;
        let s = put_upipe a u s;
        if \<not> ok then Some (False, p\<lparr>in_active := False\<rparr>, s)
        else do {
          d \<leftarrow> up_probe v_is_delimiter u;
          if d then do {
            let (r, u) = up_read u;
            zmq_assert (r \<noteq> None);
            (p, s) \<leftarrow> p_process_delimiter p (put_upipe a u s);
            Some (False, p, s) }
          else Some (True, p, s) } })"

text \<open>The loop through \<open>read_message\<close>: credentials are kept and skipped.\<close>

function read_message :: "upipe \<Rightarrow> byte list \<Rightarrow> vmsg option \<times> byte list \<times> upipe" where
  "read_message u cred =
     (case up_read u of
        (None, u') \<Rightarrow> (None, cred, u')
      | (Some m, u') \<Rightarrow> if v_is_credential m then read_message u' (vdata m) else (Some m, cred, u'))"
  by pat_completeness auto
termination
  by (relation "measure (up_size \<circ> fst)") (auto dest: up_read_size [OF sym])

declare read_message.simps [simp del]

definition p_read :: "pipe_t \<Rightarrow> net \<Rightarrow> (vmsg option \<times> pipe_t \<times> net) option" where
  "p_read p s =
     (if \<not> in_active p then Some (None, p, s)
      else if state p \<noteq> Active \<and> state p \<noteq> Waiting_for_delimiter then Some (None, p, s)
      else do {
        a \<leftarrow> inpipe p;
        u \<leftarrow> upipes s a;
        let (r, cred, u) = read_message u (p_credential p);
        let s = put_upipe a u s;
        let p = p\<lparr>p_credential := cred\<rparr>;
        case r of
          None \<Rightarrow> Some (None, p\<lparr>in_active := False\<rparr>, s)
        | Some m \<Rightarrow>
            if v_is_delimiter m then do {
              (p, s) \<leftarrow> p_process_delimiter p s;
              Some (None, p, s) }
            else do {
              let p = (if \<not> has_more m \<and> \<not> v_is_identity m then p\<lparr>msgs_read := msgs_read p + 1\<rparr> else p);
              s \<leftarrow> (if lwm p > 0 \<and> msgs_read p mod word_of_int (lwm p) = 0
                     then send p (Activate_write (msgs_read p)) s else Some s);
              Some (Some m, p, s) } })"

subsection \<open>Writing\<close>

definition p_check_write :: "pipe_t \<Rightarrow> bool \<times> pipe_t" where
  "p_check_write p =
     (if \<not> out_active p \<or> state p \<noteq> Active then (False, p)
      else let full = \<not> p_check_hwm p in
        if full then (False, p\<lparr>out_active := False\<rparr>) else (True, p))"

definition p_write :: "vmsg \<Rightarrow> pipe_t \<Rightarrow> net \<Rightarrow> (bool \<times> pipe_t \<times> net) option" where
  "p_write m p s =
     (let (ok, p) = p_check_write p in
      if \<not> ok then Some (False, p, s)
      else do {
        let more = has_more m;
        a \<leftarrow> outpipe p;
        u \<leftarrow> upipes s a;
        let s = put_upipe a (up_write (contended s) m more u) s;
        Some (True,
          if \<not> more \<and> \<not> v_is_identity m then p\<lparr>msgs_written := msgs_written p + 1\<rparr> else p, s) })"

function rollback_loop :: "vmsg lpipe \<Rightarrow> vmsg lpipe option" where
  "rollback_loop l =
     (case lp_unwrite l of
        (None, l') \<Rightarrow> Some l'
      | (Some m, l') \<Rightarrow> if has_more m then rollback_loop l' else None)"
  by pat_completeness auto
termination
  by (relation "measure (length \<circ> partial)") (auto simp: lp_unwrite_def split: if_splits)

declare rollback_loop.simps [simp del]

text \<open>The loop of \<open>rollback\<close> on either kind of pipe: \<open>unwrite\<close> of a conflating one is false.\<close>

fun rollback_upipe :: "upipe \<Rightarrow> upipe option" where
  "rollback_upipe (Normal l) = map_option Normal (rollback_loop l)"
| "rollback_upipe (Conflated x) = Some (Conflated x)"

definition p_rollback :: "pipe_t \<Rightarrow> net \<Rightarrow> net option" where
  "p_rollback p s =
     (case outpipe p of
        None \<Rightarrow> Some s
      | Some a \<Rightarrow> do { u \<leftarrow> upipes s a; u \<leftarrow> rollback_upipe u; Some (put_upipe a u s) })"

definition p_flush :: "pipe_t \<Rightarrow> net \<Rightarrow> net option" where
  "p_flush p s =
     (if state p = Term_ack_sent then Some s
      else case outpipe p of
        None \<Rightarrow> Some s
      | Some a \<Rightarrow> do {
          u \<leftarrow> upipes s a;
          let (ok, u) = up_flush u;
          let s = put_upipe a u s;
          if \<not> ok then send p Activate_read s else Some s })"

subsection \<open>Commands from the peer\<close>

definition p_process_activate_read :: "pipe_t \<Rightarrow> net \<Rightarrow> (pipe_t \<times> net) option" where
  "p_process_activate_read p s =
     (if \<not> in_active p \<and> (state p = Active \<or> state p = Waiting_for_delimiter) then do {
        let p = p\<lparr>in_active := True\<rparr>;
        s \<leftarrow> notify p Read_activated s;
        Some (p, s) }
      else Some (p, s))"

definition p_process_activate_write :: "u64 \<Rightarrow> pipe_t \<Rightarrow> net \<Rightarrow> (pipe_t \<times> net) option" where
  "p_process_activate_write n p s =
     (let p = p\<lparr>peers_msgs_read := n\<rparr> in
      if \<not> out_active p \<and> state p = Active then do {
        let p = p\<lparr>out_active := True\<rparr>;
        s \<leftarrow> notify p Write_activated s;
        Some (p, s) }
      else Some (p, s))"

function drain_written :: "upipe \<Rightarrow> u64 \<Rightarrow> u64 \<times> upipe" where
  "drain_written u n =
     (case up_read u of
        (None, u') \<Rightarrow> (n, u')
      | (Some m, u') \<Rightarrow> drain_written u' (if \<not> has_more m then n - 1 else n))"
  by pat_completeness auto
termination
  by (relation "measure (up_size \<circ> fst)") (auto dest: up_read_size [OF sym])

declare drain_written.simps [simp del]

definition p_process_hiccup :: "nat option \<Rightarrow> pipe_t \<Rightarrow> net \<Rightarrow> (pipe_t \<times> net) option" where
  "p_process_hiccup new p s = do {
     a \<leftarrow> outpipe p;
     u \<leftarrow> upipes s a;
     let (_, u) = up_flush u;
     let (n, u) = drain_written u (msgs_written p);
     let s = delete_upipe a s;
     b \<leftarrow> new;
     let p = p\<lparr>msgs_written := n, outpipe := Some b, out_active := True\<rparr>;
     if state p = Active then do { s \<leftarrow> notify p Hiccuped s; Some (p, s) }
     else Some (p, s) }"

definition p_process_pipe_term :: "pipe_t \<Rightarrow> net \<Rightarrow> (pipe_t \<times> net) option" where
  "p_process_pipe_term p s = do {
     zmq_assert (state p = Active \<or> state p = Delimiter_received \<or> state p = Term_req_sent1);
     if state p = Active then
       (if delay p then Some (p\<lparr>state := Waiting_for_delimiter\<rparr>, s)
        else do {
          let p = p\<lparr>state := Term_ack_sent, outpipe := None\<rparr>;
          s \<leftarrow> send p Pipe_term_ack s;
          Some (p, s) })
     else if state p = Delimiter_received then do {
       let p = p\<lparr>state := Term_ack_sent, outpipe := None\<rparr>;
       s \<leftarrow> send p Pipe_term_ack s;
       Some (p, s) }
     else do {
       let p = p\<lparr>state := Term_req_sent2, outpipe := None\<rparr>;
       s \<leftarrow> send p Pipe_term_ack s;
       Some (p, s) } }"

function drain :: "upipe \<Rightarrow> upipe" where
  "drain u = (case up_read u of (None, u') \<Rightarrow> u' | (Some m, u') \<Rightarrow> drain u')"
  by pat_completeness auto
termination
  by (relation "measure up_size") (auto dest: up_read_size [OF sym])

declare drain.simps [simp del]

text \<open>This end is deleted by the last line, so only the surroundings are returned.\<close>

definition p_process_pipe_term_ack :: "pipe_t \<Rightarrow> net \<Rightarrow> net option" where
  "p_process_pipe_term_ack p s = do {
     zmq_assert (sink p \<noteq> None);
     s \<leftarrow> notify p Pipe_terminated s;
     (p, s) \<leftarrow> (if state p = Term_req_sent1 then do {
         let p = p\<lparr>outpipe := None\<rparr>;
         s \<leftarrow> send p Pipe_term_ack s;
         Some (p, s) }
       else do {
         zmq_assert (state p = Term_ack_sent \<or> state p = Term_req_sent2);
         Some (p, s) });
     a \<leftarrow> inpipe p;
     u \<leftarrow> upipes s a;
     let s = put_upipe a (if \<not> is_conflate p then drain u else u) s;
     Some (delete_upipe a s) }"

definition p_process_pipe_hwm :: "int \<Rightarrow> int \<Rightarrow> pipe_t \<Rightarrow> pipe_t" where
  "p_process_pipe_hwm i j p = p_set_hwms i j p"

subsection \<open>Termination and hiccups\<close>

definition p_terminate :: "bool \<Rightarrow> pipe_t \<Rightarrow> net \<Rightarrow> (pipe_t \<times> net) option" where
  "p_terminate d p s =
     (let p = p\<lparr>delay := d\<rparr> in
      if state p = Term_req_sent1 \<or> state p = Term_req_sent2 then Some (p, s)
      else if state p = Term_ack_sent then Some (p, s)
      else do {
        (p, s) \<leftarrow>
          (if state p = Active then do { s \<leftarrow> send p Pipe_term s; Some (p\<lparr>state := Term_req_sent1\<rparr>, s) }
           else if state p = Waiting_for_delimiter \<and> \<not> delay p then do {
             let p = p\<lparr>outpipe := None\<rparr>;
             s \<leftarrow> send p Pipe_term_ack s;
             Some (p\<lparr>state := Term_ack_sent\<rparr>, s) }
           else if state p = Waiting_for_delimiter then Some (p, s)
           else if state p = Delimiter_received then do {
             s \<leftarrow> send p Pipe_term s; Some (p\<lparr>state := Term_req_sent1\<rparr>, s) }
           else None);
        let p = p\<lparr>out_active := False\<rparr>;
        (case outpipe p of
           None \<Rightarrow> Some (p, s)
         | Some a \<Rightarrow> do {
             s \<leftarrow> p_rollback p s;
             u \<leftarrow> upipes s a;
             let s = put_upipe a (up_write (contended s) delimiter False u) s;
             s \<leftarrow> p_flush p s;
             Some (p, s) }) })"

definition p_hiccup :: "nat \<Rightarrow> pipe_t \<Rightarrow> net \<Rightarrow> (pipe_t \<times> net) option" where
  "p_hiccup new p s =
     (if state p \<noteq> Active then Some (p, s)
      else do {
        let p = p\<lparr>inpipe := Some new, in_active := True\<rparr>;
        s \<leftarrow> send p (Hiccup new) (put_upipe new (new_upipe (is_conflate p)) s);
        Some (p, s) })"

definition p_send_hwms_to_peer :: "int \<Rightarrow> int \<Rightarrow> pipe_t \<Rightarrow> net \<Rightarrow> net option" where
  "p_send_hwms_to_peer i j p s = send p (Pipe_hwm i j) s"

end
