(* ===== verification/Handshake.thy ===== *)
theory Handshake
  imports Pipe
begin

text \<open>
  The termination handshake of two pipe ends as an abstract protocol: of an end its state and
  the addresses of its two pipes, of the commands on their way the hiccups, the requests and
  the acknowledgements, of the heap which pipes are allocated. \<open>Pipe_Pair\<close> shows that every
  operation and every command handler of \<open>pipe.cpp\<close> is a \<open>move\<close> or a \<open>handle\<close> here.
\<close>

type_synonym side = "pstate \<times> nat \<times> nat option"

fun quiet :: "command \<Rightarrow> bool" where
  "quiet (Hiccup _) = False"
| "quiet Pipe_term = False"
| "quiet Pipe_term_ack = False"
| "quiet _ = True"

abbreviation acked :: "pstate \<Rightarrow> bool" where
  "acked st \<equiv> st = Term_ack_sent \<or> st = Term_req_sent2"

inductive move :: "side \<Rightarrow> nat set \<Rightarrow> command list \<Rightarrow> side \<Rightarrow> nat set \<Rightarrow> bool" where
  mv_local: "\<forall>c\<in>set cs. quiet c \<Longrightarrow> cs = [] \<or> \<not> acked st \<Longrightarrow> move (st, i, o') D cs (st, i, o') D"
| mv_delimiter: "move (Active, i, o') D [] (Delimiter_received, i, o') D"
| mv_ack: "move (Waiting_for_delimiter, i, o') D [Pipe_term_ack] (Term_ack_sent, i, None) D"
| mv_term: "st = Active \<or> st = Delimiter_received \<Longrightarrow> \<forall>c\<in>set cs. quiet c \<Longrightarrow>
    move (st, i, o') D (Pipe_term # cs) (Term_req_sent1, i, o') D"
| mv_hiccup: "u \<notin> D \<Longrightarrow> move (Active, i, o') D [Hiccup u] (Active, u, o') (insert u D)"

inductive handle :: "command \<Rightarrow> side \<Rightarrow> nat set \<Rightarrow> command list \<Rightarrow> side option \<Rightarrow> nat set \<Rightarrow> bool" where
  h_quiet: "quiet c \<Longrightarrow> handle c X D [] (Some X) D"
| h_hiccup: "handle (Hiccup u) (st, i, Some a) D [] (Some (st, i, Some u)) (D - {a})"
| h_wait: "handle Pipe_term (Active, i, o') D [] (Some (Waiting_for_delimiter, i, o')) D"
| h_ack: "st = Active \<or> st = Delimiter_received \<Longrightarrow>
    handle Pipe_term (st, i, o') D [Pipe_term_ack] (Some (Term_ack_sent, i, None)) D"
| h_both: "handle Pipe_term (Term_req_sent1, i, o') D [Pipe_term_ack] (Some (Term_req_sent2, i, None)) D"
| h_end: "handle Pipe_term_ack (st, i, o') D (if st = Term_req_sent1 then [Pipe_term_ack] else [])
    None (D - {i})"

inductive_cases moveE: "move X D cs X' D'"
inductive_cases handleE: "handle c X D cs R D'"

subsection \<open>The invariant of the protocol\<close>

fun hiccups :: "command list \<Rightarrow> nat list" where
  "hiccups [] = []"
| "hiccups (Hiccup u # q) = u # hiccups q"
| "hiccups (_ # q) = hiccups q"

definition terms :: "command list \<Rightarrow> command list" where
  "terms q = filter (\<lambda>c. c = Pipe_term \<or> c = Pipe_term_ack) q"

text \<open>No hiccup follows a request, nothing follows an acknowledgement.\<close>

fun tail_ok :: "command list \<Rightarrow> bool" where
  "tail_ok [] = True"
| "tail_ok (c # q) = ((c = Pipe_term_ack \<longrightarrow> q = []) \<and> (c = Pipe_term \<longrightarrow> hiccups q = []) \<and> tail_ok q)"

lemma hiccups_append [simp]: "hiccups (q @ r) = hiccups q @ hiccups r"
  by (induction q rule: hiccups.induct) auto

lemma terms_append [simp]: "terms (q @ r) = terms q @ terms r"
  by (simp add: terms_def)

lemma terms_Cons [simp]: "terms [] = []" "terms (Pipe_term # q) = Pipe_term # terms q"
  "terms (Pipe_term_ack # q) = Pipe_term_ack # terms q" "terms (Hiccup u # q) = terms q"
  "quiet c \<Longrightarrow> terms (c # q) = terms q"
  by (auto simp: terms_def)

lemma quiet_hiccups [simp]: "quiet c \<Longrightarrow> hiccups (c # q) = hiccups q"
  by (cases c) auto

lemma quiet_all [simp]: "\<forall>c\<in>set cs. quiet c \<Longrightarrow> terms cs = []" "\<forall>c\<in>set cs. quiet c \<Longrightarrow> hiccups cs = []"
  by (induction cs) auto

lemma quiet_not [simp]: "\<not> quiet Pipe_term" "\<not> quiet Pipe_term_ack"
  by simp_all

lemma quiet_tail [simp]: "quiet c \<Longrightarrow> tail_ok (c # q) = tail_ok q"
  by (cases c) auto

lemma tail_ok_append:
  "tail_ok (q @ r) \<longleftrightarrow> tail_ok q \<and> tail_ok r \<and> (Pipe_term_ack \<in> set (terms q) \<longrightarrow> r = []) \<and>
    (Pipe_term \<in> set (terms q) \<longrightarrow> hiccups r = [])"
  by (induction q) (auto simp: terms_def)

lemma quiet_all_tail [simp]: "\<forall>c\<in>set cs. quiet c \<Longrightarrow> tail_ok cs"
  by (induction cs) auto

text \<open>How far the two ends have come, with the requests and acknowledgements on their way.\<close>

definition stage :: "side option \<Rightarrow> command list \<Rightarrow> side option \<Rightarrow> command list \<Rightarrow> bool" where
  "stage X tx Y ty \<longleftrightarrow> (case (X, Y) of
     (Some (sx, _), Some (sy, _)) \<Rightarrow>
       (sx \<in> {Active, Delimiter_received} \<and> sy \<in> {Active, Delimiter_received} \<and> tx = [] \<and> ty = []) \<or>
       (sx \<in> {Active, Delimiter_received} \<and> sy = Term_req_sent1 \<and> tx = [Pipe_term] \<and> ty = []) \<or>
       (sx = Waiting_for_delimiter \<and> sy = Term_req_sent1 \<and> tx = [] \<and> ty = []) \<or>
       (sx = Term_ack_sent \<and> sy = Term_req_sent1 \<and> tx = [] \<and> ty = [Pipe_term_ack]) \<or>
       (sx = Term_req_sent1 \<and> sy = Term_req_sent1 \<and> tx = [Pipe_term] \<and> ty = [Pipe_term]) \<or>
       (sx = Term_req_sent1 \<and> sy = Term_req_sent2 \<and> tx = [Pipe_term, Pipe_term_ack] \<and> ty = []) \<or>
       (sx = Term_req_sent2 \<and> sy = Term_req_sent2 \<and> tx = [Pipe_term_ack] \<and> ty = [Pipe_term_ack])
   | (Some (sx, _), None) \<Rightarrow> acked sx \<and> tx = [Pipe_term_ack] \<and> ty = []
   | (None, None) \<Rightarrow> tx = [] \<and> ty = []
   | (None, Some _) \<Rightarrow> False)"

text \<open>The pipes on the way from the writer \<open>X\<close> to the reader \<open>Y\<close>, the reader's own last.\<close>

definition chain_of :: "side option \<Rightarrow> command list \<Rightarrow> side option \<Rightarrow> nat list" where
  "chain_of X qx Y = (case Y of None \<Rightarrow> []
     | Some (_, iy, _) \<Rightarrow> (case X of Some (_, _, Some a) \<Rightarrow> a # hiccups qx | _ \<Rightarrow> [iy]))"

definition half_ok :: "side option \<Rightarrow> command list \<Rightarrow> side option \<Rightarrow> bool" where
  "half_ok X qx Y \<longleftrightarrow> tail_ok qx \<and>
     (case X of None \<Rightarrow> qx = []
      | Some (st, _, ox) \<Rightarrow> (ox = None \<longleftrightarrow> acked st) \<and>
          (hiccups qx \<noteq> [] \<longrightarrow> st \<in> {Active, Delimiter_received, Term_req_sent1})) \<and>
     (case Y of None \<Rightarrow> True | Some (_, iy, _) \<Rightarrow> last (chain_of X qx Y) = iy)"

definition hinv :: "side option \<Rightarrow> command list \<Rightarrow> side option \<Rightarrow> command list \<Rightarrow> nat set \<Rightarrow> bool" where
  "hinv X qx Y qy D \<longleftrightarrow> half_ok X qx Y \<and> half_ok Y qy X \<and>
     (stage X (terms qx) Y (terms qy) \<or> stage Y (terms qy) X (terms qx)) \<and>
     distinct (chain_of X qx Y @ chain_of Y qy X) \<and> D = set (chain_of X qx Y) \<union> set (chain_of Y qy X)"

lemma hinv_sym: "hinv X qx Y qy D \<longleftrightarrow> hinv Y qy X qx D"
  by (auto simp: hinv_def)

lemma hinv_start:
  assumes "a \<noteq> b"
  shows "hinv (Some (Active, a, Some b)) [] (Some (Active, b, Some a)) [] {a, b}"
  using assms by (auto simp: hinv_def half_ok_def chain_of_def stage_def)

lemmas hinv_defs = hinv_def half_ok_def chain_of_def stage_def

text \<open>An end that has not acknowledged has a peer, which has got no acknowledgement from it.\<close>

lemma sender_open:
  assumes "hinv (Some (st, i, o')) qx Y qy D" "\<not> acked st"
  shows "Pipe_term_ack \<notin> set (terms qy)" "Y \<noteq> None"
  using assms by (auto simp: hinv_def stage_def split: option.splits prod.splits)

lemma move_has_peer:
  assumes "hinv (Some X) qx Y qy D" "move X D cs X' D'" "cs \<noteq> []"
  shows "Y \<noteq> None"
  using assms(2,1,3) by (cases rule: move.cases) (auto dest: sender_open)

lemma chain_cong: "hiccups qx = hiccups qx' \<Longrightarrow> chain_of X qx Y = chain_of X qx' Y"
  by (auto simp: chain_of_def split: option.splits)

lemma half_ok_quiet:
  assumes "half_ok Y qy X" "\<forall>c\<in>set cs. quiet c" "cs = [] \<or> Pipe_term_ack \<notin> set (terms qy) \<and> Y \<noteq> None"
  shows "half_ok Y (qy @ cs) X"
  using assms chain_cong [of "qy @ cs" qy]
  by (auto simp: half_ok_def tail_ok_append split: option.splits)

lemma local_hinv:
  assumes "hinv (Some (st, i, o')) qx Y qy D" "\<forall>c\<in>set cs. quiet c" "cs = [] \<or> \<not> acked st"
  shows "hinv (Some (st, i, o')) qx Y (qy @ cs) D"
proof -
  have "half_ok Y (qy @ cs) (Some (st, i, o'))"
    by (rule half_ok_quiet) (use assms sender_open [OF assms(1)] in \<open>auto simp: hinv_def\<close>)
  then show ?thesis using assms chain_cong [of "qy @ cs" qy] by (simp add: hinv_def)
qed

text \<open>Both ends alive and writing: what the invariant says then.\<close>

definition chains_ok :: "nat \<Rightarrow> nat \<Rightarrow> command list \<Rightarrow> nat \<Rightarrow> nat \<Rightarrow> command list \<Rightarrow> nat set \<Rightarrow> bool" where
  "chains_ok i a qx j b qy D \<longleftrightarrow> tail_ok qx \<and> tail_ok qy \<and> last (a # hiccups qx) = j \<and>
     last (b # hiccups qy) = i \<and> distinct (a # hiccups qx @ b # hiccups qy) \<and>
     D = insert a (insert b (set (hiccups qx) \<union> set (hiccups qy)))"

lemma hinv_open:
  assumes "\<not> acked sx" "\<not> acked sy"
  shows "hinv (Some (sx, i, Some a)) qx (Some (sy, j, Some b)) qy D \<longleftrightarrow>
    chains_ok i a qx j b qy D \<and>
    (hiccups qx = [] \<or> sx \<noteq> Waiting_for_delimiter) \<and> (hiccups qy = [] \<or> sy \<noteq> Waiting_for_delimiter) \<and>
    (stage (Some (sx, i, Some a)) (terms qx) (Some (sy, j, Some b)) (terms qy) \<or>
     stage (Some (sy, j, Some b)) (terms qy) (Some (sx, i, Some a)) (terms qx))"
  using assms by (cases sx; cases sy) (auto simp: hinv_def half_ok_def chain_of_def chains_ok_def)

lemma stage_active:
  assumes "st \<in> {Active, Delimiter_received}"
  shows "stage (Some (st, i, ox)) tx (Some (sy, j, oy)) ty \<or> stage (Some (sy, j, oy)) ty (Some (st, i, ox)) tx \<longleftrightarrow>
    ty = [] \<and> (sy \<in> {Active, Delimiter_received} \<and> tx = [] \<or> sy = Term_req_sent1 \<and> tx = [Pipe_term])"
  using assms by (auto simp: stage_def)

lemma active_peer:
  assumes "hinv (Some (st, i, ox)) qx Y qy D" "st \<in> {Active, Delimiter_received}"
  obtains a sy j b where "ox = Some a" "Y = Some (sy, j, Some b)" "chains_ok i a qx j b qy D" "terms qy = []"
    "sy \<in> {Active, Delimiter_received} \<and> terms qx = [] \<or> sy = Term_req_sent1 \<and> terms qx = [Pipe_term]"
proof -
  have st: "\<not> acked st" using assms(2) by auto
  with assms(1) sender_open(2) have "Y \<noteq> None" by blast
  then obtain sy j oy where Y: "Y = Some (sy, j, oy)" by (cases Y) auto
  note stg = stage_active [OF assms(2), of i ox "terms qx" sy j oy "terms qy"]
  have "terms qy = []" "sy \<in> {Active, Delimiter_received} \<and> terms qx = [] \<or> sy = Term_req_sent1 \<and> terms qx = [Pipe_term]"
    using assms(1) stg unfolding hinv_def Y by blast+
  moreover from this(2) have sy: "\<not> acked sy" by auto
  moreover from assms(1) st sy obtain a b where "ox = Some a" "oy = Some b"
    unfolding hinv_def half_ok_def Y by auto
  ultimately show thesis
    using that Y assms(1) hinv_open [OF st sy, of i _ qx j _ qy D] by simp
qed

lemma waiting_peer:
  assumes "hinv (Some (Waiting_for_delimiter, i, ox)) qx Y qy D"
  obtains a j b where "ox = Some a" "Y = Some (Term_req_sent1, j, Some b)" "chains_ok i a qx j b qy D"
    "terms qy = []" "terms qx = []" "hiccups qx = []"
proof -
  from assms sender_open(2) have "Y \<noteq> None" by blast
  then obtain sy j oy where Y: "Y = Some (sy, j, oy)" by (cases Y) auto
  have "sy = Term_req_sent1 \<and> terms qy = [] \<and> terms qx = []"
    using assms unfolding hinv_def stage_def Y by simp
  moreover from assms this obtain a b where "ox = Some a" "oy = Some b"
    unfolding hinv_def half_ok_def Y by auto
  ultimately show thesis
    using that Y assms hinv_open [of Waiting_for_delimiter Term_req_sent1 i _ qx j _ qy D] by simp
qed

lemma req_peer:
  assumes "hinv (Some (Term_req_sent1, i, ox)) qx Y qy D"
  obtains a sy j oy where "ox = Some a" "Y = Some (sy, j, oy)" "terms qy = [Pipe_term] \<or> terms qy = []"
    "terms qx = [] \<longrightarrow> \<not> acked sy"
    "terms qx \<noteq> [] \<longrightarrow> sy = Term_req_sent1 \<and> terms qx = [Pipe_term] \<and> terms qy = [Pipe_term] \<or>
      sy = Term_ack_sent \<and> terms qx = [Pipe_term_ack] \<and> terms qy = [] \<or>
      sy = Term_req_sent2 \<and> terms qx = [Pipe_term, Pipe_term_ack] \<and> terms qy = []"
proof -
  from assms sender_open(2) have "Y \<noteq> None" by blast
  then obtain sy j oy where Y: "Y = Some (sy, j, oy)" by (cases Y) auto
  from assms obtain a where "ox = Some a" unfolding hinv_def half_ok_def by auto
  moreover have "terms qy = [Pipe_term] \<or> terms qy = []" "terms qx = [] \<longrightarrow> \<not> acked sy"
    "terms qx \<noteq> [] \<longrightarrow> sy = Term_req_sent1 \<and> terms qx = [Pipe_term] \<and> terms qy = [Pipe_term] \<or>
      sy = Term_ack_sent \<and> terms qx = [Pipe_term_ack] \<and> terms qy = [] \<or>
      sy = Term_req_sent2 \<and> terms qx = [Pipe_term, Pipe_term_ack] \<and> terms qy = []"
    using assms unfolding hinv_def stage_def Y by auto
  ultimately show thesis using that Y by blast
qed

lemma move_hinv:
  assumes inv: "hinv (Some X) qx Y qy D" and mv: "move X D cs X' D'"
  shows "hinv (Some X') qx Y (qy @ cs) D'"
  using mv
proof (cases rule: move.cases)
  case (mv_local st i o')
  with inv local_hinv show ?thesis by simp
next
  case (mv_delimiter i o')
  with inv have "hinv (Some (Active, i, o')) qx Y qy D" by simp
  then obtain a sy j b where "o' = Some a" "Y = Some (sy, j, Some b)" "chains_ok i a qx j b qy D" "terms qy = []"
    "sy \<in> {Active, Delimiter_received} \<and> terms qx = [] \<or> sy = Term_req_sent1 \<and> terms qx = [Pipe_term]"
    by (rule active_peer) simp
  moreover from this(5) have "\<not> acked sy" "sy \<noteq> Waiting_for_delimiter" by auto
  ultimately show ?thesis using mv_delimiter by (auto simp: hinv_open stage_active)
next
  case (mv_ack i o')
  with inv have "hinv (Some (Waiting_for_delimiter, i, o')) qx Y qy D" by simp
  then obtain a j b where "o' = Some a" "Y = Some (Term_req_sent1, j, Some b)" "chains_ok i a qx j b qy D"
    "terms qy = []" "terms qx = []" "hiccups qx = []" by (rule waiting_peer)
  then show ?thesis using mv_ack
    by (auto simp: hinv_def half_ok_def chain_of_def tail_ok_append chains_ok_def stage_def)
next
  case (mv_term st cs' i o')
  with inv have "hinv (Some (st, i, o')) qx Y qy D" by simp
  then obtain a sy j b where "o' = Some a" "Y = Some (sy, j, Some b)" "chains_ok i a qx j b qy D" "terms qy = []"
    "sy \<in> {Active, Delimiter_received} \<and> terms qx = [] \<or> sy = Term_req_sent1 \<and> terms qx = [Pipe_term]"
    by (rule active_peer) (use mv_term in auto)
  moreover from this(5) have "\<not> acked sy" "sy \<noteq> Waiting_for_delimiter" by auto
  ultimately show ?thesis using mv_term
    by (simp add: hinv_open chains_ok_def tail_ok_append) (auto simp: stage_def)
next
  case (mv_hiccup u i o')
  with inv have "hinv (Some (Active, i, o')) qx Y qy D" by simp
  then obtain a sy j b where "o' = Some a" "Y = Some (sy, j, Some b)" "chains_ok i a qx j b qy D" "terms qy = []"
    "sy \<in> {Active, Delimiter_received} \<and> terms qx = [] \<or> sy = Term_req_sent1 \<and> terms qx = [Pipe_term]"
    by (rule active_peer) simp
  moreover from this(5) have "\<not> acked sy" "sy \<noteq> Waiting_for_delimiter" by auto
  ultimately show ?thesis using mv_hiccup
    by (auto simp: hinv_open stage_active chains_ok_def tail_ok_append)
qed

subsection \<open>Commands\<close>

lemma ends_allocated:
  assumes "hinv (Some (st, i, ox)) qx Y qy D"
  shows "i \<in> D" "ox = Some a \<Longrightarrow> Y \<noteq> None \<Longrightarrow> a \<in> D"
proof -
  from assms have h: "half_ok Y qy (Some (st, i, ox))" and
    D: "D = set (chain_of (Some (st, i, ox)) qx Y) \<union> set (chain_of Y qy (Some (st, i, ox)))"
    by (simp_all add: hinv_def)
  have "chain_of Y qy (Some (st, i, ox)) \<noteq> []"
    by (auto simp: chain_of_def split: option.splits)
  then have "last (chain_of Y qy (Some (st, i, ox))) \<in> set (chain_of Y qy (Some (st, i, ox)))" by (rule last_in_set)
  moreover have "last (chain_of Y qy (Some (st, i, ox))) = i" using h by (simp add: half_ok_def)
  ultimately have "i \<in> set (chain_of Y qy (Some (st, i, ox)))" by simp
  with D show "i \<in> D" by blast
  show "ox = Some a \<Longrightarrow> Y \<noteq> None \<Longrightarrow> a \<in> D" using D by (auto simp: chain_of_def split: option.splits)
qed

text \<open>A command that arrives finds an end that can take it.\<close>

lemma hiccup_expected:
  assumes "hinv (Some (st, i, ox)) (Hiccup u # qx) Y qy D"
  obtains a sy j oy where "ox = Some a" "Y = Some (sy, j, oy)" "\<not> acked st"
proof -
  have "st \<in> {Active, Delimiter_received, Term_req_sent1}" "ox = None \<longleftrightarrow> acked st"
    using assms unfolding hinv_def half_ok_def by simp_all
  moreover from this(1) have na: "\<not> acked st" by auto
  ultimately obtain a where "ox = Some a" by auto
  moreover from sender_open(2) [OF assms na] obtain sy j oy where "Y = Some (sy, j, oy)" by (cases Y) auto
  ultimately show thesis using that na by blast
qed

lemma term_expected:
  assumes "hinv (Some (st, i, ox)) (Pipe_term # qx) Y qy D"
  shows "(st = Active \<or> st = Delimiter_received) \<and> terms qx = [] \<and> terms qy = [] \<and> hiccups qx = [] \<and>
      (\<exists>a j b. ox = Some a \<and> Y = Some (Term_req_sent1, j, Some b) \<and> chains_ok i a qx j b qy D) \<or>
    st = Term_req_sent1 \<and> hiccups qx = [] \<and>
      (\<exists>a j b. ox = Some a \<and> Y = Some (Term_req_sent1, j, Some b) \<and> chains_ok i a qx j b qy D \<and>
        terms qx = [] \<and> terms qy = [Pipe_term]) \<or>
    st = Term_req_sent1 \<and> hiccups qx = [] \<and>
      (\<exists>a j. ox = Some a \<and> Y = Some (Term_req_sent2, j, None) \<and>
        terms qx = [Pipe_term_ack] \<and> terms qy = [])"
proof -
  from assms have t: "hiccups qx = []" "tail_ok qx" and "Y \<noteq> None"
    by (auto simp: hinv_def half_ok_def stage_def split: option.splits)
  then obtain sy j oy where Y: "Y = Some (sy, j, oy)" by (cases Y) auto
  have "st \<in> {Active, Delimiter_received} \<and> sy = Term_req_sent1 \<and> terms qx = [] \<and> terms qy = [] \<or>
     st = Term_req_sent1 \<and> sy = Term_req_sent1 \<and> terms qx = [] \<and> terms qy = [Pipe_term] \<or>
     st = Term_req_sent1 \<and> sy = Term_req_sent2 \<and> terms qx = [Pipe_term_ack] \<and> terms qy = []"
    using assms unfolding hinv_def stage_def Y by auto
  moreover have "ox = None \<longleftrightarrow> acked st" "oy = None \<longleftrightarrow> acked sy"
    using assms unfolding hinv_def half_ok_def Y by simp_all
  moreover have "chains_ok i a qx j b qy D" if "ox = Some a" "oy = Some b" "\<not> acked st" "\<not> acked sy" for a b
    using assms hinv_open [OF that(3,4), of i a _ j b] t unfolding Y that by (auto simp: chains_ok_def)
  ultimately show ?thesis using t Y by (elim disjE) auto
qed

lemma ack_expected:
  assumes "hinv (Some (st, i, ox)) (Pipe_term_ack # qx) Y qy D"
  shows "qx = [] \<and> (st = Term_req_sent1 \<and> (\<exists>j. Y = Some (Term_ack_sent, j, None)) \<and> terms qy = [] \<or>
    st = Term_req_sent2 \<and> (\<exists>j. Y = Some (Term_req_sent2, j, None)) \<and> terms qy = [Pipe_term_ack] \<or>
    acked st \<and> Y = None \<and> qy = [])"
proof -
  have q: "qx = []" using assms by (simp add: hinv_def half_ok_def)
  show ?thesis
  proof (cases Y)
    case None
    with assms q show ?thesis by (auto simp: hinv_def half_ok_def stage_def)
  next
    case (Some y)
    obtain sy j oy where y: "y = (sy, j, oy)" by (cases y)
    have "st = Term_req_sent1 \<and> sy = Term_ack_sent \<and> terms qy = [] \<or>
      st = Term_req_sent2 \<and> sy = Term_req_sent2 \<and> terms qy = [Pipe_term_ack]"
      using assms q unfolding hinv_def stage_def Some y by auto
    moreover have "oy = None \<longleftrightarrow> acked sy" using assms unfolding hinv_def half_ok_def Some y by simp
    ultimately show ?thesis using q Some y by auto
  qed
qed

lemma quiet_head_hinv:
  assumes "hinv X (c # qx) Y qy D" "quiet c"
  shows "hinv X qx Y qy D"
proof -
  have "X \<noteq> None" using assms unfolding hinv_def half_ok_def by (cases X) simp_all
  then obtain st i ox where X: "X = Some (st, i, ox)" by (cases X) auto
  have "chain_of X (c # qx) Y = chain_of X qx Y" by (rule chain_cong) (simp add: assms(2))
  with assms show ?thesis unfolding X hinv_def half_ok_def by (cases Y) auto
qed

lemma stage_out: "stage (Some (st, i, Some u)) tx Y ty = stage (Some (st, i, Some a)) tx Y ty"
  "stage Y ty (Some (st, i, Some u)) tx = stage Y ty (Some (st, i, Some a)) tx"
  by (simp_all add: stage_def split: option.splits)

lemma hiccup_hinv:
  assumes "hinv (Some (st, i, Some a)) (Hiccup u # qx) Y qy D"
  shows "hinv (Some (st, i, Some u)) qx Y qy (D - {a})"
proof -
  from hiccup_expected [OF assms] obtain sy j oy where Y: "Y = Some (sy, j, oy)" "\<not> acked st" by metis
  let ?c = "chain_of Y qy (Some (st, i, Some a))"
  have c: "chain_of (Some (st, i, Some a)) (Hiccup u # qx) Y = a # u # hiccups qx"
    "chain_of (Some (st, i, Some u)) qx Y = u # hiccups qx" "chain_of Y qy (Some (st, i, Some u)) = ?c"
    using Y by (simp_all add: chain_of_def)
  from assms have "distinct ((a # u # hiccups qx) @ ?c)" "D = set (a # u # hiccups qx) \<union> set ?c"
    unfolding hinv_def c by simp_all
  then have "D - {a} = set (u # hiccups qx) \<union> set ?c" "distinct ((u # hiccups qx) @ ?c)" by auto
  moreover have "half_ok (Some (st, i, Some u)) qx Y" "half_ok Y qy (Some (st, i, Some u))"
    using assms c Y by (auto simp: hinv_def half_ok_def)
  moreover have "stage (Some (st, i, Some u)) (terms qx) Y (terms qy) \<or>
      stage Y (terms qy) (Some (st, i, Some u)) (terms qx)"
    using assms stage_out(1) [of st i u "terms qx" Y "terms qy" a]
      stage_out(2) [of Y "terms qy" st i u "terms qx" a] by (auto simp: hinv_def)
  ultimately show ?thesis unfolding hinv_def c by blast
qed

lemma handle_hinv:
  assumes inv: "hinv (Some X) (c # qx) Y qy D" and h: "handle c X D cs R D'"
  shows "hinv R qx Y (qy @ cs) D' \<and> (cs \<noteq> [] \<longrightarrow> Y \<noteq> None)"
  using h
proof (cases rule: handle.cases)
  case h_quiet
  with inv quiet_head_hinv show ?thesis by simp
next
  case (h_hiccup u st i a)
  with inv hiccup_hinv show ?thesis by simp
next
  case (h_wait i o')
  with inv have "hinv (Some (Active, i, o')) (Pipe_term # qx) Y qy D" by simp
  from term_expected [OF this] h_wait show ?thesis
    by (auto simp: hinv_open) (simp add: stage_def)
next
  case (h_ack st i o')
  with inv have "hinv (Some (st, i, o')) (Pipe_term # qx) Y qy D" by simp
  from term_expected [OF this] h_ack show ?thesis
    by (auto simp: hinv_def half_ok_def chain_of_def tail_ok_append chains_ok_def stage_def)
next
  case (h_both i o')
  with inv have i: "hinv (Some (Term_req_sent1, i, o')) (Pipe_term # qx) Y qy D" by simp
  from term_expected [OF this] consider
    (first) a j b where "o' = Some a" "Y = Some (Term_req_sent1, j, Some b)" "chains_ok i a qx j b qy D"
      "terms qx = []" "terms qy = [Pipe_term]" "hiccups qx = []"
  | (second) a j where "o' = Some a" "Y = Some (Term_req_sent2, j, None)" "terms qx = [Pipe_term_ack]"
      "terms qy = []" "hiccups qx = []" by auto
  then show ?thesis
  proof cases
    case first
    with h_both show ?thesis
      by (auto simp: hinv_def half_ok_def chain_of_def tail_ok_append chains_ok_def stage_def)
  next
    case second
    with h_both i show ?thesis
      by (auto simp: hinv_def half_ok_def chain_of_def tail_ok_append stage_def)
  qed
next
  case (h_end st i o')
  with inv have i: "hinv (Some (st, i, o')) (Pipe_term_ack # qx) Y qy D" by simp
  from ack_expected [OF this] consider
    (first) j where "st = Term_req_sent1" "Y = Some (Term_ack_sent, j, None)" "qx = []" "terms qy = []"
  | (second) j where "st = Term_req_sent2" "Y = Some (Term_req_sent2, j, None)" "qx = []" "terms qy = [Pipe_term_ack]"
  | (third) "acked st" "Y = None" "qx = []" "qy = []" by auto
  then show ?thesis
  proof cases
    case first
    with h_end i show ?thesis
      by (auto simp: hinv_def half_ok_def chain_of_def tail_ok_append stage_def split: option.splits)
  next
    case second
    with h_end i show ?thesis
      by (auto simp: hinv_def half_ok_def chain_of_def tail_ok_append stage_def split: option.splits)
  next
    case third
    with h_end i show ?thesis
      by (auto simp: hinv_def half_ok_def chain_of_def stage_def)
  qed
qed

end
