(* ===== verification/Pipe_Pair.thy ===== *)
theory Pipe_Pair
  imports Handshake
begin

text \<open>
  Two ends of a pipe pair in their own threads: every operation of the owner of an end, and
  every command from the other end, taken from a mailbox in the order of sending. Each is
  a step of the abstract protocol of \<open>Handshake\<close>, so its invariant gives the safety of the
  code: no assertion of \<open>pipe.cpp\<close> fails, no pipe is used after it was deleted, none leaks,
  and nothing is sent to an end that is gone.
\<close>

subsection \<open>Well-formed surroundings\<close>

text \<open>The parts of an unfinished message carry the flag \<open>more\<close>, as \<open>rollback\<close> asserts.\<close>

fun uwf :: "upipe \<Rightarrow> bool" where
  "uwf (Normal l) = (\<forall>m\<in>set (partial l). has_more m)"
| "uwf (Conflated x) = True"

definition net_ok :: "net \<Rightarrow> bool" where
  "net_ok s \<longleftrightarrow> (\<forall>a u. upipes s a = Some u \<longrightarrow> uwf u)"

lemma net_ok_at [dest]: "net_ok s \<Longrightarrow> upipes s a = Some u \<Longrightarrow> uwf u"
  by (simp add: net_ok_def)

lemma net_ok_put [simp]: "net_ok s \<Longrightarrow> uwf u \<Longrightarrow> net_ok (put_upipe a u s)"
  by (simp add: net_ok_def put_upipe_def)

lemma net_ok_delete [simp]: "net_ok s \<Longrightarrow> net_ok (delete_upipe a s)"
  by (simp add: net_ok_def delete_upipe_def)

lemma net_ok_sent [simp]: "net_ok (s\<lparr>sent := x\<rparr>) = net_ok s" "net_ok (s\<lparr>events := y\<rparr>) = net_ok s"
  "net_ok (s\<lparr>contended := b\<rparr>) = net_ok s"
  by (simp_all add: net_ok_def)

lemma put_upipe_sel [simp]: "sent (put_upipe a u s) = sent s" "events (put_upipe a u s) = events s"
  "contended (put_upipe a u s) = contended s" "upipes (put_upipe a u s) = (upipes s)(a \<mapsto> u)"
  by (simp_all add: put_upipe_def)

lemma delete_upipe_sel [simp]: "sent (delete_upipe a s) = sent s" "events (delete_upipe a s) = events s"
  "upipes (delete_upipe a s) = (upipes s)(a := None)"
  by (simp_all add: delete_upipe_def)

lemma uwf_write [simp]: "uwf u \<Longrightarrow> uwf (up_write b m (has_more m) u)" "uwf u \<Longrightarrow> uwf (up_write b m False u)"
  by (cases u; auto simp: lp_write_def)+

lemma uwf_flush [simp]: "uwf u \<Longrightarrow> uwf (snd (up_flush u))"
  by (cases u) (auto simp: lp_flush_def)

lemma uwf_check_read [simp]: "uwf u \<Longrightarrow> uwf (snd (up_check_read u))"
  by (cases u) (auto simp: lp_check_read_def)

lemma uwf_read [simp]: "uwf u \<Longrightarrow> uwf (snd (up_read u))"
  by (cases u) (auto simp: lp_read_def split: list.splits)

lemma uwf_new [simp]: "uwf (new_upipe b)"
  by (simp add: new_upipe_def new_lpipe_def)

lemma uwf_read_message: "uwf u \<Longrightarrow> read_message u c = (r, c', u') \<Longrightarrow> uwf u'"
proof (induction u c arbitrary: u' rule: read_message.induct)
  case (1 u c)
  obtain x v where x: "up_read u = (x, v)" by (cases "up_read u")
  with uwf_read [OF 1(2)] have v: "uwf v" by simp
  show ?case
  proof (cases x)
    case None
    with 1(3) x v show ?thesis by (simp add: read_message.simps [of u])
  next
    case (Some m)
    with 1 x v show ?thesis by (auto simp: read_message.simps [of u] split: if_splits)
  qed
qed

lemma rollback_loop_ok:
  assumes "\<forall>m\<in>set (partial l). has_more m"
  shows "rollback_loop l = Some (l\<lparr>partial := []\<rparr>)"
  using assms
proof (induction l rule: rollback_loop.induct)
  case (1 l)
  show ?case
  proof (cases "partial l = []")
    case True
    then have "l\<lparr>partial := []\<rparr> = l" by simp
    with True show ?thesis by (simp add: rollback_loop.simps [of l] lp_unwrite_def)
  next
    case False
    let ?l = "l\<lparr>partial := butlast (partial l)\<rparr>"
    have u: "lp_unwrite l = (Some (last (partial l)), ?l)" using False by (simp add: lp_unwrite_def)
    have "has_more (last (partial l))" using 1(2) False by simp
    moreover have "\<forall>m\<in>set (partial ?l). has_more m" using 1(2) by (auto dest: in_set_butlastD)
    ultimately show ?thesis using 1(1) [OF u [symmetric] refl] u by (simp add: rollback_loop.simps [of l])
  qed
qed

lemma rollback_ok: "uwf u \<Longrightarrow> \<exists>u'. rollback_upipe u = Some u' \<and> uwf u'"
  by (cases u) (auto simp: rollback_loop_ok)

lemma probe_ok: "up_check_read u = (True, u') \<Longrightarrow> (\<exists>d. up_probe f u' = Some d) \<and> (\<exists>m v. up_read u' = (Some m, v))"
  by (cases u) (auto simp: lp_check_read_def lp_read_def split: list.splits if_splits)

subsection \<open>Operations are moves\<close>

definition side_of :: "pipe_t \<Rightarrow> side" where
  "side_of p = (state p, the (inpipe p), outpipe p)"

text \<open>What an operation may rely on: the end is connected and its pipes are allocated.\<close>

definition ready_end :: "pipe_t \<Rightarrow> net \<Rightarrow> bool" where
  "ready_end p s \<longleftrightarrow> net_ok s \<and> peer p \<noteq> None \<and> sink p \<noteq> None \<and>
     (\<exists>i. inpipe p = Some i \<and> i \<in> dom (upipes s)) \<and>
     (\<forall>a. outpipe p = Some a \<longrightarrow> a \<in> dom (upipes s)) \<and> (outpipe p = None \<longleftrightarrow> acked (state p))"

definition moved :: "pipe_t \<Rightarrow> net \<Rightarrow> pipe_t \<Rightarrow> net \<Rightarrow> command list \<Rightarrow> bool" where
  "moved p s p' s' cs \<longleftrightarrow> sent s' = sent s @ map (Pair (the (peer p))) cs \<and> net_ok s' \<and>
     peer p' = peer p \<and> sink p' = sink p \<and> inpipe p' \<noteq> None \<and>
     move (side_of p) (dom (upipes s)) cs (side_of p') (dom (upipes s'))"

lemma ready_endE:
  assumes "ready_end p s"
  obtains q k i u where "net_ok s" "peer p = Some q" "sink p = Some k" "inpipe p = Some i"
    "upipes s i = Some u" "uwf u"
proof -
  from assms have n: "net_ok s" and p: "peer p \<noteq> None" "sink p \<noteq> None"
    and "\<exists>i. inpipe p = Some i \<and> i \<in> dom (upipes s)" unfolding ready_end_def by blast+
  then obtain i u where i: "inpipe p = Some i" "upipes s i = Some u" by blast
  from p obtain q k where "peer p = Some q" "sink p = Some k" by blast
  from n this i net_ok_at [OF n i(2)] show thesis by (rule that)
qed

lemma ready_end_out:
  assumes "ready_end p s" "\<not> acked (state p)"
  obtains a u where "outpipe p = Some a" "upipes s a = Some u" "uwf u" "a \<in> dom (upipes s)"
proof -
  from assms obtain a where "outpipe p = Some a" "a \<in> dom (upipes s)" unfolding ready_end_def by auto
  with assms(1) that show thesis by (auto simp: ready_end_def)
qed

lemma moved_localI:
  assumes "sent s' = sent s @ map (Pair (the (peer p))) cs" "net_ok s'" "peer p' = peer p" "sink p' = sink p"
    "inpipe p' \<noteq> None" "inpipe p' = inpipe p" "outpipe p' = outpipe p" "state p' = state p"
    "dom (upipes s') = dom (upipes s)" "\<forall>c\<in>set cs. quiet c" "cs = [] \<or> \<not> acked (state p)"
  shows "moved p s p' s' cs"
  using assms mv_local [of cs "state p" "the (inpipe p)" "outpipe p" "dom (upipes s)"]
  by (simp add: moved_def side_of_def)

lemma dom_put: "upipes s a = Some u \<Longrightarrow> dom ((upipes s)(a \<mapsto> v)) = dom (upipes s)"
  by auto

lemma process_delimiter_moved:
  assumes "peer p = Some q" "inpipe p = Some i" "net_ok s" "state p = Active \<or> state p = Waiting_for_delimiter"
  shows "\<exists>p' s' cs. p_process_delimiter p s = Some (p', s') \<and> moved p s p' s' cs"
  using assms(4)
proof
  assume "state p = Active"
  with assms mv_delimiter [of i "outpipe p" "dom (upipes s)"] show ?thesis
    by (intro exI [of _ "p\<lparr>state := Delimiter_received\<rparr>"] exI [of _ s] exI [of _ "[]"])
      (simp add: p_process_delimiter_def moved_def side_of_def)
next
  assume "state p = Waiting_for_delimiter"
  with assms mv_ack [of i "outpipe p" "dom (upipes s)"] show ?thesis
    by (intro exI [of _ "p\<lparr>outpipe := None, state := Term_ack_sent\<rparr>"]
        exI [of _ "s\<lparr>sent := sent s @ [(q, Pipe_term_ack)]\<rparr>"] exI [of _ "[Pipe_term_ack]"])
      (simp add: p_process_delimiter_def moved_def side_of_def send_def)
qed

lemma moved_after:
  assumes "moved p1 s1 p' s' cs" "sent s1 = sent s" "peer p1 = peer p" "sink p1 = sink p"
    "inpipe p1 = inpipe p" "outpipe p1 = outpipe p" "state p1 = state p" "dom (upipes s1) = dom (upipes s)"
  shows "moved p s p' s' cs"
  using assms by (simp add: moved_def side_of_def)

lemma check_read_moved:
  assumes "ready_end p s"
  shows "\<exists>b p' s' cs. p_check_read p s = Some (b, p', s') \<and> moved p s p' s' cs"
proof -
  from assms obtain q k i u where i: "net_ok s" "peer p = Some q" "sink p = Some k" "inpipe p = Some i"
    "upipes s i = Some u" "uwf u" by (rule ready_endE)
  have noop: "moved p s p s []" by (rule moved_localI) (use i in auto)
  show ?thesis
  proof (cases "in_active p \<and> (state p = Active \<or> state p = Waiting_for_delimiter)")
    case False
    with noop show ?thesis by (auto simp: p_check_read_def)
  next
    case True
    obtain ok u1 where u1: "up_check_read u = (ok, u1)" by (cases "up_check_read u")
    with uwf_check_read [OF i(6)] have w1: "uwf u1" by simp
    let ?s1 = "put_upipe i u1 s"
    show ?thesis
    proof (cases ok)
      case False
      have "moved p s (p\<lparr>in_active := False\<rparr>) ?s1 []" by (rule moved_localI) (use i w1 in auto)
      with True False i u1 show ?thesis by (auto simp: p_check_read_def)
    next
      case ok: True
      from probe_ok [of u u1 v_is_delimiter] u1 ok obtain d m u2 where
        d: "up_probe v_is_delimiter u1 = Some d" "up_read u1 = (Some m, u2)" by auto
      with uwf_read [OF w1] have w2: "uwf u2" by simp
      show ?thesis
      proof (cases d)
        case False
        have "moved p s p ?s1 []" by (rule moved_localI) (use i w1 in auto)
        with True False ok i u1 d show ?thesis by (auto simp: p_check_read_def)
      next
        case dl: True
        let ?s2 = "put_upipe i u2 ?s1"
        obtain p' s' cs where p': "p_process_delimiter p ?s2 = Some (p', s')" "moved p ?s2 p' s' cs"
          using process_delimiter_moved [of p q i ?s2] i w1 w2 True by auto
        have "moved p s p' s' cs" by (rule moved_after [OF p'(2)]) (use i in auto)
        with True dl ok i u1 d p' show ?thesis by (auto simp: p_check_read_def)
      qed
    qed
  qed
qed

lemma read_moved:
  assumes "ready_end p s"
  shows "\<exists>r p' s' cs. p_read p s = Some (r, p', s') \<and> moved p s p' s' cs"
proof -
  from assms obtain q k i u where i: "net_ok s" "peer p = Some q" "sink p = Some k" "inpipe p = Some i"
    "upipes s i = Some u" "uwf u" by (rule ready_endE)
  have noop: "moved p s p s []" by (rule moved_localI) (use i in auto)
  show ?thesis
  proof (cases "in_active p \<and> (state p = Active \<or> state p = Waiting_for_delimiter)")
    case False
    with noop show ?thesis by (auto simp: p_read_def)
  next
    case True
    obtain r cred u1 where u1: "read_message u (p_credential p) = (r, cred, u1)"
      by (cases "read_message u (p_credential p)")
    from uwf_read_message [OF i(6) this] have w1: "uwf u1" .
    let ?s1 = "put_upipe i u1 s" and ?p1 = "p\<lparr>p_credential := cred\<rparr>"
    show ?thesis
    proof (cases r)
      case None
      have "moved p s (?p1\<lparr>in_active := False\<rparr>) ?s1 []" by (rule moved_localI) (use i w1 in auto)
      with True None i u1 show ?thesis by (auto simp: p_read_def)
    next
      case (Some m)
      show ?thesis
      proof (cases "v_is_delimiter m")
        case dl: True
        obtain p' s' cs where p': "p_process_delimiter ?p1 ?s1 = Some (p', s')" "moved ?p1 ?s1 p' s' cs"
          using process_delimiter_moved [of ?p1 q i ?s1] i w1 True by auto
        have "moved p s p' s' cs" by (rule moved_after [OF p'(2)]) (use i in auto)
        with True dl i u1 Some p' show ?thesis by (auto simp: p_read_def)
      next
        case dl: False
        let ?p2 = "if \<not> has_more m \<and> \<not> v_is_identity m then ?p1\<lparr>msgs_read := msgs_read ?p1 + 1\<rparr> else ?p1"
        let ?cs = "if lwm ?p2 > 0 \<and> msgs_read ?p2 mod word_of_int (lwm ?p2) = 0
          then [Activate_write (msgs_read ?p2)] else []"
        have "moved p s ?p2 (?s1\<lparr>sent := sent s @ map (Pair q) ?cs\<rparr>) ?cs"
          by (rule moved_localI) (use i w1 True in auto)
        moreover have "p_read p s = Some (Some m, ?p2, ?s1\<lparr>sent := sent s @ map (Pair q) ?cs\<rparr>)"
          using True dl i u1 Some by (simp add: p_read_def send_def)
        ultimately show ?thesis by blast
      qed
    qed
  qed
qed

lemma write_moved:
  assumes "ready_end p s"
  shows "\<exists>b p' s' cs. p_write m p s = Some (b, p', s') \<and> moved p s p' s' cs"
proof -
  from assms obtain q k i u where i: "net_ok s" "peer p = Some q" "sink p = Some k" "inpipe p = Some i"
    "upipes s i = Some u" "uwf u" by (rule ready_endE)
  obtain ok p1 where p1: "p_check_write p = (ok, p1)" by (cases "p_check_write p")
  then have f: "p1 = p \<or> p1 = p\<lparr>out_active := False\<rparr>" "ok \<longrightarrow> state p = Active \<and> p1 = p"
    by (auto simp: p_check_write_def Let_def split: if_splits)
  show ?thesis
  proof (cases ok)
    case False
    have "moved p s p1 s []" by (rule moved_localI) (use i f in auto)
    with False p1 show ?thesis by (auto simp: p_write_def)
  next
    case True
    with f have a: "state p = Active" "p1 = p" by auto
    then have "\<not> acked (state p)" by simp
    from ready_end_out [OF assms this] obtain a v where
      o: "outpipe p = Some a" "upipes s a = Some v" "uwf v" by blast
    let ?s = "put_upipe a (up_write (contended s) m (has_more m) v) s"
    let ?p = "if \<not> has_more m \<and> \<not> v_is_identity m then p\<lparr>msgs_written := msgs_written p + 1\<rparr> else p"
    have "moved p s ?p ?s []" by (rule moved_localI) (use i o in auto)
    moreover have "p_write m p s = Some (True, ?p, ?s)" using True p1 a o by (simp add: p_write_def)
    ultimately show ?thesis by blast
  qed
qed

lemma rollback_moved:
  assumes "ready_end p s"
  shows "\<exists>s'. p_rollback p s = Some s' \<and> moved p s p s' []"
proof -
  from assms obtain q k i u where i: "net_ok s" "peer p = Some q" "sink p = Some k" "inpipe p = Some i"
    "upipes s i = Some u" "uwf u" by (rule ready_endE)
  show ?thesis
  proof (cases "outpipe p")
    case None
    moreover have "moved p s p s []" by (rule moved_localI) (use i in auto)
    ultimately show ?thesis by (simp add: p_rollback_def)
  next
    case (Some a)
    with assms obtain v where v: "upipes s a = Some v" by (auto simp: ready_end_def)
    with i(1) rollback_ok [of v] obtain v' where v': "rollback_upipe v = Some v'" "uwf v'" by auto
    have "moved p s p (put_upipe a v' s) []" by (rule moved_localI) (use i v v' in auto)
    with Some v v' show ?thesis by (simp add: p_rollback_def)
  qed
qed

lemma flush_moved:
  assumes "ready_end p s"
  shows "\<exists>s' cs. p_flush p s = Some s' \<and> moved p s p s' cs \<and> (\<forall>c\<in>set cs. quiet c) \<and>
    dom (upipes s') = dom (upipes s)"
proof -
  from assms obtain q k i u where i: "net_ok s" "peer p = Some q" "sink p = Some k" "inpipe p = Some i"
    "upipes s i = Some u" "uwf u" by (rule ready_endE)
  show ?thesis
  proof (cases "outpipe p")
    case None
    moreover have "moved p s p s []" by (rule moved_localI) (use i in auto)
    ultimately show ?thesis by (intro exI [of _ s] exI [of _ "[]"]) (simp add: p_flush_def)
  next
    case (Some a)
    with assms have na: "\<not> acked (state p)" by (auto simp: ready_end_def)
    from Some assms obtain v where v: "upipes s a = Some v" by (auto simp: ready_end_def)
    obtain ok v' where v': "up_flush v = (ok, v')" by (cases "up_flush v")
    with uwf_flush [of v] i(1) v have w: "uwf v'" by auto
    let ?cs = "if ok then [] else [Activate_read]"
    let ?s = "put_upipe a v' s\<lparr>sent := sent s @ map (Pair q) ?cs\<rparr>"
    have "moved p s p ?s ?cs" by (rule moved_localI) (use i v w na in auto)
    moreover have "p_flush p s = Some ?s" using i Some v v' na by (simp add: p_flush_def send_def)
    ultimately show ?thesis using v by (intro exI [of _ ?s] exI [of _ ?cs]) auto
  qed
qed

text \<open>\<open>terminate\<close> after its change of state: rollback, delimiter and flush.\<close>

lemma move_Nil_dom: "move X D [] X' D' \<Longrightarrow> D' = D"
  by (cases rule: move.cases) auto

lemma finish_moved:
  assumes "ready_end p s" "\<not> acked (state p)"
  shows "\<exists>a s1 u s' cs. outpipe p = Some a \<and> p_rollback p s = Some s1 \<and> upipes s1 a = Some u \<and>
    p_flush p (put_upipe a (up_write (contended s1) delimiter False u) s1) = Some s' \<and>
    moved p s p s' cs \<and> (\<forall>c\<in>set cs. quiet c) \<and> dom (upipes s') = dom (upipes s)"
proof -
  from ready_end_out [OF assms] obtain a where a: "outpipe p = Some a" "a \<in> dom (upipes s)" by blast
  from assms(1) obtain q k i where i: "net_ok s" "peer p = Some q" "sink p = Some k" "inpipe p = Some i"
    by (rule ready_endE)
  from rollback_moved [OF assms(1)] obtain s1 where
    s1: "p_rollback p s = Some s1" "moved p s p s1 []" by blast
  from s1(2) have d: "dom (upipes s1) = dom (upipes s)" "sent s1 = sent s" "net_ok s1"
    using move_Nil_dom unfolding moved_def by (blast, simp_all)
  from a d obtain u where u: "upipes s1 a = Some u" by auto
  let ?s2 = "put_upipe a (up_write (contended s1) delimiter False u) s1"
  have d2: "dom (upipes ?s2) = dom (upipes s)" using d(1) u by auto
  have "uwf u" using d(3) u by auto
  then have "net_ok ?s2" using d(3) by simp
  moreover have "ready_end p ?s2" unfolding ready_end_def d2
    using assms(1) calculation by (simp add: ready_end_def)
  ultimately obtain s' cs where s': "p_flush p ?s2 = Some s'" "moved p ?s2 p s' cs" "\<forall>c\<in>set cs. quiet c"
    "dom (upipes s') = dom (upipes ?s2)" using flush_moved [of p ?s2] by blast
  have "moved p s p s' cs" by (rule moved_after [OF s'(2)]) (use d d2 in auto)
  with a s1 u s' d2 show ?thesis by metis
qed

lemma terminate_moved:
  assumes "ready_end p s"
  shows "\<exists>p' s' cs. p_terminate d p s = Some (p', s') \<and> moved p s p' s' cs"
proof -
  from assms obtain q k i u where i: "net_ok s" "peer p = Some q" "sink p = Some k" "inpipe p = Some i"
    "upipes s i = Some u" "uwf u" by (rule ready_endE)
  let ?p = "p\<lparr>delay := d\<rparr>"
  have noop: "moved p s ?p s []" by (rule moved_localI) (use i in auto)
  consider (over) "acked (state p) \<or> state p = Term_req_sent1"
    | (start) "state p = Active \<or> state p = Delimiter_received"
    | (drop) "state p = Waiting_for_delimiter" "\<not> d"
    | (wait) "state p = Waiting_for_delimiter" d
    by (cases "state p") auto
  then show ?thesis
  proof cases
    case over
    with noop show ?thesis by (intro exI [of _ ?p] exI [of _ s] exI [of _ "[]"]) (auto simp: p_terminate_def)
  next
    case start
    let ?p1 = "?p\<lparr>state := Term_req_sent1, out_active := False\<rparr>" and ?s1 = "s\<lparr>sent := sent s @ [(q, Pipe_term)]\<rparr>"
    have "ready_end ?p1 ?s1" using assms start by (auto simp: ready_end_def)
    from finish_moved [OF this] obtain a s2 u s' cs where
      f: "outpipe ?p1 = Some a" "p_rollback ?p1 ?s1 = Some s2" "upipes s2 a = Some u"
        "p_flush ?p1 (put_upipe a (up_write (contended s2) delimiter False u) s2) = Some s'"
        "moved ?p1 ?s1 ?p1 s' cs" "\<forall>c\<in>set cs. quiet c" "dom (upipes s') = dom (upipes s)" by auto
    have "p_terminate d p s = Some (?p1, s')"
      using start f(1-4) i by (auto simp: p_terminate_def send_def)
    moreover have "moved p s ?p1 s' (Pipe_term # cs)"
      using f(5-7) i mv_term [OF start, of cs i "outpipe p" "dom (upipes s)"]
      by (auto simp: moved_def side_of_def)
    ultimately show ?thesis by blast
  next
    case drop
    let ?p1 = "?p\<lparr>outpipe := None, state := Term_ack_sent, out_active := False\<rparr>"
    have "p_terminate d p s = Some (?p1, s\<lparr>sent := sent s @ [(q, Pipe_term_ack)]\<rparr>)"
      using drop i by (simp add: p_terminate_def send_def)
    moreover have "moved p s ?p1 (s\<lparr>sent := sent s @ [(q, Pipe_term_ack)]\<rparr>) [Pipe_term_ack]"
      using drop i mv_ack [of i "outpipe p" "dom (upipes s)"] by (simp add: moved_def side_of_def)
    ultimately show ?thesis by blast
  next
    case wait
    let ?p1 = "?p\<lparr>out_active := False\<rparr>"
    have "ready_end ?p1 s" using assms by (simp add: ready_end_def)
    from finish_moved [OF this] wait obtain a s2 u s' cs where
      f: "outpipe ?p1 = Some a" "p_rollback ?p1 s = Some s2" "upipes s2 a = Some u"
        "p_flush ?p1 (put_upipe a (up_write (contended s2) delimiter False u) s2) = Some s'"
        "moved ?p1 s ?p1 s' cs" by auto
    have "p_terminate d p s = Some (?p1, s')" using wait f(1-4) by (simp add: p_terminate_def)
    moreover have "moved p s ?p1 s' cs" using f(5) by (simp add: moved_def side_of_def)
    ultimately show ?thesis by blast
  qed
qed

lemma hiccup_moved:
  assumes "ready_end p s" "a \<notin> dom (upipes s)"
  shows "\<exists>p' s' cs. p_hiccup a p s = Some (p', s') \<and> moved p s p' s' cs"
proof -
  from assms(1) obtain q k i u where i: "net_ok s" "peer p = Some q" "sink p = Some k" "inpipe p = Some i"
    "upipes s i = Some u" "uwf u" by (rule ready_endE)
  show ?thesis
  proof (cases "state p = Active")
    case False
    have "moved p s p s []" by (rule moved_localI) (use i in auto)
    with False show ?thesis by (auto simp: p_hiccup_def)
  next
    case True
    let ?p = "p\<lparr>inpipe := Some a, in_active := True\<rparr>"
    let ?s = "put_upipe a (new_upipe (is_conflate p)) s\<lparr>sent := sent s @ [(q, Hiccup a)]\<rparr>"
    have "p_hiccup a p s = Some (?p, ?s)" using True i by (simp add: p_hiccup_def send_def)
    moreover have "moved p s ?p ?s [Hiccup a]"
      using True i mv_hiccup [OF assms(2), of i "outpipe p"] by (simp add: moved_def side_of_def)
    ultimately show ?thesis by blast
  qed
qed

subsection \<open>Command handlers\<close>

text \<open>The cases of \<open>object_t::process_command\<close> for a pipe; \<open>None\<close> is the deleted end.\<close>

fun process_command :: "command \<Rightarrow> pipe_t \<Rightarrow> net \<Rightarrow> (pipe_t option \<times> net) option" where
  "process_command Activate_read p s = do { (p, s) \<leftarrow> p_process_activate_read p s; Some (Some p, s) }"
| "process_command (Activate_write n) p s = do { (p, s) \<leftarrow> p_process_activate_write n p s; Some (Some p, s) }"
| "process_command (Hiccup a) p s = do { (p, s) \<leftarrow> p_process_hiccup (Some a) p s; Some (Some p, s) }"
| "process_command Pipe_term p s = do { (p, s) \<leftarrow> p_process_pipe_term p s; Some (Some p, s) }"
| "process_command Pipe_term_ack p s = do { s \<leftarrow> p_process_pipe_term_ack p s; Some (None, s) }"
| "process_command (Pipe_hwm i j) p s = Some (Some (p_process_pipe_hwm i j p), s)"

definition handled :: "pipe_t \<Rightarrow> net \<Rightarrow> command \<Rightarrow> pipe_t option \<Rightarrow> net \<Rightarrow> command list \<Rightarrow> bool" where
  "handled p s c R s' cs \<longleftrightarrow> sent s' = sent s @ map (Pair (the (peer p))) cs \<and> net_ok s' \<and>
     (\<forall>p'. R = Some p' \<longrightarrow> peer p' = peer p \<and> sink p' = sink p \<and> inpipe p' \<noteq> None) \<and>
     handle c (side_of p) (dom (upipes s)) cs (map_option side_of R) (dom (upipes s'))"

lemma handled_quietI:
  assumes "sent s' = sent s" "net_ok s'" "peer p' = peer p" "sink p' = sink p" "inpipe p' = inpipe p"
    "inpipe p \<noteq> None" "outpipe p' = outpipe p" "state p' = state p" "upipes s' = upipes s" "quiet c"
  shows "handled p s c (Some p') s' []"
  using assms h_quiet [of c "side_of p" "dom (upipes s)"] by (simp add: handled_def side_of_def)

lemma quiet_handled:
  assumes "ready_end p s" "quiet c"
  shows "\<exists>p' s'. process_command c p s = Some (Some p', s') \<and> handled p s c (Some p') s' []"
proof -
  from assms(1) obtain q k i u where i: "net_ok s" "peer p = Some q" "sink p = Some k" "inpipe p = Some i"
    "upipes s i = Some u" "uwf u" by (rule ready_endE)
  consider "c = Activate_read" | n where "c = Activate_write n" | m n where "c = Pipe_hwm m n"
    using assms(2) by (cases c) auto
  then show ?thesis
  proof cases
    case 1
    then show ?thesis
      using i by (auto simp: p_process_activate_read_def notify_def intro!: handled_quietI)
  next
    case 2
    then show ?thesis
      using i by (auto simp: p_process_activate_write_def notify_def Let_def intro!: handled_quietI)
  next
    case 3
    then show ?thesis
      using i by (auto simp: p_process_pipe_hwm_def p_set_hwms_def Let_def intro!: handled_quietI)
  qed
qed

lemma hiccup_handled:
  assumes "ready_end p s" "outpipe p = Some a"
  shows "\<exists>p' s'. process_command (Hiccup b) p s = Some (Some p', s') \<and> handled p s (Hiccup b) (Some p') s' []"
proof -
  from assms(1) obtain q k i u where i: "net_ok s" "peer p = Some q" "sink p = Some k" "inpipe p = Some i"
    "upipes s i = Some u" "uwf u" by (rule ready_endE)
  from assms obtain v where v: "upipes s a = Some v" by (auto simp: ready_end_def)
  obtain ok v1 where v1: "up_flush v = (ok, v1)" by (cases "up_flush v")
  obtain n v2 where v2: "drain_written v1 (msgs_written p) = (n, v2)" by (cases "drain_written v1 (msgs_written p)")
  let ?p = "p\<lparr>msgs_written := n, outpipe := Some b, out_active := True\<rparr>"
  let ?s1 = "delete_upipe a s"
  let ?s = "if state p = Active then ?s1\<lparr>events := events s @ [(k, address p, Hiccuped)]\<rparr> else ?s1"
  have e: "process_command (Hiccup b) p s = Some (Some ?p, ?s)"
    using i assms(2) v v1 v2 by (simp add: p_process_hiccup_def notify_def)
  have "dom (upipes ?s) = dom (upipes s) - {a}" by auto
  then have "handled p s (Hiccup b) (Some ?p) ?s []"
    using i assms(2) h_hiccup [of b "state p" i a "dom (upipes s)"] by (simp add: handled_def side_of_def)
  with e show ?thesis by blast
qed

lemma term_handled:
  assumes "ready_end p s" "state p = Active \<or> state p = Delimiter_received \<or> state p = Term_req_sent1"
  shows "\<exists>p' s' cs. process_command Pipe_term p s = Some (Some p', s') \<and> handled p s Pipe_term (Some p') s' cs"
proof -
  from assms(1) obtain q k i u where i: "net_ok s" "peer p = Some q" "sink p = Some k" "inpipe p = Some i"
    "upipes s i = Some u" "uwf u" by (rule ready_endE)
  let ?s = "s\<lparr>sent := sent s @ [(q, Pipe_term_ack)]\<rparr>"
  consider (wait) "state p = Active" "delay p" | (ack) "state p = Active \<and> \<not> delay p \<or> state p = Delimiter_received"
    | (both) "state p = Term_req_sent1" using assms(2) by blast
  then show ?thesis
  proof cases
    case wait
    let ?p = "p\<lparr>state := Waiting_for_delimiter\<rparr>"
    have "process_command Pipe_term p s = Some (Some ?p, s)" using wait by (simp add: p_process_pipe_term_def)
    moreover have "handled p s Pipe_term (Some ?p) s []"
      using i wait h_wait [of i "outpipe p" "dom (upipes s)"] by (simp add: handled_def side_of_def)
    ultimately show ?thesis by blast
  next
    case ack
    let ?p = "p\<lparr>state := Term_ack_sent, outpipe := None\<rparr>"
    have "process_command Pipe_term p s = Some (Some ?p, ?s)"
      using ack i by (auto simp: p_process_pipe_term_def send_def)
    moreover have "handled p s Pipe_term (Some ?p) ?s [Pipe_term_ack]"
      using i ack h_ack [of "state p" i "outpipe p" "dom (upipes s)"] by (auto simp: handled_def side_of_def)
    ultimately show ?thesis by blast
  next
    case both
    let ?p = "p\<lparr>state := Term_req_sent2, outpipe := None\<rparr>"
    have "process_command Pipe_term p s = Some (Some ?p, ?s)"
      using both i by (simp add: p_process_pipe_term_def send_def)
    moreover have "handled p s Pipe_term (Some ?p) ?s [Pipe_term_ack]"
      using i both h_both [of i "outpipe p" "dom (upipes s)"] by (simp add: handled_def side_of_def)
    ultimately show ?thesis by blast
  qed
qed

lemma ack_handled:
  assumes "ready_end p s" "state p = Term_req_sent1 \<or> acked (state p)"
  shows "\<exists>s' cs. process_command Pipe_term_ack p s = Some (None, s') \<and> handled p s Pipe_term_ack None s' cs"
proof -
  from assms(1) obtain q k i u where i: "net_ok s" "peer p = Some q" "sink p = Some k" "inpipe p = Some i"
    "upipes s i = Some u" "uwf u" by (rule ready_endE)
  let ?cs = "if state p = Term_req_sent1 then [Pipe_term_ack] else []"
  let ?s1 = "s\<lparr>events := events s @ [(k, address p, Pipe_terminated)], sent := sent s @ map (Pair q) ?cs\<rparr>"
  let ?s = "delete_upipe i (put_upipe i (if \<not> is_conflate p then drain u else u) ?s1)"
  have e: "process_command Pipe_term_ack p s = Some (None, ?s)"
    using i assms(2) by (auto simp: p_process_pipe_term_ack_def notify_def send_def)
  have u: "upipes ?s = (upipes s)(i := None)" by (simp add: fun_eq_iff)
  have "dom (upipes ?s) = dom (upipes s) - {i}" unfolding u by auto
  moreover have "net_ok ?s" using i(1) by (simp add: net_ok_def u)
  ultimately have "handled p s Pipe_term_ack None ?s ?cs"
    using i h_end [of "state p" i "outpipe p" "dom (upipes s)"]
    by (simp add: handled_def side_of_def)
  with e show ?thesis by blast
qed

subsection \<open>The two ends\<close>

datatype pipe_op = Op_check_read | Op_read | Op_check_write | Op_write vmsg | Op_rollback | Op_flush
  | Op_terminate bool | Op_hiccup nat | Op_set_nodelay | Op_set_hwms int int | Op_set_hwms_boost int int
  | Op_send_hwms int int

fun exec_op :: "pipe_op \<Rightarrow> pipe_t \<Rightarrow> net \<Rightarrow> (pipe_t \<times> net) option" where
  "exec_op Op_check_read p s = map_option snd (p_check_read p s)"
| "exec_op Op_read p s = map_option snd (p_read p s)"
| "exec_op Op_check_write p s = Some (snd (p_check_write p), s)"
| "exec_op (Op_write m) p s = map_option snd (p_write m p s)"
| "exec_op Op_rollback p s = map_option (Pair p) (p_rollback p s)"
| "exec_op Op_flush p s = map_option (Pair p) (p_flush p s)"
| "exec_op (Op_terminate d) p s = p_terminate d p s"
| "exec_op (Op_hiccup a) p s = p_hiccup a p s"
| "exec_op Op_set_nodelay p s = Some (p_set_nodelay p, s)"
| "exec_op (Op_set_hwms i j) p s = Some (p_set_hwms i j p, s)"
| "exec_op (Op_set_hwms_boost i j) p s = Some (p_set_hwms_boost i j p, s)"
| "exec_op (Op_send_hwms i j) p s = map_option (Pair p) (p_send_hwms_to_peer i j p s)"

text \<open>The allocator gives fresh addresses, and watermarks are announced before the end acknowledged.\<close>

fun allowed :: "pipe_op \<Rightarrow> pipe_t \<Rightarrow> net \<Rightarrow> bool" where
  "allowed (Op_hiccup a) p s = (upipes s a = None)"
| "allowed (Op_send_hwms i j) p s = (\<not> acked (state p))"
| "allowed _ p s = True"

lemma exec_op_moved:
  assumes "ready_end p s" "allowed op p s"
  shows "\<exists>p' s' cs. exec_op op p s = Some (p', s') \<and> moved p s p' s' cs"
proof -
  from assms(1) obtain q k i u where i: "net_ok s" "peer p = Some q" "sink p = Some k" "inpipe p = Some i"
    "upipes s i = Some u" "uwf u" by (rule ready_endE)
  show ?thesis
  proof (cases op)
    case Op_check_read
    with check_read_moved [OF assms(1)] show ?thesis by auto
  next
    case Op_read
    with read_moved [OF assms(1)] show ?thesis by auto
  next
    case Op_check_write
    have "moved p s (snd (p_check_write p)) s []"
      by (rule moved_localI) (use i in \<open>auto simp: p_check_write_def Let_def\<close>)
    with Op_check_write show ?thesis by auto
  next
    case (Op_write m)
    with write_moved [OF assms(1), of m] show ?thesis by (fastforce simp: Op_write)
  next
    case Op_rollback
    with rollback_moved [OF assms(1)] show ?thesis by auto
  next
    case Op_flush
    with flush_moved [OF assms(1)] show ?thesis by auto
  next
    case (Op_terminate d)
    with terminate_moved [OF assms(1)] show ?thesis by auto
  next
    case (Op_hiccup a)
    with hiccup_moved [OF assms(1), of a] assms(2) show ?thesis by (auto simp: domIff)
  next
    case Op_set_nodelay
    have "moved p s (p_set_nodelay p) s []" by (rule moved_localI) (use i in \<open>auto simp: p_set_nodelay_def\<close>)
    with Op_set_nodelay show ?thesis by auto
  next
    case (Op_set_hwms m n)
    have "moved p s (p_set_hwms m n p) s []"
      by (rule moved_localI) (use i in \<open>auto simp: p_set_hwms_def Let_def\<close>)
    with Op_set_hwms show ?thesis by auto
  next
    case (Op_set_hwms_boost m n)
    have "moved p s (p_set_hwms_boost m n p) s []"
      by (rule moved_localI) (use i in \<open>auto simp: p_set_hwms_boost_def\<close>)
    with Op_set_hwms_boost show ?thesis by auto
  next
    case (Op_send_hwms m n)
    have "moved p s p (s\<lparr>sent := sent s @ [(q, Pipe_hwm m n)]\<rparr>) [Pipe_hwm m n]"
      by (rule moved_localI) (use i assms(2) Op_send_hwms in auto)
    with Op_send_hwms i show ?thesis by (auto simp: p_send_hwms_to_peer_def send_def)
  qed
qed

record psys =
  ends :: "bool \<Rightarrow> pipe_t option"
  inbox :: "bool \<Rightarrow> command list"
  shared :: net

text \<open>Commands go to the other end's mailbox; a command was sent to \<open>peer\<close>.\<close>

definition deliver :: "bool \<Rightarrow> pipe_t option \<Rightarrow> net \<Rightarrow> psys \<Rightarrow> psys" where
  "deliver i R n s = s\<lparr>ends := (ends s)(i := R),
     inbox := (inbox s)(\<not> i := inbox s (\<not> i) @ map snd (sent n)), shared := n\<lparr>sent := []\<rparr>\<rparr>"

definition take_command :: "bool \<Rightarrow> psys \<Rightarrow> psys" where
  "take_command i s = s\<lparr>inbox := (inbox s)(i := tl (inbox s i))\<rparr>"

definition empty_net :: net where
  "empty_net = \<lparr>upipes = (\<lambda>_. None), sent = [], events = [], contended = False\<rparr>"

definition start_pair :: "nat \<times> nat \<Rightarrow> nat \<times> nat \<Rightarrow> int \<times> int \<Rightarrow> bool \<times> bool \<Rightarrow> nat \<times> nat \<Rightarrow> psys option" where
  "start_pair ads us hwms confl sinks = do {
     (p, q, n) \<leftarrow> pipepair ads us hwms confl empty_net;
     p \<leftarrow> set_event_sink (fst sinks) p;
     q \<leftarrow> set_event_sink (snd sinks) q;
     Some \<lparr>ends = (\<lambda>i. if i then Some q else Some p), inbox = (\<lambda>_. []), shared = n\<rparr> }"

inductive pair_step :: "psys \<Rightarrow> psys \<Rightarrow> bool" where
  pr_op: "ends s i = Some p \<Longrightarrow> allowed op p (shared s) \<Longrightarrow> exec_op op p (shared s) = Some (p', n) \<Longrightarrow>
    pair_step s (deliver i (Some p') n s)"
| pr_command: "ends s i = Some p \<Longrightarrow> inbox s i = c # q \<Longrightarrow>
    process_command c p (shared s) = Some (R, n) \<Longrightarrow> pair_step s (deliver i R n (take_command i s))"
| pr_lock: "pair_step s (s\<lparr>shared := (shared s)\<lparr>contended := b\<rparr>\<rparr>)"

inductive pair_reach :: "psys \<Rightarrow> bool" where
  pr_start: "fst us \<noteq> snd us \<Longrightarrow> start_pair ads us hwms confl sinks = Some s \<Longrightarrow> pair_reach s"
| pr_step: "pair_reach s \<Longrightarrow> pair_step s s' \<Longrightarrow> pair_reach s'"

definition pinv :: "psys \<Rightarrow> bool" where
  "pinv s \<longleftrightarrow> sent (shared s) = [] \<and> net_ok (shared s) \<and>
     (\<forall>i p. ends s i = Some p \<longrightarrow> peer p \<noteq> None \<and> sink p \<noteq> None \<and> inpipe p \<noteq> None) \<and>
     (\<forall>i. hinv (map_option side_of (ends s i)) (inbox s i)
        (map_option side_of (ends s (\<not> i))) (inbox s (\<not> i)) (dom (upipes (shared s))))"

lemma hinv_pair:
  assumes "hinv (f i) (g i) (f (\<not> i)) (g (\<not> i)) D"
  shows "\<forall>i :: bool. hinv (f i) (g i) (f (\<not> i)) (g (\<not> i)) D"
proof
  fix j
  show "hinv (f j) (g j) (f (\<not> j)) (g (\<not> j)) D"
  proof (cases "j = i")
    case False
    then have "j = (\<not> i)" by auto
    with assms show ?thesis by (simp add: hinv_sym)
  qed (use assms in simp)
qed

lemma pinvI:
  assumes "sent (shared s) = []" "net_ok (shared s)"
    "\<And>i p. ends s i = Some p \<Longrightarrow> peer p \<noteq> None \<and> sink p \<noteq> None \<and> inpipe p \<noteq> None"
    "hinv (map_option side_of (ends s i)) (inbox s i)
      (map_option side_of (ends s (\<not> i))) (inbox s (\<not> i)) (dom (upipes (shared s)))"
  shows "pinv s"
  using assms(1-3) hinv_pair [where f = "\<lambda>i. map_option side_of (ends s i)", OF assms(4)]
  unfolding pinv_def by blast

lemma pinv_end:
  assumes "pinv s" "ends s i = Some p"
  shows "hinv (Some (side_of p)) (inbox s i) (map_option side_of (ends s (\<not> i))) (inbox s (\<not> i))
    (dom (upipes (shared s)))"
proof -
  from assms(1) have "hinv (map_option side_of (ends s i)) (inbox s i)
      (map_option side_of (ends s (\<not> i))) (inbox s (\<not> i)) (dom (upipes (shared s)))" by (simp add: pinv_def)
  with assms(2) show ?thesis by simp
qed

lemma pinv_ready:
  assumes "pinv s" "ends s i = Some p"
  shows "ready_end p (shared s)"
proof -
  note h = pinv_end [OF assms] and b = assms(1) [unfolded pinv_def]
  from b assms(2) obtain j where j: "inpipe p = Some j" "peer p \<noteq> None" "sink p \<noteq> None" by blast
  then have h': "hinv (Some (state p, j, outpipe p)) (inbox s i) (map_option side_of (ends s (\<not> i)))
      (inbox s (\<not> i)) (dom (upipes (shared s)))" using h by (simp add: side_of_def)
  have o: "outpipe p = None \<longleftrightarrow> acked (state p)" using h' by (simp add: hinv_def half_ok_def)
  have "a \<in> dom (upipes (shared s))" if "outpipe p = Some a" for a
  proof (rule ends_allocated(2) [OF h' that])
    from o that have "\<not> acked (state p)" by auto
    from sender_open(2) [OF h' this] show "map_option side_of (ends s (\<not> i)) \<noteq> None" .
  qed
  with j b o ends_allocated(1) [OF h'] show ?thesis by (simp add: ready_end_def)
qed

lemma op_step:
  assumes "pinv s" "ends s i = Some p" "allowed op p (shared s)"
  shows "\<exists>p' n. exec_op op p (shared s) = Some (p', n) \<and> pinv (deliver i (Some p') n s) \<and>
    (sent n \<noteq> [] \<longrightarrow> ends s (\<not> i) \<noteq> None)"
proof -
  from exec_op_moved [OF pinv_ready [OF assms(1,2)] assms(3)] obtain p' n cs where
    e: "exec_op op p (shared s) = Some (p', n)" and m: "moved p (shared s) p' n cs" by blast
  note b = assms(1) [unfolded pinv_def]
  from m b have sn: "sent n = map (Pair (the (peer p))) cs" by (simp add: moved_def)
  note h = pinv_end [OF assms(1,2)]
  from m have mv: "move (side_of p) (dom (upipes (shared s))) cs (side_of p') (dom (upipes n))"
    by (simp add: moved_def)
  let ?s = "deliver i (Some p') n s"
  have "hinv (map_option side_of (ends ?s i)) (inbox ?s i)
      (map_option side_of (ends ?s (\<not> i))) (inbox ?s (\<not> i)) (dom (upipes (shared ?s)))"
    using move_hinv [OF h mv] sn by (simp add: deliver_def comp_def)
  moreover have "peer r \<noteq> None \<and> sink r \<noteq> None \<and> inpipe r \<noteq> None" if "ends ?s j = Some r" for j r
    using b m assms(2) that by (auto simp: deliver_def moved_def split: if_splits)
  moreover have "sent (shared ?s) = []" "net_ok (shared ?s)" using m by (simp_all add: deliver_def moved_def)
  ultimately have "pinv ?s" using pinvI [of ?s i] by blast
  moreover have "sent n \<noteq> [] \<longrightarrow> ends s (\<not> i) \<noteq> None"
    using move_has_peer [OF h mv] sn by auto
  ultimately show ?thesis using e by blast
qed

lemma command_step:
  assumes "pinv s" "ends s i = Some p" "inbox s i = c # q"
  shows "\<exists>R n. process_command c p (shared s) = Some (R, n) \<and>
    pinv (deliver i R n (take_command i s)) \<and> (sent n \<noteq> [] \<longrightarrow> ends s (\<not> i) \<noteq> None)"
proof -
  note rdy = pinv_ready [OF assms(1,2)] and b = assms(1) [unfolded pinv_def]
  note h = pinv_end [OF assms(1,2), unfolded assms(3) side_of_def]
  have "\<exists>R n cs. process_command c p (shared s) = Some (R, n) \<and> handled p (shared s) c R n cs"
  proof (cases c)
    case (Hiccup a)
    with hiccup_expected [OF h [unfolded Hiccup]] hiccup_handled [OF rdy] show ?thesis by metis
  next
    case Pipe_term
    with term_expected [OF h [unfolded Pipe_term]] term_handled [OF rdy] show ?thesis by metis
  next
    case Pipe_term_ack
    with ack_expected [OF h [unfolded Pipe_term_ack]] ack_handled [OF rdy] show ?thesis by metis
  qed (use quiet_handled [OF rdy, of c] in auto)
  then obtain R n cs where e: "process_command c p (shared s) = Some (R, n)"
    and m: "handled p (shared s) c R n cs" by blast
  from m b have sn: "sent n = map (Pair (the (peer p))) cs" by (simp add: handled_def)
  from m have hd: "handle c (side_of p) (dom (upipes (shared s))) cs (map_option side_of R) (dom (upipes n))"
    by (simp add: handled_def)
  note hh = handle_hinv [OF h [folded side_of_def] hd]
  let ?s = "deliver i R n (take_command i s)"
  have "hinv (map_option side_of (ends ?s i)) (inbox ?s i)
      (map_option side_of (ends ?s (\<not> i))) (inbox ?s (\<not> i)) (dom (upipes (shared ?s)))"
    using hh sn assms(3) by (simp add: deliver_def take_command_def comp_def)
  moreover have "peer r \<noteq> None \<and> sink r \<noteq> None \<and> inpipe r \<noteq> None" if "ends ?s j = Some r" for j r
    using b m assms(2) that by (auto simp: deliver_def take_command_def handled_def split: if_splits)
  moreover have "sent (shared ?s) = []" "net_ok (shared ?s)" using m by (simp_all add: deliver_def handled_def)
  ultimately have "pinv ?s" using pinvI [of ?s i] by blast
  moreover have "sent n \<noteq> [] \<longrightarrow> ends s (\<not> i) \<noteq> None" using hh sn by auto
  ultimately show ?thesis using e by blast
qed

lemma start_pinv:
  assumes "fst us \<noteq> snd us" "start_pair ads us hwms confl sinks = Some s"
  shows "pinv s"
proof -
  obtain a0 a1 u0 u1 where p: "ads = (a0, a1)" "us = (u0, u1)" by (cases ads, cases us) auto
  have d: "dom (upipes (shared s)) = {u0, u1}" and e: "sent (shared s) = []" "net_ok (shared s)"
    and f: "map_option side_of (ends s False) = Some (Active, u0, Some u1)"
      "map_option side_of (ends s True) = Some (Active, u1, Some u0)" "inbox s = (\<lambda>_. [])"
    and g: "\<forall>i p. ends s i = Some p \<longrightarrow> peer p \<noteq> None \<and> sink p \<noteq> None \<and> inpipe p \<noteq> None"
    using assms by (auto simp: p start_pair_def pipepair_def new_pipe_def set_peer_def set_event_sink_def
      empty_net_def side_of_def net_ok_def split: if_splits)
  have "hinv (map_option side_of (ends s False)) (inbox s False)
      (map_option side_of (ends s (\<not> False))) (inbox s (\<not> False)) (dom (upipes (shared s)))"
    unfolding d f not_False_eq_True using hinv_start [of u0 u1] assms(1) p by simp
  with e g show ?thesis using pinvI [of s False] by blast
qed

lemma pair_reach_pinv: "pair_reach s \<Longrightarrow> pinv s"
proof (induction rule: pair_reach.induct)
  case (pr_start us ads hwms confl sinks s)
  then show ?case by (rule start_pinv)
next
  case (pr_step s s')
  from pr_step(2,3) show ?case
  proof (cases rule: pair_step.cases)
    case (pr_op i p op p' n)
    with op_step [OF pr_step(3) pr_op(2,3)] show ?thesis by auto
  next
    case (pr_command i p c q R n)
    with command_step [OF pr_step(3) pr_command(2,3)] show ?thesis by auto
  next
    case (pr_lock b)
    with pr_step(3) show ?thesis by (simp add: pinv_def)
  qed
qed

subsection \<open>Concrete runs\<close>

datatype act = Do pipe_op | Take

fun act_step :: "bool \<times> act \<Rightarrow> psys \<Rightarrow> psys option" where
  "act_step (i, Do op) s = do {
     p \<leftarrow> ends s i;
     zmq_assert (allowed op p (shared s));
     (p', n) \<leftarrow> exec_op op p (shared s);
     Some (deliver i (Some p') n s) }"
| "act_step (i, Take) s = do {
     p \<leftarrow> ends s i;
     zmq_assert (inbox s i \<noteq> []);
     (R, n) \<leftarrow> process_command (hd (inbox s i)) p (shared s);
     Some (deliver i R n (take_command i s)) }"

fun run_pair :: "(bool \<times> act) list \<Rightarrow> psys \<Rightarrow> psys option" where
  "run_pair [] s = Some s"
| "run_pair (a # as) s = do { s \<leftarrow> act_step a s; run_pair as s }"

lemma act_step_sound:
  assumes "act_step a s = Some s'"
  shows "pair_step s s'"
  using assms
proof (cases "(a, s)" rule: act_step.cases)
  case (1 i op)
  with assms show ?thesis by (auto simp: bind_eq_Some_conv intro: pr_op)
next
  case (2 i)
  with assms show ?thesis
    by (cases "inbox s i") (auto simp: bind_eq_Some_conv intro: pr_command)
qed

lemma run_pair_sound: "run_pair as s = Some s' \<Longrightarrow> pair_reach s \<Longrightarrow> pair_reach s'"
proof (induction as arbitrary: s)
  case (Cons a as)
  then obtain s1 where "act_step a s = Some s1" "run_pair as s1 = Some s'" by (auto simp: bind_eq_Some_conv)
  with Cons act_step_sound pr_step show ?case by blast
qed simp

text \<open>The pair that the runs start with: pipes 1 and 2, no watermarks, sinks 8 and 9.\<close>

definition pair0 :: psys where
  "pair0 = the (start_pair (10, 11) (1, 2) (0, 0) (False, False) (8, 9))"

lemma pair0_reach: "pair_reach pair0"
proof (rule pr_start)
  show "start_pair (10, 11) (1, 2) (0, 0) (False, False) (8, 9) = Some pair0"
    by (simp add: pair0_def start_pair_def pipepair_def new_pipe_def set_peer_def set_event_sink_def)
qed simp

lemma run_reach: "run_pair as pair0 = Some s \<Longrightarrow> pair_reach s"
  using run_pair_sound pair0_reach by blast

definition both_gone :: "(bool \<times> act) list" where
  "both_gone = [(False, Do (Op_terminate False)), (True, Take), (True, Do Op_check_read), (False, Take), (True, Take)]"

lemma both_gone_run:
  obtains s where "pair_reach s" "ends s False = None" "ends s True = None"
proof -
  have "case run_pair both_gone pair0 of Some s \<Rightarrow> Option.is_none (ends s False) \<and> Option.is_none (ends s True)
    | None \<Rightarrow> False" by code_simp
  with that run_reach show thesis by (auto simp: Option.is_none_def split: option.splits)
qed

subsection \<open>Properties\<close>

text \<open>
  C14: However the owners of the two ends use them, and whenever the commands arrive: no
  operation and no command handler fails an assertion or touches a pipe that was deleted,
  and whatever is sent goes to an end that still exists. The owners are restricted in two ways
  (\<open>allowed\<close>): a hiccup allocates its new pipe in memory that is not in use, and an end that has sent
  its acknowledgement (\<open>term_ack_sent\<close>, \<open>term_req_sent2\<close>) does not announce watermarks to the peer. The second
  restriction is not one that the code enforces: \<open>pipe_hwm_to_deleted_peer\<close> shows what happens without it.
\<close>

theorem pipe_pair_safe:
  assumes "pair_reach s" "ends s i = Some p"
  shows "(allowed op p (shared s) \<longrightarrow>
      (\<exists>p' n. exec_op op p (shared s) = Some (p', n) \<and> (sent n \<noteq> [] \<longrightarrow> ends s (\<not> i) \<noteq> None))) \<and>
    (inbox s i = c # q \<longrightarrow>
      (\<exists>R n. process_command c p (shared s) = Some (R, n) \<and> (sent n \<noteq> [] \<longrightarrow> ends s (\<not> i) \<noteq> None)))"
  using op_step [OF pair_reach_pinv [OF assms(1)] assms(2)] command_step [OF pair_reach_pinv [OF assms(1)] assms(2)]
  by metis

theorem pipe_pair_safe_witness: "\<exists>(s :: psys) p p' n. ends s True = Some p \<and> exec_op (Op_terminate True) p (shared s) = Some (p', n)"
proof -
  have "ends pair0 True \<noteq> None"
    by (simp add: pair0_def start_pair_def pipepair_def new_pipe_def set_peer_def set_event_sink_def)
  then obtain p where "ends pair0 True = Some p" by auto
  moreover from pipe_pair_safe [OF pair0_reach this, of "Op_terminate True", THEN conjunct1] obtain p' n where
    "exec_op (Op_terminate True) p (shared pair0) = Some (p', n)" unfolding allowed.simps by blast
  ultimately show ?thesis by blast
qed

text \<open>
  C15: When both ends have ended, everything is released: no pipe is left in the heap and no
  command is on its way to a deleted end. As in C14, the owners do not announce watermarks from an end
  that has sent its acknowledgement, which the code does not prevent (\<open>pipe_hwm_to_deleted_peer\<close>).
\<close>

theorem pipe_pair_no_leak:
  assumes "pair_reach s" "ends s False = None" "ends s True = None"
  shows "upipes (shared s) = (\<lambda>_. None) \<and> inbox s False = [] \<and> inbox s True = []"
proof -
  have "hinv None (inbox s False) None (inbox s True) (dom (upipes (shared s)))"
    using pair_reach_pinv [OF assms(1)] assms(2,3) unfolding pinv_def by (metis not_False_eq_True option.map(1))
  then show ?thesis by (auto simp: hinv_def half_ok_def chain_of_def)
qed

theorem pipe_pair_no_leak_witness: "\<exists>s :: psys. upipes (shared s) = (\<lambda>_. None) \<and> inbox s False = [] \<and> inbox s True = []"
proof (rule both_gone_run)
  fix s assume "pair_reach s" "ends s False = None" "ends s True = None"
  from pipe_pair_no_leak [OF this] show ?thesis by blast
qed

text \<open>
  C16: Where the handshake can rest: when no command is on its way (for the owners of C14), both ends are
  gone, or one has asked and waits for the acknowledgement while the other waits for the delimiter,
  or each is active or has read the delimiter. So no end stays behind a deleted one, no end rests with an
  acknowledgement sent or with both requests crossed. That the delimiter is on its way in the
  middle case is not claimed: a hiccup can lose it (\<open>hiccup_loses_delimiter\<close>).
\<close>

theorem pipe_pair_quiescent:
  assumes "pair_reach s" "inbox s False = []" "inbox s True = []"
  shows "\<exists>i. map_option state (ends s i) = None \<and> map_option state (ends s (\<not> i)) = None \<or>
    map_option state (ends s i) = Some Term_req_sent1 \<and>
      map_option state (ends s (\<not> i)) = Some Waiting_for_delimiter \<or>
    map_option state (ends s i) \<in> Some ` {Active, Delimiter_received} \<and>
      map_option state (ends s (\<not> i)) \<in> Some ` {Active, Delimiter_received}"
proof -
  let ?f = "map_option side_of (ends s False)" and ?t = "map_option side_of (ends s True)"
  have "hinv ?f [] ?t [] (dom (upipes (shared s)))"
    using pair_reach_pinv [OF assms(1)] assms(2,3) unfolding pinv_def by (metis not_False_eq_True)
  then have "stage ?f [] ?t [] \<or> stage ?t [] ?f []" by (simp add: hinv_def)
  then show ?thesis
    by (cases "ends s False"; cases "ends s True")
      (auto simp: stage_def side_of_def intro: exI [of _ False] exI [of _ True])
qed

theorem pipe_pair_quiescent_witness:
  "\<exists>s :: psys. inbox s False = [] \<and> inbox s True = [] \<and> (\<exists>i. map_option state (ends s i) = None \<or>
    map_option state (ends s i) = Some Term_req_sent1 \<or>
    map_option state (ends s i) \<in> Some ` {Active, Delimiter_received})"
proof (rule both_gone_run)
  fix s assume s: "pair_reach s" "ends s False = None" "ends s True = None"
  from pipe_pair_no_leak [OF s] have "inbox s False = []" "inbox s True = []" by simp_all
  with pipe_pair_quiescent [OF s(1) this] show ?thesis by blast
qed

text \<open>
  \<open>send_hwms_to_peer\<close> has no guard: there is a state in which an end that has sent its
  acknowledgement, and whose peer is deleted already, still sends the peer a \<open>pipe_hwm\<close>
  command when its socket changes a watermark. This is why \<open>allowed\<close> excludes that case.
\<close>

theorem pipe_hwm_to_deleted_peer:
  "\<exists>s p n. pair_reach s \<and> ends s True = Some p \<and> ends s False = None \<and> upipes (shared s) \<noteq> (\<lambda>_. None) \<and>
    p_send_hwms_to_peer 5 5 p (shared s) = Some n \<and> sent n = [(10, Pipe_hwm 5 5)]"
proof -
  let ?as = "[(False, Do (Op_terminate False)), (True, Take), (True, Do Op_check_read), (False, Take)]"
  have "case run_pair ?as pair0 of Some s \<Rightarrow> Option.is_none (ends s False) \<and>
      map_option peer (ends s True) = Some (Some 10) \<and> sent (shared s) = [] \<and> \<not> Option.is_none (upipes (shared s) 2)
    | None \<Rightarrow> False" by code_simp
  then obtain s p where s: "run_pair ?as pair0 = Some s" "ends s False = None" "ends s True = Some p"
    "peer p = Some 10" "sent (shared s) = []" "upipes (shared s) 2 \<noteq> None"
    by (auto simp: Option.is_none_def split: option.splits)
  from run_reach [OF s(1)] s show ?thesis
    by (intro exI [of _ s] exI [of _ p] exI [of _ "(shared s)\<lparr>sent := [(10, Pipe_hwm 5 5)]\<rparr>"])
      (auto simp: p_send_hwms_to_peer_def send_def)
qed

text \<open>
  A hiccup that crosses a termination loses the delimiter: there is a state in which one
  end waits for the acknowledgement and the other for the delimiter, nothing is on its way
  and the pipe the delimiter should come from is empty, so that neither end gets any further
  until one is told to terminate without delay.
\<close>

theorem hiccup_loses_delimiter:
  "\<exists>s p q a l. pair_reach s \<and> ends s False = Some p \<and> ends s True = Some q \<and> state p = Term_req_sent1 \<and>
    state q = Waiting_for_delimiter \<and> inbox s False = [] \<and> inbox s True = [] \<and> outpipe p = Some a \<and>
    inpipe q = Some a \<and> upipes (shared s) a = Some (Normal l) \<and> ready l = [] \<and> unflushed l = [] \<and> partial l = []"
proof -
  let ?as = "[(False, Do (Op_terminate True)), (True, Do (Op_hiccup 3)), (False, Take), (True, Take)]"
  have "case run_pair ?as pair0 of Some s \<Rightarrow>
      map_option (\<lambda>p. (state p, outpipe p)) (ends s False) = Some (Term_req_sent1, Some 3) \<and>
      map_option (\<lambda>p. (state p, inpipe p)) (ends s True) = Some (Waiting_for_delimiter, Some 3) \<and>
      inbox s False = [] \<and> inbox s True = [] \<and>
      (case upipes (shared s) 3 of Some (Normal l) \<Rightarrow> ready l = [] \<and> unflushed l = [] \<and> partial l = [] | _ \<Rightarrow> False)
    | None \<Rightarrow> False" by code_simp
  then obtain s p q l where s: "run_pair ?as pair0 = Some s" "ends s False = Some p" "ends s True = Some q"
    "state p = Term_req_sent1" "outpipe p = Some 3" "state q = Waiting_for_delimiter" "inpipe q = Some 3"
    "inbox s False = []" "inbox s True = []" "upipes (shared s) 3 = Some (Normal l)"
    "ready l = [] \<and> unflushed l = [] \<and> partial l = []"
    by (auto split: option.splits upipe.splits)
  from run_reach [OF s(1)] s show ?thesis by (intro exI conjI) auto
qed

end
