(* ===== verification/Pipe_Array.thy ===== *)
theory Pipe_Array
  imports Prelude
begin

text \<open>
  \<open>array_t\<close> of \<open>src/zmqsrc/src/array.hpp\<close>: a vector of pointers whose items remember their
  position, so that an item is found and removed without a search. The remembered positions
  are the map \<open>index_of\<close> (an item has one per array it can be in). An access out of range
  is a fault. The invariant \<open>arr_ok\<close> says that the positions are right.
\<close>

record parr =
  items :: "nat list"
  index_of :: "nat \<Rightarrow> nat"

definition new_array :: parr where
  "new_array = \<lparr>items = [], index_of = (\<lambda>_. 0)\<rparr>"

definition arr_push_back :: "nat \<Rightarrow> parr \<Rightarrow> parr" where
  "arr_push_back x a =
     a\<lparr>index_of := (index_of a)(x := length (items a)), items := items a @ [x]\<rparr>"

definition arr_erase_at :: "nat \<Rightarrow> parr \<Rightarrow> parr option" where
  "arr_erase_at i a = do {
     zmq_assert (items a \<noteq> []);
     let b = last (items a);
     let a = a\<lparr>index_of := (index_of a)(b := i)\<rparr>;
     xs \<leftarrow> table_set (items a) i b;
     Some (a\<lparr>items := butlast xs\<rparr>) }"

definition arr_erase :: "nat \<Rightarrow> parr \<Rightarrow> parr option" where
  "arr_erase x a = arr_erase_at (index_of a x) a"

definition arr_swap :: "nat \<Rightarrow> nat \<Rightarrow> parr \<Rightarrow> parr option" where
  "arr_swap i j a = do {
     x \<leftarrow> table_at (items a) i;
     y \<leftarrow> table_at (items a) j;
     let a = a\<lparr>index_of := (index_of a)(x := j, y := i)\<rparr>;
     Some (a\<lparr>items := (items a)[i := y, j := x]\<rparr>) }"

definition arr_ok :: "parr \<Rightarrow> bool" where
  "arr_ok a \<longleftrightarrow> (\<forall>i < length (items a). index_of a (items a ! i) = i)"

lemma arr_ok_nth: "arr_ok a \<Longrightarrow> i < length (items a) \<Longrightarrow> index_of a (items a ! i) = i"
  by (simp add: arr_ok_def)

lemma arr_ok_distinct: "arr_ok a \<Longrightarrow> distinct (items a)"
  unfolding arr_ok_def distinct_conv_nth by metis

lemma arr_ok_index:
  assumes "arr_ok a" "x \<in> set (items a)"
  shows "index_of a x < length (items a)" "items a ! index_of a x = x"
  using assms by (auto simp: in_set_conv_nth arr_ok_def)

lemma arr_ok_new [simp]: "arr_ok new_array" "items new_array = []"
  by (simp_all add: arr_ok_def new_array_def)

lemma arr_push_ok:
  assumes "arr_ok a" "x \<notin> set (items a)"
  shows "arr_ok (arr_push_back x a)" "items (arr_push_back x a) = items a @ [x]"
proof -
  have "items a ! i \<noteq> x" if "i < length (items a)" for i using assms(2) that nth_mem by metis
  with assms(1) show "arr_ok (arr_push_back x a)"
    by (auto simp: arr_ok_def arr_push_back_def nth_append less_Suc_eq)
qed (simp add: arr_push_back_def)

lemma arr_swap_ok:
  assumes "arr_ok a" "i < length (items a)" "j < length (items a)"
  shows "\<exists>b. arr_swap i j a = Some b \<and> arr_ok b \<and> items b = (items a)[i := items a ! j, j := items a ! i]"
proof -
  let ?x = "items a ! i" and ?y = "items a ! j"
  let ?b = "a\<lparr>index_of := (index_of a)(?x := j, ?y := i), items := (items a)[i := ?y, j := ?x]\<rparr>"
  note d = arr_ok_distinct [OF assms(1)]
  have "index_of ?b (items ?b ! k) = k" if k: "k < length (items a)" for k
  proof -
    consider "k = j" | "k = i" "k \<noteq> j" | "k \<noteq> i" "k \<noteq> j" by blast
    then show ?thesis
    proof cases
      case 3
      then have "items a ! k \<noteq> ?x" "items a ! k \<noteq> ?y" using d k assms by (simp_all add: nth_eq_iff_index_eq)
      with 3 k assms show ?thesis by (simp add: arr_ok_def)
    qed (use k assms d in \<open>auto simp: nth_eq_iff_index_eq\<close>)
  qed
  then have "arr_ok ?b" by (simp add: arr_ok_def)
  moreover have "arr_swap i j a = Some ?b" using assms by (simp add: arr_swap_def)
  ultimately show ?thesis by (intro exI [of _ ?b]) simp
qed

lemma arr_erase_ok:
  assumes "arr_ok a" "x \<in> set (items a)"
  shows "\<exists>b. arr_erase x a = Some b \<and> arr_ok b \<and>
    items b = butlast ((items a)[index_of a x := last (items a)]) \<and> set (items b) = set (items a) - {x}"
proof -
  let ?i = "index_of a x" and ?xs = "items a" and ?l = "last (items a)"
  note ix = arr_ok_index [OF assms] and d = arr_ok_distinct [OF assms(1)]
  have ne: "?xs \<noteq> []" using assms(2) by auto
  let ?b = "a\<lparr>index_of := (index_of a)(?l := ?i), items := butlast (?xs[?i := ?l])\<rparr>"
  have l: "?l = ?xs ! (length ?xs - 1)" using ne by (simp add: last_conv_nth)
  have nth: "items ?b ! k = (if k = ?i then ?l else ?xs ! k)" if "k < length ?xs - 1" for k
    using that ix by (simp add: nth_butlast nth_list_update)
  have "index_of ?b (items ?b ! k) = k" if k: "k < length ?xs - 1" for k
  proof (cases "k = ?i")
    case False
    then have "?xs ! k \<noteq> ?l" using d k l by (simp add: nth_eq_iff_index_eq)
    with False k nth assms(1) show ?thesis by (simp add: arr_ok_def)
  qed (use nth k in simp)
  then have ok: "arr_ok ?b" by (simp add: arr_ok_def)
  have e: "arr_erase x a = Some ?b" using ne ix by (simp add: arr_erase_def arr_erase_at_def Let_def)
  have "set (items ?b) = set ?xs - {x}"
  proof (cases "?i = length ?xs - 1")
    case True
    with ix l have "x = ?l" by simp
    moreover from this ix have "?xs[?i := ?l] = ?xs" using list_update_id [of ?xs ?i] by simp
    moreover have "set (butlast ?xs) = set ?xs - {?l}"
      using d ne by (cases ?xs rule: rev_cases) auto
    ultimately show ?thesis by simp
  next
    case False
    obtain ys where ys: "?xs = ys @ [?l]" using ne by (metis append_butlast_last_id)
    with ix False have i: "?i < length ys" by (metis Suc_lessI diff_Suc_1 length_append_singleton less_Suc_eq)
    then have "butlast (?xs[?i := ?l]) = ys[?i := ?l]"
      by (subst ys) (simp add: list_update_append1)
    moreover have "distinct ys" "?l \<notin> set ys" using d ys by (metis distinct_append not_distinct_conv_prefix)+
    moreover have y: "ys ! ?i = x" using ix i ys by (metis nth_append)
    moreover from y i have "x \<in> set ys" by (metis nth_mem)
    ultimately have "set (items ?b) = insert ?l (set ys - {x})" "?l \<noteq> x"
      using i by (auto simp: set_update_distinct)
    moreover have "set ?xs = insert ?l (set ys)" by (subst ys) simp
    ultimately show ?thesis by auto
  qed
  with ok e show ?thesis by (intro exI [of _ ?b]) simp
qed

text \<open>A swap moves nothing in or out of a prefix that contains both positions, or neither.\<close>

lemma swap_take:
  assumes "i < n" "j < n" "n \<le> length xs"
  shows "set (take n (xs[i := xs ! j, j := xs ! i])) = set (take n xs)"
  using set_swap [of i "take n xs" j] assms by (simp add: take_update_swap)

lemma take_swap:
  assumes "c \<le> n"
  shows "take n (xs[c := xs ! n, n := xs ! c]) = (if c = n then take n xs else (take n xs)[c := xs ! n])"
  using assms by (auto simp: take_update_swap list_update_beyond)

lemma take_swap_set:
  assumes d: "distinct xs" and c: "c \<le> n" and n: "n < length xs"
  shows "set (take n (xs[c := xs ! n, n := xs ! c])) = set (take (Suc n) xs) - {xs ! c}"
proof -
  have "take (Suc n) xs = take n xs @ [xs ! n]" using n by (rule take_Suc_conv_app_nth)
  moreover have "distinct (take (Suc n) xs)" using d by simp
  ultimately have t: "set (take (Suc n) xs) = insert (xs ! n) (set (take n xs))" "xs ! n \<notin> set (take n xs)"
    by auto
  show ?thesis
  proof (cases "c = n")
    case False
    then have "xs ! n \<noteq> xs ! c" using d c n by (simp add: nth_eq_iff_index_eq)
    with False t c n d show ?thesis by (auto simp: take_swap [OF c] set_update_distinct)
  qed (use t take_swap [OF c] in auto)
qed

lemma swap_set [simp]:
  assumes "i < length xs" "j < length xs"
  shows "set (xs[i := xs ! j, j := xs ! i]) = set xs"
  using assms by (rule set_swap)

text \<open>
  The prefix of the first \<open>n\<close> items without \<open>x\<close>: \<open>x\<close> changes places with the last of them
  and the prefix becomes shorter, unless \<open>x\<close> was not in it.
\<close>

definition shrunk :: "nat \<Rightarrow> nat \<Rightarrow> nat" where
  "shrunk i n = (if i < n then n - 1 else n)"

lemma in_prefix_iff:
  assumes "arr_ok a" "x \<in> set (items a)" "n \<le> length (items a)"
  shows "x \<in> set (take n (items a)) \<longleftrightarrow> index_of a x < n"
proof -
  note ix = arr_ok_index [OF assms(1,2)]
  show ?thesis
  proof
    assume "x \<in> set (take n (items a))"
    then obtain i where "i < n" "i < length (items a)" "items a ! i = x" by (auto simp: in_set_conv_nth)
    with assms(1) show "index_of a x < n" by (auto simp: arr_ok_def)
  next
    assume "index_of a x < n"
    with ix assms(3) show "x \<in> set (take n (items a))"
      by (metis in_set_conv_nth length_take min.absorb2 nth_take)
  qed
qed

lemma drop_from_prefix:
  assumes ok: "arr_ok s" and p: "p \<in> set (items s)" and n: "n \<le> length (items s)"
  shows "\<exists>a. arr_ok a \<and> set (items a) = set (items s) \<and> length (items a) = length (items s) \<and>
    shrunk (index_of s p) n \<le> index_of a p \<and>
    set (take (shrunk (index_of s p) n) (items a)) = set (take n (items s)) - {p} \<and>
    (if index_of s p < n then arr_swap (index_of s p) (shrunk (index_of s p) n) s = Some a else a = s)"
proof (cases "index_of s p < n")
  case True
  let ?xs = "items s" and ?i = "index_of s p"
  note ix = arr_ok_index [OF ok p] and d = arr_ok_distinct [OF ok]
  obtain m where m: "n = Suc m" "m < length ?xs" "?i \<le> m" "shrunk ?i n = m"
    using True n by (cases n) (auto simp: shrunk_def)
  from arr_swap_ok [OF ok ix(1) m(2)] obtain b where
    b: "arr_swap ?i m s = Some b" "arr_ok b" "items b = ?xs[?i := ?xs ! m, m := p]" using ix(2) by auto
  have "items b ! m = p" using b(3) m by simp
  then have "index_of b p = m" using arr_ok_nth [OF b(2), of m] b(3) m(2) by simp
  moreover have "set (items b) = set ?xs" using swap_set [OF ix(1) m(2)] b(3) ix(2) by simp
  moreover have "set (take m (items b)) = set (take n ?xs) - {p}"
    using take_swap_set [OF d m(3,2)] b(3) m(1) ix(2) by simp
  ultimately show ?thesis using True b m by (intro exI [of _ b]) simp
next
  case False
  then have "p \<notin> set (take n (items s))" using in_prefix_iff [OF ok p n] by simp
  with False ok show ?thesis by (intro exI [of _ s]) (simp add: shrunk_def)
qed

end
