(* ===== verification/Fair_Queue.thy ===== *)
theory Fair_Queue
  imports Pipe_Array Upipe
begin

text \<open>
  \<open>fq_t\<close> of \<open>src/zmqsrc/src/fq.cpp\<close>: fair queueing over the inbound pipes of a socket. The
  pipes are identified by number; \<open>rd\<close> and \<open>chk\<close> are \<open>read\<close> and \<open>check_read\<close> of a pipe
  on the state \<open>w\<close> of all pipes (\<open>Socket_Pipes\<close> gives those of \<open>pipe_t\<close>). The loops run
  once for every active pipe, so they recurse over the number of active pipes.
\<close>

record fq =
  fq_pipes :: parr
  fq_active :: nat
  last_in :: "nat option"
  fq_current :: nat
  fq_more :: bool
  saved_credential :: "byte list"

definition new_fq :: fq where
  "new_fq = \<lparr>fq_pipes = new_array, fq_active = 0, last_in = None, fq_current = 0, fq_more = False,
     saved_credential = []\<rparr>"

definition fq_destroy :: "fq \<Rightarrow> unit option" where
  "fq_destroy q = zmq_assert (items (fq_pipes q) = [])"

definition fq_attach :: "nat \<Rightarrow> fq \<Rightarrow> fq option" where
  "fq_attach p q = do {
     let a = arr_push_back p (fq_pipes q);
     a \<leftarrow> arr_swap (fq_active q) (length (items a) - 1) a;
     Some (q\<lparr>fq_pipes := a, fq_active := fq_active q + 1\<rparr>) }"

text \<open>\<open>cred\<close> is what \<open>get_credential\<close> of the pipe returns.\<close>

definition fq_pipe_terminated :: "byte list \<Rightarrow> nat \<Rightarrow> fq \<Rightarrow> fq option" where
  "fq_pipe_terminated cred p q = do {
     let index = index_of (fq_pipes q) p;
     q \<leftarrow> (if index < fq_active q then do {
         let q = q\<lparr>fq_active := fq_active q - 1\<rparr>;
         a \<leftarrow> arr_swap index (fq_active q) (fq_pipes q);
         let q = q\<lparr>fq_pipes := a\<rparr>;
         Some (if fq_current q = fq_active q then q\<lparr>fq_current := 0\<rparr> else q) }
       else Some q);
     a \<leftarrow> arr_erase p (fq_pipes q);
     let q = q\<lparr>fq_pipes := a\<rparr>;
     Some (if last_in q = Some p then q\<lparr>saved_credential := cred, last_in := None\<rparr> else q) }"

definition fq_activated :: "nat \<Rightarrow> fq \<Rightarrow> fq option" where
  "fq_activated p q = do {
     a \<leftarrow> arr_swap (index_of (fq_pipes q) p) (fq_active q) (fq_pipes q);
     Some (q\<lparr>fq_pipes := a, fq_active := fq_active q + 1\<rparr>) }"

text \<open>The current pipe gives way to the last active one (lines 114 to 117 and 143 to 146).\<close>

definition fq_deactivate :: "fq \<Rightarrow> fq option" where
  "fq_deactivate q = do {
     let q = q\<lparr>fq_active := fq_active q - 1\<rparr>;
     a \<leftarrow> arr_swap (fq_current q) (fq_active q) (fq_pipes q);
     let q = q\<lparr>fq_pipes := a\<rparr>;
     Some (if fq_current q = fq_active q then q\<lparr>fq_current := 0\<rparr> else q) }"

primrec fq_loop :: "(nat \<Rightarrow> 'w \<Rightarrow> (vmsg option \<times> 'w) option) \<Rightarrow> nat \<Rightarrow> fq \<Rightarrow> 'w \<Rightarrow>
    ((vmsg \<times> nat) option \<times> fq \<times> 'w) option" where
  "fq_loop rd 0 q w = Some (None, q, w)"
| "fq_loop rd (Suc n) q w = do {
     p \<leftarrow> table_at (items (fq_pipes q)) (fq_current q);
     (r, w) \<leftarrow> rd p w;
     (case r of
        Some m \<Rightarrow>
          let q = q\<lparr>fq_more := has_more m\<rparr>;
              q = (if \<not> fq_more q then q\<lparr>last_in := Some p, fq_current := (fq_current q + 1) mod fq_active q\<rparr>
                   else q)
          in Some (Some (m, p), q, w)
      | None \<Rightarrow> do {
          zmq_assert (\<not> fq_more q);
          q \<leftarrow> fq_deactivate q;
          fq_loop rd n q w }) }"

text \<open>The result of \<open>recvpipe\<close> is the message and its pipe, or \<open>None\<close> for \<open>EAGAIN\<close>.\<close>

definition fq_recvpipe :: "(nat \<Rightarrow> 'w \<Rightarrow> (vmsg option \<times> 'w) option) \<Rightarrow> fq \<Rightarrow> 'w \<Rightarrow>
    ((vmsg \<times> nat) option \<times> fq \<times> 'w) option" where
  "fq_recvpipe rd q w = fq_loop rd (fq_active q) q w"

definition fq_recv :: "(nat \<Rightarrow> 'w \<Rightarrow> (vmsg option \<times> 'w) option) \<Rightarrow> fq \<Rightarrow> 'w \<Rightarrow>
    (vmsg option \<times> fq \<times> 'w) option" where
  "fq_recv rd q w = do { (r, q, w) \<leftarrow> fq_recvpipe rd q w; Some (map_option fst r, q, w) }"

primrec fq_in_loop :: "(nat \<Rightarrow> 'w \<Rightarrow> (bool \<times> 'w) option) \<Rightarrow> nat \<Rightarrow> fq \<Rightarrow> 'w \<Rightarrow> (bool \<times> fq \<times> 'w) option" where
  "fq_in_loop chk 0 q w = Some (False, q, w)"
| "fq_in_loop chk (Suc n) q w = do {
     p \<leftarrow> table_at (items (fq_pipes q)) (fq_current q);
     (b, w) \<leftarrow> chk p w;
     if b then Some (True, q, w)
     else do { q \<leftarrow> fq_deactivate q; fq_in_loop chk n q w } }"

definition fq_has_in :: "(nat \<Rightarrow> 'w \<Rightarrow> (bool \<times> 'w) option) \<Rightarrow> fq \<Rightarrow> 'w \<Rightarrow> (bool \<times> fq \<times> 'w) option" where
  "fq_has_in chk q w = (if fq_more q then Some (True, q, w) else fq_in_loop chk (fq_active q) q w)"

definition fq_get_credential :: "(nat \<Rightarrow> byte list) \<Rightarrow> fq \<Rightarrow> byte list" where
  "fq_get_credential cred q = (case last_in q of Some p \<Rightarrow> cred p | None \<Rightarrow> saved_credential q)"

subsection \<open>Invariant\<close>

definition fq_inv :: "fq \<Rightarrow> bool" where
  "fq_inv q \<longleftrightarrow> arr_ok (fq_pipes q) \<and> fq_active q \<le> length (items (fq_pipes q)) \<and>
     (fq_current q < fq_active q \<or> fq_current q = 0)"

definition active_pipes :: "fq \<Rightarrow> nat list" where
  "active_pipes q = take (fq_active q) (items (fq_pipes q))"

lemma fq_inv_new: "fq_inv new_fq"
  by (simp add: fq_inv_def new_fq_def)

lemma fq_attach_ok:
  assumes "fq_inv q" "p \<notin> set (items (fq_pipes q))"
  shows "\<exists>q'. fq_attach p q = Some q' \<and> fq_inv q' \<and>
    set (items (fq_pipes q')) = insert p (set (items (fq_pipes q))) \<and>
    set (active_pipes q') = insert p (set (active_pipes q)) \<and> fq_more q' = fq_more q"
proof -
  let ?a = "arr_push_back p (fq_pipes q)" and ?n = "fq_active q" and ?xs = "items (fq_pipes q)"
  from assms have i: "arr_ok (fq_pipes q)" "?n \<le> length ?xs" by (auto simp: fq_inv_def)
  note pu = arr_push_ok [OF i(1) assms(2)]
  from arr_swap_ok [OF pu(1), of ?n "length ?xs"] i(2) pu(2) obtain b where
    b: "arr_swap ?n (length ?xs) ?a = Some b" "arr_ok b"
      "items b = (?xs @ [p])[?n := (?xs @ [p]) ! length ?xs, length ?xs := (?xs @ [p]) ! ?n]" by auto
  have "items b ! ?n = p" using b(3) i(2) by (cases "?n = length ?xs") auto
  moreover have "take ?n (items b) = take ?n ?xs" using b(3) i(2) by simp
  ultimately have t: "take (Suc ?n) (items b) = take ?n ?xs @ [p]"
    using b(3) i(2) by (simp add: take_Suc_conv_app_nth)
  have s: "set (items b) = insert p (set ?xs)"
    unfolding b(3) using i(2) by (subst swap_set) auto
  let ?q = "q\<lparr>fq_pipes := b, fq_active := ?n + 1\<rparr>"
  have "fq_attach p q = Some ?q" using b(1) pu(2) by (simp add: fq_attach_def)
  moreover have "fq_inv ?q" using assms(1) b by (auto simp: fq_inv_def)
  ultimately show ?thesis using s t by (intro exI [of _ ?q]) (simp add: active_pipes_def)
qed

lemma fq_activated_ok:
  assumes "fq_inv q" "p \<in> set (items (fq_pipes q))" "p \<notin> set (active_pipes q)"
  shows "\<exists>q'. fq_activated p q = Some q' \<and> fq_inv q' \<and>
    set (items (fq_pipes q')) = set (items (fq_pipes q)) \<and>
    set (active_pipes q') = insert p (set (active_pipes q)) \<and> fq_more q' = fq_more q"
proof -
  let ?n = "fq_active q" and ?xs = "items (fq_pipes q)" and ?i = "index_of (fq_pipes q) p"
  from assms(1) have i: "arr_ok (fq_pipes q)" "?n \<le> length ?xs" by (auto simp: fq_inv_def)
  note ix = arr_ok_index [OF i(1) assms(2)]
  have ge: "?n \<le> ?i"
  proof (rule ccontr)
    assume "\<not> ?n \<le> ?i"
    then have "p \<in> set (active_pipes q)" using ix i(2) unfolding active_pipes_def
      by (metis in_set_conv_nth length_take linorder_not_less min.absorb2 nth_take)
    with assms(3) show False by simp
  qed
  with ix have n: "?n < length ?xs" by simp
  from arr_swap_ok [OF i(1) ix(1) n] obtain b where
    b: "arr_swap ?i ?n (fq_pipes q) = Some b" "arr_ok b" "items b = ?xs[?i := ?xs ! ?n, ?n := ?xs ! ?i]" by auto
  have "take (Suc ?n) (items b) = take ?n ?xs @ [p]"
    using b(3) n ge ix by (simp add: take_Suc_conv_app_nth)
  moreover have "set (items b) = set ?xs" unfolding b(3) by (rule swap_set [OF ix(1) n])
  moreover have "fq_inv (q\<lparr>fq_pipes := b, fq_active := ?n + 1\<rparr>)"
    using assms(1) b n by (auto simp: fq_inv_def)
  ultimately show ?thesis using b(1)
    by (intro exI [of _ "q\<lparr>fq_pipes := b, fq_active := ?n + 1\<rparr>"])
      (simp add: fq_activated_def active_pipes_def)
qed

text \<open>How many active pipes come before \<open>p\<close> when the queue goes round.\<close>

definition fq_dist :: "nat \<Rightarrow> fq \<Rightarrow> nat" where
  "fq_dist p q = (let i = index_of (fq_pipes q) p in
     if fq_current q \<le> i then i - fq_current q else i + fq_active q - fq_current q)"

lemma active_pipes_index:
  assumes "fq_inv q" "p \<in> set (active_pipes q)"
  shows "index_of (fq_pipes q) p < fq_active q" "items (fq_pipes q) ! index_of (fq_pipes q) p = p"
    "p \<in> set (items (fq_pipes q))"
proof -
  from assms(2) obtain i where i: "i < length (active_pipes q)" "active_pipes q ! i = p"
    by (metis in_set_conv_nth)
  with assms(1) have "i < fq_active q" "i < length (items (fq_pipes q))" "items (fq_pipes q) ! i = p"
    by (auto simp: active_pipes_def)
  moreover from this assms(1) have "index_of (fq_pipes q) p = i" by (auto simp: fq_inv_def arr_ok_def)
  ultimately show "index_of (fq_pipes q) p < fq_active q"
    "items (fq_pipes q) ! index_of (fq_pipes q) p = p" "p \<in> set (items (fq_pipes q))" by auto
qed

lemma fq_deactivate_ok:
  assumes inv: "fq_inv q" and n: "fq_active q = Suc n"
  shows "\<exists>q'. fq_deactivate q = Some q' \<and> fq_inv q' \<and> fq_active q' = n \<and> fq_more q' = fq_more q \<and>
    set (items (fq_pipes q')) = set (items (fq_pipes q)) \<and> last_in q' = last_in q \<and>
    set (active_pipes q') = set (active_pipes q) - {items (fq_pipes q) ! fq_current q} \<and>
    (\<forall>p\<in>set (active_pipes q'). fq_dist p q' \<le> fq_dist p q)"
proof -
  let ?xs = "items (fq_pipes q)" and ?c = "fq_current q"
  from inv n have i: "arr_ok (fq_pipes q)" "n < length ?xs" and c: "?c \<le> n" by (auto simp: fq_inv_def)
  have cl: "?c < length ?xs" using c i(2) by simp
  note d = arr_ok_distinct [OF i(1)]
  from arr_swap_ok [OF i(1) cl i(2)] obtain b where
    b: "arr_swap ?c n (fq_pipes q) = Some b" "arr_ok b" "items b = ?xs[?c := ?xs ! n, n := ?xs ! ?c]" by auto
  let ?q = "q\<lparr>fq_active := n, fq_pipes := b, fq_current := (if ?c = n then 0 else ?c)\<rparr>"
  have e: "fq_deactivate q = Some ?q" using b(1) n by (simp add: fq_deactivate_def)
  have q: "fq_inv ?q" using b(2,3) i(2) c by (auto simp: fq_inv_def)
  have at: "items b ! k = (if k = ?c then ?xs ! n else ?xs ! k)" if "k < n" for k
    using that b(3) cl by simp
  have "set (active_pipes ?q) = set (active_pipes q) - {?xs ! ?c}"
    using take_swap_set [OF d c i(2)] b(3) n by (simp add: active_pipes_def)
  moreover have "fq_dist p ?q \<le> fq_dist p q" if p: "p \<in> set (active_pipes ?q)" for p
  proof -
    note ix = active_pipes_index [OF q p]
    let ?i = "index_of b p"
    have k: "?i < n" "items b ! ?i = p" using ix by simp_all
    show ?thesis
    proof (cases "?i = ?c")
      case True
      then have "p = ?xs ! n" using at k by simp
      then have "index_of (fq_pipes q) p = n" using arr_ok_nth [OF i(1,2)] by simp
      with True k c show ?thesis by (simp add: fq_dist_def)
    next
      case False
      then have "p = ?xs ! ?i" using at k by simp
      then have "index_of (fq_pipes q) p = ?i" using arr_ok_nth [OF i(1), of ?i] k(1) i(2) by simp
      with False k c n show ?thesis by (auto simp: fq_dist_def Let_def)
    qed
  qed
  moreover have "set (items b) = set ?xs" unfolding b(3) by (rule swap_set [OF cl i(2)])
  ultimately show ?thesis using e q by (intro exI [of _ ?q]) simp
qed

lemma fq_terminated_ok:
  assumes inv: "fq_inv q" and p: "p \<in> set (items (fq_pipes q))"
  shows "\<exists>q'. fq_pipe_terminated cred p q = Some q' \<and> fq_inv q' \<and>
    set (items (fq_pipes q')) = set (items (fq_pipes q)) - {p} \<and>
    set (active_pipes q') = set (active_pipes q) - {p} \<and> fq_more q' = fq_more q"
proof -
  let ?xs = "items (fq_pipes q)" and ?i = "index_of (fq_pipes q) p" and ?n = "fq_active q"
  from inv have ok: "arr_ok (fq_pipes q)" and n: "?n \<le> length ?xs"
    and c: "fq_current q < ?n \<or> fq_current q = 0" by (auto simp: fq_inv_def)
  note ix = arr_ok_index [OF ok p] and d = arr_ok_distinct [OF ok]
  let ?m = "shrunk ?i ?n"
  from drop_from_prefix [OF ok p n] obtain a where a: "arr_ok a" "set (items a) = set ?xs"
    "length (items a) = length ?xs" "?m \<le> index_of a p" "set (take ?m (items a)) = set (active_pipes q) - {p}"
    "if ?i < ?n then arr_swap ?i ?m (fq_pipes q) = Some a else a = fq_pipes q"
    unfolding active_pipes_def by blast
  from a(2) p have pa: "p \<in> set (items a)" by simp
  from arr_erase_ok [OF a(1) pa] obtain b where
    b: "arr_erase p a = Some b" "arr_ok b" "items b = butlast ((items a)[index_of a p := last (items a)])"
      "set (items b) = set (items a) - {p}" by blast
  note ia = arr_ok_index [OF a(1) pa]
  have t: "take ?m (items b) = take ?m (items a)"
    using b(3) a(4) ia(1) by (simp add: take_butlast)
  have ml: "?m \<le> length (items b)" using b(3) a(4) ia(1) by simp
  let ?q1 = "q\<lparr>fq_active := ?m, fq_pipes := a, fq_current := (if ?i < ?n \<and> fq_current q = ?m then 0 else fq_current q)\<rparr>"
  let ?q2 = "?q1\<lparr>fq_pipes := b\<rparr>"
  let ?q = "if last_in q = Some p then ?q2\<lparr>saved_credential := cred, last_in := None\<rparr> else ?q2"
  have "fq_pipe_terminated cred p q = Some ?q"
  proof (cases "?i < ?n")
    case True
    with a(6) have "arr_swap ?i (?n - 1) (fq_pipes q) = Some a" "?m = ?n - 1" by (simp_all add: shrunk_def)
    with True b(1) show ?thesis by (simp add: fq_pipe_terminated_def Let_def)
  next
    case False
    with a(6) have "a = fq_pipes q" "?m = ?n" by (simp_all add: shrunk_def)
    with False b(1) show ?thesis by (simp add: fq_pipe_terminated_def Let_def)
  qed
  moreover have "fq_inv ?q" using b(2) ml c by (auto simp: fq_inv_def shrunk_def)
  moreover have "active_pipes ?q = take ?m (items a)" using t by (simp add: active_pipes_def)
  ultimately show ?thesis using a(5) b(4) a(2) by (intro exI [of _ ?q]) simp
qed

subsection \<open>Receiving\<close>

text \<open>What the queue asks of its pipes: reading one does not disturb the others.\<close>

locale pipe_source =
  fixes rd :: "nat \<Rightarrow> 'w \<Rightarrow> (vmsg option \<times> 'w) option"
    and chk :: "nat \<Rightarrow> 'w \<Rightarrow> (bool \<times> 'w) option"
    and alive :: "nat \<Rightarrow> 'w \<Rightarrow> bool"
    and readable :: "nat \<Rightarrow> 'w \<Rightarrow> bool"
  assumes read_ok: "alive p w \<Longrightarrow> \<exists>r w'. rd p w = Some (r, w') \<and> (r \<noteq> None \<longleftrightarrow> readable p w) \<and>
      (\<forall>x. alive x w \<longrightarrow> alive x w') \<and> (\<forall>x. x \<noteq> p \<longrightarrow> alive x w \<longrightarrow> readable x w' = readable x w)"
    and check_ok: "alive p w \<Longrightarrow> \<exists>b w'. chk p w = Some (b, w') \<and> (readable p w \<longrightarrow> b) \<and>
      (\<forall>x. alive x w \<longrightarrow> alive x w' \<and> readable x w' = readable x w)"
begin

text \<open>The result of \<open>recvpipe\<close>: a message of an active pipe that has one, or none at all.\<close>

definition received :: "fq \<Rightarrow> 'w \<Rightarrow> (vmsg \<times> nat) option \<Rightarrow> fq \<Rightarrow> 'w \<Rightarrow> bool" where
  "received q w r q' w' \<longleftrightarrow> fq_inv q' \<and> set (items (fq_pipes q')) = set (items (fq_pipes q)) \<and>
     (\<forall>x. alive x w \<longrightarrow> alive x w') \<and>
     (case r of
        None \<Rightarrow> active_pipes q' = [] \<and> (\<forall>x\<in>set (active_pipes q). \<not> readable x w) \<and> fq_more q' = fq_more q
      | Some (m, p) \<Rightarrow> p \<in> set (active_pipes q') \<and> readable p w \<and> fq_more q' = has_more m \<and>
          set (active_pipes q') \<subseteq> set (active_pipes q) \<and>
          (\<forall>x\<in>set (active_pipes q) - set (active_pipes q'). \<not> readable x w) \<and>
          (fq_more q \<longrightarrow> p = items (fq_pipes q) ! fq_current q) \<and>
          (has_more m \<longrightarrow> items (fq_pipes q') ! fq_current q' = p) \<and>
          (\<forall>x\<in>set (active_pipes q'). fq_dist x q' \<le> fq_dist x q \<or> x = p) \<and>
          (\<not> has_more m \<longrightarrow> last_in q' = Some p \<and> (\<forall>x\<in>set (active_pipes q') - {p}. fq_dist x q' < fq_dist x q)))"

lemma current_active:
  assumes "fq_inv q" "fq_active q = Suc n"
  shows "fq_current q < Suc n" "fq_current q < length (items (fq_pipes q))"
    "items (fq_pipes q) ! fq_current q \<in> set (active_pipes q)"
  using assms by (auto simp: fq_inv_def active_pipes_def in_set_conv_nth intro!: exI [of _ "fq_current q"])

lemma deliver_received:
  fixes q :: fq
  assumes inv: "fq_inv q" and n: "fq_active q = Suc n" and p: "items (fq_pipes q) ! fq_current q = p"
    and r: "readable p w" and al: "\<forall>x. alive x w \<longrightarrow> alive x w'"
  shows "received q w (Some (m, p))
    (if \<not> has_more m then q\<lparr>fq_more := has_more m, last_in := Some p,
       fq_current := (fq_current q + 1) mod fq_active q\<rparr> else q\<lparr>fq_more := has_more m\<rparr>) w'"
proof -
  let ?q1 = "q\<lparr>fq_more := has_more m\<rparr>"
  note c = current_active [OF inv n]
  show ?thesis
  proof (cases "has_more m")
    case True
    with inv n p r al c show ?thesis
      by (auto simp: received_def fq_inv_def active_pipes_def fq_dist_def Let_def)
  next
    case False
    let ?q = "?q1\<lparr>last_in := Some p, fq_current := (fq_current q + 1) mod fq_active q\<rparr>"
    have cur: "(fq_current q + 1) mod fq_active q = (if fq_current q = n then 0 else fq_current q + 1)"
      using c(1) n by (auto simp: mod_Suc)
    have inv': "fq_inv ?q" using inv n unfolding fq_inv_def by auto
    have "fq_dist x ?q < fq_dist x q" if x: "x \<in> set (active_pipes q)" "x \<noteq> p" for x
    proof -
      note ix = active_pipes_index [OF inv x(1)]
      have "index_of (fq_pipes q) x \<noteq> fq_current q" using ix(2) p x(2) by auto
      with ix(1) n c(1) cur show ?thesis by (auto simp: fq_dist_def Let_def)
    qed
    then have "fq_dist x ?q \<le> fq_dist x q" if "x \<in> set (active_pipes q)" "x \<noteq> p" for x
      using that less_imp_le by blast
    with inv' this False p r al c \<open>\<And>x. x \<in> set (active_pipes q) \<Longrightarrow> x \<noteq> p \<Longrightarrow> fq_dist x ?q < fq_dist x q\<close>
    show ?thesis by (auto simp: received_def active_pipes_def)
  qed
qed

lemma fq_loop_ok:
  assumes "fq_inv q" "fq_active q = n" "\<forall>x\<in>set (active_pipes q). alive x w"
    "fq_more q \<longrightarrow> 0 < n \<longrightarrow> readable (items (fq_pipes q) ! fq_current q) w"
  shows "\<exists>r q' w'. fq_loop rd n q w = Some (r, q', w') \<and> received q w r q' w'"
  using assms
proof (induction n arbitrary: q w)
  case 0
  then show ?case by (simp add: received_def active_pipes_def)
next
  case (Suc n)
  let ?p = "items (fq_pipes q) ! fq_current q"
  note c = current_active [OF Suc.prems(1,2)]
  from Suc.prems(3) c(3) have "alive ?p w" by blast
  from read_ok [OF this] obtain r w1 where
    rd: "rd ?p w = Some (r, w1)" "r \<noteq> None \<longleftrightarrow> readable ?p w" "\<forall>x. alive x w \<longrightarrow> alive x w1"
      "\<forall>x. x \<noteq> ?p \<longrightarrow> alive x w \<longrightarrow> readable x w1 = readable x w" by blast
  show ?case
  proof (cases r)
    case (Some m)
    with rd have "readable ?p w" by simp
    from deliver_received [OF Suc.prems(1,2) refl this rd(3), of m] show ?thesis
      using c(2) rd(1) Some Suc.prems(2) by (cases "has_more m") (auto simp: Let_def)
  next
    case None
    with rd have nr: "\<not> readable ?p w" by simp
    with Suc.prems(4) have nm: "\<not> fq_more q" by simp
    from fq_deactivate_ok [OF Suc.prems(1,2)] obtain q1 where
      q1: "fq_deactivate q = Some q1" "fq_inv q1" "fq_active q1 = n" "fq_more q1 = fq_more q"
        "set (items (fq_pipes q1)) = set (items (fq_pipes q))"
        "set (active_pipes q1) = set (active_pipes q) - {?p}"
        "\<forall>p\<in>set (active_pipes q1). fq_dist p q1 \<le> fq_dist p q" by blast
    have "\<forall>x\<in>set (active_pipes q1). alive x w1" using q1(6) Suc.prems(3) rd(3) by blast
    from Suc.IH [OF q1(2,3) this] q1(4) nm obtain r' q' w' where
      l: "fq_loop rd n q1 w1 = Some (r', q', w')" "received q1 w1 r' q' w'" by blast
    have same: "readable x w1 = readable x w" if "x \<in> set (active_pipes q1)" for x
      using that q1(6) Suc.prems(3) rd(4) by blast
    have "fq_loop rd (Suc n) q w = Some (r', q', w')"
      using c(2) rd(1) None nm q1(1) l(1) by simp
    moreover have "received q w r' q' w'"
    proof (cases r')
      case None
      with l(2) same q1(4-6) nr nm rd(3) show ?thesis by (auto simp: received_def)
    next
      case (Some mp)
      obtain m p where mp: "mp = (m, p)" by (cases mp)
      from l(2) have lr: "p \<in> set (active_pipes q')" "readable p w1" "fq_more q' = has_more m"
        "set (active_pipes q') \<subseteq> set (active_pipes q1)"
        "\<forall>x\<in>set (active_pipes q1) - set (active_pipes q'). \<not> readable x w1"
        "has_more m \<longrightarrow> items (fq_pipes q') ! fq_current q' = p"
        "\<forall>x\<in>set (active_pipes q'). fq_dist x q' \<le> fq_dist x q1 \<or> x = p"
        "\<not> has_more m \<longrightarrow> last_in q' = Some p \<and> (\<forall>x\<in>set (active_pipes q') - {p}. fq_dist x q' < fq_dist x q1)"
        "fq_inv q'" "set (items (fq_pipes q')) = set (items (fq_pipes q1))" "\<forall>x. alive x w1 \<longrightarrow> alive x w'"
        unfolding received_def Some mp by auto
      have "\<forall>x\<in>set (active_pipes q) - set (active_pipes q'). \<not> readable x w"
        using lr(5) same q1(6) nr by blast
      moreover have "readable p w" using lr(1,2,4) same by blast
      moreover have "fq_dist x q' \<le> fq_dist x q \<or> x = p" if "x \<in> set (active_pipes q')" for x
        using that lr(4,7) q1(7) by (meson le_trans subsetD)
      moreover have "fq_dist x q' < fq_dist x q" if "\<not> has_more m" "x \<in> set (active_pipes q') - {p}" for x
        using that lr(4,8) q1(7) by (meson DiffD1 le_trans less_le_trans subsetD)
      moreover have "\<not> has_more m \<longrightarrow> last_in q' = Some p" using lr(8) by blast
      ultimately show ?thesis using lr(1,3,4,6,9-11) q1(5,6) nm rd(3)
        unfolding received_def Some mp by auto
    qed
    ultimately show ?thesis by blast
  qed
qed

lemma fq_in_loop_ok:
  assumes "fq_inv q" "fq_active q = n" "\<forall>x\<in>set (active_pipes q). alive x w"
  shows "\<exists>b q' w'. fq_in_loop chk n q w = Some (b, q', w') \<and> fq_inv q' \<and>
    set (items (fq_pipes q')) = set (items (fq_pipes q)) \<and> fq_more q' = fq_more q \<and>
    set (active_pipes q') \<subseteq> set (active_pipes q) \<and> (\<forall>x. alive x w \<longrightarrow> alive x w') \<and>
    (\<forall>x\<in>set (active_pipes q) - set (active_pipes q'). \<not> readable x w) \<and>
    (\<not> b \<longrightarrow> active_pipes q' = []) \<and> (\<forall>x\<in>set (active_pipes q'). fq_dist x q' \<le> fq_dist x q)"
  using assms
proof (induction n arbitrary: q w)
  case 0
  then show ?case by (intro exI [of _ False] exI [of _ q] exI [of _ w]) (simp add: active_pipes_def)
next
  case (Suc n)
  let ?p = "items (fq_pipes q) ! fq_current q"
  note c = current_active [OF Suc.prems(1,2)]
  from Suc.prems(3) c(3) have "alive ?p w" by blast
  from check_ok [OF this] obtain b w1 where
    ck: "chk ?p w = Some (b, w1)" "readable ?p w \<longrightarrow> b"
      "\<forall>x. alive x w \<longrightarrow> alive x w1 \<and> readable x w1 = readable x w" by blast
  show ?case
  proof (cases b)
    case True
    with ck c(2) Suc.prems(1) show ?thesis by (intro exI [of _ True] exI [of _ q] exI [of _ w1]) simp
  next
    case False
    with ck have nr: "\<not> readable ?p w" by simp
    from fq_deactivate_ok [OF Suc.prems(1,2)] obtain q1 where
      q1: "fq_deactivate q = Some q1" "fq_inv q1" "fq_active q1 = n" "fq_more q1 = fq_more q"
        "set (items (fq_pipes q1)) = set (items (fq_pipes q))"
        "set (active_pipes q1) = set (active_pipes q) - {?p}"
        "\<forall>p\<in>set (active_pipes q1). fq_dist p q1 \<le> fq_dist p q" by blast
    have "\<forall>x\<in>set (active_pipes q1). alive x w1" using q1(6) Suc.prems(3) ck(3) by blast
    from Suc.IH [OF q1(2,3) this] obtain b' q' w' where
      l: "fq_in_loop chk n q1 w1 = Some (b', q', w')" "fq_inv q'"
        "set (items (fq_pipes q')) = set (items (fq_pipes q1))" "fq_more q' = fq_more q1"
        "set (active_pipes q') \<subseteq> set (active_pipes q1)" "\<forall>x. alive x w1 \<longrightarrow> alive x w'"
        "\<forall>x\<in>set (active_pipes q1) - set (active_pipes q'). \<not> readable x w1"
        "\<not> b' \<longrightarrow> active_pipes q' = []" "\<forall>x\<in>set (active_pipes q'). fq_dist x q' \<le> fq_dist x q1" by blast
    have "fq_in_loop chk (Suc n) q w = Some (b', q', w')" using c(2) ck(1) False q1(1) l(1) by simp
    moreover have "\<forall>x\<in>set (active_pipes q) - set (active_pipes q'). \<not> readable x w"
      using l(7) q1(6) nr ck(3) Suc.prems(3) by blast
    moreover have "\<forall>x\<in>set (active_pipes q'). fq_dist x q' \<le> fq_dist x q"
      using l(5,9) q1(7) by (meson le_trans subsetD)
    moreover have "set (active_pipes q') \<subseteq> set (active_pipes q)" using l(5) q1(6) by blast
    moreover have "\<forall>x. alive x w \<longrightarrow> alive x w'" using l(6) ck(3) by blast
    ultimately show ?thesis using l(2-4,8) q1(4,5)
      by (intro exI [of _ b'] exI [of _ q'] exI [of _ w']) simp
  qed
qed

end

end
