(* ===== verification/Load_Balancer.thy ===== *)
theory Load_Balancer
  imports Pipe_Array Upipe
begin

text \<open>
  \<open>lb_t\<close> of \<open>src/zmqsrc/src/lb.cpp\<close>: load balancing over the outbound pipes of a socket.
  \<open>wr\<close>, \<open>rb\<close>, \<open>fl\<close> and \<open>chk\<close> are \<open>write\<close>, \<open>rollback\<close>, \<open>flush\<close> and \<open>check_write\<close> of a pipe
  on the state \<open>w\<close> of all pipes. A message that was sent or dropped is initialised again, so
  the result says only where it went.
\<close>

record lb =
  lb_pipes :: parr
  lb_active :: nat
  lb_current :: nat
  lb_more :: bool
  lb_dropping :: bool

definition new_lb :: lb where
  "new_lb = \<lparr>lb_pipes = new_array, lb_active = 0, lb_current = 0, lb_more = False, lb_dropping = False\<rparr>"

definition lb_destroy :: "lb \<Rightarrow> unit option" where
  "lb_destroy l = zmq_assert (items (lb_pipes l) = [])"

definition lb_activated :: "nat \<Rightarrow> lb \<Rightarrow> lb option" where
  "lb_activated p l = do {
     a \<leftarrow> arr_swap (index_of (lb_pipes l) p) (lb_active l) (lb_pipes l);
     Some (l\<lparr>lb_pipes := a, lb_active := lb_active l + 1\<rparr>) }"

definition lb_attach :: "nat \<Rightarrow> lb \<Rightarrow> lb option" where
  "lb_attach p l = lb_activated p (l\<lparr>lb_pipes := arr_push_back p (lb_pipes l)\<rparr>)"

definition lb_pipe_terminated :: "nat \<Rightarrow> lb \<Rightarrow> lb option" where
  "lb_pipe_terminated p l = do {
     let index = index_of (lb_pipes l) p;
     let l = (if index = lb_current l \<and> lb_more l then l\<lparr>lb_dropping := True\<rparr> else l);
     l \<leftarrow> (if index < lb_active l then do {
         let l = l\<lparr>lb_active := lb_active l - 1\<rparr>;
         a \<leftarrow> arr_swap index (lb_active l) (lb_pipes l);
         let l = l\<lparr>lb_pipes := a\<rparr>;
         Some (if lb_current l = lb_active l then l\<lparr>lb_current := 0\<rparr> else l) }
       else Some l);
     a \<leftarrow> arr_erase p (lb_pipes l);
     Some (l\<lparr>lb_pipes := a\<rparr>) }"

text \<open>How a send ends: the message went to a pipe, was dropped, or \<open>EAGAIN\<close>.\<close>

datatype send_result = Sent nat | Dropped | Again

text \<open>The loop of \<open>sendpipe\<close> (lines 105 to 128), which recurses over the active pipes.\<close>

primrec lb_loop :: "(nat \<Rightarrow> vmsg \<Rightarrow> 'w \<Rightarrow> (bool \<times> 'w) option) \<Rightarrow> (nat \<Rightarrow> 'w \<Rightarrow> 'w option) \<Rightarrow> vmsg \<Rightarrow>
    nat \<Rightarrow> lb \<Rightarrow> 'w \<Rightarrow> (send_result \<times> lb \<times> 'w) option" where
  "lb_loop wr rb m 0 l w = Some (Again, l, w)"
| "lb_loop wr rb m (Suc n) l w = do {
     p \<leftarrow> table_at (items (lb_pipes l)) (lb_current l);
     (ok, w) \<leftarrow> wr p m w;
     if ok then Some (Sent p, l, w)
     else if lb_more l then do {
       w \<leftarrow> rb p w;
       Some (Again, l\<lparr>lb_more := False\<rparr>, w) }
     else do {
       let l = l\<lparr>lb_active := lb_active l - 1\<rparr>;
       l \<leftarrow> (if lb_current l < lb_active l then do {
             a \<leftarrow> arr_swap (lb_current l) (lb_active l) (lb_pipes l);
             Some (l\<lparr>lb_pipes := a\<rparr>) }
           else Some (l\<lparr>lb_current := 0\<rparr>));
       lb_loop wr rb m n l w } }"

definition lb_sendpipe :: "(nat \<Rightarrow> vmsg \<Rightarrow> 'w \<Rightarrow> (bool \<times> 'w) option) \<Rightarrow> (nat \<Rightarrow> 'w \<Rightarrow> 'w option) \<Rightarrow>
    (nat \<Rightarrow> 'w \<Rightarrow> 'w option) \<Rightarrow> vmsg \<Rightarrow> lb \<Rightarrow> 'w \<Rightarrow> (send_result \<times> lb \<times> 'w) option" where
  "lb_sendpipe wr rb fl m l w =
     (if lb_dropping l then Some (Dropped, l\<lparr>lb_more := has_more m, lb_dropping := has_more m\<rparr>, w)
      else do {
        (r, l, w) \<leftarrow> lb_loop wr rb m (lb_active l) l w;
        (case r of
           Sent p \<Rightarrow> do {
             let l = l\<lparr>lb_more := has_more m\<rparr>;
             if \<not> lb_more l then do {
               w \<leftarrow> fl p w;
               Some (Sent p, l\<lparr>lb_current := (if lb_current l + 1 \<ge> lb_active l then 0 else lb_current l + 1)\<rparr>, w) }
             else Some (Sent p, l, w) }
         | _ \<Rightarrow> Some (Again, l, w)) })"

definition lb_send :: "(nat \<Rightarrow> vmsg \<Rightarrow> 'w \<Rightarrow> (bool \<times> 'w) option) \<Rightarrow> (nat \<Rightarrow> 'w \<Rightarrow> 'w option) \<Rightarrow>
    (nat \<Rightarrow> 'w \<Rightarrow> 'w option) \<Rightarrow> vmsg \<Rightarrow> lb \<Rightarrow> 'w \<Rightarrow> (bool \<times> lb \<times> 'w) option" where
  "lb_send wr rb fl m l w = do { (r, l, w) \<leftarrow> lb_sendpipe wr rb fl m l w; Some (r \<noteq> Again, l, w) }"

primrec lb_out_loop :: "(nat \<Rightarrow> 'w \<Rightarrow> (bool \<times> 'w) option) \<Rightarrow> nat \<Rightarrow> lb \<Rightarrow> 'w \<Rightarrow> (bool \<times> lb \<times> 'w) option" where
  "lb_out_loop chk 0 l w = Some (False, l, w)"
| "lb_out_loop chk (Suc n) l w = do {
     p \<leftarrow> table_at (items (lb_pipes l)) (lb_current l);
     (b, w) \<leftarrow> chk p w;
     if b then Some (True, l, w)
     else do {
       let l = l\<lparr>lb_active := lb_active l - 1\<rparr>;
       a \<leftarrow> arr_swap (lb_current l) (lb_active l) (lb_pipes l);
       let l = l\<lparr>lb_pipes := a\<rparr>;
       let l = (if lb_current l = lb_active l then l\<lparr>lb_current := 0\<rparr> else l);
       lb_out_loop chk n l w } }"

definition lb_has_out :: "(nat \<Rightarrow> 'w \<Rightarrow> (bool \<times> 'w) option) \<Rightarrow> lb \<Rightarrow> 'w \<Rightarrow> (bool \<times> lb \<times> 'w) option" where
  "lb_has_out chk l w = (if lb_more l then Some (True, l, w) else lb_out_loop chk (lb_active l) l w)"

subsection \<open>Invariant\<close>

definition lb_inv :: "lb \<Rightarrow> bool" where
  "lb_inv l \<longleftrightarrow> arr_ok (lb_pipes l) \<and> lb_active l \<le> length (items (lb_pipes l)) \<and>
     (lb_current l < lb_active l \<or> lb_current l = 0)"

definition lb_actives :: "lb \<Rightarrow> nat list" where
  "lb_actives l = take (lb_active l) (items (lb_pipes l))"

lemma lb_inv_new: "lb_inv new_lb"
  by (simp add: lb_inv_def new_lb_def)

lemma lb_activated_ok:
  assumes "arr_ok (lb_pipes l)" "p \<in> set (items (lb_pipes l))" "lb_active l \<le> index_of (lb_pipes l) p"
    "lb_current l < lb_active l \<or> lb_current l = 0"
  shows "\<exists>l'. lb_activated p l = Some l' \<and> lb_inv l' \<and> set (items (lb_pipes l')) = set (items (lb_pipes l)) \<and>
    set (lb_actives l') = insert p (set (lb_actives l)) \<and> lb_more l' = lb_more l \<and> lb_dropping l' = lb_dropping l"
proof -
  let ?n = "lb_active l" and ?xs = "items (lb_pipes l)" and ?i = "index_of (lb_pipes l) p"
  note ix = arr_ok_index [OF assms(1,2)]
  with assms(3) have n: "?n < length ?xs" by simp
  from arr_swap_ok [OF assms(1) ix(1) n] obtain b where
    b: "arr_swap ?i ?n (lb_pipes l) = Some b" "arr_ok b" "items b = ?xs[?i := ?xs ! ?n, ?n := ?xs ! ?i]" by auto
  have "take (Suc ?n) (items b) = take ?n ?xs @ [p]"
    using b(3) n assms(3) ix by (simp add: take_Suc_conv_app_nth)
  moreover have "set (items b) = set ?xs" unfolding b(3) by (rule swap_set [OF ix(1) n])
  moreover have "lb_inv (l\<lparr>lb_pipes := b, lb_active := ?n + 1\<rparr>)"
    using assms(4) b n by (auto simp: lb_inv_def)
  ultimately show ?thesis using b(1)
    by (intro exI [of _ "l\<lparr>lb_pipes := b, lb_active := ?n + 1\<rparr>"])
      (simp add: lb_activated_def lb_actives_def)
qed

lemma lb_attach_ok:
  assumes "lb_inv l" "p \<notin> set (items (lb_pipes l))"
  shows "\<exists>l'. lb_attach p l = Some l' \<and> lb_inv l' \<and>
    set (items (lb_pipes l')) = insert p (set (items (lb_pipes l))) \<and>
    set (lb_actives l') = insert p (set (lb_actives l)) \<and> lb_more l' = lb_more l \<and> lb_dropping l' = lb_dropping l"
proof -
  let ?l = "l\<lparr>lb_pipes := arr_push_back p (lb_pipes l)\<rparr>"
  from assms(1) have i: "arr_ok (lb_pipes l)" "lb_active l \<le> length (items (lb_pipes l))"
    "lb_current l < lb_active l \<or> lb_current l = 0" by (auto simp: lb_inv_def)
  note pu = arr_push_ok [OF i(1) assms(2)]
  have "index_of (lb_pipes ?l) p = length (items (lb_pipes l))" by (simp add: arr_push_back_def)
  with lb_activated_ok [of ?l p] i pu show ?thesis by (auto simp: lb_attach_def lb_actives_def)
qed

lemma lb_reactivate_ok:
  assumes "lb_inv l" "p \<in> set (items (lb_pipes l))" "p \<notin> set (lb_actives l)"
  shows "\<exists>l'. lb_activated p l = Some l' \<and> lb_inv l' \<and> set (items (lb_pipes l')) = set (items (lb_pipes l)) \<and>
    set (lb_actives l') = insert p (set (lb_actives l))"
proof -
  from assms(1) have i: "arr_ok (lb_pipes l)" "lb_active l \<le> length (items (lb_pipes l))"
    "lb_current l < lb_active l \<or> lb_current l = 0" by (auto simp: lb_inv_def)
  have "lb_active l \<le> index_of (lb_pipes l) p"
    using in_prefix_iff [OF i(1) assms(2) i(2)] assms(3) by (simp add: lb_actives_def)
  from lb_activated_ok [OF i(1) assms(2) this i(3)] show ?thesis by blast
qed

lemma lb_terminated_ok:
  assumes inv: "lb_inv l" and p: "p \<in> set (items (lb_pipes l))"
  shows "\<exists>l'. lb_pipe_terminated p l = Some l' \<and> lb_inv l' \<and>
    set (items (lb_pipes l')) = set (items (lb_pipes l)) - {p} \<and>
    set (lb_actives l') = set (lb_actives l) - {p} \<and> lb_more l' = lb_more l \<and>
    lb_dropping l' = (lb_dropping l \<or> lb_more l \<and> index_of (lb_pipes l) p = lb_current l)"
proof -
  let ?xs = "items (lb_pipes l)" and ?i = "index_of (lb_pipes l) p" and ?n = "lb_active l"
  from inv have ok: "arr_ok (lb_pipes l)" and n: "?n \<le> length ?xs"
    and c: "lb_current l < ?n \<or> lb_current l = 0" by (auto simp: lb_inv_def)
  note ix = arr_ok_index [OF ok p] and d = arr_ok_distinct [OF ok]
  from drop_from_prefix [OF ok p n] obtain a where a: "arr_ok a" "set (items a) = set ?xs"
    "length (items a) = length ?xs" "shrunk ?i ?n \<le> index_of a p"
    "set (take (shrunk ?i ?n) (items a)) = set (take ?n ?xs) - {p}"
    "if ?i < ?n then arr_swap ?i (shrunk ?i ?n) (lb_pipes l) = Some a else a = lb_pipes l" by blast
  let ?m = "shrunk ?i ?n"
  from a(2) p have pa: "p \<in> set (items a)" by simp
  from arr_erase_ok [OF a(1) pa] obtain b where
    b: "arr_erase p a = Some b" "arr_ok b" "items b = butlast ((items a)[index_of a p := last (items a)])"
      "set (items b) = set (items a) - {p}" by blast
  note ia = arr_ok_index [OF a(1) pa]
  have t: "take ?m (items b) = take ?m (items a)" using b(3) a(4) ia(1) by (simp add: take_butlast)
  have ml: "?m \<le> length (items b)" using b(3) a(4) ia(1) by simp
  let ?l0 = "if ?i = lb_current l \<and> lb_more l then l\<lparr>lb_dropping := True\<rparr> else l"
  let ?l1 = "?l0\<lparr>lb_active := ?m, lb_pipes := a, lb_current := (if ?i < ?n \<and> lb_current l = ?m then 0 else lb_current l)\<rparr>"
  let ?l = "?l1\<lparr>lb_pipes := b\<rparr>"
  have "lb_pipe_terminated p l = Some ?l"
  proof (cases "?i < ?n")
    case True
    with a(6) have "arr_swap ?i (?n - 1) (lb_pipes l) = Some a" "?m = ?n - 1" by (simp_all add: shrunk_def)
    with True b(1) show ?thesis
      by (cases "?i = lb_current l \<and> lb_more l") (auto simp: lb_pipe_terminated_def Let_def)
  next
    case False
    with a(6) have "a = lb_pipes l" "?m = ?n" by (simp_all add: shrunk_def)
    with False b(1) show ?thesis by (simp add: lb_pipe_terminated_def Let_def)
  qed
  moreover have "lb_inv ?l" using b(2) ml c by (auto simp: lb_inv_def shrunk_def)
  moreover have "lb_actives ?l = take ?m (items a)" using t by (simp add: lb_actives_def)
  ultimately show ?thesis using a(2,5) b(4) by (intro exI [of _ ?l]) (auto simp: lb_actives_def)
qed

subsection \<open>Sending\<close>

text \<open>
  What the load balancer asks of its pipes. \<open>room p m w\<close>: the pipe \<open>p\<close> takes the part \<open>m\<close>.
  Writing to a pipe, and taking parts back, does not change what the others take.
\<close>

locale pipe_target =
  fixes wr :: "nat \<Rightarrow> vmsg \<Rightarrow> 'w \<Rightarrow> (bool \<times> 'w) option"
    and rb :: "nat \<Rightarrow> 'w \<Rightarrow> 'w option"
    and fl :: "nat \<Rightarrow> 'w \<Rightarrow> 'w option"
    and cw :: "nat \<Rightarrow> 'w \<Rightarrow> (bool \<times> 'w) option"
    and alive :: "nat \<Rightarrow> 'w \<Rightarrow> bool"
    and room :: "nat \<Rightarrow> 'w \<Rightarrow> bool"
  assumes write_ok: "alive p w \<Longrightarrow> \<exists>b w'. wr p m w = Some (b, w') \<and> (b \<longleftrightarrow> room p w) \<and>
      (\<forall>x. alive x w \<longrightarrow> alive x w') \<and> (\<forall>x. x \<noteq> p \<longrightarrow> alive x w \<longrightarrow> room x w' = room x w)"
    and rollback_ok: "alive p w \<Longrightarrow> \<exists>w'. rb p w = Some w' \<and> (\<forall>x. alive x w \<longrightarrow> alive x w')"
    and flush_ok: "alive p w \<Longrightarrow> \<exists>w'. fl p w = Some w' \<and> (\<forall>x. alive x w \<longrightarrow> alive x w')"
    and check_ok: "alive p w \<Longrightarrow> \<exists>b w'. cw p w = Some (b, w') \<and> (b \<longleftrightarrow> room p w) \<and>
      (\<forall>x. alive x w \<longrightarrow> alive x w' \<and> room x w' = room x w)"
begin

definition sent_to :: "lb \<Rightarrow> 'w \<Rightarrow> send_result \<Rightarrow> lb \<Rightarrow> 'w \<Rightarrow> bool" where
  "sent_to l w r l' w' \<longleftrightarrow> lb_inv l' \<and> set (items (lb_pipes l')) = set (items (lb_pipes l)) \<and>
     (\<forall>x. alive x w \<longrightarrow> alive x w') \<and> set (lb_actives l') \<subseteq> set (lb_actives l) \<and>
     (\<forall>x\<in>set (lb_actives l) - set (lb_actives l'). \<not> room x w) \<and>
     (case r of
        Sent p \<Rightarrow> p \<in> set (lb_actives l') \<and> room p w \<and> (lb_more l \<longrightarrow> p = items (lb_pipes l) ! lb_current l)
      | Again \<Rightarrow> \<not> lb_more l' \<and> (if lb_more l \<and> lb_actives l \<noteq> []
            then \<not> room (items (lb_pipes l) ! lb_current l) w else lb_actives l' = [])
      | Dropped \<Rightarrow> False)"

text \<open>One pipe leaves the active ones: the step shared by both loops.\<close>

lemma lb_deactivate:
  assumes inv: "lb_inv l" and n: "lb_active l = Suc n" and a: "arr_swap (lb_current l) n (lb_pipes l) = Some a \<or>
      lb_current l = n \<and> a = lb_pipes l"
  shows "lb_inv (l\<lparr>lb_active := n, lb_pipes := a, lb_current := (if lb_current l = n then 0 else lb_current l)\<rparr>)"
    "set (take n (items a)) = set (lb_actives l) - {items (lb_pipes l) ! lb_current l}"
    "set (items a) = set (items (lb_pipes l))"
proof -
  let ?xs = "items (lb_pipes l)" and ?c = "lb_current l"
  from inv n have i: "arr_ok (lb_pipes l)" "n < length ?xs" and c: "?c \<le> n" by (auto simp: lb_inv_def)
  have cl: "?c < length ?xs" using c i(2) by simp
  note d = arr_ok_distinct [OF i(1)]
  have b: "arr_ok a \<and> items a = ?xs[?c := ?xs ! n, n := ?xs ! ?c]"
    using a arr_swap_ok [OF i(1) cl i(2)] i(1) by (auto simp: list_update_beyond)
  then show "lb_inv (l\<lparr>lb_active := n, lb_pipes := a, lb_current := (if ?c = n then 0 else ?c)\<rparr>)"
    using i(2) c by (auto simp: lb_inv_def)
  show "set (take n (items a)) = set (lb_actives l) - {?xs ! ?c}"
    using take_swap_set [OF d c i(2)] b n by (simp add: lb_actives_def)
  show "set (items a) = set ?xs" using b swap_set [OF cl i(2)] by simp
qed

lemma lb_current_active:
  assumes "lb_inv l" "lb_active l = Suc n"
  shows "lb_current l \<le> n" "lb_current l < length (items (lb_pipes l))" "n < length (items (lb_pipes l))"
    "items (lb_pipes l) ! lb_current l \<in> set (lb_actives l)"
  using assms by (auto simp: lb_inv_def lb_actives_def in_set_conv_nth intro!: exI [of _ "lb_current l"])

lemma lb_loop_ok:
  assumes "lb_inv l" "lb_active l = n" "\<forall>x\<in>set (lb_actives l). alive x w"
  shows "\<exists>r l' w'. lb_loop wr rb m n l w = Some (r, l', w') \<and> (n \<noteq> 0 \<or> \<not> lb_more l \<longrightarrow> sent_to l w r l' w') \<and>
    (n = 0 \<longrightarrow> r = Again \<and> l' = l \<and> w' = w) \<and>
    (\<forall>p. r = Sent p \<longrightarrow> p = items (lb_pipes l') ! lb_current l' \<and> lb_active l' > 0 \<and> lb_dropping l' = lb_dropping l)"
  using assms
proof (induction n arbitrary: l w)
  case 0
  then show ?case by (auto simp: sent_to_def lb_actives_def)
next
  case (Suc n)
  let ?xs = "items (lb_pipes l)" and ?c = "lb_current l"
  let ?p = "?xs ! ?c"
  note c = lb_current_active [OF Suc.prems(1,2)]
  from Suc.prems(3) c(4) have "alive ?p w" by blast
  from write_ok [OF this, of m] obtain b w1 where
    wr: "wr ?p m w = Some (b, w1)" "b \<longleftrightarrow> room ?p w" "\<forall>x. alive x w \<longrightarrow> alive x w1"
      "\<forall>x. x \<noteq> ?p \<longrightarrow> alive x w \<longrightarrow> room x w1 = room x w" by blast
  consider (yes) b | (undo) "\<not> b" "lb_more l" | (no) "\<not> b" "\<not> lb_more l" by blast
  then show ?case
  proof cases
    case yes
    with wr c Suc.prems(1,2) show ?thesis
      by (intro exI [of _ "Sent ?p"] exI [of _ l] exI [of _ w1]) (simp add: sent_to_def)
  next
    case undo
    from wr(3) \<open>alive ?p w\<close> have "alive ?p w1" by blast
    from rollback_ok [OF this] obtain w2 where w2: "rb ?p w1 = Some w2" "\<forall>x. alive x w1 \<longrightarrow> alive x w2" by blast
    have "lb_actives l \<noteq> []" using c(4) by auto
    with undo wr w2 c Suc.prems(1,2) show ?thesis
      by (intro exI [of _ Again] exI [of _ "l\<lparr>lb_more := False\<rparr>"] exI [of _ w2])
        (simp add: sent_to_def lb_inv_def lb_actives_def)
  next
    case no
    from Suc.prems(1) have ok: "arr_ok (lb_pipes l)" by (simp add: lb_inv_def)
    obtain a where a: "if ?c < n then arr_swap ?c n (lb_pipes l) = Some a else a = lb_pipes l"
      using arr_swap_ok [OF ok c(2,3)] by (cases "?c < n") auto
    then have a': "arr_swap ?c n (lb_pipes l) = Some a \<or> ?c = n \<and> a = lb_pipes l"
      using c(1) by (auto split: if_splits)
    let ?l = "l\<lparr>lb_active := n, lb_pipes := a, lb_current := (if ?c = n then 0 else ?c)\<rparr>"
    note de = lb_deactivate [OF Suc.prems(1,2) a']
    have act: "set (lb_actives ?l) = set (lb_actives l) - {?p}" using de(2) by (simp add: lb_actives_def)
    have al: "\<forall>x\<in>set (lb_actives ?l). alive x w1" using act Suc.prems(3) wr(3) by blast
    have same: "room x w1 = room x w" if "x \<in> set (lb_actives ?l)" for x
      using that act Suc.prems(3) wr(4) by blast
    have "lb_active ?l = n" by simp
    from Suc.IH [OF de(1) this al] obtain r l' w' where
      r: "lb_loop wr rb m n ?l w1 = Some (r, l', w')" "sent_to ?l w1 r l' w'"
        "\<forall>p. r = Sent p \<longrightarrow> p = items (lb_pipes l') ! lb_current l' \<and> lb_active l' > 0 \<and> lb_dropping l' = lb_dropping l"
      using no(2) by auto
    have "lb_loop wr rb m (Suc n) l w = Some (r, l', w')"
    proof (cases "?c < n")
      case True
      then have "arr_swap ?c n (lb_pipes l) = Some a" using a by simp
      moreover have "?l = l\<lparr>lb_active := n, lb_pipes := a\<rparr>" using True by simp
      ultimately show ?thesis using True c(2) wr(1) no r(1) Suc.prems(2) by simp
    next
      case False
      then have "?l = l\<lparr>lb_active := n, lb_current := 0\<rparr>" "a = lb_pipes l" using a c(1) by simp_all
      then show ?thesis using False c(2) wr(1) no r(1) Suc.prems(2) by simp
    qed
    moreover have "sent_to l w r l' w'"
    proof -
      have s: "lb_inv l'" "set (items (lb_pipes l')) = set ?xs" "\<forall>x. alive x w \<longrightarrow> alive x w'"
        "set (lb_actives l') \<subseteq> set (lb_actives ?l)" "\<forall>x\<in>set (lb_actives ?l) - set (lb_actives l'). \<not> room x w1"
        using r(2) de(3) wr(3) by (auto simp: sent_to_def)
      have "\<forall>x\<in>set (lb_actives l) - set (lb_actives l'). \<not> room x w"
        using s(5) act same no(1) wr(2) by blast
      moreover have "set (lb_actives l') \<subseteq> set (lb_actives l)" using s(4) act by blast
      moreover have "case r of Sent p \<Rightarrow> p \<in> set (lb_actives l') \<and> room p w | Again \<Rightarrow> \<not> lb_more l' \<and> lb_actives l' = []
          | Dropped \<Rightarrow> False"
        using r(2) same s(4) no(2) by (auto simp: sent_to_def split: send_result.splits)
      ultimately show ?thesis using s(1-3) no(2)
        by (auto simp: sent_to_def split: send_result.splits)
    qed
    ultimately show ?thesis using r(3) by auto
  qed
qed

text \<open>The whole of \<open>sendpipe\<close>, when no message is being dropped.\<close>

lemma lb_sendpipe_ok:
  assumes "lb_inv l" "\<not> lb_dropping l" "lb_more l \<longrightarrow> 0 < lb_active l" "\<forall>x\<in>set (lb_actives l). alive x w"
  shows "\<exists>r l' w'. lb_sendpipe wr rb fl m l w = Some (r, l', w') \<and> lb_inv l' \<and>
    set (items (lb_pipes l')) = set (items (lb_pipes l)) \<and> (\<forall>x. alive x w \<longrightarrow> alive x w') \<and>
    set (lb_actives l') \<subseteq> set (lb_actives l) \<and> (\<forall>x\<in>set (lb_actives l) - set (lb_actives l'). \<not> room x w) \<and>
    (case r of
       Sent p \<Rightarrow> p \<in> set (lb_actives l') \<and> room p w \<and> lb_more l' = has_more m \<and> \<not> lb_dropping l' \<and>
         (lb_more l \<longrightarrow> p = items (lb_pipes l) ! lb_current l) \<and>
         (has_more m \<longrightarrow> p = items (lb_pipes l') ! lb_current l' \<and> 0 < lb_active l')
     | Again \<Rightarrow> \<not> lb_more l' \<and> (if lb_more l then \<not> room (items (lb_pipes l) ! lb_current l) w
         else (\<forall>x\<in>set (lb_actives l). \<not> room x w))
     | Dropped \<Rightarrow> False)"
proof -
  from lb_loop_ok [OF assms(1) refl assms(4), of m] obtain r l1 w1 where
    r: "lb_loop wr rb m (lb_active l) l w = Some (r, l1, w1)" "sent_to l w r l1 w1"
      "\<forall>p. r = Sent p \<longrightarrow> p = items (lb_pipes l1) ! lb_current l1 \<and> lb_active l1 > 0 \<and> lb_dropping l1 = lb_dropping l"
    using assms(3) by auto
  have len: "lb_actives l \<noteq> []" if "lb_more l"
    using that assms(1,3) by (auto simp: lb_actives_def lb_inv_def)
  show ?thesis
  proof (cases r)
    case (Sent p)
    with r(2) have p: "p \<in> set (lb_actives l1)" "room p w" "lb_inv l1" "\<forall>x. alive x w \<longrightarrow> alive x w1"
      "set (lb_actives l1) \<subseteq> set (lb_actives l)" by (auto simp: sent_to_def)
    let ?l = "l1\<lparr>lb_more := has_more m\<rparr>"
    show ?thesis
    proof (cases "has_more m")
      case True
      with Sent r assms(2) p show ?thesis
        by (intro exI [of _ "Sent p"] exI [of _ ?l] exI [of _ w1])
          (auto simp: lb_sendpipe_def sent_to_def lb_inv_def lb_actives_def)
    next
      case False
      have "alive p w1" using p assms(4) by blast
      from flush_ok [OF this] obtain w2 where w2: "fl p w1 = Some w2" "\<forall>x. alive x w1 \<longrightarrow> alive x w2" by blast
      let ?l2 = "?l\<lparr>lb_current := (if lb_current l1 + 1 \<ge> lb_active l1 then 0 else lb_current l1 + 1)\<rparr>"
      have "lb_inv ?l2" using p(3) by (auto simp: lb_inv_def)
      moreover have "lb_sendpipe wr rb fl m l w = Some (Sent p, ?l2, w2)"
        using False Sent r(1) assms(2) w2 by (simp add: lb_sendpipe_def Let_def)
      ultimately show ?thesis using False Sent r(2,3) assms(2) p w2(2)
        by (intro exI [of _ "Sent p"] exI [of _ ?l2] exI [of _ w2])
          (auto simp: sent_to_def lb_actives_def)
    qed
  next
    case Dropped
    with r(2) show ?thesis by (simp add: sent_to_def)
  next
    case Again
    with r assms(2) len show ?thesis
      by (intro exI [of _ Again] exI [of _ l1] exI [of _ w1])
        (auto simp: lb_sendpipe_def sent_to_def split: if_splits)
  qed
qed

end

end
