(* ===== verification/Distributor.thy ===== *)
theory Distributor
  imports Load_Balancer
begin

text \<open>
  \<open>dist_t\<close> of \<open>src/zmqsrc/src/dist.cpp\<close>: sending a message to many pipes. The array of pipes
  has the matching ones first, then the other active, the other eligible and the passive
  ones. \<open>wr\<close> and \<open>fl\<close> are \<open>write\<close> and \<open>flush\<close> of a pipe. Sizes are unsigned in the code; where
  it subtracts one, the model faults at zero, because the result would index out of range.
\<close>

record dist =
  d_pipes :: parr
  d_matching :: nat
  d_active :: nat
  d_eligible :: nat
  d_more :: bool

definition new_dist :: dist where
  "new_dist = \<lparr>d_pipes = new_array, d_matching = 0, d_active = 0, d_eligible = 0, d_more = False\<rparr>"

definition dist_destroy :: "dist \<Rightarrow> unit option" where
  "dist_destroy d = zmq_assert (items (d_pipes d) = [])"

definition dist_attach :: "nat \<Rightarrow> dist \<Rightarrow> dist option" where
  "dist_attach p d =
     (if d_more d then do {
        let a = arr_push_back p (d_pipes d);
        a \<leftarrow> arr_swap (d_eligible d) (length (items a) - 1) a;
        Some (d\<lparr>d_pipes := a, d_eligible := d_eligible d + 1\<rparr>) }
      else do {
        let a = arr_push_back p (d_pipes d);
        a \<leftarrow> arr_swap (d_active d) (length (items a) - 1) a;
        Some (d\<lparr>d_pipes := a, d_active := d_active d + 1, d_eligible := d_eligible d + 1\<rparr>) })"

definition dist_match :: "nat \<Rightarrow> dist \<Rightarrow> dist option" where
  "dist_match p d =
     (if index_of (d_pipes d) p < d_matching d then Some d
      else if index_of (d_pipes d) p \<ge> d_eligible d then Some d
      else do {
        a \<leftarrow> arr_swap (index_of (d_pipes d) p) (d_matching d) (d_pipes d);
        Some (d\<lparr>d_pipes := a, d_matching := d_matching d + 1\<rparr>) })"

definition dist_unmatch :: "dist \<Rightarrow> dist" where
  "dist_unmatch d = d\<lparr>d_matching := 0\<rparr>"

text \<open>The loop of \<open>reverse_match\<close> with \<open>n\<close> turns to go, the next one for position \<open>i\<close>.\<close>

primrec reverse_loop :: "nat \<Rightarrow> nat \<Rightarrow> dist \<Rightarrow> dist option" where
  "reverse_loop 0 i d = Some d"
| "reverse_loop (Suc n) i d = do {
     a \<leftarrow> arr_swap i (d_matching d) (d_pipes d);
     reverse_loop n (i + 1) (d\<lparr>d_pipes := a, d_matching := d_matching d + 1\<rparr>) }"

definition dist_reverse_match :: "dist \<Rightarrow> dist option" where
  "dist_reverse_match d =
     (let prev = d_matching d in reverse_loop (d_eligible d - prev) prev (dist_unmatch d))"

text \<open>One of the three steps of \<open>pipe_terminated\<close>: \<open>p\<close> leaves the first \<open>n\<close> items, if it is there.\<close>

definition leave :: "nat \<Rightarrow> nat \<Rightarrow> parr \<Rightarrow> (nat \<times> parr) option" where
  "leave p n a =
     (if index_of a p < n then do { a \<leftarrow> arr_swap (index_of a p) (n - 1) a; Some (n - 1, a) }
      else Some (n, a))"

definition dist_pipe_terminated :: "nat \<Rightarrow> dist \<Rightarrow> dist option" where
  "dist_pipe_terminated p d = do {
     (k, a) \<leftarrow> leave p (d_matching d) (d_pipes d);
     (n, a) \<leftarrow> leave p (d_active d) a;
     (e, a) \<leftarrow> leave p (d_eligible d) a;
     a \<leftarrow> arr_erase p a;
     Some (d\<lparr>d_matching := k, d_active := n, d_eligible := e, d_pipes := a\<rparr>) }"

definition dist_activated :: "nat \<Rightarrow> dist \<Rightarrow> dist option" where
  "dist_activated p d = do {
     d \<leftarrow> (if d_eligible d < length (items (d_pipes d)) then do {
         a \<leftarrow> arr_swap (index_of (d_pipes d) p) (d_eligible d) (d_pipes d);
         Some (d\<lparr>d_pipes := a, d_eligible := d_eligible d + 1\<rparr>) }
       else Some d);
     if \<not> d_more d \<and> d_active d < length (items (d_pipes d)) then do {
       zmq_assert (0 < d_eligible d);
       a \<leftarrow> arr_swap (d_eligible d - 1) (d_active d) (d_pipes d);
       Some (d\<lparr>d_pipes := a, d_active := d_active d + 1\<rparr>) }
     else Some d }"

definition dist_write :: "(nat \<Rightarrow> vmsg \<Rightarrow> 'w \<Rightarrow> (bool \<times> 'w) option) \<Rightarrow> (nat \<Rightarrow> 'w \<Rightarrow> 'w option) \<Rightarrow>
    nat \<Rightarrow> vmsg \<Rightarrow> dist \<Rightarrow> 'w \<Rightarrow> (bool \<times> dist \<times> 'w) option" where
  "dist_write wr fl p m d w = do {
     (ok, w) \<leftarrow> wr p m w;
     if \<not> ok then do {
       zmq_assert (0 < d_matching d \<and> 0 < d_active d \<and> 0 < d_eligible d);
       a \<leftarrow> arr_swap (index_of (d_pipes d) p) (d_matching d - 1) (d_pipes d);
       a \<leftarrow> arr_swap (index_of a p) (d_active d - 1) a;
       a \<leftarrow> arr_swap (d_active d - 1) (d_eligible d - 1) a;
       Some (False, d\<lparr>d_pipes := a, d_matching := d_matching d - 1, d_active := d_active d - 1,
         d_eligible := d_eligible d - 1\<rparr>, w) }
     else do {
       w \<leftarrow> (if \<not> has_more m then fl p w else Some w);
       Some (True, d, w) } }"

text \<open>
  Both loops of \<open>distribute\<close>, with \<open>n\<close> turns to go: a failed write makes \<open>matching\<close> smaller
  and the same position is tried again. The result counts the failures, for \<open>rm_refs\<close>.
\<close>

primrec dist_loop :: "(nat \<Rightarrow> vmsg \<Rightarrow> 'w \<Rightarrow> (bool \<times> 'w) option) \<Rightarrow> (nat \<Rightarrow> 'w \<Rightarrow> 'w option) \<Rightarrow>
    vmsg \<Rightarrow> nat \<Rightarrow> nat \<Rightarrow> dist \<Rightarrow> 'w \<Rightarrow> (nat \<times> dist \<times> 'w) option" where
  "dist_loop wr fl m 0 i d w = Some (0, d, w)"
| "dist_loop wr fl m (Suc n) i d w = do {
     p \<leftarrow> table_at (items (d_pipes d)) i;
     (ok, d, w) \<leftarrow> dist_write wr fl p m d w;
     if ok then dist_loop wr fl m n (i + 1) d w
     else do { (failed, d, w) \<leftarrow> dist_loop wr fl m n i d w; Some (failed + 1, d, w) } }"

definition distribute :: "(nat \<Rightarrow> vmsg \<Rightarrow> 'w \<Rightarrow> (bool \<times> 'w) option) \<Rightarrow> (nat \<Rightarrow> 'w \<Rightarrow> 'w option) \<Rightarrow>
    vmsg \<Rightarrow> dist \<Rightarrow> 'w \<Rightarrow> (nat \<times> dist \<times> 'w) option" where
  "distribute wr fl m d w =
     (if d_matching d = 0 then Some (0, d, w) else dist_loop wr fl m (d_matching d) 0 d w)"

definition send_to_matching :: "(nat \<Rightarrow> vmsg \<Rightarrow> 'w \<Rightarrow> (bool \<times> 'w) option) \<Rightarrow> (nat \<Rightarrow> 'w \<Rightarrow> 'w option) \<Rightarrow>
    vmsg \<Rightarrow> dist \<Rightarrow> 'w \<Rightarrow> (dist \<times> 'w) option" where
  "send_to_matching wr fl m d w = do {
     (failed, d, w) \<leftarrow> distribute wr fl m d w;
     let d = (if \<not> has_more m then d\<lparr>d_active := d_eligible d\<rparr> else d);
     Some (d\<lparr>d_more := has_more m\<rparr>, w) }"

definition send_to_all :: "(nat \<Rightarrow> vmsg \<Rightarrow> 'w \<Rightarrow> (bool \<times> 'w) option) \<Rightarrow> (nat \<Rightarrow> 'w \<Rightarrow> 'w option) \<Rightarrow>
    vmsg \<Rightarrow> dist \<Rightarrow> 'w \<Rightarrow> (dist \<times> 'w) option" where
  "send_to_all wr fl m d w = send_to_matching wr fl m (d\<lparr>d_matching := d_active d\<rparr>) w"

definition dist_has_out :: "dist \<Rightarrow> bool" where
  "dist_has_out d = True"

definition dist_check_hwm :: "(nat \<Rightarrow> bool) \<Rightarrow> dist \<Rightarrow> bool" where
  "dist_check_hwm hwm d = list_all hwm (take (d_matching d) (items (d_pipes d)))"

subsection \<open>Invariant\<close>

definition dist_inv :: "dist \<Rightarrow> bool" where
  "dist_inv d \<longleftrightarrow> arr_ok (d_pipes d) \<and> d_matching d \<le> d_active d \<and> d_active d \<le> d_eligible d \<and>
     d_eligible d \<le> length (items (d_pipes d)) \<and> (\<not> d_more d \<longrightarrow> d_active d = d_eligible d)"

definition matching_set :: "dist \<Rightarrow> nat set" where
  "matching_set d = set (take (d_matching d) (items (d_pipes d)))"

definition active_set :: "dist \<Rightarrow> nat set" where
  "active_set d = set (take (d_active d) (items (d_pipes d)))"

definition eligible_set :: "dist \<Rightarrow> nat set" where
  "eligible_set d = set (take (d_eligible d) (items (d_pipes d)))"

definition attached :: "dist \<Rightarrow> nat set" where
  "attached d = set (items (d_pipes d))"

lemmas dist_sets = matching_set_def active_set_def eligible_set_def attached_def

lemma dist_inv_new: "dist_inv new_dist"
  by (simp add: dist_inv_def new_dist_def)

text \<open>A swap within the prefix of \<open>n\<close> items, or beyond it, leaves the prefix as a set.\<close>

lemma swap_prefix:
  assumes "i < length xs" "j < length xs" "i < n \<longleftrightarrow> j < n" "n \<le> length xs"
  shows "set (take n (xs[i := xs ! j, j := xs ! i])) = set (take n xs)"
proof (cases "i < n")
  case True
  with assms swap_take show ?thesis by blast
next
  case False
  with assms show ?thesis by (simp add: take_update_swap list_update_beyond)
qed

lemma swap_in_prefix:
  assumes "distinct xs" "i < length xs" "n \<le> i"
  shows "set (take (Suc n) (xs[i := xs ! n, n := xs ! i])) = insert (xs ! i) (set (take n xs))"
  using assms by (simp add: take_Suc_conv_app_nth)

lemma leave_ok:
  assumes "arr_ok a" "p \<in> set (items a)" "n \<le> length (items a)"
  shows "\<exists>b k. leave p n a = Some (k, b) \<and> arr_ok b \<and> set (items b) = set (items a) \<and>
    length (items b) = length (items a) \<and> k = shrunk (index_of a p) n \<and> k \<le> index_of b p \<and>
    set (take k (items b)) = set (take n (items a)) - {p} \<and>
    (\<forall>j. n \<le> j \<longrightarrow> j \<le> length (items a) \<longrightarrow> set (take j (items b)) = set (take j (items a))) \<and>
    (\<forall>j. j \<le> k \<longrightarrow> j \<le> index_of a p \<longrightarrow> take j (items b) = take j (items a))"
proof (cases "index_of a p < n")
  case False
  with assms in_prefix_iff [OF assms] show ?thesis
    by (intro exI [of _ a] exI [of _ n]) (simp add: leave_def shrunk_def)
next
  case True
  let ?i = "index_of a p" and ?xs = "items a"
  note ix = arr_ok_index [OF assms(1,2)]
  from True assms(3) have m: "n - 1 < length ?xs" "?i \<le> n - 1" by auto
  from drop_from_prefix [OF assms] True obtain b where
    b: "arr_ok b" "set (items b) = set ?xs" "length (items b) = length ?xs" "n - 1 \<le> index_of b p"
      "set (take (n - 1) (items b)) = set (take n ?xs) - {p}" "arr_swap ?i (n - 1) a = Some b"
    by (auto simp: shrunk_def)
  from b(6) ix m have it: "items b = ?xs[?i := ?xs ! (n - 1), n - 1 := ?xs ! ?i]"
    by (auto simp: arr_swap_def)
  have "set (take j (items b)) = set (take j ?xs)" if "n \<le> j" "j \<le> length ?xs" for j
    unfolding it by (rule swap_prefix) (use that True m ix in auto)
  moreover have "take j (items b) = take j ?xs" if "j \<le> n - 1" "j \<le> ?i" for j
    using that by (simp add: it take_update_cancel)
  ultimately show ?thesis using True b
    by (intro exI [of _ b] exI [of _ "n - 1"]) (simp add: leave_def shrunk_def)
qed

lemma leave3_ok:
  assumes "arr_ok a" "p \<in> set (items a)" "k \<le> n" "n \<le> e" "e \<le> length (items a)"
  shows "\<exists>a1 a2 a3 k' n' e'. leave p k a = Some (k', a1) \<and> leave p n a1 = Some (n', a2) \<and> leave p e a2 = Some (e', a3) \<and>
    arr_ok a3 \<and> set (items a3) = set (items a) \<and> length (items a3) = length (items a) \<and>
    k' \<le> n' \<and> n' \<le> e' \<and> e' \<le> index_of a3 p \<and> (n = e \<longrightarrow> n' = e') \<and>
    k' = shrunk (index_of a p) k \<and> n' = shrunk (index_of a1 p) n \<and> e' = shrunk (index_of a2 p) e \<and>
    k' \<le> index_of a1 p \<and> n' \<le> index_of a2 p \<and>
    (index_of a p < k \<longrightarrow> index_of a1 p < n) \<and> (index_of a1 p < n \<longrightarrow> index_of a2 p = n') \<and>
    set (take k' (items a3)) = set (take k (items a)) - {p} \<and>
    set (take n' (items a3)) = set (take n (items a)) - {p} \<and>
    set (take e' (items a3)) = set (take e (items a)) - {p} \<and>
    (\<forall>j. j \<le> k' \<longrightarrow> j \<le> index_of a p \<longrightarrow> take j (items a3) = take j (items a))"
proof -
  from leave_ok [OF assms(1,2), of k] assms(3-5) obtain a1 k' where
    a1: "leave p k a = Some (k', a1)" "arr_ok a1" "set (items a1) = set (items a)" "length (items a1) = length (items a)"
      "k' = shrunk (index_of a p) k" "k' \<le> index_of a1 p" "set (take k' (items a1)) = set (take k (items a)) - {p}"
      "\<And>j. k \<le> j \<Longrightarrow> j \<le> length (items a) \<Longrightarrow> set (take j (items a1)) = set (take j (items a))"
      "\<And>j. j \<le> k' \<Longrightarrow> j \<le> index_of a p \<Longrightarrow> take j (items a1) = take j (items a)" by auto
  have p1: "p \<in> set (items a1)" using a1(3) assms(2) by simp
  from leave_ok [OF a1(2) p1, of n] assms(4,5) a1(4) obtain a2 n' where
    a2: "leave p n a1 = Some (n', a2)" "arr_ok a2" "set (items a2) = set (items a1)" "length (items a2) = length (items a1)"
      "n' = shrunk (index_of a1 p) n" "n' \<le> index_of a2 p" "set (take n' (items a2)) = set (take n (items a1)) - {p}"
      "\<And>j. n \<le> j \<Longrightarrow> j \<le> length (items a1) \<Longrightarrow> set (take j (items a2)) = set (take j (items a1))"
      "\<And>j. j \<le> n' \<Longrightarrow> j \<le> index_of a1 p \<Longrightarrow> take j (items a2) = take j (items a1)" by auto
  have p2: "p \<in> set (items a2)" using a2(3) p1 by simp
  from leave_ok [OF a2(2) p2, of e] assms(5) a1(4) a2(4) obtain a3 e' where
    a3: "leave p e a2 = Some (e', a3)" "arr_ok a3" "set (items a3) = set (items a2)" "length (items a3) = length (items a2)"
      "e' = shrunk (index_of a2 p) e" "e' \<le> index_of a3 p" "set (take e' (items a3)) = set (take e (items a2)) - {p}"
      "\<And>j. j \<le> e' \<Longrightarrow> j \<le> index_of a2 p \<Longrightarrow> take j (items a3) = take j (items a2)" by auto
  have kn: "k' \<le> n'" using a1(5,6) a2(5) assms(3) by (auto simp: shrunk_def)
  have ne: "n' \<le> e'" using a2(5,6) a3(5) assms(4) by (auto simp: shrunk_def)
  have i1: "index_of a1 p < n" if "index_of a p < k"
  proof -
    have "p \<in> set (take k (items a))" using in_prefix_iff [OF assms(1,2), of k] that assms by simp
    then have "p \<in> set (take n (items a))" using assms(3) by (meson set_take_subset_set_take subsetD)
    then have "p \<in> set (take n (items a1))" using a1(8) [of n] assms by simp
    then show ?thesis using in_prefix_iff [OF a1(2) p1, of n] assms a1(4) by simp
  qed
  have i2: "index_of a2 p = n'" if "index_of a1 p < n"
  proof -
    have "arr_swap (index_of a1 p) (n - 1) a1 = Some a2" using a2(1) that by (auto simp: leave_def bind_eq_Some_conv)
    then have "items a2 ! (n - 1) = p" "n - 1 < length (items a2)"
      using that arr_ok_index [OF a1(2) p1] assms a1(4) by (auto simp: arr_swap_def)
    then have "index_of a2 p = n - 1" using arr_ok_nth [OF a2(2)] by metis
    then show ?thesis using a2(5) that by (simp add: shrunk_def)
  qed
  have n: "n' = e'" if "n = e"
    using that a2(4-6) a3(5) i2 a1(4) assms(5) by (cases "index_of a1 p < n") (auto simp: shrunk_def split: if_splits)
  have s: "set (items a3) = set (items a)" "length (items a3) = length (items a)"
    using a1(3,4) a2(3,4) a3(3,4) by simp_all
  have sk: "set (take k' (items a3)) = set (take k (items a)) - {p}"
    using a3(8) [of k'] a2(9) [of k'] a1(6,7) a2(6) kn ne by simp
  have sn: "set (take n' (items a3)) = set (take n (items a)) - {p}"
    using a3(8) [of n'] a2(6,7) ne a1(8) [of n] assms by simp
  have se: "set (take e' (items a3)) = set (take e (items a)) - {p}"
    using a3(7) a2(8) [of e] a1(8) [of e] assms a1(4) by simp
  from i1 i2 n have im: "index_of a p < k \<longrightarrow> index_of a1 p < n" "index_of a1 p < n \<longrightarrow> index_of a2 p = n'"
    "n = e \<longrightarrow> n' = e'" by blast+
  have tk: "\<forall>j. j \<le> k' \<longrightarrow> j \<le> index_of a p \<longrightarrow> take j (items a3) = take j (items a)"
    using a1(6,9) a2(6,9) a3(8) kn ne by simp
  show ?thesis
    by (intro exI [of _ a1] exI [of _ a2] exI [of _ a3] exI [of _ k'] exI [of _ n'] exI [of _ e'] conjI)
      (fact a1(1) a1(5,6) a2(1,5,6) a3(1,2,5,6) kn ne im s sk sn se tk)+
qed

lemma dist_attach_ok:
  assumes "dist_inv d" "p \<notin> attached d"
  shows "\<exists>d'. dist_attach p d = Some d' \<and> dist_inv d' \<and> attached d' = insert p (attached d) \<and>
    eligible_set d' = insert p (eligible_set d) \<and> d_more d' = d_more d \<and>
    active_set d' = (if d_more d then active_set d else insert p (active_set d)) \<and>
    matching_set d' = matching_set d"
proof -
  let ?xs = "items (d_pipes d)" and ?k = "if d_more d then d_eligible d else d_active d"
  let ?a = "arr_push_back p (d_pipes d)"
  from assms(1) have i: "arr_ok (d_pipes d)" "d_matching d \<le> d_active d" "d_active d \<le> d_eligible d"
    "d_eligible d \<le> length ?xs" "\<not> d_more d \<longrightarrow> d_active d = d_eligible d" by (auto simp: dist_inv_def)
  have pn: "p \<notin> set ?xs" using assms(2) by (simp add: attached_def)
  note pu = arr_push_ok [OF i(1) pn]
  have k: "?k = d_eligible d" "?k \<le> length ?xs" using i by auto
  have lk: "length ?xs < length (items ?a)" "?k < length (items ?a)" using pu k by auto
  from arr_swap_ok [OF pu(1) lk(2,1)] obtain b where
    b: "arr_swap ?k (length ?xs) ?a = Some b" "arr_ok b"
      "items b = (?xs @ [p])[?k := (?xs @ [p]) ! length ?xs, length ?xs := (?xs @ [p]) ! ?k]"
    unfolding pu(2) by auto
  have t: "take j (items b) = take j ?xs" if "j \<le> ?k" for j using that b(3) k(2) by simp
  have "items b ! ?k = p" using b(3) k(2) by (cases "?k = length ?xs") auto
  then have ts: "take (Suc ?k) (items b) = take ?k ?xs @ [p]"
    using t [of ?k] b(3) k(2) by (simp add: take_Suc_conv_app_nth)
  have s: "set (items b) = insert p (set ?xs)"
    unfolding b(3) using k(2) by (subst swap_set) auto
  let ?d = "if d_more d then d\<lparr>d_pipes := b, d_eligible := d_eligible d + 1\<rparr>
    else d\<lparr>d_pipes := b, d_active := d_active d + 1, d_eligible := d_eligible d + 1\<rparr>"
  have "dist_attach p d = Some ?d" using b(1) pu(2) by (cases "d_more d") (simp_all add: dist_attach_def)
  moreover have "dist_inv ?d" using i b(2,3) k by (auto simp: dist_inv_def)
  ultimately show ?thesis using s t ts i k
    by (intro exI [of _ ?d]) (auto simp: dist_sets)
qed

lemma dist_match_ok:
  assumes "dist_inv d" "p \<in> attached d" "\<not> d_more d"
  shows "\<exists>d'. dist_match p d = Some d' \<and> dist_inv d' \<and> attached d' = attached d \<and> d_more d' = d_more d \<and>
    active_set d' = active_set d \<and> eligible_set d' = eligible_set d \<and>
    matching_set d' = (if p \<in> eligible_set d then insert p (matching_set d) else matching_set d)"
proof -
  let ?xs = "items (d_pipes d)" and ?i = "index_of (d_pipes d) p" and ?k = "d_matching d"
  from assms(1,3) have i: "arr_ok (d_pipes d)" "?k \<le> d_eligible d" "d_active d = d_eligible d"
    "d_eligible d \<le> length ?xs" by (auto simp: dist_inv_def)
  have p: "p \<in> set ?xs" using assms(2) by (simp add: attached_def)
  note ix = arr_ok_index [OF i(1) p] and d = arr_ok_distinct [OF i(1)]
  note pre = in_prefix_iff [OF i(1) p]
  consider "?i < ?k" | "d_eligible d \<le> ?i" "\<not> ?i < ?k" | "?k \<le> ?i" "?i < d_eligible d" by linarith
  then show ?thesis
  proof cases
    case 1
    with pre [of ?k] i have "p \<in> matching_set d" by (simp add: matching_set_def)
    with 1 assms(1) show ?thesis by (intro exI [of _ d]) (auto simp: dist_match_def)
  next
    case 2
    with pre [of "d_eligible d"] i have "p \<notin> eligible_set d" by (simp add: eligible_set_def)
    with 2 assms(1) show ?thesis by (intro exI [of _ d]) (auto simp: dist_match_def)
  next
    case 3
    then have kl: "?k < length ?xs" using i(4) by simp
    from arr_swap_ok [OF i(1) ix(1) kl] obtain b where
      b: "arr_swap ?i ?k (d_pipes d) = Some b" "arr_ok b" "items b = ?xs[?i := ?xs ! ?k, ?k := ?xs ! ?i]" by auto
    let ?d = "d\<lparr>d_pipes := b, d_matching := ?k + 1\<rparr>"
    have "set (take (d_eligible d) (items b)) = set (take (d_eligible d) ?xs)"
      unfolding b(3) by (rule swap_prefix) (use 3 i kl ix in auto)
    moreover have "set (take (Suc ?k) (items b)) = insert p (set (take ?k ?xs))"
      using swap_in_prefix [OF d ix(1) 3(1)] b(3) ix(2) by simp
    moreover have "set (items b) = set ?xs" unfolding b(3) by (rule swap_set [OF ix(1) kl])
    moreover have "p \<in> eligible_set d" using pre [of "d_eligible d"] i 3 by (simp add: eligible_set_def)
    moreover have "dist_match p d = Some ?d" using 3 b(1) by (simp add: dist_match_def)
    moreover have "dist_inv ?d" using assms(1,3) 3 b by (auto simp: dist_inv_def)
    ultimately show ?thesis using i(3) by (intro exI [of _ ?d]) (simp add: dist_sets)
  qed
qed

lemma dist_terminated_ok:
  assumes "dist_inv d" "p \<in> attached d"
  shows "\<exists>d'. dist_pipe_terminated p d = Some d' \<and> dist_inv d' \<and> d_more d' = d_more d \<and>
    attached d' = attached d - {p} \<and> eligible_set d' = eligible_set d - {p} \<and>
    active_set d' = active_set d - {p} \<and> matching_set d' = matching_set d - {p}"
proof -
  let ?a = "d_pipes d"
  from assms have i: "arr_ok ?a" "d_matching d \<le> d_active d" "d_active d \<le> d_eligible d"
    "d_eligible d \<le> length (items ?a)" "\<not> d_more d \<longrightarrow> d_active d = d_eligible d" "p \<in> set (items ?a)"
    by (auto simp: dist_inv_def attached_def)
  from leave3_ok [OF i(1,6,2-4)] obtain a1 a2 a3 k n e where
    l: "leave p (d_matching d) ?a = Some (k, a1)" "leave p (d_active d) a1 = Some (n, a2)"
      "leave p (d_eligible d) a2 = Some (e, a3)" "arr_ok a3" "set (items a3) = set (items ?a)"
      "length (items a3) = length (items ?a)" "k \<le> n" "n \<le> e" "e \<le> index_of a3 p" "d_active d = d_eligible d \<longrightarrow> n = e"
      "set (take k (items a3)) = set (take (d_matching d) (items ?a)) - {p}"
      "set (take n (items a3)) = set (take (d_active d) (items ?a)) - {p}"
      "set (take e (items a3)) = set (take (d_eligible d) (items ?a)) - {p}"
    by (elim exE conjE) (rule that)
  from l(5) i(6) have p3: "p \<in> set (items a3)" by simp
  from arr_erase_ok [OF l(4) p3] obtain b where
    b: "arr_erase p a3 = Some b" "arr_ok b" "items b = butlast ((items a3)[index_of a3 p := last (items a3)])"
      "set (items b) = set (items a3) - {p}" by blast
  note ix = arr_ok_index [OF l(4) p3]
  have t: "take j (items b) = take j (items a3)" if "j \<le> e" for j
    using that b(3) l(9) ix(1) by (simp add: take_butlast)
  let ?d = "d\<lparr>d_matching := k, d_active := n, d_eligible := e, d_pipes := b\<rparr>"
  have "dist_pipe_terminated p d = Some ?d" using l(1-3) b(1) by (simp add: dist_pipe_terminated_def)
  moreover have "dist_inv ?d" using l(7-10) b(2,3) ix(1) i(5) by (auto simp: dist_inv_def)
  ultimately show ?thesis using t l(5,7,8,11-13) b(4) by (intro exI [of _ ?d]) (simp add: dist_sets)
qed

lemma dist_activated_ok:
  assumes "dist_inv d" "p \<in> attached d" "p \<notin> eligible_set d"
  shows "\<exists>d'. dist_activated p d = Some d' \<and> dist_inv d' \<and> d_more d' = d_more d \<and> attached d' = attached d \<and>
    eligible_set d' = insert p (eligible_set d) \<and>
    active_set d' = (if d_more d then active_set d else insert p (active_set d)) \<and> matching_set d' = matching_set d"
proof -
  let ?xs = "items (d_pipes d)" and ?i = "index_of (d_pipes d) p" and ?e = "d_eligible d"
  from assms(1) have i: "arr_ok (d_pipes d)" "d_matching d \<le> d_active d" "d_active d \<le> ?e" "?e \<le> length ?xs"
    "\<not> d_more d \<longrightarrow> d_active d = ?e" by (auto simp: dist_inv_def)
  have p: "p \<in> set ?xs" using assms(2) by (simp add: attached_def)
  note ix = arr_ok_index [OF i(1) p] and d = arr_ok_distinct [OF i(1)]
  have ei: "?e \<le> ?i" using in_prefix_iff [OF i(1) p i(4)] assms(3) by (simp add: eligible_set_def)
  then have el: "?e < length ?xs" using ix by simp
  from arr_swap_ok [OF i(1) ix(1) el] obtain b where
    b: "arr_swap ?i ?e (d_pipes d) = Some b" "arr_ok b" "items b = ?xs[?i := ?xs ! ?e, ?e := ?xs ! ?i]" by auto
  have t: "take j (items b) = take j ?xs" if "j \<le> ?e" for j using that b(3) ei by simp
  have ts: "set (take (Suc ?e) (items b)) = insert p (set (take ?e ?xs))"
    using swap_in_prefix [OF d ix(1) ei] b(3) ix(2) by simp
  have s: "set (items b) = set ?xs" "length (items b) = length ?xs"
    unfolding b(3) by (rule swap_set [OF ix(1) el]) simp
  let ?d1 = "d\<lparr>d_pipes := b, d_eligible := ?e + 1\<rparr>"
  show ?thesis
  proof (cases "d_more d")
    case True
    have "dist_activated p d = Some ?d1" using True b(1) el by (simp add: dist_activated_def)
    moreover have "dist_inv ?d1" using i b s el True by (auto simp: dist_inv_def)
    ultimately show ?thesis using True s t ts i by (intro exI [of _ ?d1]) (simp add: dist_sets)
  next
    case False
    with i have ae: "d_active d = ?e" by simp
    have eb: "?e < length (items b)" using el s by simp
    from arr_swap_ok [OF b(2) eb eb] obtain c where
      c: "arr_swap ?e ?e b = Some c" "arr_ok c" "items c = items b" by auto
    let ?d = "?d1\<lparr>d_pipes := c, d_active := ?e + 1\<rparr>"
    have "dist_activated p d = Some ?d" using False b(1) el eb ae c(1) by (simp add: dist_activated_def)
    moreover have "dist_inv ?d" using i c s el ae by (auto simp: dist_inv_def)
    ultimately show ?thesis using False s t ts i ae c by (intro exI [of _ ?d]) (simp add: dist_sets)
  qed
qed

lemma reverse_loop_ok:
  assumes "arr_ok (d_pipes d)" "i + n \<le> length (items (d_pipes d))" "d_matching d \<le> i"
  shows "\<exists>d'. reverse_loop n i d = Some d' \<and> arr_ok (d_pipes d') \<and> d_matching d' = d_matching d + n \<and>
    d_active d' = d_active d \<and> d_eligible d' = d_eligible d \<and> d_more d' = d_more d \<and>
    length (items (d_pipes d')) = length (items (d_pipes d)) \<and>
    (\<forall>j. i + n \<le> j \<longrightarrow> set (take j (items (d_pipes d'))) = set (take j (items (d_pipes d)))) \<and>
    set (take (d_matching d + n) (items (d_pipes d'))) =
      set (take (d_matching d) (items (d_pipes d))) \<union> set (take n (drop i (items (d_pipes d))))"
  using assms
proof (induction n arbitrary: i d)
  case (Suc n)
  let ?xs = "items (d_pipes d)" and ?k = "d_matching d"
  from Suc.prems have il: "i < length ?xs" "?k < length ?xs" by auto
  from arr_swap_ok [OF Suc.prems(1) il] obtain b where
    b: "arr_swap i ?k (d_pipes d) = Some b" "arr_ok b" "items b = ?xs[i := ?xs ! ?k, ?k := ?xs ! i]" by auto
  let ?d = "d\<lparr>d_pipes := b, d_matching := ?k + 1\<rparr>"
  have "i + 1 + n \<le> length (items (d_pipes ?d))" "d_matching ?d \<le> i + 1" using Suc.prems b(3) by auto
  from Suc.IH [of ?d "i + 1", simplified, OF b(2)] this obtain d' where
    d': "reverse_loop n (i + 1) ?d = Some d'" "arr_ok (d_pipes d')" "d_matching d' = Suc (?k + n)"
      "d_active d' = d_active d" "d_eligible d' = d_eligible d" "d_more d' = d_more d"
      "length (items (d_pipes d')) = length (items b)"
      "\<And>j. Suc (i + n) \<le> j \<Longrightarrow> set (take j (items (d_pipes d'))) = set (take j (items b))"
      "set (take (Suc (?k + n)) (items (d_pipes d'))) = set (take (Suc ?k) (items b)) \<union> set (take n (drop (Suc i) (items b)))"
    by auto
  have "set (take (Suc ?k) (items b)) = insert (?xs ! i) (set (take ?k ?xs))"
    using swap_in_prefix [OF arr_ok_distinct [OF Suc.prems(1)] il(1) Suc.prems(3)] b(3) by simp
  moreover have "drop (Suc i) (items b) = drop (Suc i) ?xs" using b(3) Suc.prems(3) by simp
  moreover have "take (Suc n) (drop i ?xs) = ?xs ! i # take n (drop (Suc i) ?xs)"
    using il(1) by (simp add: Cons_nth_drop_Suc [symmetric])
  ultimately have "set (take (Suc (?k + n)) (items (d_pipes d'))) = set (take ?k ?xs) \<union> set (take (Suc n) (drop i ?xs))"
    using d'(9) by auto
  moreover have "set (take j (items (d_pipes d'))) = set (take j ?xs)" if "i + Suc n \<le> j" for j
  proof -
    have "set (take j (items b)) = set (take j ?xs)"
    proof (cases "j \<le> length ?xs")
      case True
      show ?thesis unfolding b(3) by (rule swap_prefix) (use that Suc.prems True il in auto)
    next
      case False
      then show ?thesis using b(3) swap_set [OF il] by simp
    qed
    with d'(8) [of j] that show ?thesis by simp
  qed
  moreover have "reverse_loop (Suc n) i d = Some d'" using b(1) d'(1) by simp
  ultimately show ?case using d'(2-7) b(3) by (intro exI [of _ d']) simp
qed simp

lemma dist_reverse_ok:
  assumes "dist_inv d" "\<not> d_more d"
  shows "\<exists>d'. dist_reverse_match d = Some d' \<and> dist_inv d' \<and> d_more d' = d_more d \<and> attached d' = attached d \<and>
    eligible_set d' = eligible_set d \<and> active_set d' = active_set d \<and>
    matching_set d' = eligible_set d - matching_set d"
proof -
  let ?k = "d_matching d" and ?e = "d_eligible d" and ?xs = "items (d_pipes d)"
  from assms have i: "arr_ok (d_pipes d)" "?k \<le> ?e" "d_active d = ?e" "?e \<le> length ?xs" by (auto simp: dist_inv_def)
  from reverse_loop_ok [of "dist_unmatch d" ?k "?e - ?k"] i obtain d' where
    d': "reverse_loop (?e - ?k) ?k (dist_unmatch d) = Some d'" "arr_ok (d_pipes d')" "d_matching d' = ?e - ?k"
      "d_active d' = d_active d" "d_eligible d' = ?e" "d_more d' = d_more d" "length (items (d_pipes d')) = length ?xs"
      "\<And>j. ?e \<le> j \<Longrightarrow> set (take j (items (d_pipes d'))) = set (take j ?xs)"
      "set (take (?e - ?k) (items (d_pipes d'))) = set (take (?e - ?k) (drop ?k ?xs))"
    by (auto simp: dist_unmatch_def)
  have "take ?e ?xs = take ?k ?xs @ take (?e - ?k) (drop ?k ?xs)"
    using i(2) by (metis le_add_diff_inverse take_add)
  moreover have "distinct (take ?e ?xs)" using arr_ok_distinct [OF i(1)] by simp
  ultimately have "set (take (?e - ?k) (drop ?k ?xs)) = set (take ?e ?xs) - set (take ?k ?xs)" by auto
  moreover have "set (items (d_pipes d')) = set ?xs" using d'(8) [of "length ?xs"] i(4) d'(7) by simp
  ultimately show ?thesis using d' i(2-4) d'(8) [of ?e]
    by (intro exI [of _ d']) (auto simp: dist_reverse_match_def dist_inv_def dist_sets)
qed

subsection \<open>Sending\<close>

lemma dist_write_fails:
  assumes inv: "dist_inv d" and p: "p \<in> matching_set d" and w: "wr p m w = Some (False, w')"
  shows "\<exists>d'. dist_write wr fl p m d w = Some (False, d', w') \<and> dist_inv d' \<and> d_more d' = d_more d \<and>
    attached d' = attached d \<and> eligible_set d' = eligible_set d - {p} \<and> active_set d' = active_set d - {p} \<and>
    matching_set d' = matching_set d - {p} \<and> Suc (d_matching d') = d_matching d \<and>
    (\<forall>j. j \<le> index_of (d_pipes d) p \<longrightarrow> take j (items (d_pipes d')) = take j (items (d_pipes d)))"
proof -
  let ?a = "d_pipes d"
  from inv have i: "arr_ok ?a" "d_matching d \<le> d_active d" "d_active d \<le> d_eligible d"
    "d_eligible d \<le> length (items ?a)" "\<not> d_more d \<longrightarrow> d_active d = d_eligible d" by (auto simp: dist_inv_def)
  have ps: "p \<in> set (items ?a)" using p by (auto simp: matching_set_def dest: in_set_takeD)
  have im: "index_of ?a p < d_matching d"
    using in_prefix_iff [OF i(1) ps, of "d_matching d"] p i by (simp add: matching_set_def)
  from leave3_ok [OF i(1) ps i(2-4)] obtain a1 a2 a3 k n e where
    l: "leave p (d_matching d) ?a = Some (k, a1)" "leave p (d_active d) a1 = Some (n, a2)"
      "leave p (d_eligible d) a2 = Some (e, a3)" "arr_ok a3" "set (items a3) = set (items ?a)"
      "length (items a3) = length (items ?a)" "k \<le> n" "n \<le> e" "d_active d = d_eligible d \<longrightarrow> n = e"
      "k = shrunk (index_of ?a p) (d_matching d)" "n = shrunk (index_of a1 p) (d_active d)"
      "e = shrunk (index_of a2 p) (d_eligible d)"
      "index_of ?a p < d_matching d \<longrightarrow> index_of a1 p < d_active d"
      "index_of a1 p < d_active d \<longrightarrow> index_of a2 p = n"
      "set (take k (items a3)) = set (take (d_matching d) (items ?a)) - {p}"
      "set (take n (items a3)) = set (take (d_active d) (items ?a)) - {p}"
      "set (take e (items a3)) = set (take (d_eligible d) (items ?a)) - {p}"
      "\<forall>j. j \<le> k \<longrightarrow> j \<le> index_of ?a p \<longrightarrow> take j (items a3) = take j (items ?a)"
    by (elim exE conjE) (rule that)
  from im l(10-14) i have k: "k = d_matching d - 1" "n = d_active d - 1" "index_of a1 p < d_active d" "index_of a2 p = n"
    by (auto simp: shrunk_def)
  moreover have "n < d_eligible d" using k(2,3) i(3) by simp
  ultimately have e: "e = d_eligible d - 1" using l(12) by (simp add: shrunk_def)
  have s: "arr_swap (index_of ?a p) (d_matching d - 1) ?a = Some a1"
    "arr_swap (index_of a1 p) (d_active d - 1) a1 = Some a2"
    "arr_swap (d_active d - 1) (d_eligible d - 1) a2 = Some a3"
    using l(1-3) im k \<open>n < d_eligible d\<close> by (auto simp: leave_def bind_eq_Some_conv)
  let ?d = "d\<lparr>d_pipes := a3, d_matching := d_matching d - 1, d_active := d_active d - 1, d_eligible := d_eligible d - 1\<rparr>"
  have pos: "0 < d_matching d" "0 < d_active d" "0 < d_eligible d" using im i by linarith+
  have "dist_write wr fl p m d w = Some (False, ?d, w')"
    using w s pos by (simp add: dist_write_def)
  moreover have "dist_inv ?d" using l(4,6-9) k e i by (auto simp: dist_inv_def)
  moreover have "take j (items a3) = take j (items ?a)" if "j \<le> index_of ?a p" for j
  proof -
    have "j \<le> k" using that im k(1) by simp
    with l(18) that show ?thesis by blast
  qed
  ultimately show ?thesis using l(5,15-17) k e pos
    by (intro exI [of _ ?d]) (simp add: dist_sets)
qed

text \<open>
  A target whose pipes have observable contents: a write that succeeds stores the part in
  that pipe and nowhere else, and a flush changes no content.
\<close>

locale pipe_log = pipe_target +
  fixes content :: "nat \<Rightarrow> 'a \<Rightarrow> 'c"
    and store :: "vmsg \<Rightarrow> 'c \<Rightarrow> 'c"
  assumes write_content: "alive p w \<Longrightarrow> wr p m w = Some (b, w') \<Longrightarrow> alive x w \<Longrightarrow>
      content x w' = (if x = p \<and> b then store m (content x w) else content x w)"
    and flush_content: "alive p w \<Longrightarrow> fl p w = Some w' \<Longrightarrow> alive x w \<Longrightarrow>
      content x w' = content x w \<and> room x w' = room x w"
begin

definition refused :: "nat set \<Rightarrow> 'a \<Rightarrow> nat set" where
  "refused U w = {x \<in> U. \<not> room x w}"

lemma dist_write_succeeds:
  assumes "alive p w" "room p w"
  obtains w' where "dist_write wr fl p m d w = Some (True, d, w')" "\<forall>x. alive x w \<longrightarrow> alive x w'"
    "\<forall>x. alive x w \<longrightarrow> content x w' = (if x = p then store m (content x w) else content x w)"
    "\<forall>x. x \<noteq> p \<longrightarrow> alive x w \<longrightarrow> room x w' = room x w"
proof -
  from write_ok [OF assms(1), of m] assms(2) obtain w1 where
    w1: "wr p m w = Some (True, w1)" "\<forall>x. alive x w \<longrightarrow> alive x w1"
      "\<forall>x. x \<noteq> p \<longrightarrow> alive x w \<longrightarrow> room x w1 = room x w" by auto
  have c1: "\<forall>x. alive x w \<longrightarrow> content x w1 = (if x = p then store m (content x w) else content x w)"
    using write_content [OF assms(1) w1(1)] by simp
  show thesis
  proof (cases "has_more m")
    case True
    with w1 c1 show thesis by (intro that [of w1]) (simp_all add: dist_write_def)
  next
    case False
    from w1(2) assms(1) have "alive p w1" by blast
    from flush_ok [OF this] obtain w2 where w2: "fl p w1 = Some w2" "\<forall>x. alive x w1 \<longrightarrow> alive x w2" by blast
    have "content x w2 = content x w1 \<and> room x w2 = room x w1" if "alive x w" for x
      using flush_content [OF \<open>alive p w1\<close> w2(1)] w1(2) that by blast
    with False w1 w2 c1 show thesis by (intro that [of w2]) (simp_all add: dist_write_def)
  qed
qed

lemma dist_loop_ok:
  assumes "dist_inv d" "n = d_matching d - i" "i \<le> d_matching d" "\<forall>x\<in>matching_set d. alive x w"
    and "U = matching_set d - set (take i (items (d_pipes d)))"
  shows "\<exists>f d' w'. dist_loop wr fl m n i d w = Some (f, d', w') \<and> dist_inv d' \<and> d_more d' = d_more d \<and>
    attached d' = attached d \<and> f + d_matching d' = d_matching d \<and>
    matching_set d' = matching_set d - refused U w \<and> active_set d' = active_set d - refused U w \<and>
    eligible_set d' = eligible_set d - refused U w \<and>
    (\<forall>x. alive x w \<longrightarrow> alive x w' \<and>
       content x w' = (if x \<in> U \<and> room x w then store m (content x w) else content x w))"
  using assms
proof (induction n arbitrary: i d w U)
  case 0
  then have "U = {}" by (auto simp: matching_set_def)
  with 0 show ?case by (simp add: refused_def)
next
  case (Suc n)
  let ?xs = "items (d_pipes d)" and ?p = "items (d_pipes d) ! i" and ?k = "d_matching d"
  from Suc.prems(1) have i: "arr_ok (d_pipes d)" "?k \<le> length ?xs" by (auto simp: dist_inv_def)
  have ik: "i < ?k" "i < length ?xs" using Suc.prems(2,3) i(2) by auto
  note dst = arr_ok_distinct [OF i(1)]
  have idx: "index_of (d_pipes d) ?p = i" by (rule arr_ok_nth [OF i(1) ik(2)])
  have tS: "take (Suc i) ?xs = take i ?xs @ [?p]" using ik(2) by (rule take_Suc_conv_app_nth)
  have "distinct (take (Suc i) ?xs)" using dst by simp
  then have pt: "?p \<notin> set (take i ?xs)" using tS by simp
  have pm: "?p \<in> matching_set d" using in_prefix_iff [OF i(1) _ i(2)] idx ik by (simp add: matching_set_def)
  with pt Suc.prems(5) have pU: "?p \<in> U" by simp
  from pm Suc.prems(4) have al: "alive ?p w" by blast
  show ?case
  proof (cases "room ?p w")
    case True
    from dist_write_succeeds [OF al True, of m d] obtain w1 where
      w1: "dist_write wr fl ?p m d w = Some (True, d, w1)" "\<forall>x. alive x w \<longrightarrow> alive x w1"
        "\<forall>x. alive x w \<longrightarrow> content x w1 = (if x = ?p then store m (content x w) else content x w)"
        "\<forall>x. x \<noteq> ?p \<longrightarrow> alive x w \<longrightarrow> room x w1 = room x w" .
    let ?U = "U - {?p}"
    have "?U = matching_set d - set (take (i + 1) ?xs)" using Suc.prems(5) tS by auto
    moreover have "n = d_matching d - (i + 1)" "i + 1 \<le> d_matching d" "\<forall>x\<in>matching_set d. alive x w1"
      using Suc.prems(2,4) ik w1(2) by auto
    ultimately obtain f d' w' where
      r: "dist_loop wr fl m n (i + 1) d w1 = Some (f, d', w')" "dist_inv d'" "d_more d' = d_more d"
        "attached d' = attached d" "f + d_matching d' = d_matching d"
        "matching_set d' = matching_set d - refused ?U w1" "active_set d' = active_set d - refused ?U w1"
        "eligible_set d' = eligible_set d - refused ?U w1"
        "\<forall>x. alive x w1 \<longrightarrow> alive x w' \<and>
          content x w' = (if x \<in> ?U \<and> room x w1 then store m (content x w1) else content x w1)"
      using Suc.IH [OF Suc.prems(1), of "i + 1" w1 ?U] by auto
    have "room x w1 = room x w" if "x \<in> U" "x \<noteq> ?p" for x
      using that Suc.prems(4,5) w1(4) by blast
    with True have "refused ?U w1 = refused U w" unfolding refused_def by blast
    moreover have "alive x w' \<and> content x w' = (if x \<in> U \<and> room x w then store m (content x w) else content x w)"
      if x: "alive x w" for x
    proof -
      from x w1(2) have x1: "alive x w1" by blast
      show ?thesis
      proof (cases "x = ?p")
        case True
        with \<open>room ?p w\<close> pU x x1 r(9) w1(3) show ?thesis by simp
      next
        case False
        with x x1 r(9) w1(3,4) show ?thesis by simp
      qed
    qed
    moreover have "dist_loop wr fl m (Suc n) i d w = Some (f, d', w')" using w1(1) r(1) ik(2) by simp
    ultimately show ?thesis using r(2-8) by auto
  next
    case False
    from write_ok [OF al, of m] False obtain w1 where
      w1: "wr ?p m w = Some (False, w1)" "\<forall>x. alive x w \<longrightarrow> alive x w1"
        "\<forall>x. x \<noteq> ?p \<longrightarrow> alive x w \<longrightarrow> room x w1 = room x w" by auto
    have c1: "content x w1 = content x w" if "alive x w" for x using write_content [OF al w1(1) that] by simp
    from dist_write_fails [where fl = fl and wr = wr and m = m and w = w and w' = w1, OF Suc.prems(1) pm w1(1)] idx obtain d1 where
      d1: "dist_write wr fl ?p m d w = Some (False, d1, w1)" "dist_inv d1" "d_more d1 = d_more d"
        "attached d1 = attached d" "eligible_set d1 = eligible_set d - {?p}" "active_set d1 = active_set d - {?p}"
        "matching_set d1 = matching_set d - {?p}" "Suc (d_matching d1) = d_matching d"
        "take i (items (d_pipes d1)) = take i ?xs" by auto
    let ?U = "U - {?p}"
    have U: "?U = matching_set d1 - set (take i (items (d_pipes d1)))" using Suc.prems(5) d1(7,9) by auto
    have "n = d_matching d1 - i" "i \<le> d_matching d1" using Suc.prems(2) d1(8) ik by auto
    moreover have "\<forall>x\<in>matching_set d1. alive x w1" using d1(7) Suc.prems(4) w1(2) by auto
    ultimately obtain f d' w' where
      r: "dist_loop wr fl m n i d1 w1 = Some (f, d', w')" "dist_inv d'" "d_more d' = d_more d1"
        "attached d' = attached d1" "f + d_matching d' = d_matching d1"
        "matching_set d' = matching_set d1 - refused ?U w1" "active_set d' = active_set d1 - refused ?U w1"
        "eligible_set d' = eligible_set d1 - refused ?U w1"
        "\<forall>x. alive x w1 \<longrightarrow> alive x w' \<and>
          content x w' = (if x \<in> ?U \<and> room x w1 then store m (content x w1) else content x w1)"
      using Suc.IH [OF d1(2) _ _ _ U, of w1] by auto
    have "\<forall>x\<in>U. alive x w" using Suc.prems(4,5) by blast
    then have ref: "refused U w = insert ?p (refused ?U w1)" using w1(3) False pU by (auto simp: refused_def)
    moreover have "alive x w' \<and> content x w' = (if x \<in> U \<and> room x w then store m (content x w) else content x w)"
      if x: "alive x w" for x
    proof -
      from x w1(2) have x1: "alive x w1" by blast
      show ?thesis
      proof (cases "x = ?p")
        case True
        with False x1 r(9) c1 [OF x] show ?thesis by simp
      next
        case nf: False
        with x x1 r(9) w1(3) c1 [OF x] show ?thesis by simp
      qed
    qed
    moreover have "dist_loop wr fl m (Suc n) i d w = Some (f + 1, d', w')" using d1(1) r(1) ik(2) by simp
    moreover have "matching_set d' = matching_set d - refused U w" "active_set d' = active_set d - refused U w"
      "eligible_set d' = eligible_set d - refused U w"
      using r(6-8) d1(5-7) ref by auto
    ultimately show ?thesis using r(2-5) d1(3,4,8) by auto
  qed
qed

text \<open>\<open>send_to_matching\<close>: every matching pipe with room gets the part once, no other pipe anything.\<close>

lemma send_to_matching_ok:
  assumes "dist_inv d" "\<forall>x\<in>matching_set d. alive x w"
  shows "\<exists>d' w'. send_to_matching wr fl m d w = Some (d', w') \<and> dist_inv d' \<and> d_more d' = has_more m \<and>
    attached d' = attached d \<and> matching_set d' = matching_set d - refused (matching_set d) w \<and>
    eligible_set d' = eligible_set d - refused (matching_set d) w \<and>
    active_set d' = (if has_more m then active_set d else eligible_set d) - refused (matching_set d) w \<and>
    (\<forall>x. alive x w \<longrightarrow> alive x w' \<and>
       content x w' = (if x \<in> matching_set d \<and> room x w then store m (content x w) else content x w))"
proof -
  from dist_loop_ok [OF assms(1) _ _ assms(2), of "d_matching d" 0 "matching_set d" m]
  obtain f d' w' where
    r: "dist_loop wr fl m (d_matching d) 0 d w = Some (f, d', w')" "dist_inv d'" "d_more d' = d_more d"
      "attached d' = attached d" "f + d_matching d' = d_matching d"
      "matching_set d' = matching_set d - refused (matching_set d) w"
      "active_set d' = active_set d - refused (matching_set d) w"
      "eligible_set d' = eligible_set d - refused (matching_set d) w"
      "\<forall>x. alive x w \<longrightarrow> alive x w' \<and>
        content x w' = (if x \<in> matching_set d \<and> room x w then store m (content x w) else content x w)" by auto
  have dd: "distribute wr fl m d w = Some (f, d', w')" using r(1) by (cases "d_matching d = 0") (auto simp: distribute_def)
  let ?d = "(if \<not> has_more m then d'\<lparr>d_active := d_eligible d'\<rparr> else d')\<lparr>d_more := has_more m\<rparr>"
  have "send_to_matching wr fl m d w = Some (?d, w')" using dd by (simp add: send_to_matching_def)
  moreover have "dist_inv ?d" using r(2) by (auto simp: dist_inv_def)
  ultimately show ?thesis using r(4,6-9)
    by (intro exI [of _ ?d] exI [of _ w']) (auto simp: dist_sets)
qed

end

end
