(* ===== verification/Socket_Pipes.thy ===== *)
theory Socket_Pipes
  imports Pipe_Pair Fair_Queue Distributor
begin

text \<open>
  The pipes of a socket together, and the three ways a socket uses them: fair queueing,
  load balancing and distribution (\<open>fq.cpp\<close>, \<open>lb.cpp\<close>, \<open>dist.cpp\<close>) on the operations of
  \<open>pipe.cpp\<close>. The interpretations at the end show that the real pipes keep the laws which
  the three components ask for, so that their results hold of the code's pipes.
\<close>

record world =
  pends :: "nat \<rightharpoonup> pipe_t"
  wnet :: net

definition w_read :: "nat \<Rightarrow> world \<Rightarrow> (vmsg option \<times> world) option" where
  "w_read p w = do {
     e \<leftarrow> pends w p;
     (r, e, n) \<leftarrow> p_read e (wnet w);
     Some (r, w\<lparr>pends := (pends w)(p \<mapsto> e), wnet := n\<rparr>) }"

definition w_check_read :: "nat \<Rightarrow> world \<Rightarrow> (bool \<times> world) option" where
  "w_check_read p w = do {
     e \<leftarrow> pends w p;
     (b, e, n) \<leftarrow> p_check_read e (wnet w);
     Some (b, w\<lparr>pends := (pends w)(p \<mapsto> e), wnet := n\<rparr>) }"

definition w_write :: "nat \<Rightarrow> vmsg \<Rightarrow> world \<Rightarrow> (bool \<times> world) option" where
  "w_write p m w = do {
     e \<leftarrow> pends w p;
     (b, e, n) \<leftarrow> p_write m e (wnet w);
     Some (b, w\<lparr>pends := (pends w)(p \<mapsto> e), wnet := n\<rparr>) }"

definition w_check_write :: "nat \<Rightarrow> world \<Rightarrow> (bool \<times> world) option" where
  "w_check_write p w = do {
     e \<leftarrow> pends w p;
     let (b, e) = p_check_write e;
     Some (b, w\<lparr>pends := (pends w)(p \<mapsto> e)\<rparr>) }"

definition w_rollback :: "nat \<Rightarrow> world \<Rightarrow> world option" where
  "w_rollback p w = do { e \<leftarrow> pends w p; n \<leftarrow> p_rollback e (wnet w); Some (w\<lparr>wnet := n\<rparr>) }"

definition w_flush :: "nat \<Rightarrow> world \<Rightarrow> world option" where
  "w_flush p w = do { e \<leftarrow> pends w p; n \<leftarrow> p_flush e (wnet w); Some (w\<lparr>wnet := n\<rparr>) }"

definition w_terminate :: "bool \<Rightarrow> nat \<Rightarrow> world \<Rightarrow> world option" where
  "w_terminate d p w = do {
     e \<leftarrow> pends w p;
     (e, n) \<leftarrow> p_terminate d e (wnet w);
     Some (w\<lparr>pends := (pends w)(p \<mapsto> e), wnet := n\<rparr>) }"

definition w_credential :: "world \<Rightarrow> nat \<Rightarrow> byte list" where
  "w_credential w p = (case pends w p of None \<Rightarrow> [] | Some e \<Rightarrow> p_credential e)"

subsection \<open>Well-formed sets of pipes\<close>

definition world_ok :: "world \<Rightarrow> bool" where
  "world_ok w \<longleftrightarrow> (\<forall>p e. pends w p = Some e \<longrightarrow> ready_end e (wnet w)) \<and>
     (\<forall>p q e f. pends w p = Some e \<longrightarrow> pends w q = Some f \<longrightarrow> p \<noteq> q \<longrightarrow>
       inpipe e \<noteq> inpipe f \<and> (outpipe e \<noteq> None \<longrightarrow> outpipe e \<noteq> outpipe f))"

lemma ready_end_mono:
  assumes "ready_end f n" "net_ok n'" "dom (upipes n) \<subseteq> dom (upipes n')"
  shows "ready_end f n'"
  using assms unfolding ready_end_def by blast

text \<open>A step of one end that does not touch its pipes as such keeps the set well-formed.\<close>

lemma world_ok_step:
  assumes ok: "world_ok w" and e: "pends w p = Some e" and n: "net_ok n" "dom (upipes n) = dom (upipes (wnet w))"
    and s: "peer e' = peer e" "sink e' = sink e" "inpipe e' = inpipe e"
      "outpipe e' = outpipe e \<and> state e' = state e \<or> outpipe e' = None \<and> acked (state e') \<or>
       outpipe e' = outpipe e \<and> \<not> acked (state e) \<and> \<not> acked (state e')"
  shows "world_ok (w\<lparr>pends := (pends w)(p \<mapsto> e'), wnet := n\<rparr>)"
proof -
  let ?w = "w\<lparr>pends := (pends w)(p \<mapsto> e'), wnet := n\<rparr>"
  from ok e have r: "ready_end e (wnet w)" by (auto simp: world_ok_def)
  have "ready_end e' n" using r n s unfolding ready_end_def by auto
  moreover have "ready_end f n" if "pends w q = Some f" for q f
    using ok that n ready_end_mono [of f "wnet w" n] by (auto simp: world_ok_def)
  ultimately have "ready_end f (wnet ?w)" if "pends ?w q = Some f" for q f
    using that by (auto split: if_splits)
  moreover have "inpipe f \<noteq> inpipe g \<and> (outpipe f \<noteq> None \<longrightarrow> outpipe f \<noteq> outpipe g)"
    if h: "pends ?w q = Some f" "pends ?w x = Some g" "q \<noteq> x" for q x f g
  proof -
    have o: "outpipe e' = outpipe e \<or> outpipe e' = None" using s(4) by auto
    have d: "inpipe a \<noteq> inpipe b \<and> (outpipe a \<noteq> None \<longrightarrow> outpipe a \<noteq> outpipe b)"
      if "pends w y = Some a" "pends w z = Some b" "y \<noteq> z" for y z a b
      using ok that unfolding world_ok_def by blast
    consider "q = p" "f = e'" "pends w x = Some g" | "x = p" "g = e'" "pends w q = Some f"
      | "pends w q = Some f" "pends w x = Some g"
      using h by (cases "q = p"; cases "x = p") auto
    then show ?thesis
    proof cases
      case 1
      with d [OF e] h(3) o s(3) show ?thesis by metis
    next
      case 2
      with d [OF _ e] h(3) o s(3) show ?thesis by (metis option.simps(3))
    next
      case 3
      with d h(3) show ?thesis by blast
    qed
  qed
  ultimately show ?thesis unfolding world_ok_def by blast
qed

lemma world_end: "world_ok w \<Longrightarrow> pends w p = Some e \<Longrightarrow> ready_end e (wnet w)"
  by (simp add: world_ok_def)

subsection \<open>Reading\<close>

text \<open>Whether a read of the end would deliver a part.\<close>

definition readable_end :: "pipe_t \<Rightarrow> upipe \<Rightarrow> bool" where
  "readable_end e u \<longleftrightarrow> in_active e \<and> (state e = Active \<or> state e = Waiting_for_delimiter) \<and>
     (case read_message u (p_credential e) of (Some m, _) \<Rightarrow> \<not> v_is_delimiter m | _ \<Rightarrow> False)"

definition w_readable :: "nat \<Rightarrow> world \<Rightarrow> bool" where
  "w_readable p w \<longleftrightarrow> (\<exists>e i u. pends w p = Some e \<and> inpipe e = Some i \<and> upipes (wnet w) i = Some u \<and>
     readable_end e u)"

lemma w_readable_code [code]:
  "w_readable p w = (case pends w p of None \<Rightarrow> False | Some e \<Rightarrow>
     (case inpipe e of None \<Rightarrow> False | Some i \<Rightarrow>
       (case upipes (wnet w) i of None \<Rightarrow> False | Some u \<Rightarrow> readable_end e u)))"
  by (auto simp: w_readable_def split: option.splits)

text \<open>No delimiter carries the credential flag.\<close>

fun msgs_in :: "upipe \<Rightarrow> vmsg list" where
  "msgs_in (Normal l) = ready l"
| "msgs_in (Conflated x) = (case x of None \<Rightarrow> [] | Some m \<Rightarrow> [m])"

text \<open>What the pipe \<open>p\<close> can read.\<close>

definition inbox :: "nat \<Rightarrow> world \<Rightarrow> vmsg list" where
  "inbox p w = (case pends w p of None \<Rightarrow> [] | Some e \<Rightarrow>
     (case inpipe e of None \<Rightarrow> [] | Some i \<Rightarrow>
       (case upipes (wnet w) i of None \<Rightarrow> [] | Some u \<Rightarrow> msgs_in u)))"

lemma inbox_at: "pends w p = Some e \<Longrightarrow> inpipe e = Some i \<Longrightarrow> upipes (wnet w) i = Some u \<Longrightarrow> inbox p w = msgs_in u"
  by (simp add: inbox_def)

text \<open>A change of one queue, seen from the pipes.\<close>

lemma inbox_update:
  assumes "pends w p = Some e" "inpipe e' = inpipe e" "inpipe e = Some i" "upipes (wnet w) i = Some u"
    "upipes n = (upipes (wnet w))(i \<mapsto> u')"
  shows "inbox x (w\<lparr>pends := (pends w)(p \<mapsto> e'), wnet := n\<rparr>) =
    (if map_option inpipe (pends w x) = Some (Some i) then msgs_in u' else inbox x w)"
  using assms by (auto simp: inbox_def split: option.splits)

lemma inbox_shared: "map_option inpipe (pends w x) = Some (Some i) \<Longrightarrow> upipes (wnet w) i = Some u \<Longrightarrow> inbox x w = msgs_in u"
  by (auto simp: inbox_def)

lemma inbox_shrinks:
  assumes "pends w p = Some e" "inpipe e' = inpipe e" "inpipe e = Some i" "upipes (wnet w) i = Some u"
    "upipes n = (upipes (wnet w))(i \<mapsto> u')" "set (msgs_in u') \<subseteq> set (msgs_in u)"
  shows "set (inbox x (w\<lparr>pends := (pends w)(p \<mapsto> e'), wnet := n\<rparr>)) \<subseteq> set (inbox x w)"
  using inbox_update [OF assms(1-5), of x] inbox_shared [of w x i u] assms(4,6) by (auto split: if_splits)

definition msgs_ok :: "world \<Rightarrow> bool" where
  "msgs_ok w \<longleftrightarrow> (\<forall>p. \<forall>m\<in>set (inbox p w). \<not> (v_is_delimiter m \<and> v_is_credential m))"

definition can_read :: "nat \<Rightarrow> world \<Rightarrow> bool" where
  "can_read p w \<longleftrightarrow> world_ok w \<and> msgs_ok w \<and> pends w p \<noteq> None"

lemma up_read_msgs: "up_read u = (r, u') \<Longrightarrow> set (msgs_in u') \<subseteq> set (msgs_in u) \<and> (\<forall>m. r = Some m \<longrightarrow> m \<in> set (msgs_in u))"
  by (cases u) (auto simp: lp_read_def split: list.splits option.splits)

lemma read_message_msgs: "read_message u c = (r, c', u') \<Longrightarrow> set (msgs_in u') \<subseteq> set (msgs_in u)"
proof (induction u c rule: read_message.induct)
  case (1 u c)
  obtain x v where x: "up_read u = (x, v)" by (cases "up_read u")
  with up_read_msgs [OF x] 1 show ?case
    by (auto simp: read_message.simps [of u] split: option.splits if_splits)
qed

lemma process_delimiter_effect:
  assumes "p_process_delimiter e n = Some (e', n')"
  shows "upipes n' = upipes n \<and> inpipe e' = inpipe e \<and> peer e' = peer e \<and> sink e' = sink e \<and>
    state e' \<noteq> Active \<and> state e' \<noteq> Waiting_for_delimiter \<and>
    (outpipe e' = outpipe e \<and> \<not> acked (state e) \<and> \<not> acked (state e') \<or> outpipe e' = None \<and> acked (state e'))"
  using assms by (auto simp: p_process_delimiter_def send_def bind_eq_Some_conv split: if_splits)

lemma read_effect:
  assumes "p_read e n = Some (r, e', n')" "inpipe e = Some i" "upipes n i = Some u"
  shows "(r \<noteq> None \<longleftrightarrow> readable_end e u) \<and> inpipe e' = inpipe e \<and> peer e' = peer e \<and> sink e' = sink e \<and>
    (\<exists>u'. upipes n' = (upipes n)(i \<mapsto> u') \<and> set (msgs_in u') \<subseteq> set (msgs_in u)) \<and>
    (outpipe e' = outpipe e \<and> state e' = state e \<or> outpipe e' = None \<and> acked (state e') \<or>
       outpipe e' = outpipe e \<and> \<not> acked (state e) \<and> \<not> acked (state e'))"
proof (cases "in_active e \<and> (state e = Active \<or> state e = Waiting_for_delimiter)")
  case False
  with assms have "r = None" "e' = e" "n' = n" by (auto simp: p_read_def split: if_splits)
  with False assms show ?thesis by (auto simp: readable_end_def intro!: exI [of _ u])
next
  case True
  obtain x c v where x: "read_message u (p_credential e) = (x, c, v)" by (cases "read_message u (p_credential e)")
  note sub = read_message_msgs [OF x]
  show ?thesis
  proof (cases x)
    case None
    with True x assms have "r = None" "e' = e\<lparr>p_credential := c, in_active := False\<rparr>" "n' = put_upipe i v n"
      by (auto simp: p_read_def)
    with None x sub show ?thesis by (auto simp: readable_end_def)
  next
    case (Some m)
    show ?thesis
    proof (cases "v_is_delimiter m")
      case dl: True
      with True Some x assms have "r = None" and
        d: "p_process_delimiter (e\<lparr>p_credential := c\<rparr>) (put_upipe i v n) = Some (e', n')"
        by (auto simp: p_read_def bind_eq_Some_conv)
      with process_delimiter_effect [OF d] dl Some x sub show ?thesis by (auto simp: readable_end_def)
    next
      case False
      with True Some x assms show ?thesis using sub
        by (auto simp: p_read_def readable_end_def send_def bind_eq_Some_conv Let_def split: if_splits)
    qed
  qed
qed

lemma check_read_effect:
  assumes "p_check_read e n = Some (b, e', n')" "inpipe e = Some i" "upipes n i = Some u"
    and ok: "\<forall>m\<in>set (msgs_in u). \<not> (v_is_delimiter m \<and> v_is_credential m)"
  shows "(readable_end e u \<longrightarrow> b) \<and> inpipe e' = inpipe e \<and> peer e' = peer e \<and> sink e' = sink e \<and>
    (\<exists>u'. upipes n' = (upipes n)(i \<mapsto> u') \<and> set (msgs_in u') \<subseteq> set (msgs_in u) \<and>
      readable_end e' u' = readable_end e u) \<and>
    (outpipe e' = outpipe e \<and> state e' = state e \<or> outpipe e' = None \<and> acked (state e') \<or>
       outpipe e' = outpipe e \<and> \<not> acked (state e) \<and> \<not> acked (state e'))"
proof (cases "in_active e \<and> (state e = Active \<or> state e = Waiting_for_delimiter)")
  case False
  with assms have "\<not> b" "e' = e" "n' = n" by (auto simp: p_check_read_def split: if_splits)
  with False assms show ?thesis by (auto simp: readable_end_def intro!: exI [of _ u])
next
  case True
  obtain k v where k: "up_check_read u = (k, v)" by (cases "up_check_read u")
  show ?thesis
  proof (cases k)
    case False
    with k have "up_read u = (None, v') \<Longrightarrow> True" "fst (up_read u) = None" "msgs_in v = msgs_in u" for v'
      by (cases u; auto simp: lp_check_read_def lp_read_def split: if_splits list.splits)+
    then have "fst (read_message u (p_credential e)) = None"
      by (cases "up_read u") (simp add: read_message.simps [of u])
    then have nr: "\<not> readable_end e u" by (cases "read_message u (p_credential e)") (simp add: readable_end_def)
    from True False k assms have e: "\<not> b" "e' = e\<lparr>in_active := False\<rparr>" "n' = put_upipe i v n"
      by (auto simp: p_check_read_def)
    with nr \<open>msgs_in v = msgs_in u\<close> show ?thesis
      by (auto simp: readable_end_def intro!: exI [of _ v])
  next
    case kt: True
    with k have vu: "v = u" by (cases u) (auto simp: lp_check_read_def split: if_splits)
    from probe_ok [of u v v_is_delimiter] k kt vu obtain d m u2 where
      d: "up_probe v_is_delimiter u = Some d" "up_read u = (Some m, u2)" by auto
    have dm: "d = v_is_delimiter m" "m \<in> set (msgs_in u)"
      using d by (cases u; auto simp: lp_read_def split: list.splits option.splits)+
    show ?thesis
    proof (cases d)
      case False
      with True k kt vu d assms have "b" "e' = e" "n' = put_upipe i u n" by (auto simp: p_check_read_def)
      then show ?thesis using assms(2) by (auto intro!: exI [of _ u])
    next
      case dt: True
      then have "\<not> v_is_credential m" "v_is_delimiter m" using dm ok by blast+
      then have nr: "\<not> readable_end e u" using d(2) by (simp add: readable_end_def read_message.simps [of u])
      from True k kt vu dt d assms obtain
        pd: "p_process_delimiter e (put_upipe i u2 (put_upipe i u n)) = Some (e', n')" and "\<not> b"
        by (auto simp: p_check_read_def bind_eq_Some_conv)
      note ef = process_delimiter_effect [OF pd]
      have "\<not> readable_end e' u2" using ef by (auto simp: readable_end_def)
      with nr ef \<open>\<not> b\<close> up_read_msgs [OF d(2)] show ?thesis by (auto intro!: exI [of _ u2])
    qed
  qed
qed

lemma other_readable:
  assumes "world_ok w" "pends w p = Some e" "inpipe e = Some i" "x \<noteq> p"
    "upipes n = (upipes (wnet w))(i \<mapsto> u)"
  shows "w_readable x (w\<lparr>pends := (pends w)(p \<mapsto> e'), wnet := n\<rparr>) = w_readable x w"
proof -
  have ne: "inpipe f \<noteq> Some i" if "pends w x = Some f" for f
    using assms(1-4) that unfolding world_ok_def by metis
  show ?thesis
  proof (cases "pends w x")
    case (Some f)
    with ne [OF Some] assms(4,5) show ?thesis by (cases "inpipe f") (auto simp: w_readable_def)
  qed (use assms(4) in \<open>simp add: w_readable_def\<close>)
qed

interpretation fq_pipes: pipe_source w_read w_check_read can_read w_readable
proof
  fix p w assume "can_read p w"
  then obtain e where ok: "world_ok w" "msgs_ok w" and e: "pends w p = Some e" by (auto simp: can_read_def)
  note rd = world_end [OF ok(1) e]
  from rd obtain q k i u where i: "net_ok (wnet w)" "peer e = Some q" "sink e = Some k" "inpipe e = Some i"
    "upipes (wnet w) i = Some u" "uwf u" by (rule ready_endE)
  from read_moved [OF rd] obtain r e' n' cs where
    r: "p_read e (wnet w) = Some (r, e', n')" "moved e (wnet w) e' n' cs" by blast
  let ?w = "w\<lparr>pends := (pends w)(p \<mapsto> e'), wnet := n'\<rparr>"
  from read_effect [OF r(1) i(4,5)] obtain u' where
    ef: "r \<noteq> None \<longleftrightarrow> readable_end e u" "inpipe e' = inpipe e" "peer e' = peer e" "sink e' = sink e"
      "upipes n' = (upipes (wnet w))(i \<mapsto> u')" "set (msgs_in u') \<subseteq> set (msgs_in u)"
      "outpipe e' = outpipe e \<and> state e' = state e \<or> outpipe e' = None \<and> acked (state e') \<or>
       outpipe e' = outpipe e \<and> \<not> acked (state e) \<and> \<not> acked (state e')" by blast
  have "net_ok n'" using r(2) by (simp add: moved_def)
  moreover have "dom (upipes n') = dom (upipes (wnet w))" using ef(5) i(5) by auto
  ultimately have "world_ok ?w" using world_ok_step [OF ok(1) e] ef by blast
  moreover have "msgs_ok ?w"
    using ok(2) inbox_shrinks [OF e ef(2) i(4,5) ef(5,6)] unfolding msgs_ok_def by blast
  ultimately have "can_read x ?w" if "can_read x w" for x using that by (auto simp: can_read_def)
  moreover have "w_readable p w = readable_end e u" using e i by (simp add: w_readable_def)
  moreover have "w_read p w = Some (r, ?w)" using e r(1) by (simp add: w_read_def)
  ultimately show "\<exists>r w'. w_read p w = Some (r, w') \<and> (r \<noteq> None \<longleftrightarrow> w_readable p w) \<and>
      (\<forall>x. can_read x w \<longrightarrow> can_read x w') \<and> (\<forall>x. x \<noteq> p \<longrightarrow> can_read x w \<longrightarrow> w_readable x w' = w_readable x w)"
    using ef(1) other_readable [OF ok(1) e i(4) _ ef(5)] by blast
next
  fix p w assume "can_read p w"
  then obtain e where ok: "world_ok w" "msgs_ok w" and e: "pends w p = Some e" by (auto simp: can_read_def)
  note rd = world_end [OF ok(1) e]
  from rd obtain q k i u where i: "net_ok (wnet w)" "peer e = Some q" "sink e = Some k" "inpipe e = Some i"
    "upipes (wnet w) i = Some u" "uwf u" by (rule ready_endE)
  from check_read_moved [OF rd] obtain b e' n' cs where
    r: "p_check_read e (wnet w) = Some (b, e', n')" "moved e (wnet w) e' n' cs" by blast
  let ?w = "w\<lparr>pends := (pends w)(p \<mapsto> e'), wnet := n'\<rparr>"
  have "\<forall>m\<in>set (msgs_in u). \<not> (v_is_delimiter m \<and> v_is_credential m)"
    using ok(2) inbox_at [OF e i(4,5)] unfolding msgs_ok_def by metis
  from check_read_effect [OF r(1) i(4,5) this] obtain u' where
    ef: "readable_end e u \<longrightarrow> b" "inpipe e' = inpipe e" "peer e' = peer e" "sink e' = sink e"
      "upipes n' = (upipes (wnet w))(i \<mapsto> u')" "set (msgs_in u') \<subseteq> set (msgs_in u)"
      "readable_end e' u' = readable_end e u"
      "outpipe e' = outpipe e \<and> state e' = state e \<or> outpipe e' = None \<and> acked (state e') \<or>
       outpipe e' = outpipe e \<and> \<not> acked (state e) \<and> \<not> acked (state e')" by blast
  have "net_ok n'" using r(2) by (simp add: moved_def)
  moreover have "dom (upipes n') = dom (upipes (wnet w))" using ef(5) i(5) by auto
  ultimately have "world_ok ?w" using world_ok_step [OF ok(1) e] ef by blast
  moreover have "msgs_ok ?w"
    using ok(2) inbox_shrinks [OF e ef(2) i(4,5) ef(5,6)] unfolding msgs_ok_def by blast
  ultimately have "can_read x ?w" if "can_read x w" for x using that by (auto simp: can_read_def)
  moreover have "w_readable x ?w = w_readable x w" for x
  proof (cases "x = p")
    case True
    with e i ef show ?thesis by (simp add: w_readable_def)
  qed (use other_readable [OF ok(1) e i(4) _ ef(5)] in blast)
  moreover have "w_readable p w = readable_end e u" using e i by (simp add: w_readable_def)
  moreover have "w_check_read p w = Some (b, ?w)" using e r(1) by (simp add: w_check_read_def)
  ultimately show "\<exists>b w'. w_check_read p w = Some (b, w') \<and> (w_readable p w \<longrightarrow> b) \<and>
      (\<forall>x. can_read x w \<longrightarrow> can_read x w' \<and> w_readable x w' = w_readable x w)"
    using ef(1) by blast
qed

subsection \<open>Writing\<close>

definition can_write :: "nat \<Rightarrow> world \<Rightarrow> bool" where
  "can_write p w \<longleftrightarrow> world_ok w \<and> pends w p \<noteq> None"

text \<open>The end takes another part: it is active and below its high watermark.\<close>

definition w_room :: "nat \<Rightarrow> world \<Rightarrow> bool" where
  "w_room p w \<longleftrightarrow> (\<exists>e. pends w p = Some e \<and> fst (p_check_write e))"

text \<open>
  What is in an outbound pipe: the parts in order, flushed or not. Of a conflating pipe,
  which keeps at most the last message, only its kind.
\<close>

fun up_content :: "upipe \<Rightarrow> bool \<times> vmsg list" where
  "up_content (Normal l) = (False, ready l @ unflushed l @ partial l)"
| "up_content (Conflated x) = (True, [])"

fun up_store :: "vmsg \<Rightarrow> bool \<times> vmsg list \<Rightarrow> bool \<times> vmsg list" where
  "up_store m (confl, ms) = (confl, if confl then [] else ms @ [m])"

definition w_content :: "nat \<Rightarrow> world \<Rightarrow> bool \<times> vmsg list" where
  "w_content p w = (case pends w p of None \<Rightarrow> (True, []) | Some e \<Rightarrow>
     (case outpipe e of None \<Rightarrow> (True, []) | Some a \<Rightarrow>
       (case upipes (wnet w) a of None \<Rightarrow> (True, []) | Some u \<Rightarrow> up_content u)))"

lemma up_content_write: "\<not> has_more m \<or> inc \<Longrightarrow> uwf u \<Longrightarrow> up_content (up_write b m inc u) = up_store m (up_content u)"
  by (cases u) (auto simp: lp_write_def)

lemma up_content_write' [simp]: "up_content (up_write b m (has_more m) u) = up_store m (up_content u)"
  by (cases u) (auto simp: lp_write_def)

lemma up_content_flush [simp]: "up_content (snd (up_flush u)) = up_content u"
  by (cases u) (auto simp: lp_flush_def)

lemma write_effect:
  assumes "p_write m e n = Some (b, e', n')"
  shows "b = fst (p_check_write e) \<and> inpipe e' = inpipe e \<and> outpipe e' = outpipe e \<and> state e' = state e \<and>
    peer e' = peer e \<and> sink e' = sink e \<and>
    (if b then \<exists>a u. outpipe e = Some a \<and> upipes n a = Some u \<and>
       upipes n' = (upipes n)(a \<mapsto> up_write (contended n) m (has_more m) u) else upipes n' = upipes n)"
proof -
  obtain k f where k: "p_check_write e = (k, f)" by (cases "p_check_write e")
  then have f: "f = e \<or> f = e\<lparr>out_active := False\<rparr>" by (auto simp: p_check_write_def Let_def split: if_splits)
  with assms k show ?thesis
    by (auto simp: p_write_def Let_def bind_eq_Some_conv split: if_splits)
qed

lemma w_content_cong:
  "map_option outpipe (pends w x) = map_option outpipe (pends v x) \<Longrightarrow> upipes (wnet w) = upipes (wnet v) \<Longrightarrow>
    w_content x w = w_content x v"
  by (cases "pends w x"; cases "pends v x") (auto simp: w_content_def split: option.split)

lemma content_other:
  assumes "world_ok w" "pends w p = Some e" "x \<noteq> p" "outpipe e = Some a" "upipes n = (upipes (wnet w))(a \<mapsto> u)"
  shows "w_content x (w\<lparr>pends := (pends w)(p \<mapsto> e'), wnet := n\<rparr>) = w_content x w"
proof (cases "pends w x")
  case (Some f)
  have "outpipe e \<noteq> outpipe f" using assms(1-4) Some unfolding world_ok_def by (metis option.simps(3))
  with Some assms(3-5) show ?thesis by (cases "outpipe f") (auto simp: w_content_def)
qed (use assms(3) in \<open>simp add: w_content_def\<close>)

text \<open>One lemma for \<open>write\<close>: the new state, its invariant, and what it means for every pipe.\<close>

lemma w_write_ok:
  assumes "can_write p w"
  obtains e e' b n where "pends w p = Some e" "w_write p m w = Some (b, w\<lparr>pends := (pends w)(p \<mapsto> e'), wnet := n\<rparr>)"
    "b = w_room p w" "world_ok (w\<lparr>pends := (pends w)(p \<mapsto> e'), wnet := n\<rparr>)"
    "\<And>x. w_content x (w\<lparr>pends := (pends w)(p \<mapsto> e'), wnet := n\<rparr>) =
      (if x = p \<and> b then up_store m (w_content x w) else w_content x w)"
proof -
  from assms obtain e where ok: "world_ok w" and e: "pends w p = Some e" by (auto simp: can_write_def)
  note rd = world_end [OF ok e]
  from write_moved [OF rd, of m] obtain b e' n cs where
    r: "p_write m e (wnet w) = Some (b, e', n)" "moved e (wnet w) e' n cs" by blast
  note ef = write_effect [OF r(1)]
  let ?w = "w\<lparr>pends := (pends w)(p \<mapsto> e'), wnet := n\<rparr>"
  have dom: "dom (upipes n) = dom (upipes (wnet w))"
  proof (cases b)
    case True
    with ef obtain a u where "upipes (wnet w) a = Some u"
      "upipes n = (upipes (wnet w))(a \<mapsto> up_write (contended (wnet w)) m (has_more m) u)" by auto
    then show ?thesis by auto
  qed (use ef in simp)
  have "net_ok n" using r(2) by (simp add: moved_def)
  from world_ok_step [OF ok e this dom] ef have "world_ok ?w" by auto
  moreover have "w_content x ?w = (if x = p \<and> b then up_store m (w_content x w) else w_content x w)" for x
  proof (cases b)
    case False
    with ef e have "w_content x ?w = w_content x w" by (intro w_content_cong) auto
    with False show ?thesis by simp
  next
    case True
    with ef obtain a u where a: "outpipe e = Some a" "upipes (wnet w) a = Some u"
      "upipes n = (upipes (wnet w))(a \<mapsto> up_write (contended (wnet w)) m (has_more m) u)" by auto
    show ?thesis
    proof (cases "x = p")
      case True
      with \<open>b\<close> a ef e show ?thesis by (simp add: w_content_def)
    next
      case False
      with content_other [OF ok e False a(1,3)] show ?thesis by simp
    qed
  qed
  moreover have "b = w_room p w" using ef e by (simp add: w_room_def)
  moreover have "w_write p m w = Some (b, ?w)" using e r(1) by (simp add: w_write_def)
  ultimately show thesis using that e by blast
qed

lemma rollback_effect:
  assumes "p_rollback e n = Some n'"
  shows "dom (upipes n') = dom (upipes n)"
proof (cases "outpipe e")
  case (Some a)
  with assms obtain u v where "upipes n a = Some u" "n' = put_upipe a v n"
    by (auto simp: p_rollback_def bind_eq_Some_conv)
  then show ?thesis by auto
qed (use assms in \<open>simp add: p_rollback_def\<close>)

lemma flush_effect:
  assumes "p_flush e n = Some n'"
  shows "upipes n' = upipes n \<or> (\<exists>a u. outpipe e = Some a \<and> upipes n a = Some u \<and>
    upipes n' = (upipes n)(a \<mapsto> snd (up_flush u)))"
proof (cases "state e = Term_ack_sent \<or> outpipe e = None")
  case False
  with assms obtain a u where a: "outpipe e = Some a" "upipes n a = Some u"
    by (auto simp: p_flush_def bind_eq_Some_conv)
  obtain ok v where "up_flush u = (ok, v)" by (cases "up_flush u")
  with False a assms have "upipes n' = (upipes n)(a \<mapsto> snd (up_flush u))"
    by (auto simp: p_flush_def send_def bind_eq_Some_conv Let_def split: if_splits)
  with a show ?thesis by blast
qed (use assms in \<open>auto simp: p_flush_def split: if_splits\<close>)

lemma world_ok_net:
  assumes "world_ok w" "pends w p = Some e" "net_ok n" "dom (upipes n) = dom (upipes (wnet w))"
  shows "world_ok (w\<lparr>wnet := n\<rparr>)"
proof -
  have "world_ok (w\<lparr>pends := (pends w)(p \<mapsto> e), wnet := n\<rparr>)"
    by (rule world_ok_step [OF assms]) auto
  moreover have "(pends w)(p \<mapsto> e) = pends w" using assms(2) by auto
  ultimately show ?thesis by simp
qed

interpretation lb_pipes: pipe_log w_write w_rollback w_flush w_check_write can_write w_room w_content up_store
proof
  fix p w m assume c: "can_write p w"
  obtain e e' b n where
    r: "pends w p = Some e" "w_write p m w = Some (b, w\<lparr>pends := (pends w)(p \<mapsto> e'), wnet := n\<rparr>)" "b = w_room p w"
      "world_ok (w\<lparr>pends := (pends w)(p \<mapsto> e'), wnet := n\<rparr>)"
      "\<And>x. w_content x (w\<lparr>pends := (pends w)(p \<mapsto> e'), wnet := n\<rparr>) =
        (if x = p \<and> b then up_store m (w_content x w) else w_content x w)"
    by (rule w_write_ok [OF c, of m]) (rule that)
  let ?w = "w\<lparr>pends := (pends w)(p \<mapsto> e'), wnet := n\<rparr>"
  have "\<forall>x. can_write x w \<longrightarrow> can_write x ?w" using r(4) by (simp add: can_write_def)
  moreover have "\<forall>x. x \<noteq> p \<longrightarrow> can_write x w \<longrightarrow> w_room x ?w = w_room x w" by (simp add: w_room_def)
  ultimately show "\<exists>b w'. w_write p m w = Some (b, w') \<and> b = w_room p w \<and> (\<forall>x. can_write x w \<longrightarrow> can_write x w') \<and>
      (\<forall>x. x \<noteq> p \<longrightarrow> can_write x w \<longrightarrow> w_room x w' = w_room x w)"
    using r(2,3) by blast
next
  fix p w assume "can_write p w"
  then obtain e where ok: "world_ok w" and e: "pends w p = Some e" by (auto simp: can_write_def)
  from rollback_moved [OF world_end [OF ok e]] obtain n where
    n: "p_rollback e (wnet w) = Some n" "moved e (wnet w) e n []" by blast
  from n(2) have "net_ok n" by (simp add: moved_def)
  from world_ok_net [OF ok e this rollback_effect [OF n(1)]] e n(1)
  show "\<exists>w'. w_rollback p w = Some w' \<and> (\<forall>x. can_write x w \<longrightarrow> can_write x w')"
    by (auto simp: w_rollback_def can_write_def)
next
  fix p w assume "can_write p w"
  then obtain e where ok: "world_ok w" and e: "pends w p = Some e" by (auto simp: can_write_def)
  from flush_moved [OF world_end [OF ok e]] obtain n cs where
    n: "p_flush e (wnet w) = Some n" "moved e (wnet w) e n cs" "dom (upipes n) = dom (upipes (wnet w))" by blast
  from n(2) have "net_ok n" by (simp add: moved_def)
  from world_ok_net [OF ok e this n(3)] e n(1)
  show "\<exists>w'. w_flush p w = Some w' \<and> (\<forall>x. can_write x w \<longrightarrow> can_write x w')"
    by (auto simp: w_flush_def can_write_def)
next
  fix p w assume "can_write p w"
  then obtain e where ok: "world_ok w" and e: "pends w p = Some e" by (auto simp: can_write_def)
  obtain b f where f: "p_check_write e = (b, f)" by (cases "p_check_write e")
  then have fe: "f = e \<or> f = e\<lparr>out_active := False\<rparr>" and fb: "fst (p_check_write f) = b"
    by (auto simp: p_check_write_def Let_def split: if_splits)
  let ?w = "w\<lparr>pends := (pends w)(p \<mapsto> f)\<rparr>"
  from world_end [OF ok e] have "net_ok (wnet w)" by (simp add: ready_end_def)
  from world_ok_step [OF ok e this refl, of f] fe have "world_ok ?w" by auto
  with e f fb show "\<exists>b w'. w_check_write p w = Some (b, w') \<and> b = w_room p w \<and>
      (\<forall>x. can_write x w \<longrightarrow> can_write x w' \<and> w_room x w' = w_room x w)"
    by (intro exI [of _ b] exI [of _ ?w]) (auto simp: w_check_write_def can_write_def w_room_def)
next
  fix p m w b w' x assume c: "can_write p w" and r: "w_write p m w = Some (b, w')" and "can_write x w"
  show "w_content x w' = (if x = p \<and> b then up_store m (w_content x w) else w_content x w)"
  proof (rule w_write_ok [OF c, of m])
    fix e e' b1 n
    assume "w_write p m w = Some (b1, w\<lparr>pends := (pends w)(p \<mapsto> e'), wnet := n\<rparr>)"
      "\<And>x. w_content x (w\<lparr>pends := (pends w)(p \<mapsto> e'), wnet := n\<rparr>) =
        (if x = p \<and> b1 then up_store m (w_content x w) else w_content x w)"
    with r show ?thesis by simp
  qed
next
  fix p w w' x assume c: "can_write p w" and r: "w_flush p w = Some w'" and "can_write x w"
  from c obtain e where ok: "world_ok w" and e: "pends w p = Some e" by (auto simp: can_write_def)
  from r e obtain n where n: "p_flush e (wnet w) = Some n" "w' = w\<lparr>wnet := n\<rparr>"
    by (auto simp: w_flush_def bind_eq_Some_conv)
  have "w_content x w' = w_content x w"
  proof -
    from flush_effect [OF n(1)] consider "upipes n = upipes (wnet w)"
      | a u where "outpipe e = Some a" "upipes (wnet w) a = Some u" "upipes n = (upipes (wnet w))(a \<mapsto> snd (up_flush u))"
      by blast
    then show ?thesis
    proof cases
      case 1
      with n(2) show ?thesis by (intro w_content_cong) simp_all
    next
      case 2
      have id: "(pends w)(p \<mapsto> e) = pends w" using e by auto
      show ?thesis
      proof (cases "x = p")
        case True
        with 2 n(2) e show ?thesis by (simp add: w_content_def)
      next
        case False
        with content_other [OF ok e False 2(1,3), of e] n(2) id show ?thesis by simp
      qed
    qed
  qed
  with n(2) show "w_content x w' = w_content x w \<and> w_room x w' = w_room x w" by (simp add: w_room_def)
qed

subsection \<open>What the peers can see\<close>

text \<open>
  \<open>w_hidden p w\<close>: the outbound queue of \<open>p\<close> holds parts of a complete message which are not
  flushed, so that the peer cannot read them.
\<close>

definition w_hidden :: "nat \<Rightarrow> world \<Rightarrow> bool" where
  "w_hidden p w \<longleftrightarrow> (\<exists>e a l. pends w p = Some e \<and> outpipe e = Some a \<and> upipes (wnet w) a = Some (Normal l) \<and>
     unflushed l \<noteq> [])"

lemma w_hidden_code [code]:
  "w_hidden p w = (case pends w p of None \<Rightarrow> False | Some e \<Rightarrow>
     (case outpipe e of None \<Rightarrow> False | Some a \<Rightarrow>
       (case upipes (wnet w) a of Some (Normal l) \<Rightarrow> unflushed l \<noteq> [] | _ \<Rightarrow> False)))"
  by (auto simp: w_hidden_def split: option.splits upipe.splits)

text \<open>A change of one outbound queue hides or shows messages of its pipe only.\<close>

lemma hidden_step:
  assumes "world_ok w" "pends w p = Some e" "outpipe e' = outpipe e" "outpipe e = Some a"
    "upipes n = (upipes (wnet w))(a \<mapsto> u)"
  shows "w_hidden x (w\<lparr>pends := (pends w)(p \<mapsto> e'), wnet := n\<rparr>) =
    (if x = p then \<exists>l. u = Normal l \<and> unflushed l \<noteq> [] else w_hidden x w)"
proof (cases "x = p")
  case True
  with assms show ?thesis by (auto simp: w_hidden_def)
next
  case False
  have "outpipe f \<noteq> Some a" if "pends w x = Some f" for f
    using assms(1,2,4) that False unfolding world_ok_def by (metis option.distinct(1))
  with False assms(5) show ?thesis
    by (cases "pends w x"; cases "outpipe (the (pends w x))") (auto simp: w_hidden_def)
qed

lemma hidden_same:
  assumes "map_option outpipe (pends w' x) = map_option outpipe (pends w x)" "upipes (wnet w') = upipes (wnet w)"
  shows "w_hidden x w' = w_hidden x w"
  using assms by (cases "pends w x"; cases "pends w' x") (auto simp: w_hidden_def)

text \<open>No message becomes hidden, apart from those of the pipes in \<open>ps\<close>.\<close>

definition shown :: "nat set \<Rightarrow> world \<Rightarrow> world \<Rightarrow> bool" where
  "shown ps w w' \<longleftrightarrow> (world_ok w \<longrightarrow> world_ok w' \<and> (\<forall>x. w_hidden x w' \<longrightarrow> w_hidden x w \<or> x \<in> ps))"

lemma shown_refl: "shown ps w w"
  and shown_trans: "shown ps u v \<Longrightarrow> shown qs v w \<Longrightarrow> shown (ps \<union> qs) u w"
  and shown_trans0: "shown {} u v \<Longrightarrow> shown {} v w \<Longrightarrow> shown {} u w"
  and shown_mono: "shown ps u v \<Longrightarrow> ps \<subseteq> qs \<Longrightarrow> shown qs u v"
  by (auto simp: shown_def)

lemma write_shown:
  assumes "w_write p m w = Some (b, w')"
  shows "shown (if b \<and> \<not> has_more m then {p} else {}) w w'"
  unfolding shown_def
proof (intro impI)
  assume ok: "world_ok w"
  from assms obtain e e' n where e: "pends w p = Some e" "p_write m e (wnet w) = Some (b, e', n)"
    "w' = w\<lparr>pends := (pends w)(p \<mapsto> e'), wnet := n\<rparr>" unfolding w_write_def by (auto simp: bind_eq_Some_conv)
  note ef = write_effect [OF e(2)]
  have "can_write p w" using ok e(1) by (simp add: can_write_def)
  with lb_pipes.write_ok [OF this, of m] assms have "world_ok w'" by (auto simp: can_write_def)
  moreover have "w_hidden x w \<or> x \<in> (if b \<and> \<not> has_more m then {p} else {})" if h: "w_hidden x w'" for x
  proof (cases b)
    case True
    with ef obtain a u where a: "outpipe e = Some a" "upipes (wnet w) a = Some u"
      "upipes n = (upipes (wnet w))(a \<mapsto> up_write (contended (wnet w)) m (has_more m) u)" by auto
    have "outpipe e' = outpipe e" using ef by simp
    from hidden_step [OF ok e(1) this a(1,3), of x] h e(3) True e(1) a show ?thesis
      by (cases u) (auto simp: lp_write_def w_hidden_def split: if_splits)
  next
    case False
    with ef e have "w_hidden x w' = w_hidden x w" by (intro hidden_same) auto
    with h show ?thesis by simp
  qed
  ultimately show "world_ok w' \<and> (\<forall>x. w_hidden x w' \<longrightarrow> w_hidden x w \<or> x \<in> (if b \<and> \<not> has_more m then {p} else {}))"
    by blast
qed

lemma flush_shown:
  assumes "w_flush p w = Some w'"
  shows "shown {} w w' \<and> (world_ok w \<longrightarrow> \<not> w_hidden p w')"
proof -
  from assms obtain e n where e: "pends w p = Some e" "p_flush e (wnet w) = Some n" "w' = w\<lparr>wnet := n\<rparr>"
    unfolding w_flush_def by (auto simp: bind_eq_Some_conv)
  have id: "w\<lparr>pends := (pends w)(p \<mapsto> e), wnet := n\<rparr> = w'" using e(1,3) by (simp add: fun_upd_idem)
  have main: "world_ok w' \<and> (\<forall>x. w_hidden x w' \<longrightarrow> w_hidden x w) \<and> \<not> w_hidden p w'" if ok: "world_ok w"
  proof -
    have "can_write p w" using ok e(1) by (simp add: can_write_def)
    with lb_pipes.flush_ok [OF this] assms have "world_ok w'" by (auto simp: can_write_def)
    moreover have "(\<forall>x. w_hidden x w' \<longrightarrow> w_hidden x w) \<and> \<not> w_hidden p w'"
    proof (cases "outpipe e")
      case None
      with e have "w' = w" by (auto simp: p_flush_def split: if_splits)
      with None e(1) show ?thesis by (simp add: w_hidden_def)
    next
      case (Some a)
      with world_end [OF ok e(1)] have "\<not> acked (state e)" by (auto simp: ready_end_def)
      with Some e(2) obtain u0 where u0: "upipes (wnet w) a = Some u0" by (auto simp: p_flush_def bind_eq_Some_conv)
      obtain b v where "up_flush u0 = (b, v)" by (cases "up_flush u0")
      with Some e(2) u0 \<open>\<not> acked (state e)\<close> have u: "upipes n = (upipes (wnet w))(a \<mapsto> snd (up_flush u0))"
        by (auto simp: p_flush_def send_def bind_eq_Some_conv Let_def split: if_splits)
      have "\<not> (\<exists>l. snd (up_flush u0) = Normal l \<and> unflushed l \<noteq> [])" by (cases u0) (auto simp: lp_flush_def)
      with hidden_step [OF ok e(1) refl Some u] id show ?thesis by (auto split: if_splits)
    qed
    ultimately show ?thesis by blast
  qed
  then show ?thesis by (simp add: shown_def)
qed

lemma rollback_shown:
  assumes "w_rollback p w = Some w'"
  shows "shown {} w w'"
  unfolding shown_def
proof (intro impI)
  assume ok: "world_ok w"
  from assms obtain e n where e: "pends w p = Some e" "p_rollback e (wnet w) = Some n" "w' = w\<lparr>wnet := n\<rparr>"
    unfolding w_rollback_def by (auto simp: bind_eq_Some_conv)
  have id: "w\<lparr>pends := (pends w)(p \<mapsto> e), wnet := n\<rparr> = w'" using e(1,3) by (simp add: fun_upd_idem)
  have "can_write p w" using ok e(1) by (simp add: can_write_def)
  with lb_pipes.rollback_ok [OF this] assms have "world_ok w'" by (auto simp: can_write_def)
  moreover have "\<forall>x. w_hidden x w' \<longrightarrow> w_hidden x w"
  proof (cases "outpipe e")
    case None
    with e have "w' = w" by (simp add: p_rollback_def)
    then show ?thesis by simp
  next
    case (Some a)
    with e(2) obtain u u' where u: "upipes (wnet w) a = Some u" "rollback_upipe u = Some u'" "n = put_upipe a u' (wnet w)"
      by (auto simp: p_rollback_def bind_eq_Some_conv)
    have "uwf u" using world_end [OF ok e(1)] u(1) by (auto simp: ready_end_def)
    then have "(\<exists>l. u' = Normal l \<and> unflushed l \<noteq> []) \<longrightarrow> (\<exists>l. u = Normal l \<and> unflushed l \<noteq> [])"
      using u(2) by (cases u) (auto simp: rollback_loop_ok)
    with hidden_step [OF ok e(1) refl Some, of n u'] id u(1,3) e(1) Some show ?thesis by (auto simp: w_hidden_def split: if_splits)
  qed
  ultimately show "world_ok w' \<and> (\<forall>x. w_hidden x w' \<longrightarrow> w_hidden x w \<or> x \<in> {})" by blast
qed

text \<open>The sends of the components leave no complete message hidden.\<close>

lemma lb_loop_shown:
  "lb_loop w_write w_rollback m n l w = Some (r, l', w') \<Longrightarrow> shown {x. r = Sent x \<and> \<not> has_more m} w w'"
proof (induction n arbitrary: l w)
  case (Suc n)
  from Suc.prems obtain p b w1 where p: "w_write p m w = Some (b, w1)" and
    c: "b \<and> r = Sent p \<and> w' = w1 \<or> \<not> b \<and> w_rollback p w1 = Some w' \<or>
      \<not> b \<and> (\<exists>l1. lb_loop w_write w_rollback m n l1 w1 = Some (r, l', w'))"
    by (auto simp: bind_eq_Some_conv Let_def split: if_splits)
  note s = write_shown [OF p]
  from c show ?case
  proof (elim disjE conjE exE)
    assume "b" "r = Sent p" "w' = w1"
    with s show ?thesis by (auto simp: shown_def split: if_splits)
  next
    assume "\<not> b" "w_rollback p w1 = Some w'"
    with shown_trans [OF s rollback_shown] show ?thesis by (auto intro: shown_mono)
  next
    fix l1 assume "\<not> b" "lb_loop w_write w_rollback m n l1 w1 = Some (r, l', w')"
    with shown_trans [OF s Suc.IH] show ?thesis by simp
  qed
qed (simp add: shown_refl)

lemma sendpipe_shown:
  assumes "lb_sendpipe w_write w_rollback w_flush m l w = Some (r, l', w')"
  shows "shown {} w w'"
proof (cases "lb_dropping l")
  case True
  with assms show ?thesis by (simp add: lb_sendpipe_def shown_refl)
next
  case False
  with assms obtain r1 l1 w1 where lp: "lb_loop w_write w_rollback m (lb_active l) l w = Some (r1, l1, w1)"
    by (auto simp: lb_sendpipe_def bind_eq_Some_conv)
  note s = lb_loop_shown [OF lp]
  from False assms lp consider (flush) p where "r1 = Sent p" "\<not> has_more m" "w_flush p w1 = Some w'"
    | (none) "w' = w1" "\<forall>p. r1 = Sent p \<longrightarrow> has_more m"
    by (auto simp: lb_sendpipe_def bind_eq_Some_conv Let_def split: send_result.splits if_splits)
  then show ?thesis
  proof cases
    case flush
    with s flush_shown [OF flush(3)] show ?thesis by (auto simp: shown_def)
  next
    case none
    with s show ?thesis by (auto simp: shown_def)
  qed
qed

lemma sendpipe_visible:
  assumes "lb_sendpipe w_write w_rollback w_flush m l w = Some (Sent p, l', w')" "world_ok w" "\<not> has_more m"
  shows "\<not> w_hidden p w'"
proof -
  from assms(1) have "\<not> lb_dropping l" by (auto simp: lb_sendpipe_def)
  with assms(1) obtain r1 l1 w1 where lp: "lb_loop w_write w_rollback m (lb_active l) l w = Some (r1, l1, w1)"
    by (auto simp: lb_sendpipe_def bind_eq_Some_conv)
  have "world_ok w1" using lb_loop_shown [OF lp] assms(2) by (auto simp: shown_def)
  moreover from \<open>\<not> lb_dropping l\<close> assms(1,3) lp have "w_flush p w1 = Some w'"
    by (auto simp: lb_sendpipe_def bind_eq_Some_conv Let_def split: send_result.splits if_splits)
  ultimately show ?thesis using flush_shown by blast
qed

lemma dist_write_shown:
  assumes "dist_write w_write w_flush p m d w = Some (ok, d', w')"
  shows "shown {} w w'"
proof -
  from assms obtain w1 where w1: "w_write p m w = Some (ok, w1)"
    "if ok \<and> \<not> has_more m then w_flush p w1 = Some w' else w' = w1"
    by (auto simp: dist_write_def bind_eq_Some_conv split: if_splits)
  with write_shown [OF w1(1)] flush_shown [of p w1 w'] show ?thesis by (auto simp: shown_def split: if_splits)
qed

lemma dist_loop_shown: "dist_loop w_write w_flush m n i d w = Some (f, d', w') \<Longrightarrow> shown {} w w'"
proof (induction n arbitrary: i d w f)
  case (Suc n)
  from Suc.prems obtain p ok d1 w1 where w1: "dist_write w_write w_flush p m d w = Some (ok, d1, w1)"
    and rest: "(if ok then dist_loop w_write w_flush m n (i + 1) d1 w1
      else do { (failed, d, w) \<leftarrow> dist_loop w_write w_flush m n i d1 w1; Some (failed + 1, d, w) }) = Some (f, d', w')"
    by (auto simp: bind_eq_Some_conv)
  from rest obtain j g where "dist_loop w_write w_flush m n j d1 w1 = Some (g, d', w')"
    by (auto simp: bind_eq_Some_conv split: if_splits)
  from Suc.IH [OF this] dist_write_shown [OF w1] show ?case by (auto simp: shown_def)
qed (simp add: shown_refl)

lemma matching_shown: "send_to_matching w_write w_flush m d w = Some (d', w') \<Longrightarrow> shown {} w w'"
  by (auto simp: send_to_matching_def distribute_def bind_eq_Some_conv shown_refl Let_def split: if_splits dest: dist_loop_shown)

lemma matching_visible:
  assumes "send_to_matching w_write w_flush m d w = Some (d', w')" "dist_inv d" "\<forall>x\<in>matching_set d. can_write x w"
    "w_hidden p w'"
  shows "w_hidden p w"
proof (cases "matching_set d = {}")
  case True
  with assms(2) have "d_matching d = 0" by (auto simp: matching_set_def dist_inv_def)
  with assms(1) have "w' = w" by (auto simp: send_to_matching_def distribute_def)
  with assms(4) show ?thesis by simp
next
  case False
  with assms(3) have "world_ok w" by (auto simp: can_write_def)
  with matching_shown [OF assms(1)] assms(4) show ?thesis by (auto simp: shown_def)
qed

lemma shownD: "shown {} w w' \<Longrightarrow> world_ok w \<Longrightarrow> w_hidden p w' \<Longrightarrow> w_hidden p w"
  by (auto simp: shown_def)

subsection \<open>Three pipes of one socket\<close>

text \<open>Pipe \<open>k\<close> reads from \<open>10 + k\<close> and writes to \<open>20 + k\<close>; the sink is 9, no watermarks.\<close>

definition end_of :: "nat \<Rightarrow> pipe_t" where
  "end_of k = (new_pipe k (10 + k) (20 + k) 0 0 False)\<lparr>peer := Some (30 + k), sink := Some 9\<rparr>"

definition net3 :: net where
  "net3 = empty_net\<lparr>upipes := map_of (map (\<lambda>a. (a, Normal new_lpipe)) [10, 11, 12, 20, 21, 22])\<rparr>"

definition world3 :: world where
  "world3 = \<lparr>pends = map_of (map (\<lambda>k. (k, end_of k)) [0, 1, 2]), wnet = net3\<rparr>"

text \<open>The peers have sent these parts, flushed.\<close>

definition incoming :: "nat \<Rightarrow> vmsg list \<Rightarrow> world \<Rightarrow> world" where
  "incoming k ms w = w\<lparr>wnet := put_upipe (10 + k) (Normal (new_lpipe\<lparr>ready := ms\<rparr>)) (wnet w)\<rparr>"

lemma inbox_incoming:
  "inbox p (incoming k ms w) =
    (if map_option inpipe (pends w p) = Some (Some (10 + k)) then ms else inbox p w)"
  by (auto simp: inbox_def incoming_def new_lpipe_def split: option.splits)

lemma net3_at: "upipes net3 a = Some u \<Longrightarrow> u = Normal new_lpipe"
  by (auto simp: net3_def empty_net_def split: if_splits)

lemma ready3: "k \<in> {0, 1, 2} \<Longrightarrow> ready_end (end_of k) net3"
  by (auto simp: ready_end_def end_of_def new_pipe_def net3_def empty_net_def net_ok_def new_lpipe_def split: if_splits)

lemma pends3: "pends world3 p = (if p < 3 then Some (end_of p) else None)"
proof -
  consider "p = 0" | "p = 1" | "p = 2" | "3 \<le> p" by linarith
  then show ?thesis by cases (auto simp: world3_def)
qed

lemma inbox3: "inbox p world3 = []"
proof -
  have "wnet world3 = net3" by (simp add: world3_def)
  then show ?thesis by (auto simp: inbox_def new_lpipe_def dest!: net3_at split: option.splits)
qed

lemma world3_ok: "world_ok world3"
proof -
  have "ready_end e (wnet world3)" if "pends world3 p = Some e" for p e
    using that ready3 [of p] by (auto simp: pends3 world3_def split: if_splits)
  moreover have "inpipe e \<noteq> inpipe f \<and> (outpipe e \<noteq> None \<longrightarrow> outpipe e \<noteq> outpipe f)"
    if "pends world3 p = Some e" "pends world3 q = Some f" "p \<noteq> q" for p q e f
    using that by (auto simp: pends3 end_of_def new_pipe_def split: if_splits)
  ultimately show ?thesis unfolding world_ok_def by blast
qed

lemma can_write3: "p < 3 \<Longrightarrow> can_write p world3"
  by (simp add: can_write_def world3_ok pends3)

lemma incoming_ok:
  assumes "world_ok w" "msgs_ok w" "upipes (wnet w) (10 + k) \<noteq> None" "pends w k = Some e"
    "\<forall>m\<in>set ms. \<not> (v_is_delimiter m \<and> v_is_credential m)"
  shows "world_ok (incoming k ms w)" "msgs_ok (incoming k ms w)"
proof -
  let ?n = "put_upipe (10 + k) (Normal (new_lpipe\<lparr>ready := ms\<rparr>)) (wnet w)"
  have "net_ok (wnet w)" using world_end [OF assms(1,4)] by (simp add: ready_end_def)
  then have "net_ok ?n" by (simp add: new_lpipe_def)
  moreover have "dom (upipes ?n) = dom (upipes (wnet w))" using assms(3) by auto
  ultimately show "world_ok (incoming k ms w)"
    unfolding incoming_def by (rule world_ok_net [OF assms(1,4)])
  show "msgs_ok (incoming k ms w)"
    using assms(2,5) unfolding msgs_ok_def inbox_incoming by (simp del: map_option_eq_Some)
qed

definition fq3 :: fq where
  "fq3 = the (do { q \<leftarrow> fq_attach 0 new_fq; q \<leftarrow> fq_attach 1 q; fq_attach 2 q })"

definition lb3 :: lb where
  "lb3 = the (do { l \<leftarrow> lb_attach 0 new_lb; l \<leftarrow> lb_attach 1 l; lb_attach 2 l })"

definition dist3 :: dist where
  "dist3 = the (do { d \<leftarrow> dist_attach 0 new_dist; d \<leftarrow> dist_attach 1 d; d \<leftarrow> dist_attach 2 d;
     d \<leftarrow> dist_match 2 d; dist_match 0 d })"

lemma fq3_inv: "fq_inv fq3" "set (items (fq_pipes fq3)) = {0, 1, 2}" "set (active_pipes fq3) = {0, 1, 2}" "\<not> fq_more fq3"
proof -
  from fq_attach_ok [OF fq_inv_new, of 0] obtain a where
    a: "fq_attach 0 new_fq = Some a" "fq_inv a" "set (items (fq_pipes a)) = {0}" "set (active_pipes a) = {0}"
      "\<not> fq_more a" by (auto simp: new_fq_def active_pipes_def)
  from fq_attach_ok [OF a(2), of 1] a obtain b where
    b: "fq_attach 1 a = Some b" "fq_inv b" "set (items (fq_pipes b)) = {1, 0}" "set (active_pipes b) = {1, 0}"
      "\<not> fq_more b" by auto
  from fq_attach_ok [OF b(2), of 2] b obtain c where
    c: "fq_attach 2 b = Some c" "fq_inv c" "set (items (fq_pipes c)) = {2, 1, 0}" "set (active_pipes c) = {2, 1, 0}"
      "\<not> fq_more c" by auto
  have "fq3 = c" by (simp add: fq3_def a(1) b(1) c(1) del: One_nat_def)
  with c show "fq_inv fq3" "set (items (fq_pipes fq3)) = {0, 1, 2}" "set (active_pipes fq3) = {0, 1, 2}" "\<not> fq_more fq3"
    by auto
qed

lemma lb3_inv: "lb_inv lb3" "set (items (lb_pipes lb3)) = {0, 1, 2}" "set (lb_actives lb3) = {0, 1, 2}"
  "\<not> lb_more lb3" "\<not> lb_dropping lb3"
proof -
  from lb_attach_ok [OF lb_inv_new, of 0] obtain a where
    a: "lb_attach 0 new_lb = Some a" "lb_inv a" "set (items (lb_pipes a)) = {0}" "set (lb_actives a) = {0}"
      "\<not> lb_more a" "\<not> lb_dropping a" by (auto simp: new_lb_def lb_actives_def)
  from lb_attach_ok [OF a(2), of 1] a obtain b where
    b: "lb_attach 1 a = Some b" "lb_inv b" "set (items (lb_pipes b)) = {1, 0}" "set (lb_actives b) = {1, 0}"
      "\<not> lb_more b" "\<not> lb_dropping b" by auto
  from lb_attach_ok [OF b(2), of 2] b obtain c where
    c: "lb_attach 2 b = Some c" "lb_inv c" "set (items (lb_pipes c)) = {2, 1, 0}" "set (lb_actives c) = {2, 1, 0}"
      "\<not> lb_more c" "\<not> lb_dropping c" by auto
  have "lb3 = c" by (simp add: lb3_def a(1) b(1) c(1) del: One_nat_def)
  with c show "lb_inv lb3" "set (items (lb_pipes lb3)) = {0, 1, 2}" "set (lb_actives lb3) = {0, 1, 2}"
    "\<not> lb_more lb3" "\<not> lb_dropping lb3" by auto
qed

lemma dist3_inv: "dist_inv dist3" "matching_set dist3 = {0, 2}" "attached dist3 = {0, 1, 2}"
  "eligible_set dist3 = {0, 1, 2}"
proof -
  from dist_attach_ok [OF dist_inv_new, of 0] obtain a where
    a: "dist_attach 0 new_dist = Some a" "dist_inv a" "attached a = {0}" "eligible_set a = {0}" "matching_set a = {}" "\<not> d_more a"
    by (auto simp: new_dist_def dist_sets)
  from dist_attach_ok [OF a(2), of 1] a obtain b where
    b: "dist_attach 1 a = Some b" "dist_inv b" "attached b = {1, 0}" "eligible_set b = {1, 0}" "matching_set b = {}" "\<not> d_more b"
    by auto
  from dist_attach_ok [OF b(2), of 2] b obtain c where
    c: "dist_attach 2 b = Some c" "dist_inv c" "attached c = {2, 1, 0}" "eligible_set c = {2, 1, 0}" "matching_set c = {}" "\<not> d_more c"
    by auto
  from dist_match_ok [OF c(2), of 2] c obtain d where
    d: "dist_match 2 c = Some d" "dist_inv d" "attached d = {2, 1, 0}" "eligible_set d = {2, 1, 0}" "matching_set d = {2}" "\<not> d_more d"
    by auto
  from dist_match_ok [OF d(2), of 0] d obtain e where
    e: "dist_match 0 d = Some e" "dist_inv e" "attached e = {2, 1, 0}" "eligible_set e = {2, 1, 0}" "matching_set e = {0, 2}"
    by auto
  have "dist3 = e" by (simp add: dist3_def a(1) b(1) c(1) d(1) e(1) del: One_nat_def)
  with e show "dist_inv dist3" "matching_set dist3 = {0, 2}" "attached dist3 = {0, 1, 2}" "eligible_set dist3 = {0, 1, 2}"
    by auto
qed

subsection \<open>Properties\<close>

definition world_in :: world where
  "world_in = incoming 1 [plain type_vsm 0 [5]] (incoming 0 [plain type_vsm more_flag [3], plain type_vsm 0 [4]] world3)"

lemma world_in_ok: "x < 3 \<Longrightarrow> can_read x world_in"
proof -
  let ?w = "incoming 0 [plain type_vsm more_flag [3], plain type_vsm 0 [4]] world3"
  have "msgs_ok world3" by (simp add: msgs_ok_def inbox3)
  moreover have "upipes (wnet world3) (10 + 0) \<noteq> None" by (simp add: world3_def net3_def)
  ultimately have w: "world_ok ?w" "msgs_ok ?w"
    by (rule incoming_ok [OF world3_ok], simp add: pends3, simp)+
  have "upipes (wnet ?w) (10 + 1) \<noteq> None" "pends ?w 1 = Some (end_of 1)"
    by (simp_all add: incoming_def world3_def net3_def)
  then have "world_ok world_in" "msgs_ok world_in"
    unfolding world_in_def by (rule incoming_ok [OF w], simp)+
  moreover have "pends world_in = pends world3" by (simp add: world_in_def incoming_def)
  ultimately show "x < 3 \<Longrightarrow> can_read x world_in" by (simp add: can_read_def pends3)
qed

text \<open>
  C19: No pipe starves: if an active pipe has something to read and another pipe is served a
  whole message, the number of pipes that come before it goes down, so it is served after
  fewer than \<open>active\<close> other messages.
\<close>

theorem fq_no_starvation:
  assumes "fq_inv q" "\<forall>x\<in>set (active_pipes q). can_read x w"
    "fq_more q \<longrightarrow> 0 < fq_active q \<longrightarrow> w_readable (items (fq_pipes q) ! fq_current q) w"
    "x \<in> set (active_pipes q)" "w_readable x w" "fq_recvpipe w_read q w = Some (r, q', w')"
  shows "\<exists>m p. r = Some (m, p) \<and> fq_dist x q < fq_active q \<and> (p \<noteq> x \<longrightarrow> x \<in> set (active_pipes q') \<and>
    (if has_more m then fq_dist x q' \<le> fq_dist x q else fq_dist x q' < fq_dist x q))"
proof -
  from fq_pipes.fq_loop_ok [OF assms(1) refl assms(2,3)] assms(6) have rc: "fq_pipes.received q w r q' w'"
    by (auto simp: fq_recvpipe_def)
  have d: "fq_dist x q < fq_active q"
    using active_pipes_index [OF assms(1,4)] assms(1) by (auto simp: fq_dist_def fq_inv_def Let_def)
  show ?thesis
  proof (cases r)
    case None
    with rc assms(4,5) show ?thesis by (auto simp: fq_pipes.received_def)
  next
    case (Some mp)
    obtain m p where mp: "mp = (m, p)" by (cases mp)
    from rc assms(4,5) have "x \<in> set (active_pipes q')" unfolding fq_pipes.received_def Some mp by auto
    with rc d show ?thesis unfolding fq_pipes.received_def Some mp
      by (intro exI [of _ m] exI [of _ p]) auto
  qed
qed

theorem fq_no_starvation_witness: "\<exists>r q' w'. fq_recvpipe w_read fq3 world_in = Some (r, q', w') \<and> r \<noteq> None"
proof -
  have a: "\<forall>x\<in>set (active_pipes fq3). can_read x world_in" using fq3_inv world_in_ok by auto
  have r: "w_readable 1 world_in" by code_simp
  from fq_pipes.fq_loop_ok [OF fq3_inv(1) refl a] fq3_inv(4) obtain r q' w' where
    "fq_recvpipe w_read fq3 world_in = Some (r, q', w')" by (auto simp: fq_recvpipe_def)
  with fq_no_starvation [OF fq3_inv(1) a _ _ r this] fq3_inv show ?thesis by auto
qed

text \<open>
  C21: A message to many pipes goes to every matching pipe that has room, once, and to no other
  pipe, and it can be read by the peers: when a message is complete it is flushed, so that no complete
  message is left hidden which was not so before. The matching pipes without room, and only those,
  stop being matching and eligible.
\<close>

theorem dist_delivers:
  assumes "dist_inv d" "\<forall>x\<in>matching_set d. can_write x w"
  shows "\<exists>d' w'. send_to_matching w_write w_flush m d w = Some (d', w') \<and> dist_inv d' \<and> d_more d' = has_more m \<and>
    (let full = {x \<in> matching_set d. \<not> w_room x w} in
      matching_set d' = matching_set d - full \<and> eligible_set d' = eligible_set d - full \<and> attached d' = attached d \<and>
      (\<forall>x. can_write x w \<longrightarrow> can_write x w' \<and>
        w_content x w' = (if x \<in> matching_set d - full then up_store m (w_content x w) else w_content x w))) \<and>
    (\<forall>x. w_hidden x w' \<longrightarrow> w_hidden x w)"
proof -
  from lb_pipes.send_to_matching_ok [OF assms, of m] obtain d' w' where
    r: "send_to_matching w_write w_flush m d w = Some (d', w')" "dist_inv d'" "d_more d' = has_more m"
      "attached d' = attached d" "matching_set d' = matching_set d - lb_pipes.refused (matching_set d) w"
      "eligible_set d' = eligible_set d - lb_pipes.refused (matching_set d) w"
      "\<forall>x. can_write x w \<longrightarrow> can_write x w' \<and>
        w_content x w' = (if x \<in> matching_set d \<and> w_room x w then up_store m (w_content x w) else w_content x w)"
    by blast
  then show ?thesis
    by (intro exI [of _ d'] exI [of _ w']) (use matching_visible [OF r(1) assms] in \<open>auto simp: lb_pipes.refused_def Let_def\<close>)
qed

theorem dist_delivers_witness:
  "\<exists>d' w'. send_to_matching w_write w_flush (plain type_vsm 0 [1]) dist3 world3 = Some (d', w') \<and> w_content 1 w' = (False, [])"
proof -
  have "\<forall>x\<in>matching_set dist3. can_write x world3" using dist3_inv can_write3 by auto
  from dist_delivers [OF dist3_inv(1) this, of "plain type_vsm 0 [1]"] obtain d' w' where
    "send_to_matching w_write w_flush (plain type_vsm 0 [1]) dist3 world3 = Some (d', w')"
    "w_content 1 w' = w_content 1 world3"
    using can_write3 [of 1] dist3_inv(2) by (auto simp: Let_def)
  moreover have "w_content 1 world3 = (False, [])" by code_simp
  ultimately show ?thesis by auto
qed

text \<open>
  A message can be split between two pipes: with three pipes, the last of which is in the
  middle of a message, the end of another pipe makes \<open>pipe_terminated\<close> move the last pipe
  and set \<open>current\<close> to 0 without looking at \<open>more\<close>; the rest of the message goes to pipe 0.
\<close>

theorem lb_splits_message:
  "do {
     (r0, l, w) \<leftarrow> lb_sendpipe w_write w_rollback w_flush (plain type_vsm 0 [1]) lb3 world3;
     (r1, l, w) \<leftarrow> lb_sendpipe w_write w_rollback w_flush (plain type_vsm 0 [2]) l w;
     (r2, l, w) \<leftarrow> lb_sendpipe w_write w_rollback w_flush (plain type_vsm more_flag [7]) l w;
     l \<leftarrow> lb_pipe_terminated 1 l;
     (r3, l, w) \<leftarrow> lb_sendpipe w_write w_rollback w_flush (plain type_vsm 0 [8]) l w;
     Some ([r0, r1, r2, r3], w_content 0 w, w_content 2 w) }
   = Some ([Sent 0, Sent 1, Sent 2, Sent 0], (False, [plain type_vsm 0 [1], plain type_vsm 0 [8]]),
       (False, [plain type_vsm more_flag [7]]))"
  by code_simp

text \<open>
  Ending a pipe in the middle of a message from it aborts the process: \<open>terminate\<close> (as
  called by \<open>zmq_disconnect\<close>) makes the pipe unreadable, the next receive finds \<open>more\<close> set
  and its assertion fails.
\<close>

theorem fq_aborts_after_terminate:
  "\<exists>q w w'. fq_recvpipe w_read fq3 world_in = Some (Some (plain type_vsm more_flag [3], 0), q, w) \<and>
    w_terminate False 0 w = Some w' \<and> fq_recvpipe w_read q w' = None"
proof -
  have "case fq_recvpipe w_read fq3 world_in of
      Some (Some (m, p), q, w) \<Rightarrow> m = plain type_vsm more_flag [3] \<and> p = 0 \<and>
        (case w_terminate False 0 w of Some w' \<Rightarrow> Option.is_none (fq_recvpipe w_read q w') | None \<Rightarrow> False)
    | _ \<Rightarrow> False" by code_simp
  then show ?thesis
    by (auto simp: Option.is_none_def split: option.splits) (metis option.exhaust prod_cases3)
qed

end
