(* ===== verification/Encoder.thy ===== *)
theory Encoder
  imports Upipe Wire
begin

text \<open>
  The outbound half of the framing layer: \<open>encoder_base_t\<close> of
  \<open>src/zmqsrc/src/encoder.hpp\<close>, its three derived classes (\<open>v1_encoder.cpp\<close>,
  \<open>v2_encoder.cpp\<close>, \<open>raw_encoder.cpp\<close>), and the batching loop of
  \<open>stream_engine_t::out_event\<close> that drives them through \<open>i_encoder\<close>.

  \<open>e_pending\<close> is the \<open>to_write\<close> bytes at \<open>write_pos\<close>; \<open>e_next\<close> is the member function
  pointer \<open>next\<close>. A call of \<open>encode\<close> is given \<open>Some n\<close> for a buffer of the caller of \<open>n\<close>
  bytes and \<open>None\<close> for \<open>*data_ == NULL\<close>; it returns \<open>None\<close> when it leaves \<open>*data_\<close> alone
  and returns 0, and otherwise the bytes \<open>*data_\<close> points at. The lemmas show that the
  bytes the encoder still owes (\<open>owed\<close>) are given in order and exactly once, whatever the
  buffers, so the stream is the concatenation of the frames.
\<close>

datatype enc_step = V1_message_ready | V1_size_ready | V2_message_ready | V2_size_ready | Raw_message_ready

record encoder =
  e_pending :: "byte list"
  e_next :: enc_step
  e_new_msg :: bool
  e_bufsize :: nat
  e_msg :: "vmsg option"

definition e_next_step :: "byte list \<Rightarrow> enc_step \<Rightarrow> bool \<Rightarrow> encoder \<Rightarrow> encoder" where
  "e_next_step bs n new_msg e = e\<lparr>e_pending := bs, e_next := n, e_new_msg := new_msg\<rparr>"

definition new_encoder :: "enc_step \<Rightarrow> nat \<Rightarrow> encoder" where
  "new_encoder first bufsize =
     e_next_step [] first True \<lparr>e_pending = [], e_next = first, e_new_msg = False, e_bufsize = bufsize, e_msg = None\<rparr>"

definition v1_encoder :: "nat \<Rightarrow> encoder" where "v1_encoder = new_encoder V1_message_ready"
definition v2_encoder :: "nat \<Rightarrow> encoder" where "v2_encoder = new_encoder V2_message_ready"
definition raw_encoder :: "nat \<Rightarrow> encoder" where "raw_encoder = new_encoder Raw_message_ready"

text \<open>The size and flags fields that \<open>message_ready\<close> puts into \<open>tmpbuf\<close>.\<close>

definition put_size :: "nat \<Rightarrow> byte list" where
  "put_size n = put_uint64 (replicate 8 0) (of_nat n)"

definition v1_header :: "vmsg \<Rightarrow> byte list" where
  "v1_header m = (let size = length (vdata m) + 1; fl = vflags m AND more_flag in
     if size < 255 then [of_nat size, fl] else 0xff # put_size size @ [fl])"

definition v2_header :: "vmsg \<Rightarrow> byte list" where
  "v2_header m = (let size = length (vdata m);
       fl = (if vflags m AND more_flag \<noteq> 0 then 1 else 0);
       fl = (if size > 255 then fl OR 2 else fl);
       fl = (if vflags m AND command_flag \<noteq> 0 then fl OR 4 else fl) in
     if size > 255 then fl # put_size size else [fl, of_nat size])"

definition v1_enc_message_ready :: "vmsg \<Rightarrow> encoder \<Rightarrow> encoder" where
  "v1_enc_message_ready m = e_next_step (v1_header m) V1_size_ready False"

definition v1_enc_size_ready :: "vmsg \<Rightarrow> encoder \<Rightarrow> encoder" where
  "v1_enc_size_ready m = e_next_step (vdata m) V1_message_ready True"

definition v2_enc_message_ready :: "vmsg \<Rightarrow> encoder \<Rightarrow> encoder" where
  "v2_enc_message_ready m = e_next_step (v2_header m) V2_size_ready False"

definition v2_enc_size_ready :: "vmsg \<Rightarrow> encoder \<Rightarrow> encoder" where
  "v2_enc_size_ready m = e_next_step (vdata m) V2_message_ready True"

definition raw_message_ready :: "vmsg \<Rightarrow> encoder \<Rightarrow> encoder" where
  "raw_message_ready m = e_next_step (vdata m) Raw_message_ready True"

text \<open>\<open>(static_cast <T*> (this)->*next) ()\<close>; every action reads \<open>in_progress\<close>.\<close>

definition e_run_next :: "encoder \<Rightarrow> encoder option" where
  "e_run_next e = do { m \<leftarrow> e_msg e;
     Some ((case e_next e of
         V1_message_ready \<Rightarrow> v1_enc_message_ready m | V1_size_ready \<Rightarrow> v1_enc_size_ready m
       | V2_message_ready \<Rightarrow> v2_enc_message_ready m | V2_size_ready \<Rightarrow> v2_enc_size_ready m
       | Raw_message_ready \<Rightarrow> raw_message_ready m) e) }"

definition load_msg :: "vmsg \<Rightarrow> encoder \<Rightarrow> encoder option" where
  "load_msg m e = do { zmq_assert (Option.is_none (e_msg e)); e_run_next (e\<lparr>e_msg := Some m\<rparr>) }"

lemma length_put_size [simp]: "length (put_size n) = 8"
  by (simp add: put_size_def)

lemma header_not_Nil [simp]: "v1_header m \<noteq> []" "v2_header m \<noteq> []"
  by (simp_all add: v1_header_def v2_header_def Let_def)

lemmas enc_steps = v1_enc_message_ready_def v1_enc_size_ready_def v2_enc_message_ready_def
  v2_enc_size_ready_def raw_message_ready_def e_next_step_def

text \<open>An action that schedules no bytes marks the end of the message.\<close>

lemma e_run_next_progress:
  "e_run_next e = Some e' \<Longrightarrow> e_pending e' \<noteq> [] \<or> e_new_msg e'"
  by (cases "e_next e") (auto simp: e_run_next_def bind_eq_Some_conv enc_steps)

text \<open>
  The loop of \<open>encode\<close> over a buffer of \<open>bsize\<close> bytes that holds \<open>out\<close>; \<open>own\<close> is
  \<open>!*data_\<close>. Each round either copies a byte or ends the message.
\<close>

function enc_loop :: "bool \<Rightarrow> nat \<Rightarrow> byte list \<Rightarrow> encoder \<Rightarrow> (byte list \<times> encoder) option" where
  "enc_loop own bsize out e =
     (if \<not> length out < bsize then Some (out, e)
      else if e_pending e = [] \<and> e_new_msg e then Some (out, e\<lparr>e_msg := None\<rparr>)
      else case (if e_pending e = [] then e_run_next e else Some e) of None \<Rightarrow> None
      | Some e \<Rightarrow>
          if out = [] \<and> own \<and> length (e_pending e) \<ge> bsize then Some (e_pending e, e\<lparr>e_pending := []\<rparr>)
          else let to_copy = min (length (e_pending e)) (bsize - length out) in
            enc_loop own bsize (out @ take to_copy (e_pending e)) (e\<lparr>e_pending := drop to_copy (e_pending e)\<rparr>))"
  by pat_completeness auto
termination
proof (relation "measure (\<lambda>(own, bsize, out, e). 2 * (bsize - length out) + (if e_new_msg e then 0 else 1))",
    goal_cases)
  case (2 own bsize out e e' to_copy)
  show ?case
  proof (cases "e_pending e' = []")
    case True
    with 2 have "e_pending e = []" by (auto split: if_splits)
    with 2 have "e_run_next e = Some e'" "\<not> e_new_msg e" by auto
    with e_run_next_progress [of e e'] True 2 show ?thesis by simp
  next
    case False
    then have "0 < length (e_pending e')" by simp
    moreover from 2 have "length out < bsize" "to_copy = min (length (e_pending e')) (bsize - length out)" by simp_all
    ultimately have c: "0 < to_copy" "length out + to_copy \<le> bsize" "to_copy \<le> length (e_pending e')"
      by (simp, linarith, simp)
    from c(2) obtain k where "bsize = length out + to_copy + k" by (auto simp: le_iff_add)
    with c show ?thesis by (simp add: min_absorb2)
  qed
qed simp

declare enc_loop.simps [simp del]

definition encode :: "nat option \<Rightarrow> encoder \<Rightarrow> (byte list option \<times> encoder) option" where
  "encode data e =
     (let buffersize = (case data of None \<Rightarrow> e_bufsize e | Some n \<Rightarrow> n) in
      if Option.is_none (e_msg e) then Some (None, e)
      else do { (out, e) \<leftarrow> enc_loop (Option.is_none data) buffersize [] e; Some (Some out, e) })"

text \<open>
  \<open>stream_engine_t::out_event\<close> lines 377 to 390, over any \<open>i_encoder\<close> (\<open>ld\<close>, \<open>enc\<close>).
  The messages that \<open>next_msg\<close> would return are the list; the result is \<open>outpos\<close> with its
  \<open>outsize\<close> bytes (\<open>None\<close> for \<open>NULL\<close>), the messages left, and the encoder.
\<close>

primrec out_fill :: "(vmsg \<Rightarrow> 'e \<Rightarrow> 'e option) \<Rightarrow> (nat option \<Rightarrow> 'e \<Rightarrow> (byte list option \<times> 'e) option) \<Rightarrow>
    nat \<Rightarrow> byte list option \<Rightarrow> vmsg list \<Rightarrow> 'e \<Rightarrow> (byte list option \<times> vmsg list \<times> 'e) option" where
  "out_fill ld enc batch outpos [] e = Some (outpos, [], e)"
| "out_fill ld enc batch outpos (m # ms) e =
     (let out = (case outpos of None \<Rightarrow> [] | Some bs \<Rightarrow> bs) in
      if \<not> length out < batch then Some (outpos, m # ms, e)
      else do {
        e \<leftarrow> ld m e;
        (r, e) \<leftarrow> enc (case outpos of None \<Rightarrow> None | Some bs \<Rightarrow> Some (batch - length bs)) e;
        (case r of None \<Rightarrow> None | Some bs \<Rightarrow> do {
           zmq_assert (bs \<noteq> []);
           out_fill ld enc batch (Some (out @ bs)) ms e }) })"

definition out_batch :: "(vmsg \<Rightarrow> 'e \<Rightarrow> 'e option) \<Rightarrow> (nat option \<Rightarrow> 'e \<Rightarrow> (byte list option \<times> 'e) option) \<Rightarrow>
    nat \<Rightarrow> vmsg list \<Rightarrow> 'e \<Rightarrow> (byte list \<times> vmsg list \<times> 'e) option" where
  "out_batch ld enc batch ms e = do {
     (outpos, e) \<leftarrow> enc None e;
     (outpos, ms, e) \<leftarrow> out_fill ld enc batch outpos ms e;
     Some (case outpos of None \<Rightarrow> [] | Some bs \<Rightarrow> bs, ms, e) }"

text \<open>\<open>n\<close> output events, each after the last one's bytes were written to the socket.\<close>

primrec out_events :: "(vmsg \<Rightarrow> 'e \<Rightarrow> 'e option) \<Rightarrow> (nat option \<Rightarrow> 'e \<Rightarrow> (byte list option \<times> 'e) option) \<Rightarrow>
    nat \<Rightarrow> nat \<Rightarrow> vmsg list \<Rightarrow> 'e \<Rightarrow> (byte list \<times> vmsg list \<times> 'e) option" where
  "out_events ld enc batch 0 ms e = Some ([], ms, e)"
| "out_events ld enc batch (Suc n) ms e = do {
     (bs, ms, e) \<leftarrow> out_batch ld enc batch ms e;
     (cs, ms, e) \<leftarrow> out_events ld enc batch n ms e;
     Some (bs @ cs, ms, e) }"

subsection \<open>What the engine relies on\<close>

text \<open>
  The contract of an encoder: \<open>owed\<close> is what is still to be given of the message in
  progress. A buffer that is not filled means that the message is complete.
\<close>

locale stream_encoder =
  fixes ld :: "vmsg \<Rightarrow> 'e \<Rightarrow> 'e option"
    and enc :: "nat option \<Rightarrow> 'e \<Rightarrow> (byte list option \<times> 'e) option"
    and inv :: "'e \<Rightarrow> bool" and idle :: "'e \<Rightarrow> bool" and owed :: "'e \<Rightarrow> byte list"
    and frame :: "vmsg \<Rightarrow> byte list" and bufsz :: nat
  assumes load_law: "inv e \<Longrightarrow> idle e \<Longrightarrow> \<exists>e'. ld m e = Some e' \<and> inv e' \<and> \<not> idle e' \<and> owed e' = frame m"
    and idle_law: "inv e \<Longrightarrow> idle e \<Longrightarrow> owed e = [] \<and> enc data e = Some (None, e)"
    and enc_law: "inv e \<Longrightarrow> \<not> idle e \<Longrightarrow> \<exists>bs e'. enc data e = Some (Some bs, e') \<and> inv e' \<and>
      owed e = bs @ owed e' \<and> (length bs < (case data of None \<Rightarrow> bufsz | Some n \<Rightarrow> n) \<longrightarrow> idle e')"
begin

lemma out_fill_ok:
  assumes "inv e" "\<forall>m\<in>set ms. frame m \<noteq> []"
    "outpos = None \<longrightarrow> idle e" "case outpos of None \<Rightarrow> True | Some bs \<Rightarrow> length bs < bufsz \<longrightarrow> idle e"
  shows "\<exists>r ms' sent e'. out_fill ld enc bufsz outpos ms e = Some (r, ms', e') \<and> inv e' \<and> ms = sent @ ms' \<and>
    (case outpos of None \<Rightarrow> [] | Some bs \<Rightarrow> bs) @ owed e @ concat (map frame sent) =
      (case r of None \<Rightarrow> [] | Some bs \<Rightarrow> bs) @ owed e' \<and>
    (length (case r of None \<Rightarrow> [] | Some bs \<Rightarrow> bs) < bufsz \<longrightarrow> idle e' \<and> ms' = [])"
  using assms
proof (induction ms arbitrary: outpos e)
  case Nil
  then show ?case by (auto split: option.splits)
next
  case (Cons m ms)
  let ?out = "case outpos of None \<Rightarrow> [] | Some bs \<Rightarrow> bs"
  let ?data = "case outpos of None \<Rightarrow> None | Some bs \<Rightarrow> Some (bufsz - length bs)"
  show ?case
  proof (cases "length ?out < bufsz")
    case False
    then show ?thesis using Cons.prems by (intro exI [of _ outpos] exI [of _ "m # ms"] exI [of _ "[]"] exI [of _ e]) auto
  next
    case True
    with Cons.prems(3,4) have idle: "idle e" by (auto split: option.splits)
    with idle_law Cons.prems(1) have o0: "owed e = []" by blast
    from load_law [OF Cons.prems(1) idle, of m] obtain e1 where
      e1: "ld m e = Some e1" "inv e1" "\<not> idle e1" "owed e1 = frame m" by blast
    from enc_law [OF e1(2,3), of ?data] obtain bs e2 where
      e2: "enc ?data e1 = Some (Some bs, e2)" "inv e2" "frame m = bs @ owed e2"
        "length bs < (case ?data of None \<Rightarrow> bufsz | Some n \<Rightarrow> n) \<Longrightarrow> idle e2"
      using e1(4) by auto
    from True have room: "(case ?data of None \<Rightarrow> bufsz | Some n \<Rightarrow> n) = bufsz - length ?out" "0 < bufsz - length ?out"
      by (auto split: option.splits)
    have ne: "bs \<noteq> []"
    proof
      assume "bs = []"
      with e2(4) room have "idle e2" by simp
      with idle_law [OF e2(2)] e2(3) \<open>bs = []\<close> Cons.prems(2) show False by auto
    qed
    have "length (?out @ bs) < bufsz \<Longrightarrow> idle e2" using e2(4) room by simp
    with Cons.IH [of e2 "Some (?out @ bs)"] e2(2) Cons.prems(2)
    obtain r ms' sent e' where *: "out_fill ld enc bufsz (Some (?out @ bs)) ms e2 = Some (r, ms', e')" "inv e'"
      "ms = sent @ ms'" "(?out @ bs) @ owed e2 @ concat (map frame sent) = (case r of None \<Rightarrow> [] | Some bs \<Rightarrow> bs) @ owed e'"
      "length (case r of None \<Rightarrow> [] | Some bs \<Rightarrow> bs) < bufsz \<longrightarrow> idle e' \<and> ms' = []"
      by (auto simp del: append_assoc)
    have "out_fill ld enc bufsz outpos (m # ms) e = Some (r, ms', e')"
      using True e1(1) e2(1) ne *(1) by (simp add: Let_def)
    with * o0 e2(3) show ?thesis
      by (intro exI [of _ r] exI [of _ ms'] exI [of _ "m # sent"] exI [of _ e']) auto
  qed
qed

lemma out_batch_ok:
  assumes "inv e" "\<forall>m\<in>set ms. frame m \<noteq> []"
  obtains bs ms' sent e' where "out_batch ld enc bufsz ms e = Some (bs, ms', e')" "inv e'" "ms = sent @ ms'"
    "owed e @ concat (map frame sent) = bs @ owed e'" "length bs < bufsz \<longrightarrow> idle e' \<and> ms' = []"
proof -
  obtain r e1 where 1: "enc None e = Some (r, e1)" "inv e1" "owed e = (case r of None \<Rightarrow> [] | Some bs \<Rightarrow> bs) @ owed e1"
    "r = None \<longrightarrow> idle e1" "case r of None \<Rightarrow> True | Some bs \<Rightarrow> length bs < bufsz \<longrightarrow> idle e1"
  proof (cases "idle e")
    case True
    with idle_law [OF assms(1) True, of None] assms(1) that show thesis by auto
  next
    case False
    from enc_law [OF assms(1) False, of None] obtain bs e1 where
      "enc None e = Some (Some bs, e1)" "inv e1" "owed e = bs @ owed e1" "length bs < bufsz \<longrightarrow> idle e1" by auto
    with that [of "Some bs" e1] show thesis by simp
  qed
  from out_fill_ok [OF 1(2) assms(2) 1(4,5)] obtain r' ms' sent e' where
    2: "out_fill ld enc bufsz r ms e1 = Some (r', ms', e')" "inv e'" "ms = sent @ ms'"
    "(case r of None \<Rightarrow> [] | Some bs \<Rightarrow> bs) @ owed e1 @ concat (map frame sent) =
      (case r' of None \<Rightarrow> [] | Some bs \<Rightarrow> bs) @ owed e'"
    "length (case r' of None \<Rightarrow> [] | Some bs \<Rightarrow> bs) < bufsz \<longrightarrow> idle e' \<and> ms' = []" by blast
  show thesis
    by (rule that [of "case r' of None \<Rightarrow> [] | Some bs \<Rightarrow> bs" ms' e' sent]) (use 1 2 in \<open>auto simp: out_batch_def\<close>)
qed

theorem out_events_ok:
  assumes "inv e" "\<forall>m\<in>set ms. frame m \<noteq> []"
  shows "\<exists>bs ms' sent e'. out_events ld enc bufsz n ms e = Some (bs, ms', e') \<and> inv e' \<and> ms = sent @ ms' \<and>
    owed e @ concat (map frame sent) = bs @ owed e' \<and> (length bs < n * bufsz \<longrightarrow> idle e' \<and> ms' = [])"
  using assms
proof (induction n arbitrary: e ms)
  case 0
  then show ?case by (intro exI [of _ "[]"] exI [of _ ms] exI [of _ e]) auto
next
  case (Suc n)
  obtain bs ms1 sent1 e1 where
    1: "out_batch ld enc bufsz ms e = Some (bs, ms1, e1)" "inv e1" "ms = sent1 @ ms1"
    "owed e @ concat (map frame sent1) = bs @ owed e1" "length bs < bufsz \<longrightarrow> idle e1 \<and> ms1 = []" by (rule out_batch_ok [OF Suc.prems]) (rule that)
  from 1(3) Suc.prems(2) have "\<forall>m\<in>set ms1. frame m \<noteq> []" by simp
  with Suc.IH [OF 1(2)] obtain cs ms2 sent2 e2 where
    2: "out_events ld enc bufsz n ms1 e1 = Some (cs, ms2, e2)" "inv e2" "ms1 = sent2 @ ms2"
    "owed e1 @ concat (map frame sent2) = cs @ owed e2" "length cs < n * bufsz \<longrightarrow> idle e2 \<and> ms2 = []" by blast
  have "owed e @ concat (map frame (sent1 @ sent2)) = (bs @ cs) @ owed e2"
    using 1(4) 2(4) by (metis append.assoc concat_append map_append)
  moreover have "idle e2 \<and> ms2 = []" if "length (bs @ cs) < Suc n * bufsz"
  proof (cases "length bs < bufsz")
    case True
    with 1(5) have "idle e1" "ms1 = []" by auto
    with 2(3) have ms2: "sent2 = []" "ms2 = []" by auto
    show ?thesis
    proof (cases "length cs < n * bufsz")
      case False
      with 2(4) ms2 idle_law [OF 1(2) \<open>idle e1\<close>] have "cs = []" by auto
      with False True have n: "n = 0" by (cases n) auto
      from 2(1) \<open>idle e1\<close> ms2 show ?thesis by (simp add: n)
    qed (use 2(5) in simp)
  qed (use that 2(5) in simp)
  ultimately show ?case using 1 2
    by (intro exI [of _ "bs @ cs"] exI [of _ ms2] exI [of _ "sent1 @ sent2"] exI [of _ e2]) auto
qed

end

subsection \<open>The encoders of the three protocols\<close>

text \<open>What an action and the ones after it still give of message \<open>m\<close>, and the first action.\<close>

fun enc_rest :: "enc_step \<Rightarrow> vmsg \<Rightarrow> byte list" where
  "enc_rest V1_message_ready m = v1_header m @ vdata m"
| "enc_rest V2_message_ready m = v2_header m @ vdata m"
| "enc_rest _ m = vdata m"

fun first_step :: "enc_step \<Rightarrow> enc_step" where
  "first_step V1_size_ready = V1_message_ready"
| "first_step V2_size_ready = V2_message_ready"
| "first_step n = n"

definition owed :: "encoder \<Rightarrow> byte list" where
  "owed e = e_pending e @ (if e_new_msg e then [] else case e_msg e of None \<Rightarrow> [] | Some m \<Rightarrow> enc_rest (e_next e) m)"

definition enc_inv :: "enc_step \<Rightarrow> nat \<Rightarrow> encoder \<Rightarrow> bool" where
  "enc_inv k n e \<longleftrightarrow> first_step (e_next e) = k \<and> e_bufsize e = n \<and> (e_new_msg e \<longleftrightarrow> e_next e = k) \<and>
     (e_msg e = None \<longrightarrow> e_pending e = [] \<and> e_new_msg e)"

lemma first_step_idem [simp]: "first_step (first_step n) = first_step n"
  by (cases n) simp_all

lemma first_step_rest [simp]: "first_step n \<noteq> n \<Longrightarrow> enc_rest n m = vdata m"
  by (cases n) simp_all

text \<open>Running an action schedules exactly what it owes.\<close>

lemma e_run_next_ok:
  assumes "e_msg e = Some m"
  obtains e' where "e_run_next e = Some e'" "e_msg e' = Some m" "e_bufsize e' = e_bufsize e" "owed e' = enc_rest (e_next e) m"
    "first_step (e_next e') = first_step (e_next e)" "e_new_msg e' \<longleftrightarrow> e_next e' = first_step (e_next e)"
  using assms by (cases "e_next e") (auto simp: e_run_next_def enc_steps owed_def)

lemma enc_loop_ok:
  assumes "enc_inv k n e" "e_msg e = Some m" "own \<longrightarrow> bsize = n"
  shows "\<exists>bs e'. enc_loop own bsize out e = Some (bs, e') \<and> enc_inv k n e' \<and> out @ owed e = bs @ owed e' \<and>
    (length bs < bsize \<longrightarrow> e_msg e' = None)"
  using assms
proof (induction own bsize out e rule: enc_loop.induct)
  case (1 own bsize out e)
  note inv = 1(2) [unfolded enc_inv_def]
  consider (full) "\<not> length out < bsize" | (over) "length out < bsize" "e_pending e = []" "e_new_msg e"
    | (go) "length out < bsize" "\<not> (e_pending e = [] \<and> e_new_msg e)" by blast
  then show ?case
  proof cases
    case full
    with 1(2) show ?thesis by (auto simp: enc_loop.simps [of own bsize out e])
  next
    case over
    with inv show ?thesis by (auto simp: enc_loop.simps [of own bsize out e] enc_inv_def owed_def)
  next
    case go
    obtain e1 where e1: "(if e_pending e = [] then e_run_next e else Some e) = Some e1"
      "enc_inv k n e1" "e_msg e1 = Some m" "owed e1 = owed e"
    proof (cases "e_pending e = []")
      case True
      with go have "\<not> e_new_msg e" by simp
      with True 1(3) have o: "owed e = enc_rest (e_next e) m" by (simp add: owed_def)
      from e_run_next_ok [OF 1(3)] obtain e1 where "e_run_next e = Some e1" "e_msg e1 = Some m"
        "e_bufsize e1 = e_bufsize e" "owed e1 = enc_rest (e_next e) m"
        "first_step (e_next e1) = first_step (e_next e)" "e_new_msg e1 \<longleftrightarrow> e_next e1 = first_step (e_next e)" by blast
      with that [of e1] True o inv show thesis by (simp add: enc_inv_def)
    next
      case False
      with that [of e] 1(2,3) show thesis by simp
    qed
    show ?thesis
    proof (cases "out = [] \<and> own \<and> bsize \<le> length (e_pending e1)")
      case True
      with 1(2,4) have "enc_loop own bsize out e = Some (e_pending e1, e1\<lparr>e_pending := []\<rparr>)"
        using go e1(1) by (subst enc_loop.simps) auto
      with True e1(2,3,4) show ?thesis by (auto simp: enc_inv_def owed_def)
    next
      case False
      define c where "c = min (length (e_pending e1)) (bsize - length out)"
      let ?e = "e1\<lparr>e_pending := drop c (e_pending e1)\<rparr>"
      have loop: "enc_loop own bsize out e = enc_loop own bsize (out @ take c (e_pending e1)) ?e"
        using go e1(1) False by (subst enc_loop.simps) (auto simp: c_def Let_def)
      from e1(2,3) have "enc_inv k n ?e" "e_msg ?e = Some m" by (simp_all add: enc_inv_def)
      from 1(1) [OF _ _ e1(1) False c_def this 1(4)] go
      have IH: "\<exists>bs e'. enc_loop own bsize (out @ take c (e_pending e1)) ?e = Some (bs, e') \<and> enc_inv k n e' \<and>
        (out @ take c (e_pending e1)) @ owed ?e = bs @ owed e' \<and> (length bs < bsize \<longrightarrow> e_msg e' = None)" by simp
      have "(out @ take c (e_pending e1)) @ owed ?e = out @ owed e"
        by (simp add: e1(4) [symmetric]) (simp add: owed_def e1(3) append_assoc [symmetric] del: append_assoc)
      with IH loop show ?thesis by simp
    qed
  qed
qed

lemma encode_ok:
  assumes "enc_inv k n e" "e_msg e \<noteq> None"
  shows "\<exists>bs e'. encode data e = Some (Some bs, e') \<and> enc_inv k n e' \<and> owed e = bs @ owed e' \<and>
    (length bs < (case data of None \<Rightarrow> n | Some j \<Rightarrow> j) \<longrightarrow> e_msg e' = None)"
proof -
  from assms(2) obtain m where m: "e_msg e = Some m" by auto
  let ?b = "case data of None \<Rightarrow> e_bufsize e | Some j \<Rightarrow> j"
  have n: "e_bufsize e = n" using assms(1) by (simp add: enc_inv_def)
  from enc_loop_ok [OF assms(1) m, of "Option.is_none data" ?b "[]"] obtain bs e' where
    "enc_loop (Option.is_none data) ?b [] e = Some (bs, e')" "enc_inv k n e'" "owed e = bs @ owed e'"
    "length bs < ?b \<longrightarrow> e_msg e' = None" using n by (auto simp: Option.is_none_def)
  with n m show ?thesis by (auto simp: encode_def Option.is_none_def)
qed

lemma load_msg_ok:
  assumes "enc_inv k n e" "e_msg e = None"
  shows "\<exists>e'. load_msg m e = Some e' \<and> enc_inv k n e' \<and> e_msg e' \<noteq> None \<and> owed e' = enc_rest k m"
proof -
  from assms have k: "e_next e = k" "first_step k = k" "e_bufsize e = n" by (auto simp: enc_inv_def)
  from e_run_next_ok [of "e\<lparr>e_msg := Some m\<rparr>" m] obtain e' where
    "e_run_next (e\<lparr>e_msg := Some m\<rparr>) = Some e'" "e_msg e' = Some m" "e_bufsize e' = n" "owed e' = enc_rest k m"
    "first_step (e_next e') = k" "e_new_msg e' \<longleftrightarrow> e_next e' = k" using k by auto
  with assms(2) show ?thesis by (auto simp: load_msg_def enc_inv_def)
qed

lemma new_encoder_inv [simp]:
  "enc_inv V1_message_ready n (v1_encoder n)" "enc_inv V2_message_ready n (v2_encoder n)"
  "enc_inv Raw_message_ready n (raw_encoder n)"
  by (simp_all add: enc_inv_def v1_encoder_def v2_encoder_def raw_encoder_def new_encoder_def e_next_step_def)

lemma new_encoder_idle [simp]:
  "e_msg (v1_encoder n) = None" "e_msg (v2_encoder n) = None" "e_msg (raw_encoder n) = None"
  by (simp_all add: v1_encoder_def v2_encoder_def raw_encoder_def new_encoder_def e_next_step_def)

interpretation enc: stream_encoder load_msg encode "enc_inv k n" "\<lambda>e. e_msg e = None" owed "enc_rest k" n
proof
  show "\<exists>e'. load_msg m e = Some e' \<and> enc_inv k n e' \<and> e_msg e' \<noteq> None \<and> owed e' = enc_rest k m"
    if "enc_inv k n e" "e_msg e = None" for e m using load_msg_ok [OF that] .
  show "owed e = [] \<and> encode data e = Some (None, e)" if "enc_inv k n e" "e_msg e = None" for e data
    using that by (auto simp: enc_inv_def owed_def encode_def Option.is_none_def)
  show "\<exists>bs e'. encode data e = Some (Some bs, e') \<and> enc_inv k n e' \<and> owed e = bs @ owed e' \<and>
    (length bs < (case data of None \<Rightarrow> n | Some n \<Rightarrow> n) \<longrightarrow> e_msg e' = None)"
    if "enc_inv k n e" "e_msg e \<noteq> None" for e data using encode_ok [OF that] by simp
qed

lemma out_events_frames:
  assumes "k \<in> {V1_message_ready, V2_message_ready}"
  shows "\<exists>bs rest sent e. out_events load_msg encode batch n ms (new_encoder k batch) = Some (bs, rest, e) \<and>
    ms = sent @ rest \<and> concat (map (enc_rest k) sent) = bs @ owed e \<and>
    (length bs < n * batch \<longrightarrow> bs = concat (map (enc_rest k) ms))"
proof -
  have inv: "enc_inv k batch (new_encoder k batch)" "e_msg (new_encoder k batch) = None"
    using assms by (auto simp: enc_inv_def new_encoder_def e_next_step_def)
  have "\<forall>m\<in>set ms. enc_rest k m \<noteq> []" using assms by auto
  from enc.out_events_ok [OF inv(1) this, of n] obtain bs rest sent e where
    *: "out_events load_msg encode batch n ms (new_encoder k batch) = Some (bs, rest, e)" "enc_inv k batch e" "ms = sent @ rest"
    "owed (new_encoder k batch) @ concat (map (enc_rest k) sent) = bs @ owed e"
    "length bs < n * batch \<longrightarrow> e_msg e = None \<and> rest = []" by blast
  moreover have "owed (new_encoder k batch) = []" using enc.idle_law [OF inv] by simp
  moreover have "bs = concat (map (enc_rest k) ms)" if "length bs < n * batch"
  proof -
    from *(5) that have "e_msg e = None" "rest = []" by auto
    with enc.idle_law [OF *(2)] *(3,4) calculation(6) show ?thesis by simp
  qed
  ultimately show ?thesis by (intro exI [of _ bs] exI [of _ rest] exI [of _ sent] exI [of _ e]) simp
qed

subsection \<open>Property\<close>

text \<open>
  Whatever the batch size, the bytes that the output events of the engine write are the
  frames of the messages in their order, with nothing lost, repeated or split wrongly: in every
  run of \<open>n\<close> events no assertion fails, what was written is a prefix of the frames of the
  messages taken, the rest being still owed, and when fewer than \<open>n * batch\<close> bytes came out,
  everything was taken and written. \<open>k\<close> chooses the ZMTP 1.0 or the ZMTP 2.0 encoder.
\<close>

theorem encoder_stream:
  assumes "k \<in> {V1_message_ready, V2_message_ready}"
  shows "\<exists>bs rest sent e. out_events load_msg encode batch n ms (new_encoder k batch) = Some (bs, rest, e) \<and>
    ms = sent @ rest \<and> concat (map (enc_rest k) sent) = bs @ owed e \<and>
    (length bs < n * batch \<longrightarrow> bs = concat (map (enc_rest k) ms))"
  using assms by (rule out_events_frames)

theorem encoder_stream_witness:
  "\<exists>bs rest sent e. out_events load_msg encode 4 3 [plain type_vsm 0 [1, 2, 3]] (new_encoder V2_message_ready 4) = Some (bs, rest, e) \<and>
    [plain type_vsm 0 [1, 2, 3]] = sent @ rest \<and> concat (map (enc_rest V2_message_ready) sent) = bs @ owed e \<and>
    (length bs < 3 * 4 \<longrightarrow> bs = concat (map (enc_rest V2_message_ready) [plain type_vsm 0 [1, 2, 3]]))"
  by (rule encoder_stream) simp

end
