(* ===== verification/Decoder.thy ===== *)
theory Decoder
  imports Encoder
begin

text \<open>
  The inbound half of the framing layer: \<open>decoder_base_t\<close> of
  \<open>src/zmqsrc/src/decoder.hpp\<close>, its derived classes (\<open>v1_decoder.cpp\<close>,
  \<open>v2_decoder.cpp\<close>), \<open>raw_decoder.cpp\<close>, and the loop of \<open>stream_engine_t::in_event\<close>.

  \<open>d_got\<close> holds the bytes stored at the target of the last \<open>next_step\<close> (\<open>tmpbuf\<close> or the
  body of \<open>in_progress\<close>), \<open>d_to_read\<close> how many are still missing. \<open>d_size\<close> and
  \<open>d_flags\<close> are the size of \<open>in_progress\<close> and the flags to give it, \<open>d_frame\<close> is what
  \<open>msg ()\<close> hands out: flags and bytes of the last complete message. \<open>mem n\<close> says
  whether \<open>in_progress.init_size\<close> finds memory for \<open>n\<close> bytes.

  A ZMTP 2.0 body is a part of the receive buffer when it has arrived as a whole
  (\<open>decoder_allocators.cpp\<close>), which the code finds out by comparing addresses. The functions
  therefore get \<open>pos\<close>, the address of the byte after the last one read, and \<open>lim\<close>, that of the
  end of the receive buffer (\<open>data () + size ()\<close>), as 64-bit words. \<open>d_place\<close> is \<open>None\<close> when the
  target has \<open>to_read\<close> bytes of its own, and \<open>Some r\<close> when \<open>read_pos\<close> points into the
  receive buffer, of which \<open>r\<close> bytes are left. How the messages count the references to the buffer
  is not represented.
\<close>

datatype errno = EPROTO | EMSGSIZE | ENOMEM

datatype dec_rc = Rc_0 | Rc_1 | Rc_error errno

datatype dec_step = D1_one_byte_size_ready | D1_eight_byte_size_ready | D1_flags_ready | D1_message_ready
  | D2_flags_ready | D2_one_byte_size_ready | D2_eight_byte_size_ready | D2_message_ready

record decoder =
  d_next :: dec_step
  d_got :: "byte list"
  d_to_read :: nat
  d_size :: nat
  d_flags :: byte
  d_frame :: "byte \<times> byte list"
  d_max :: int
  d_place :: "nat option"

definition d_next_step :: "nat \<Rightarrow> dec_step \<Rightarrow> decoder \<Rightarrow> decoder" where
  "d_next_step to_read n d = d\<lparr>d_got := [], d_to_read := to_read, d_next := n, d_place := None\<rparr>"

definition new_decoder :: "dec_step \<Rightarrow> int \<Rightarrow> decoder" where
  "new_decoder first maxmsgsize = d_next_step 1 first
     \<lparr>d_next = first, d_got = [], d_to_read = 0, d_size = 0, d_flags = 0, d_frame = (0, []), d_max = maxmsgsize, d_place = None\<rparr>"

definition v1_decoder :: "int \<Rightarrow> decoder" where "v1_decoder = new_decoder D1_one_byte_size_ready"
definition v2_decoder :: "int \<Rightarrow> decoder" where "v2_decoder = new_decoder D2_flags_ready"

text \<open>\<open>in_progress.init_size\<close>, or \<open>init ()\<close> and the error when it fails.\<close>

definition d_init_size :: "(nat \<Rightarrow> bool) \<Rightarrow> nat \<Rightarrow> decoder \<Rightarrow> dec_rc \<times> decoder" where
  "d_init_size mem n d = (if mem n then (Rc_0, d\<lparr>d_size := n\<rparr>) else (Rc_error ENOMEM, d\<lparr>d_size := 0\<rparr>))"

subsection \<open>ZMTP 1.0\<close>

definition v1_one_byte_size_ready :: "(nat \<Rightarrow> bool) \<Rightarrow> decoder \<Rightarrow> dec_rc \<times> decoder" where
  "v1_one_byte_size_ready mem d =
     (let b = d_got d ! 0 in
      if b = 0xff then (Rc_0, d_next_step 8 D1_eight_byte_size_ready d)
      else if b = 0 then (Rc_error EPROTO, d)
      else if d_max d \<ge> 0 \<and> uint b - 1 > d_max d then (Rc_error EMSGSIZE, d)
      else case d_init_size mem (unat b - 1) d of
        (Rc_0, d) \<Rightarrow> (Rc_0, d_next_step 1 D1_flags_ready d)
      | err \<Rightarrow> err)"

text \<open>The third check compares with the largest \<open>size_t\<close>, which has 64 bits here.\<close>

definition v1_eight_byte_size_ready :: "(nat \<Rightarrow> bool) \<Rightarrow> decoder \<Rightarrow> dec_rc \<times> decoder" where
  "v1_eight_byte_size_ready mem d =
     (let payload_length = get_uint64 (d_got d) in
      if payload_length = 0 then (Rc_error EPROTO, d)
      else if d_max d \<ge> 0 \<and> payload_length - 1 > word_of_int (d_max d) then (Rc_error EMSGSIZE, d)
      else if payload_length - 1 > - 1 then (Rc_error EMSGSIZE, d)
      else case d_init_size mem (unat (payload_length - 1)) d of
        (Rc_0, d) \<Rightarrow> (Rc_0, d_next_step 1 D1_flags_ready d)
      | err \<Rightarrow> err)"

definition v1_flags_ready :: "decoder \<Rightarrow> dec_rc \<times> decoder" where
  "v1_flags_ready d = (Rc_0, d_next_step (d_size d) D1_message_ready (d\<lparr>d_flags := d_got d ! 0 AND more_flag\<rparr>))"

definition v1_dec_message_ready :: "decoder \<Rightarrow> dec_rc \<times> decoder" where
  "v1_dec_message_ready d =
     (Rc_1, d_next_step 1 D1_one_byte_size_ready (d\<lparr>d_frame := (d_flags d, d_got d)\<rparr>))"

subsection \<open>ZMTP 2.0\<close>

definition v2_flags_ready :: "decoder \<Rightarrow> dec_rc \<times> decoder" where
  "v2_flags_ready d =
     (let b = d_got d ! 0;
          fl = (if b AND 1 \<noteq> 0 then more_flag else 0);
          fl = (if b AND 4 \<noteq> 0 then fl OR command_flag else fl);
          d = d\<lparr>d_flags := fl\<rparr> in
      (Rc_0, if b AND 2 \<noteq> 0 then d_next_step 8 D2_eight_byte_size_ready d
             else d_next_step 1 D2_one_byte_size_ready d))"

text \<open>
  \<open>in_progress\<close> for a body of \<open>n\<close> bytes and its place: memory of its own when it would end behind
  the receive buffer, else the buffer itself, from which a small body is copied.
\<close>

definition v2_init_body :: "(nat \<Rightarrow> bool) \<Rightarrow> u64 \<Rightarrow> u64 \<Rightarrow> u64 \<Rightarrow> decoder \<Rightarrow> dec_rc \<times> nat option \<times> decoder" where
  "v2_init_body mem pos lim msize d =
     (if pos + msize > lim then (case d_init_size mem (unat msize) d of (rc, d) \<Rightarrow> (rc, None, d))
      else (Rc_0, if unat msize < max_vsm_size then None else Some (unat lim - unat pos), d\<lparr>d_size := unat msize\<rparr>))"

definition v2_size_ready :: "(nat \<Rightarrow> bool) \<Rightarrow> u64 \<Rightarrow> u64 \<Rightarrow> u64 \<Rightarrow> decoder \<Rightarrow> dec_rc \<times> decoder" where
  "v2_size_ready mem pos lim msize d =
     (if d_max d \<ge> 0 \<and> msize > word_of_int (d_max d) then (Rc_error EMSGSIZE, d)
      else if msize \<noteq> (ucast msize :: u64) then (Rc_error EMSGSIZE, d)
      else case v2_init_body mem pos lim msize d of
        (Rc_0, place, d) \<Rightarrow> (Rc_0, (d_next_step (d_size d) D2_message_ready d)\<lparr>d_place := place\<rparr>)
      | (rc, _, d) \<Rightarrow> (rc, d))"

definition v2_one_byte_size_ready :: "(nat \<Rightarrow> bool) \<Rightarrow> u64 \<Rightarrow> u64 \<Rightarrow> decoder \<Rightarrow> dec_rc \<times> decoder" where
  "v2_one_byte_size_ready mem pos lim d = v2_size_ready mem pos lim (ucast (d_got d ! 0)) d"

definition v2_eight_byte_size_ready :: "(nat \<Rightarrow> bool) \<Rightarrow> u64 \<Rightarrow> u64 \<Rightarrow> decoder \<Rightarrow> dec_rc \<times> decoder" where
  "v2_eight_byte_size_ready mem pos lim d = v2_size_ready mem pos lim (get_uint64 (d_got d)) d"

definition v2_dec_message_ready :: "decoder \<Rightarrow> dec_rc \<times> decoder" where
  "v2_dec_message_ready d =
     (Rc_1, d_next_step 1 D2_flags_ready (d\<lparr>d_frame := (d_flags d, d_got d)\<rparr>))"

subsection \<open>The state machine\<close>

fun d_run_next :: "(nat \<Rightarrow> bool) \<Rightarrow> u64 \<Rightarrow> u64 \<Rightarrow> dec_step \<Rightarrow> decoder \<Rightarrow> dec_rc \<times> decoder" where
  "d_run_next mem pos lim D1_one_byte_size_ready = v1_one_byte_size_ready mem"
| "d_run_next mem pos lim D1_eight_byte_size_ready = v1_eight_byte_size_ready mem"
| "d_run_next mem pos lim D1_flags_ready = v1_flags_ready"
| "d_run_next mem pos lim D1_message_ready = v1_dec_message_ready"
| "d_run_next mem pos lim D2_flags_ready = v2_flags_ready"
| "d_run_next mem pos lim D2_one_byte_size_ready = v2_one_byte_size_ready mem pos lim"
| "d_run_next mem pos lim D2_eight_byte_size_ready = v2_eight_byte_size_ready mem pos lim"
| "d_run_next mem pos lim D2_message_ready = v2_dec_message_ready"

lemmas dec_steps = v1_one_byte_size_ready_def v1_eight_byte_size_ready_def v1_flags_ready_def
  v1_dec_message_ready_def v2_flags_ready_def v2_size_ready_def v2_init_body_def v2_one_byte_size_ready_def
  v2_eight_byte_size_ready_def v2_dec_message_ready_def d_init_size_def d_next_step_def Let_def

text \<open>An action that needs no bytes for the next one has gone on to the end of a message.\<close>

lemma d_run_next_rank:
  assumes "d_run_next mem pos lim (d_next d) d = (Rc_0, d')" "d_to_read d' = 0"
  shows "d_next d' \<in> {D1_message_ready, D2_message_ready} \<and> d_next d \<notin> {D1_message_ready, D2_message_ready}"
  using assms by (cases "d_next d") (auto simp: dec_steps split: if_splits)

text \<open>\<open>while (to_read == 0)\<close>, lines 121 to 127 and 144 to 150.\<close>

function dec_run :: "(nat \<Rightarrow> bool) \<Rightarrow> u64 \<Rightarrow> u64 \<Rightarrow> decoder \<Rightarrow> dec_rc \<times> decoder" where
  "dec_run mem pos lim d = (if d_to_read d \<noteq> 0 then (Rc_0, d)
     else case d_run_next mem pos lim (d_next d) d of
       (Rc_0, d') \<Rightarrow> dec_run mem pos lim d'
     | (rc, d') \<Rightarrow> (rc, d'))"
  by pat_completeness auto
termination
proof (relation "measure (\<lambda>(mem, pos, lim, d). (if d_to_read d = 0 then 2 else 0) +
    (if d_next d \<in> {D1_message_ready, D2_message_ready} then 0 else 1))", goal_cases)
  case (2 mem pos lim d rc d')
  then show ?case using d_run_next_rank [of mem pos lim d d'] by (cases "d_to_read d' = 0") auto
qed simp

declare dec_run.simps [simp del]

lemma dec_run_to_read: "dec_run mem pos lim d = (Rc_0, d') \<Longrightarrow> d_to_read d' \<noteq> 0"
  by (induction mem pos lim d rule: dec_run.induct) (subst (asm) (2) dec_run.simps, auto split: if_splits prod.splits dec_rc.splits)

definition d_take :: "nat \<Rightarrow> byte list \<Rightarrow> decoder \<Rightarrow> decoder" where
  "d_take n bs d = d\<lparr>d_got := d_got d @ take n bs, d_to_read := d_to_read d - n, d_place := map_option (\<lambda>r. r - n) (d_place d)\<rparr>"

text \<open>
  The loop over the caller's bytes, of which \<open>bs\<close> are left, the first at \<open>addr\<close>; the result has
  \<open>bytes_used_\<close>.
\<close>

function dec_loop :: "(nat \<Rightarrow> bool) \<Rightarrow> u64 \<Rightarrow> u64 \<Rightarrow> nat \<Rightarrow> byte list \<Rightarrow> decoder \<Rightarrow> dec_rc \<times> nat \<times> decoder" where
  "dec_loop mem lim addr used bs d =
     (if bs = [] then (Rc_0, used, d)
      else let to_copy = min (d_to_read d) (length bs) in
        case dec_run mem (addr + of_nat to_copy) lim (d_take to_copy bs d) of
          (Rc_0, d') \<Rightarrow> dec_loop mem lim (addr + of_nat to_copy) (used + to_copy) (drop to_copy bs) d'
        | (rc, d') \<Rightarrow> (rc, used + to_copy, d'))"
  by pat_completeness auto
termination
proof (relation "measure (\<lambda>(mem, lim, addr, used, bs, d). 2 * length bs + (if d_to_read d = 0 then 1 else 0))", goal_cases)
  case (2 mem lim addr used bs d to_copy rc d')
  then have "d_to_read d' \<noteq> 0" using dec_run_to_read by metis
  with 2 show ?case by (cases "d_to_read d = 0") (auto simp: min_def)
qed simp

declare dec_loop.simps [simp del]

text \<open>
  \<open>in_place\<close> is \<open>data_ == read_pos\<close>: the caller has read the bytes to where they belong, which is
  undefined when there are more than fit there.
\<close>

definition decode :: "(nat \<Rightarrow> bool) \<Rightarrow> u64 \<Rightarrow> u64 \<Rightarrow> bool \<Rightarrow> byte list \<Rightarrow> decoder \<Rightarrow> (dec_rc \<times> nat \<times> decoder) option" where
  "decode mem lim addr in_place bs d =
     (if case d_place d of None \<Rightarrow> False | Some r \<Rightarrow> r < min (d_to_read d) (length bs) then None
      else if in_place then do {
        zmq_assert (length bs \<le> d_to_read d);
        (case dec_run mem (addr + of_nat (length bs)) lim (d_take (length bs) bs d) of (rc, d) \<Rightarrow> Some (rc, length bs, d)) }
      else Some (dec_loop mem lim addr 0 bs d))"

text \<open>Whether the caller is to read into the message, and how much at most.\<close>

definition get_buffer :: "nat \<Rightarrow> decoder \<Rightarrow> bool \<times> nat" where
  "get_buffer bufsize d = (if d_to_read d \<ge> bufsize then (True, d_to_read d) else (False, bufsize))"

text \<open>\<open>raw_decoder_t::decode\<close>: what was read is a message.\<close>

definition raw_decode :: "byte list \<Rightarrow> dec_rc \<times> nat \<times> (byte \<times> byte list)" where
  "raw_decode bs = (Rc_1, length bs, (0, bs))"

lemma d_run_next_msg: "d_run_next mem pos lim (d_next d) d = (Rc_1, d') \<Longrightarrow> d_to_read d' = 1 \<and> d_place d' = None"
  by (cases "d_next d") (auto simp: dec_steps split: if_splits)

lemma dec_run_msg: "dec_run mem pos lim d = (Rc_1, d') \<Longrightarrow> d_to_read d' = 1 \<and> d_place d' = None"
  by (induction mem pos lim d rule: dec_run.induct)
    (subst (asm) (2) dec_run.simps, auto split: if_splits prod.splits dec_rc.splits dest: d_run_next_msg simp del: One_nat_def)

lemma dec_loop_msg:
  assumes "dec_loop mem lim addr used bs d = (Rc_1, used', d')"
  shows "d_to_read d' = 1 \<and> used \<le> used' \<and> (used' = used \<longrightarrow> d_to_read d = 0)"
  using assms
proof (induction mem lim addr used bs d rule: dec_loop.induct)
  case (1 mem lim addr used bs d)
  let ?k = "min (d_to_read d) (length bs)"
  from 1(2) have ne: "bs \<noteq> []" by (subst (asm) dec_loop.simps) (auto split: if_splits)
  show ?case
  proof (cases "dec_run mem (addr + of_nat ?k) lim (d_take ?k bs d)")
    case (Pair rc d1)
    show ?thesis
    proof (cases rc)
      case Rc_0
      with Pair 1(2) ne have l: "dec_loop mem lim (addr + of_nat ?k) (used + ?k) (drop ?k bs) d1 = (Rc_1, used', d')"
        by (subst (asm) dec_loop.simps) (simp add: Let_def)
      from Pair Rc_0 have r: "dec_run mem (addr + of_nat ?k) lim (d_take ?k bs d) = (Rc_0, d1)" by simp
      from 1(1) [OF ne refl r [symmetric] refl l] dec_run_to_read [OF r] ne show ?thesis
        by (auto simp: min_def split: if_splits)
    next
      case Rc_1
      with Pair 1(2) ne have "used' = used + ?k" "d' = d1"
        by (subst (asm) dec_loop.simps, simp add: Let_def)+
      with Rc_1 Pair dec_run_msg ne show ?thesis by (auto simp: min_def split: if_splits)
    next
      case (Rc_error e)
      with Pair 1(2) ne show ?thesis by (subst (asm) dec_loop.simps) (simp add: Let_def)
    qed
  qed
qed

text \<open>
  \<open>stream_engine_t::in_event\<close> lines 333 to 346 when \<open>process_msg\<close> accepts every message:
  the messages handed over, the error if there was one, and the decoder.
\<close>

function in_loop :: "(nat \<Rightarrow> bool) \<Rightarrow> u64 \<Rightarrow> u64 \<Rightarrow> byte list \<Rightarrow> decoder \<Rightarrow>
    (byte \<times> byte list) list \<times> errno option \<times> decoder" where
  "in_loop mem lim addr bs d =
     (if bs = [] then ([], None, d)
      else case dec_loop mem lim addr 0 bs d of
        (Rc_0, used, d') \<Rightarrow> ([], None, d')
      | (Rc_error e, used, d') \<Rightarrow> ([], Some e, d')
      | (Rc_1, used, d') \<Rightarrow> (case in_loop mem lim (addr + of_nat used) (drop used bs) d' of (fs, r) \<Rightarrow> (d_frame d' # fs, r)))"
  by pat_completeness auto
termination
proof (relation "measure (\<lambda>(mem, lim, addr, bs, d). 2 * length bs + (if d_to_read d = 0 then 1 else 0))", goal_cases)
  case (2 mem lim addr bs d rc q used d')
  then have "dec_loop mem lim addr 0 bs d = (Rc_1, used, d')" by simp
  from dec_loop_msg [OF this] 2(1) show ?case by (cases "used = 0") auto
qed simp

declare in_loop.simps [simp del]

text \<open>
  The whole event: \<open>bs\<close> is what \<open>tcp_read\<close> put into the buffer that \<open>get_buffer\<close> named, which is
  the receive buffer at \<open>buf\<close> or the message at \<open>body\<close>. The receive buffer is then given the size
  of what was read (\<open>resize_buffer\<close>).
\<close>

definition in_event :: "(nat \<Rightarrow> bool) \<Rightarrow> nat \<Rightarrow> u64 \<times> u64 \<Rightarrow> byte list \<Rightarrow> decoder \<Rightarrow>
    ((byte \<times> byte list) list \<times> errno option \<times> decoder) option" where
  "in_event mem bufsize at bs d = (case at of (buf, body) \<Rightarrow>
     let in_place = fst (get_buffer bufsize d); inpos = (if in_place then body else buf); lim = buf + of_nat (length bs) in do {
       (rc, used, d) \<leftarrow> decode mem lim inpos in_place bs d;
       Some (case rc of Rc_0 \<Rightarrow> ([], None, d) | Rc_error e \<Rightarrow> ([], Some e, d)
         | Rc_1 \<Rightarrow> (case in_loop mem lim (inpos + of_nat used) (drop used bs) d of (fs, r) \<Rightarrow> (d_frame d # fs, r))) })"

subsection \<open>The reference: one byte at a time\<close>

text \<open>The reference has no receive buffer: each body but the empty one is a message of its own.\<close>

definition push :: "(nat \<Rightarrow> bool) \<Rightarrow> byte \<Rightarrow> decoder \<Rightarrow> dec_rc \<times> decoder" where
  "push mem b d = dec_run mem 0 0 (d_take 1 [b] d)"

type_synonym delivery = "(byte \<times> byte list) list \<times> errno option \<times> decoder"

definition deliver :: "(decoder \<Rightarrow> delivery) \<Rightarrow> dec_rc \<times> decoder \<Rightarrow> delivery" where
  "deliver go = (\<lambda>(rc, d). case rc of Rc_0 \<Rightarrow> go d | Rc_1 \<Rightarrow> (case go d of (fs, r) \<Rightarrow> (d_frame d # fs, r))
     | Rc_error e \<Rightarrow> ([], Some e, d))"

primrec feed :: "(nat \<Rightarrow> bool) \<Rightarrow> byte list \<Rightarrow> decoder \<Rightarrow> delivery" where
  "feed mem [] d = ([], None, d)"
| "feed mem (b # bs) d = deliver (feed mem bs) (push mem b d)"

lemma deliver_simps [simp]:
  "deliver go (Rc_0, d) = go d" "deliver go (Rc_error e, d) = ([], Some e, d)"
  "deliver go (Rc_1, d) = (case go d of (fs, r) \<Rightarrow> (d_frame d # fs, r))"
  by (simp_all add: deliver_def)

lemma d_take_simps [simp]:
  "d_to_read (d_take n bs d) = d_to_read d - n" "d_take 0 bs d = d"
  "d_got (d_take n bs d) = d_got d @ take n bs" "d_next (d_take n bs d) = d_next d" "d_max (d_take n bs d) = d_max d"
  "d_place (d_take n bs d) = map_option (\<lambda>r. r - n) (d_place d)"
  by (simp_all add: d_take_def option.map_id0 [unfolded id_def] cong: option.map_cong)

lemma d_take_Suc: "d_take (Suc n) (b # bs) d = d_take n bs (d_take 1 [b] d)"
  by (simp add: d_take_def option.map_comp o_def)

lemma dec_run_busy [simp]: "d_to_read d \<noteq> 0 \<Longrightarrow> dec_run mem pos lim d = (Rc_0, d)"
  by (simp add: dec_run.simps [of mem pos lim d])

lemma feed_partial:
  "n < d_to_read d \<Longrightarrow> n \<le> length bs \<Longrightarrow> feed mem bs d = feed mem (drop n bs) (d_take n bs d)"
proof (induction n arbitrary: bs d)
  case (Suc n)
  then obtain b cs where bs: "bs = b # cs" by (cases bs) auto
  from Suc.prems have "push mem b d = (Rc_0, d_take 1 [b] d)" by (simp add: push_def)
  with Suc.IH [of "d_take 1 [b] d" cs] Suc.prems bs show ?case by (simp add: d_take_Suc del: One_nat_def)
qed simp

text \<open>A round of the loop of \<open>decode\<close> is as many rounds of the reference as it takes bytes.\<close>

lemma feed_chunk:
  assumes "d_to_read d \<noteq> 0" "n = min (d_to_read d) (length bs)"
  shows "feed mem bs d = deliver (feed mem (drop n bs)) (dec_run mem 0 0 (d_take n bs d))"
proof (cases "n < d_to_read d")
  case True
  with feed_partial [of n d bs mem] assms(2) show ?thesis by simp
next
  case False
  with assms have n: "n = d_to_read d" "d_to_read d \<le> length bs" by auto
  from assms(1) obtain k where "d_to_read d = Suc k" using not0_implies_Suc by blast
  with n have k: "n = Suc k" "k < d_to_read d" "k < length bs" by simp_all
  have "drop k bs = bs ! k # drop n bs" by (simp add: k(1) Cons_nth_drop_Suc [OF k(3)])
  moreover have "d_take 1 [bs ! k] (d_take k bs d) = d_take n bs d"
    using k by (simp add: d_take_def take_Suc_conv_app_nth option.map_comp o_def)
  ultimately show ?thesis using feed_partial [of k d bs mem] k by (simp add: push_def)
qed

subsection \<open>The receive buffer makes no difference\<close>

text \<open>
  What the addresses and the memory must be like: the \<open>r\<close> bytes from \<open>pos\<close> to \<open>lim\<close> lie in the
  lower half of the address space, as memory of a process does, there is memory for bodies that
  fit into the buffer, and there is none for half of the address space.
\<close>

definition arena :: "(nat \<Rightarrow> bool) \<Rightarrow> u64 \<Rightarrow> u64 \<Rightarrow> nat \<Rightarrow> bool" where
  "arena mem pos lim r \<longleftrightarrow> lim = pos + of_nat r \<and> unat pos + r < 2 ^ 63 \<and> (\<forall>n\<le>r. mem n) \<and> (\<forall>n\<ge>2 ^ 63. \<not> mem n)"

definition own :: "decoder \<Rightarrow> decoder" where
  "own d = d\<lparr>d_place := None\<rparr>"

lemma own_simps [simp]:
  "d_next (own d) = d_next d" "d_to_read (own d) = d_to_read d" "d_max (own d) = d_max d" "d_got (own d) = d_got d"
  "d_size (own d) = d_size d" "d_flags (own d) = d_flags d" "d_frame (own d) = d_frame d" "d_place (own d) = None"
  "own (d_take n bs d) = d_take n bs (own d)" "own (own d) = own d" "own d = d \<longleftrightarrow> d_place d = None"
  by (simp_all add: own_def d_take_def) (metis (no_types) decoder.surjective decoder.update_convs(8) decoder.ext_inject)

lemma own_id [simp]: "d_place d = None \<Longrightarrow> own d = d"
  by simp

lemma limit_unat:
  assumes "0 \<le> m" "m < 2 ^ 63" "\<not> s > (word_of_int m :: u64)"
  shows "int (unat s) \<le> m"
proof -
  have "uint (word_of_int m :: u64) = m"
    using assms by (simp add: uint_word_of_int take_bit_int_eq_self)
  with assms(3) have "uint s \<le> m" by (simp add: word_less_def)
  then show ?thesis by simp
qed

lemma unat_add_small:
  assumes "unat (a :: u64) + n < 2 ^ 64"
  shows "unat (a + of_nat n) = unat a + n"
proof -
  have "n < 2 ^ 64" using assms by simp
  moreover have "unat (of_nat n :: u64) = n mod 2 ^ 64" by (simp add: unat_of_nat)
  ultimately have n: "unat (of_nat n :: u64) = n" by (simp only: mod_less)
  then have "unat a + unat (of_nat n :: u64) < 2 ^ LENGTH(64)" using assms by simp
  from this [unfolded unat_add_lem] n show ?thesis by (simp only:)
qed

lemma past_end:
  assumes "arena mem pos lim r" "unat s < 2 ^ 63"
  shows "pos + s > lim \<longleftrightarrow> r < unat s"
proof -
  have r: "lim = pos + of_nat r" "unat pos + r < 2 ^ 63" using assms(1) by (simp_all add: arena_def)
  have "unat lim = unat pos + r" unfolding r(1) by (rule unat_add_small) (use r(2) in simp)
  moreover have "unat (pos + of_nat (unat s)) = unat pos + unat s" by (rule unat_add_small) (use r(2) assms(2) in simp)
  ultimately show ?thesis by (simp add: word_less_nat_alt)
qed

definition is_v1 :: "decoder \<Rightarrow> bool" where
  "is_v1 d \<longleftrightarrow> d_next d \<in> {D1_one_byte_size_ready, D1_eight_byte_size_ready, D1_flags_ready, D1_message_ready}"

definition limited :: "decoder \<Rightarrow> bool" where
  "limited d \<longleftrightarrow> is_v1 d \<or> 0 \<le> d_max d \<and> d_max d < 2 ^ 63"

lemma d_run_next_limited: "d_run_next mem pos lim (d_next d) d = (rc, d') \<Longrightarrow> limited d \<Longrightarrow> limited d'"
  by (cases "d_next d") (auto simp: dec_steps limited_def is_v1_def split: if_splits)

text \<open>A target in the receive buffer is complete as soon as the bytes of the buffer are used.\<close>

definition place_ok :: "nat \<Rightarrow> decoder \<Rightarrow> bool" where
  "place_ok r d \<longleftrightarrow> d_place d = None \<or> d_place d = Some r \<and> d_next d = D2_message_ready \<and> d_to_read d \<le> r"

lemma size_ready_sim:
  assumes "arena mem pos lim r" "d_place d = None" "v2_size_ready mem 0 0 s d = (rc, e)" "limited d \<and> \<not> is_v1 d \<or> rc \<noteq> Rc_error ENOMEM"
  shows "\<exists>d1. v2_size_ready mem pos lim s d = (rc, d1) \<and> own d1 = e \<and> place_ok r d1 \<and> (rc \<noteq> Rc_0 \<longrightarrow> d_place d1 = None) \<and>
    (d_to_read d1 = 0 \<longrightarrow> d_place d1 = None)"
proof (cases "d_max d \<ge> 0 \<and> s > word_of_int (d_max d)")
  case True
  with assms show ?thesis by (auto simp: v2_size_ready_def place_ok_def)
next
  case False
  have od: "own d = d" using assms(2) by simp
  have small: "unat s < 2 ^ 63"
  proof (rule ccontr)
    assume big: "\<not> unat s < 2 ^ 63"
    have "rc = Rc_error ENOMEM"
    proof -
      have "\<not> mem (unat s)" using assms(1) big by (simp add: arena_def)
      moreover have "s > 0" using big by (auto simp: word_greater_zero_iff)
      ultimately show ?thesis using False assms(3) by (auto simp: v2_size_ready_def v2_init_body_def d_init_size_def)
    qed
    with assms(4) have "0 \<le> d_max d" "d_max d < 2 ^ 63" by (auto simp: limited_def)
    with limit_unat [of "d_max d" s] False have "int (unat s) \<le> d_max d" by simp
    with \<open>d_max d < 2 ^ 63\<close> have "int (unat s) < int (2 ^ 63)" by simp
    then have "unat s < 2 ^ 63" by (simp only: of_nat_less_iff)
    with big show False by (rule notE)
  qed
  note pe = past_end [OF assms(1) small]
  show ?thesis
  proof (cases "r < unat s")
    case True
    with pe have "pos + s > lim" "s > 0" by (auto simp: word_greater_zero_iff)
    with False assms(2,3) have "v2_size_ready mem pos lim s d = (rc, e)" "d_place e = None"
      by (auto simp: v2_size_ready_def v2_init_body_def d_init_size_def d_next_step_def split: if_splits)
    then show ?thesis by (auto simp: place_ok_def)
  next
    case fit: False
    have r: "lim = pos + of_nat r" "unat pos + r < 2 ^ 63" "mem (unat s)" using assms(1) fit by (simp_all add: arena_def)
    have "unat lim = unat pos + r" unfolding r(1) by (rule unat_add_small) (use r(2) in simp)
    moreover have "0 < s \<or> unat s = 0" by (cases "s = 0") (simp_all add: word_greater_zero_iff)
    ultimately show ?thesis using fit pe r False assms(2,3)
      by (auto simp: v2_size_ready_def v2_init_body_def d_init_size_def d_next_step_def own_def place_ok_def max_vsm_size_def split: if_splits)
  qed
qed

lemma d_run_next_sim:
  assumes "arena mem pos lim r" "d_place d = None \<or> d_next d = D2_message_ready" "d_run_next mem 0 0 (d_next d) (own d) = (rc, e)"
    "limited d \<or> rc \<noteq> Rc_error ENOMEM"
  shows "\<exists>d1. d_run_next mem pos lim (d_next d) d = (rc, d1) \<and> own d1 = e \<and> place_ok r d1 \<and> (rc \<noteq> Rc_0 \<longrightarrow> d_place d1 = None) \<and>
    (d_to_read d1 = 0 \<longrightarrow> d_place d1 = None)"
proof -
  consider "d_next d = D2_one_byte_size_ready" | "d_next d = D2_eight_byte_size_ready" | "d_next d = D2_message_ready"
    | "d_next d \<notin> {D2_one_byte_size_ready, D2_eight_byte_size_ready, D2_message_ready}" by blast
  then show ?thesis
  proof cases
    case 1
    then have "\<not> is_v1 d" "own d = d" using assms(2) by (auto simp: is_v1_def)
    with size_ready_sim [OF assms(1), of d "ucast (d_got d ! 0)" rc e] 1 assms(2-4) show ?thesis
      by (simp add: v2_one_byte_size_ready_def)
  next
    case 2
    then have "\<not> is_v1 d" "own d = d" using assms(2) by (auto simp: is_v1_def)
    with size_ready_sim [OF assms(1), of d "get_uint64 (d_got d)" rc e] 2 assms(2-4) show ?thesis
      by (simp add: v2_eight_byte_size_ready_def)
  next
    case 3
    with assms(3) show ?thesis by (auto simp: v2_dec_message_ready_def d_next_step_def own_def place_ok_def)
  next
    case 4
    with assms(2) have n: "d_place d = None" and od: "own d = d" by auto
    have "d_run_next mem pos lim (d_next d) d = (rc, e)" using 4 assms(3) od by (cases "d_next d") auto
    moreover have "d_place e = None"
      using 4 n assms(3) od by (cases "d_next d") (auto simp: dec_steps split: if_splits)
    ultimately show ?thesis by (auto simp: place_ok_def)
  qed
qed

lemma dec_run_sim:
  assumes "arena mem pos lim r" "dec_run mem 0 0 (own d) = (rc, e)" "limited d \<or> rc \<noteq> Rc_error ENOMEM"
    "d_to_read d \<noteq> 0 \<or> d_next d \<noteq> D2_message_ready \<longrightarrow> d_place d = None"
  shows "\<exists>d1. dec_run mem pos lim d = (rc, d1) \<and> own d1 = e \<and> place_ok r d1 \<and> (rc \<noteq> Rc_0 \<longrightarrow> d_place d1 = None) \<and>
    (limited d \<longrightarrow> limited d1)"
  using assms
proof (induction mem pos lim d rule: dec_run.induct)
  case (1 mem pos lim d)
  show ?case
  proof (cases "d_to_read d = 0")
    case False
    with 1 show ?thesis by (auto simp: place_ok_def)
  next
    case True
    obtain rc1 e1 where n: "d_run_next mem 0 0 (d_next d) (own d) = (rc1, e1)" by force
    have r0: "(case rc1 of Rc_0 \<Rightarrow> dec_run mem 0 0 e1 | _ \<Rightarrow> (rc1, e1)) = (rc, e)"
      using dec_run.simps [of mem 0 0 "own d"] True n 1(3) by (cases rc1) simp_all
    have nm: "limited d \<or> rc1 \<noteq> Rc_error ENOMEM" using r0 1(4) by (cases rc1) auto
    have np: "d_place d = None \<or> d_next d = D2_message_ready" using 1(5) by blast
    obtain d1 where
      d1: "d_run_next mem pos lim (d_next d) d = (rc1, d1)" "own d1 = e1" "place_ok r d1" "rc1 \<noteq> Rc_0 \<longrightarrow> d_place d1 = None"
        "d_to_read d1 = 0 \<longrightarrow> d_place d1 = None" using d_run_next_sim [OF 1(2) np n nm] by (elim exE conjE)
    have r1: "dec_run mem pos lim d = (case rc1 of Rc_0 \<Rightarrow> dec_run mem pos lim d1 | _ \<Rightarrow> (rc1, d1))"
      using dec_run.simps [of mem pos lim d] True d1(1) by (cases rc1) simp_all
    note lm = d_run_next_limited [OF d1(1)]
    show ?thesis
    proof (cases "rc1 = Rc_0 \<and> d_to_read d1 = 0")
      case stop: True
      have "\<not> d_to_read d \<noteq> 0" "(Rc_0, d1) = d_run_next mem pos lim (d_next d) d" using True stop d1(1) by simp_all
      note ih = 1(1) [OF this(1) this(2) refl 1(2)]
      have "\<exists>d2. dec_run mem pos lim d1 = (rc, d2) \<and> own d2 = e \<and> place_ok r d2 \<and> (rc \<noteq> Rc_0 \<longrightarrow> d_place d2 = None) \<and>
          (limited d1 \<longrightarrow> limited d2)"
        by (rule ih) (use r0 stop d1 lm 1(4) in auto)
      with r1 stop lm show ?thesis by auto
    next
      case False
      have "(rc1, d1) = (rc, d1) \<and> own d1 = e"
      proof (cases rc1)
        case Rc_0
        with False have "d_to_read e1 \<noteq> 0" using d1(2) by auto
        with Rc_0 r0 d1(2) show ?thesis by simp
      qed (use r0 d1(2) in auto)
      moreover have "dec_run mem pos lim d = (rc1, d1)" using r1 False by (cases rc1) auto
      ultimately show ?thesis using d1(3,4) lm by auto
    qed
  qed
qed

text \<open>When the reference runs out of memory for no body, or the sizes are limited.\<close>

definition safe :: "(nat \<Rightarrow> bool) \<Rightarrow> byte list \<Rightarrow> decoder \<Rightarrow> bool" where
  "safe mem bs d \<longleftrightarrow> limited d \<or> fst (snd (feed mem bs (own d))) \<noteq> Some ENOMEM"

lemma arena_take:
  assumes "arena mem addr lim (length bs)" "k \<le> length bs"
  shows "arena mem (addr + of_nat k) lim (length (drop k bs))"
proof -
  have a: "lim = addr + of_nat (length bs)" "unat addr + length bs < 2 ^ 63" using assms(1) by (simp_all add: arena_def)
  have "unat (addr + of_nat k) = unat addr + k" by (rule unat_add_small) (use a(2) assms(2) in simp)
  moreover have "lim = addr + of_nat k + of_nat (length bs - k)" using a(1) assms(2) by (simp add: of_nat_diff)
  ultimately show ?thesis using assms by (auto simp: arena_def)
qed

lemma place_take: "place_ok (length bs) d \<Longrightarrow> k = min (d_to_read d) (length bs) \<Longrightarrow> place_ok (length (drop k bs)) (d_take k bs d) \<and>
    (d_to_read (d_take k bs d) \<noteq> 0 \<or> d_next (d_take k bs d) \<noteq> D2_message_ready \<longrightarrow> d_place (d_take k bs d) = None)"
  by (auto simp: place_ok_def)

lemma limited_take [simp]: "limited (d_take k bs d) = limited d"
  by (simp add: limited_def is_v1_def)

lemma dec_loop_feed:
  assumes "d_to_read d \<noteq> 0" "arena mem addr lim (length bs)" "place_ok (length bs) d" "safe mem bs d"
    "dec_loop mem lim addr used bs d = (rc, used', d')"
  shows "feed mem bs (own d) = deliver (if rc = Rc_0 then (\<lambda>d. ([], None, d)) else feed mem (drop (used' - used) bs)) (rc, d') \<and>
    used \<le> used' \<and> used' - used \<le> length bs \<and> (rc = Rc_0 \<longrightarrow> d_to_read d' \<noteq> 0) \<and> d_place d' = None \<and> (limited d \<longrightarrow> limited d')"
  using assms
proof (induction mem lim addr used bs d rule: dec_loop.induct)
  case (1 mem lim addr used bs d)
  show ?case
  proof (cases "bs = []")
    case True
    with 1(2,6) have "rc = Rc_0" "used' = used" "d' = d" by (subst (asm) dec_loop.simps, simp)+
    with True 1(2,4) show ?thesis by (auto simp: place_ok_def)
  next
    case False
    let ?k = "min (d_to_read d) (length bs)"
    obtain rc1 e1 where r: "dec_run mem 0 0 (d_take ?k bs (own d)) = (rc1, e1)" by force
    have f: "feed mem bs (own d) = deliver (feed mem (drop ?k bs)) (rc1, e1)"
      using feed_chunk [of "own d" ?k bs mem] 1(2) r by simp
    have nm: "limited d \<or> rc1 \<noteq> Rc_error ENOMEM" using 1(5) f by (auto simp: safe_def)
    have "arena mem (addr + of_nat ?k) lim (length (drop ?k bs))" by (rule arena_take [OF 1(3)]) simp
    from dec_run_sim [OF this, of "d_take ?k bs d" rc1 e1] r nm place_take [OF 1(4) refl] obtain d1 where
      d1: "dec_run mem (addr + of_nat ?k) lim (d_take ?k bs d) = (rc1, d1)" "own d1 = e1" "place_ok (length (drop ?k bs)) d1"
        "rc1 \<noteq> Rc_0 \<longrightarrow> d_place d1 = None" "limited d \<longrightarrow> limited d1" by auto
    show ?thesis
    proof (cases "rc1 = Rc_0")
      case True
      with 1(6) False d1(1) have l: "dec_loop mem lim (addr + of_nat ?k) (used + ?k) (drop ?k bs) d1 = (rc, used', d')"
        by (subst (asm) dec_loop.simps) (simp add: Let_def)
      from d1(1) True have "d_to_read d1 \<noteq> 0" using dec_run_to_read by metis
      moreover have "safe mem (drop ?k bs) d1" using 1(5) f True d1(2,5) by (auto simp: safe_def)
      moreover have "arena mem (addr + of_nat ?k) lim (length (drop ?k bs))" by (rule arena_take [OF 1(3)]) simp
      ultimately have ih: "feed mem (drop ?k bs) (own d1) = deliver (if rc = Rc_0 then (\<lambda>d. ([], None, d))
            else feed mem (drop (used' - (used + ?k)) (drop ?k bs))) (rc, d') \<and> used + ?k \<le> used' \<and>
          used' - (used + ?k) \<le> length (drop ?k bs) \<and> (rc = Rc_0 \<longrightarrow> d_to_read d' \<noteq> 0) \<and> d_place d' = None \<and> (limited d1 \<longrightarrow> limited d')"
        using 1(1) [OF False refl d1(1) [symmetric] True _ _ d1(3) _ l] by blast
      have "used' - (used + ?k) + ?k = used' - used" using ih by simp
      with ih f True d1(2,5) show ?thesis by (simp add: drop_drop) (use ih in auto)
    next
      case ne: False
      with 1(6) False d1(1) have e: "rc = rc1" "used' = used + ?k" "d' = d1"
        by (subst (asm) dec_loop.simps, cases rc1, simp_all add: Let_def)+
      with ne d1(2,4,5) f show ?thesis by auto
    qed
  qed
qed

lemma in_loop_feed:
  "d_to_read d \<noteq> 0 \<Longrightarrow> arena mem addr lim (length bs) \<Longrightarrow> d_place d = None \<Longrightarrow> safe mem bs d \<Longrightarrow> in_loop mem lim addr bs d = feed mem bs d"
proof (induction mem lim addr bs d rule: in_loop.induct)
  case (1 mem lim addr bs d)
  show ?case
  proof (cases "bs = []")
    case False
    have p: "place_ok (length bs) d" and od: "own d = d" using 1(4) by (simp_all add: place_ok_def)
    obtain rc used d1 where l: "dec_loop mem lim addr 0 bs d = (rc, used, d1)" by (metis surj_pair)
    note f = dec_loop_feed [OF 1(2,3) p 1(5) l, unfolded od]
    show ?thesis
    proof (cases rc)
      case Rc_1
      with dec_loop_msg l have n: "d_to_read d1 \<noteq> 0" by (metis zero_neq_one)
      have a: "arena mem (addr + of_nat used) lim (length (drop used bs))" by (rule arena_take [OF 1(3)]) (use f in simp)
      have s: "safe mem (drop used bs) d1" using 1(5) f Rc_1 od by (auto simp: safe_def split: prod.splits)
      from 1(1) [OF False l [symmetric] Rc_1 refl n a _ s] f l False Rc_1 show ?thesis
        by (subst in_loop.simps) simp
    qed (use f l False in \<open>subst in_loop.simps, simp\<close>)+
  qed (simp add: in_loop.simps)
qed

text \<open>Between the events a body has memory of its own, and only a body is read in place.\<close>

definition fresh :: "decoder \<Rightarrow> bool" where
  "fresh d \<longleftrightarrow> d_place d = None \<and> (d_to_read d \<le> 8 \<or> d_next d \<in> {D1_message_ready, D2_message_ready})"

lemma d_run_next_fresh: "d_run_next mem 0 0 (d_next d) d = (rc, d') \<Longrightarrow> fresh d \<Longrightarrow> fresh d'"
  by (cases "d_next d") (auto simp: dec_steps fresh_def max_vsm_size_def word_greater_zero_iff split: if_splits)

lemma dec_run_fresh: "dec_run mem 0 0 d = (rc, d') \<Longrightarrow> fresh d \<Longrightarrow> fresh d' \<and> (limited d \<longrightarrow> limited d')"
proof (induction mem "0 :: u64" "0 :: u64" d rule: dec_run.induct)
  case (1 mem d)
  show ?case
  proof (cases "d_to_read d = 0")
    case True
    obtain rc1 e where n: "d_run_next mem 0 0 (d_next d) d = (rc1, e)" by force
    note e = d_run_next_fresh [OF n 1(3)] d_run_next_limited [OF n]
    show ?thesis
    proof (cases "rc1 = Rc_0")
      case rc: True
      have "dec_run mem 0 0 e = (rc, d')" using 1(2) True n rc by (simp add: dec_run.simps [of mem 0 0 d])
      with 1(1) [of rc1 e] True n rc e show ?thesis by auto
    next
      case False
      with 1(2) True n have "d' = e" by (cases rc1) (simp_all add: dec_run.simps [of mem 0 0 d])
      with e show ?thesis by blast
    qed
  qed (use 1 in auto)
qed

lemma fresh_take [simp]: "fresh d \<Longrightarrow> fresh (d_take k bs d)"
  by (auto simp: fresh_def)

lemma feed_fresh: "feed mem bs d = (fs, err, d') \<Longrightarrow> fresh d \<Longrightarrow> fresh d' \<and> (limited d \<longrightarrow> limited d')"
proof (induction bs arbitrary: d fs)
  case (Cons b bs)
  obtain rc d1 where p: "push mem b d = (rc, d1)" by force
  with dec_run_fresh [of mem "d_take 1 [b] d" rc d1] Cons(3) have d1: "fresh d1 \<and> (limited d \<longrightarrow> limited d1)"
    by (simp add: push_def)
  show ?case
  proof (cases rc)
    case (Rc_error e)
    with p Cons(2) d1 show ?thesis by auto
  qed (use p Cons d1 in \<open>auto split: prod.splits\<close>)
qed simp

lemma dec_run_message:
  "d_next d \<in> {D1_message_ready, D2_message_ready} \<Longrightarrow> dec_run mem pos lim d = dec_run mem 0 0 d"
  by (auto simp: dec_run.simps [of mem _ _ d] v1_dec_message_ready_def v2_dec_message_ready_def)

text \<open>A receive buffer of \<open>bufsize\<close> bytes at \<open>buf\<close>.\<close>

definition room_at :: "(nat \<Rightarrow> bool) \<Rightarrow> nat \<Rightarrow> u64 \<Rightarrow> bool" where
  "room_at mem bufsize buf \<longleftrightarrow> unat buf + bufsize < 2 ^ 63 \<and> (\<forall>n\<le>bufsize. mem n) \<and> (\<forall>n\<ge>2 ^ 63. \<not> mem n)"

lemma in_event_feed:
  assumes d: "d_to_read d \<noteq> 0" "fresh d" "8 < bufsize" and bs: "bs \<noteq> []" "length bs \<le> snd (get_buffer bufsize d)"
    and at: "room_at mem bufsize (fst at)" "safe mem bs d"
  shows "in_event mem bufsize at bs d = Some (feed mem bs d)"
proof -
  obtain buf body where ab: "at = (buf, body)" by force
  have pl: "d_place d = None" using d(2) by (simp add: fresh_def)
  show ?thesis
  proof (cases "d_to_read d \<ge> bufsize")
    case True
    with d(2,3) have msg: "d_next (d_take (length bs) bs d) \<in> {D1_message_ready, D2_message_ready}" by (auto simp: fresh_def)
    have le: "length bs \<le> d_to_read d" using bs True by (simp add: get_buffer_def)
    have f: "feed mem bs d = deliver (feed mem []) (dec_run mem 0 0 (d_take (length bs) bs d))"
      using feed_chunk [of d "length bs" bs mem] d(1) le by simp
    obtain rc d1 where "dec_run mem 0 0 (d_take (length bs) bs d) = (rc, d1)" by force
    with f show ?thesis using True le pl ab dec_run_message [OF msg, of mem "body + of_nat (length bs)" "buf + of_nat (length bs)"]
      by (cases rc) (simp_all add: Let_def in_event_def decode_def get_buffer_def in_loop.simps)
  next
    case False
    then have le: "length bs \<le> bufsize" using bs by (simp add: get_buffer_def)
    have "arena mem buf (buf + of_nat (length bs)) (length bs)" using at(1) le ab by (auto simp: room_at_def arena_def)
    from in_loop_feed [OF d(1) this pl at(2)] have l: "in_loop mem (buf + of_nat (length bs)) buf bs d = feed mem bs d" .
    obtain rc used d1 where "dec_loop mem (buf + of_nat (length bs)) buf 0 bs d = (rc, used, d1)" by (metis surj_pair)
    with l [symmetric] bs(1) show ?thesis using False pl ab
      by (cases rc) (simp_all add: Let_def in_event_def decode_def get_buffer_def in_loop.simps [of _ _ _ bs])
  qed
qed

lemma push_to_read:
  "push mem b d = (rc, d') \<Longrightarrow> rc \<in> {Rc_0, Rc_1} \<Longrightarrow> d_to_read d' \<noteq> 0"
  unfolding push_def using dec_run_to_read dec_run_msg by (metis insertE singletonD zero_neq_one)

lemma feed_to_read: "feed mem bs d = (fs, None, d') \<Longrightarrow> d_to_read d \<noteq> 0 \<Longrightarrow> d_to_read d' \<noteq> 0"
proof (induction bs arbitrary: d fs)
  case (Cons b bs)
  obtain rc d1 where p: "push mem b d = (rc, d1)" by force
  with push_to_read [OF p] Cons show ?case by (cases rc) (auto split: prod.splits)
qed simp

lemma feed_append:
  "feed mem (bs @ cs) d = (case feed mem bs d of
     (fs, None, d) \<Rightarrow> (case feed mem cs d of (gs, r) \<Rightarrow> (fs @ gs, r)) | (fs, Some e, d) \<Rightarrow> (fs, Some e, d))"
proof (induction bs arbitrary: d)
  case (Cons b bs)
  obtain rc d1 where p: "push mem b d = (rc, d1)" by force
  with Cons show ?case by (cases rc) (auto split: prod.splits option.splits)
qed simp

text \<open>
  Input events on a connection that holds \<open>str\<close>: the \<open>i\<close>-th \<open>tcp_read\<close> returns up to
  \<open>Suc n\<^sub>i\<close> bytes, but no more than the buffer takes. \<open>at\<close> gives the addresses of the receive
  buffer and of the body for each event, which are numbered from the last.
\<close>

primrec in_events :: "(nat \<Rightarrow> bool) \<Rightarrow> nat \<Rightarrow> (nat \<Rightarrow> u64 \<times> u64) \<Rightarrow> nat list \<Rightarrow> byte list \<Rightarrow> decoder \<Rightarrow> delivery option" where
  "in_events mem bufsize at [] str d = Some ([], None, d)"
| "in_events mem bufsize at (n # ns) str d =
     (if str = [] then Some ([], None, d)
      else let k = min (Suc n) (snd (get_buffer bufsize d)) in do {
        (fs, e, d) \<leftarrow> in_event mem bufsize (at (length ns)) (take k str) d;
        (case e of Some _ \<Rightarrow> Some (fs, e, d)
         | None \<Rightarrow> do { (gs, r) \<leftarrow> in_events mem bufsize at ns (drop k str) d; Some (fs @ gs, r) }) })"

lemma in_events_feed:
  assumes "d_to_read d \<noteq> 0" "fresh d" "8 < bufsize" "\<forall>i. room_at mem bufsize (fst (at i))" "safe mem str d" "length str \<le> length ns"
  shows "in_events mem bufsize at ns str d = Some (feed mem str d)"
  using assms
proof (induction ns arbitrary: str d)
  case (Cons n ns)
  show ?case
  proof (cases "str = []")
    case False
    define k where "k = min (Suc n) (snd (get_buffer bufsize d))"
    have k: "0 < k" "k \<le> snd (get_buffer bufsize d)" using Cons.prems(1,3) by (auto simp: k_def get_buffer_def)
    from k have kl: "length (take k str) \<le> snd (get_buffer bufsize d)" "take k str \<noteq> []" using False by auto
    obtain fs err d1 where f: "feed mem (take k str) d = (fs, err, d1)" by (metis surj_pair)
    note split = feed_append [of mem "take k str" "drop k str" d, simplified]
    have od: "own d = d" using Cons.prems(2) by (simp add: fresh_def)
    have s: "safe mem (take k str) d" "err = None \<Longrightarrow> safe mem (drop k str) d1"
      using Cons.prems(5) f split od feed_fresh [OF f Cons.prems(2)]
      by (auto simp: safe_def fresh_def split: option.splits prod.splits)
    have e: "in_event mem bufsize (at (length ns)) (take k str) d = Some (fs, err, d1)"
      using in_event_feed [OF Cons.prems(1,2,3) kl(2,1) _ s(1)] Cons.prems(4) f by simp
    show ?thesis
    proof (cases err)
      case None
      with f have n: "d_to_read d1 \<noteq> 0" using feed_to_read Cons.prems(1) by metis
      have "fresh d1" using feed_fresh [OF f Cons.prems(2)] by blast
      from Cons.IH [OF n this Cons.prems(3,4) s(2) [OF None]] k Cons.prems(6) False
      have "in_events mem bufsize at ns (drop k str) d1 = Some (feed mem (drop k str) d1)" by (cases str) auto
      with e f None False split show ?thesis
        by (simp add: k_def [symmetric] Let_def split: prod.splits)
    next
      case (Some x)
      with e f False split show ?thesis by (simp add: k_def [symmetric] Let_def)
    qed
  qed simp
qed simp

end
