(* ===== verification/Framing.thy ===== *)
theory Framing
  imports Decoder
begin

text \<open>
  What the two halves of the framing layer do together: the decoder undoes the encoder over
  any division of the stream into reads, and it stays within the size limit and the memory
  it was given.
\<close>

definition at_start :: "dec_step \<Rightarrow> int \<Rightarrow> decoder \<Rightarrow> bool" where
  "at_start s m d \<longleftrightarrow> d_next d = s \<and> d_got d = [] \<and> d_to_read d = 1 \<and> d_max d = m"

lemma new_decoder_start [simp]:
  "at_start D1_one_byte_size_ready m (v1_decoder m)" "at_start D2_flags_ready m (v2_decoder m)"
  by (simp_all add: at_start_def v1_decoder_def v2_decoder_def new_decoder_def d_next_step_def)

lemma next_step_simps [simp]:
  "d_next (d_next_step n s d) = s" "d_got (d_next_step n s d) = []" "d_to_read (d_next_step n s d) = n"
  "d_max (d_next_step n s d) = d_max d" "d_size (d_next_step n s d) = d_size d"
  "d_flags (d_next_step n s d) = d_flags d" "d_frame (d_next_step n s d) = d_frame d"
  by (simp_all add: d_next_step_def)

lemma d_take_fields [simp]:
  "d_size (d_take n bs d) = d_size d" "d_flags (d_take n bs d) = d_flags d"
  by (simp_all add: d_take_def)

lemma dec_run_idle:
  "d_to_read d = 0 \<Longrightarrow> dec_run mem 0 0 d = (case d_run_next mem 0 0 (d_next d) d of
     (Rc_0, d') \<Rightarrow> dec_run mem 0 0 d' | (rc, d') \<Rightarrow> (rc, d'))"
  by (simp add: dec_run.simps [of mem 0 0 d])

text \<open>Reading a body of the announced length, which may be empty.\<close>

definition msg_step :: "dec_step \<Rightarrow> dec_step \<Rightarrow> bool" where
  "msg_step s first \<longleftrightarrow> (s = D1_message_ready \<and> first = D1_one_byte_size_ready) \<or>
     (s = D2_message_ready \<and> first = D2_flags_ready)"

lemma read_body:
  assumes "msg_step (d_next d) first" "d_got d = []" "d_to_read d = length bs"
  obtains d' where "deliver (feed mem (bs @ rest)) (dec_run mem 0 0 d) =
      (case feed mem rest d' of (fs, r) \<Rightarrow> ((d_flags d, bs) # fs, r))"
    "at_start first (d_max d) d'"
proof -
  let ?d = "d_next_step 1 first ((d_take (length bs) (bs @ rest) d)\<lparr>d_frame := (d_flags d, bs)\<rparr>)"
  have run: "dec_run mem 0 0 (d_take (length bs) (bs @ rest) d) = (Rc_1, ?d)"
    using assms by (subst dec_run_idle) (auto simp: msg_step_def v1_dec_message_ready_def v2_dec_message_ready_def)
  have "deliver (feed mem (bs @ rest)) (dec_run mem 0 0 d) = deliver (feed mem rest) (Rc_1, ?d)"
  proof (cases "bs = []")
    case True
    with run show ?thesis by simp
  next
    case False
    with assms(3) have "d_to_read d \<noteq> 0" by simp
    moreover from feed_chunk [OF this refl, of mem "bs @ rest"] assms(3) run
    have "feed mem (bs @ rest) d = deliver (feed mem rest) (Rc_1, ?d)" by simp
    ultimately show ?thesis by simp
  qed
  moreover have "at_start first (d_max d) ?d" by (simp add: at_start_def)
  ultimately show thesis using that [of ?d] by simp
qed

lemma feed_one:
  assumes "d_to_read d = 1"
  shows "feed mem (b # bs) d = deliver (feed mem bs) (dec_run mem 0 0 (d_take 1 [b] d))"
  by (simp add: push_def)

lemma feed_eight:
  assumes "d_to_read d = 8" "length xs = 8"
  shows "feed mem (xs @ bs) d = deliver (feed mem bs) (dec_run mem 0 0 (d_take 8 xs d))"
proof -
  have "d_to_read d \<noteq> 0" "8 = min (d_to_read d) (length (xs @ bs))" using assms by simp_all
  from feed_chunk [OF this] have "feed mem (xs @ bs) d = deliver (feed mem (drop 8 (xs @ bs))) (dec_run mem 0 0 (d_take 8 (xs @ bs) d))" .
  moreover have "drop 8 (xs @ bs) = bs" "take 8 (xs @ bs) = take 8 xs" using assms(2) by simp_all
  ultimately show ?thesis by (simp only: d_take_def)
qed

lemma get_put_size:
  assumes "n < 2 ^ 64"
  shows "unat (get_uint64 (put_size n)) = n"
proof -
  have "get_uint64 (put_size n) = of_nat n" unfolding put_size_def by (rule get_put_uint64) simp
  moreover have "unat (of_nat n :: u64) = n mod 2 ^ 64" by (simp add: unat_of_nat)
  ultimately show ?thesis using assms by (simp only: mod_less)
qed

definition fits :: "(nat \<Rightarrow> bool) \<Rightarrow> int \<Rightarrow> byte list \<Rightarrow> bool" where
  "fits mem m bs \<longleftrightarrow> mem (length bs) \<and> length bs + 1 < 2 ^ 64 \<and> m < 2 ^ 63 \<and> (0 \<le> m \<longrightarrow> int (length bs) \<le> m)"

lemma unat_of_nat_byte: "n < 256 \<Longrightarrow> unat (of_nat n :: byte) = n"
  by (simp add: unat_of_nat take_bit_nat_eq_self)

text \<open>The two checks against \<open>maxmsgsize\<close>, of unsigned 64-bit values.\<close>

lemma size_check:
  assumes "fits mem m bs" "unat (s :: u64) = length bs" "0 \<le> m"
  shows "\<not> s > word_of_int m"
proof -
  have "uint (word_of_int m :: u64) = m"
    using assms by (simp add: fits_def uint_word_of_int take_bit_int_eq_self)
  moreover have "uint s = int (length bs)" using assms(2) by (metis uint_nat)
  ultimately show ?thesis using assms by (simp add: fits_def word_less_def)
qed

text \<open>A frame of either protocol gives its message and leaves the decoder at the start.\<close>

lemma v1_flags_run:
  assumes "d_next d = D1_flags_ready" "d_got d = [fl]" "d_to_read d = 0" "d_size d = length bs"
  obtains d' where "deliver (feed mem (bs @ rest)) (dec_run mem 0 0 d) =
      (case feed mem rest d' of (fs, r) \<Rightarrow> ((fl AND more_flag, bs) # fs, r))"
    "at_start D1_one_byte_size_ready (d_max d) d'"
proof -
  let ?d = "d_next_step (length bs) D1_message_ready (d\<lparr>d_flags := fl AND more_flag\<rparr>)"
  have run: "dec_run mem 0 0 d = dec_run mem 0 0 ?d"
    using assms by (subst dec_run_idle) (simp_all add: v1_flags_ready_def)
  show thesis
    by (rule read_body [of ?d D1_one_byte_size_ready bs mem rest]) (use run that in \<open>simp_all add: msg_step_def\<close>)
qed

lemma v1_frame:
  assumes "at_start D1_one_byte_size_ready m d" "fits mem m (vdata v)"
  obtains d' where "feed mem (enc_rest V1_message_ready v @ rest) d =
      (case feed mem rest d' of (fs, r) \<Rightarrow> ((vflags v AND more_flag, vdata v) # fs, r))"
    "at_start D1_one_byte_size_ready m d'"
proof -
  let ?fl = "vflags v AND more_flag" and ?n = "length (vdata v)"
  note st = assms(1) [unfolded at_start_def]
  have mem: "mem ?n" using assms(2) by (simp add: fits_def)
  obtain d1 where d1: "feed mem (enc_rest V1_message_ready v @ rest) d = feed mem (?fl # vdata v @ rest) d1"
    "d_next d1 = D1_flags_ready" "d_got d1 = []" "d_to_read d1 = 1" "d_size d1 = ?n" "d_max d1 = m"
  proof (cases "?n + 1 < 255")
    case True
    let ?b = "of_nat (?n + 1) :: byte"
    from True unat_of_nat_byte [of "?n + 1"] have ub: "unat ?b = ?n + 1" by simp
    then have "?b \<noteq> 0" "?b \<noteq> 0xff" using True by (metis add_is_0 unat_0 zero_neq_one, auto)
    moreover have "uint ?b - 1 = int ?n" using ub by (metis add_diff_cancel_right' of_nat_1 of_nat_add uint_nat)
    ultimately have "dec_run mem 0 0 (d_take 1 [?b] d) = (Rc_0, d_next_step 1 D1_flags_ready (d_take 1 [?b] d\<lparr>d_size := ?n\<rparr>))"
      using st ub mem assms(2) by (subst dec_run_idle)
        (auto simp add: v1_one_byte_size_ready_def Let_def d_init_size_def fits_def simp del: of_nat_add of_nat_Suc)
    then have "feed mem (?b # [?fl] @ vdata v @ rest) d =
        feed mem (?fl # vdata v @ rest) (d_next_step 1 D1_flags_ready (d_take 1 [?b] d\<lparr>d_size := ?n\<rparr>))"
      using st by (subst feed_one) (simp_all del: feed.simps)
    with that True st show thesis by (simp add: v1_header_def Let_def del: feed.simps)
  next
    case False
    let ?xs = "put_size (?n + 1)"
    have e8: "dec_run mem 0 0 (d_take 1 [0xff] d) = (Rc_0, d_next_step 8 D1_eight_byte_size_ready (d_take 1 [0xff] d))"
      using st by (subst dec_run_idle) (simp_all add: v1_one_byte_size_ready_def)
    let ?d = "d_next_step 8 D1_eight_byte_size_ready (d_take 1 [0xff] d)"
    have g: "unat (get_uint64 ?xs) = ?n + 1" using assms(2) by (intro get_put_size) (simp add: fits_def)
    then have nz: "get_uint64 ?xs \<noteq> 0" by (metis add_is_0 unat_0 zero_neq_one)
    then have g1: "unat (get_uint64 ?xs - 1) = ?n" using g by (simp add: unat_minus_one)
    note chk = size_check [OF assms(2) g1]
    have run8: "dec_run mem 0 0 (d_take 8 ?xs ?d) = (Rc_0, d_next_step 1 D1_flags_ready (d_take 8 ?xs ?d\<lparr>d_size := ?n\<rparr>))"
      using st nz chk g1 mem by (subst dec_run_idle)
        (auto simp add: v1_eight_byte_size_ready_def Let_def d_init_size_def not_less)
    have "feed mem (0xff # ?xs @ [?fl] @ vdata v @ rest) d = feed mem (?xs @ [?fl] @ vdata v @ rest) ?d"
      using st e8 by (subst feed_one) (simp_all del: feed.simps)
    also have "\<dots> = feed mem ([?fl] @ vdata v @ rest) (d_next_step 1 D1_flags_ready (d_take 8 ?xs ?d\<lparr>d_size := ?n\<rparr>))"
      using run8 by (subst feed_eight) (simp_all del: feed.simps)
    finally show thesis using that False st by (simp add: v1_header_def Let_def del: feed.simps)
  qed
  from v1_flags_run [of "d_take 1 [?fl] d1" ?fl "vdata v" mem rest] obtain d' where
    "deliver (feed mem (vdata v @ rest)) (dec_run mem 0 0 (d_take 1 [?fl] d1)) =
      (case feed mem rest d' of (fs, r) \<Rightarrow> ((?fl AND more_flag, vdata v) # fs, r))"
    "at_start D1_one_byte_size_ready m d'" using d1 by auto
  with that [of d'] d1 show thesis by (simp add: feed_one and.assoc del: feed.simps)
qed

text \<open>The flags byte of ZMTP 2.0 carries exactly the \<open>more\<close> and \<open>command\<close> bits.\<close>

lemma and_single_bit: "(x :: byte) AND 2 ^ n = (if bit x n then 2 ^ n else 0)"
  by (rule bit_word_eqI) (auto simp: bit_and_iff bit_exp_iff)

lemma and_two_flags:
  "(x :: byte) AND 3 = (if x AND 1 \<noteq> 0 then 1 else 0) OR (if x AND 2 \<noteq> 0 then 2 else 0)"
proof -
  have "(3 :: byte) = 1 OR 2" by simp
  then have "x AND 3 = (x AND 1) OR (x AND 2)" by (simp only: bit.conj_disj_distrib)
  moreover have "x AND 1 \<in> {0, 1}" "x AND 2 \<in> {0, 2}"
    using and_single_bit [of x 0] and_single_bit [of x 1] by (auto simp del: One_nat_def)
  ultimately show ?thesis by auto
qed

lemma unat_ucast_byte: "unat (ucast (b :: byte) :: u64) = unat b"
proof -
  have "unat b < 2 ^ 64" by (rule less_trans [OF unat_byte_less]) simp
  then show ?thesis by (simp add: unsigned_ucast_eq take_bit_nat_eq_self del: unat_byte_less)
qed

lemma v2_frame:
  assumes "at_start D2_flags_ready m d" "fits mem m (vdata v)"
  obtains d' where "feed mem (enc_rest V2_message_ready v @ rest) d =
      (case feed mem rest d' of (fs, r) \<Rightarrow> ((vflags v AND 3, vdata v) # fs, r))"
    "at_start D2_flags_ready m d'"
proof -
  let ?n = "length (vdata v)"
  note st = assms(1) [unfolded at_start_def]
  have mem: "mem ?n" using assms(2) by (simp add: fits_def)
  obtain fl sz where hd: "v2_header v = fl # sz" by (cases "v2_header v") (simp_all add: v2_header_def Let_def split: if_splits)
  let ?L = "?n > 255"
  have fl: "(fl AND 2 \<noteq> 0) = ?L" "(if fl AND 4 \<noteq> 0 then (if fl AND 1 \<noteq> 0 then more_flag else 0) OR command_flag
      else (if fl AND 1 \<noteq> 0 then more_flag else 0)) = vflags v AND 3"
    using hd and_two_flags [of "vflags v"] by (auto simp: v2_header_def Let_def split: if_splits)
  let ?d1 = "d_take 1 [fl] d\<lparr>d_flags := vflags v AND 3\<rparr>"
  let ?s = "if ?L then d_next_step 8 D2_eight_byte_size_ready ?d1 else d_next_step 1 D2_one_byte_size_ready ?d1"
  have r1: "dec_run mem 0 0 (d_take 1 [fl] d) = (Rc_0, ?s)"
    using st fl by (subst dec_run_idle) (simp_all add: v2_flags_ready_def Let_def)
  have f1: "feed mem (fl # sz @ vdata v @ rest) d = feed mem (sz @ vdata v @ rest) ?s"
    using st r1 by (subst feed_one) (simp_all del: feed.simps)
  have size_run: "v2_size_ready mem 0 0 w e = (Rc_0, d_next_step ?n D2_message_ready (e\<lparr>d_size := ?n\<rparr>))"
    if "unat w = ?n" "d_max e = m" for w e
    using size_check [OF assms(2) that(1)] that mem by (cases "w = 0"; auto simp: v2_size_ready_def v2_init_body_def d_init_size_def d_next_step_def max_vsm_size_def word_greater_zero_iff)
  obtain e where e: "feed mem (sz @ vdata v @ rest) ?s =
      deliver (feed mem (vdata v @ rest)) (dec_run mem 0 0 (d_next_step ?n D2_message_ready e))"
    "d_flags e = vflags v AND 3" "d_max e = m"
  proof (cases ?L)
    case True
    with hd have sz: "sz = put_size ?n" by (auto simp: v2_header_def Let_def)
    have g: "unat (get_uint64 sz) = ?n" using assms(2) unfolding sz by (intro get_put_size) (simp add: fits_def)
    let ?t = "d_take 8 sz ?s"
    have "dec_run mem 0 0 ?t = dec_run mem 0 0 (d_next_step ?n D2_message_ready (?t\<lparr>d_size := ?n\<rparr>))"
      using True g st size_run sz by (subst dec_run_idle) (simp_all add: v2_eight_byte_size_ready_def)
    moreover have "feed mem (sz @ vdata v @ rest) ?s = deliver (feed mem (vdata v @ rest)) (dec_run mem 0 0 ?t)"
      using True sz by (intro feed_eight) simp_all
    ultimately show thesis using True st by (intro that [of "?t\<lparr>d_size := ?n\<rparr>"]) simp_all
  next
    case False
    with hd have sz: "sz = [of_nat ?n]" by (auto simp: v2_header_def Let_def)
    have "unat (of_nat ?n :: byte) = ?n" using False by (intro unat_of_nat_byte) simp
    then have g: "unat (ucast (of_nat ?n :: byte) :: u64) = ?n" by (simp only: unat_ucast_byte)
    let ?t = "d_take 1 sz ?s"
    have "dec_run mem 0 0 ?t = dec_run mem 0 0 (d_next_step ?n D2_message_ready (?t\<lparr>d_size := ?n\<rparr>))"
      using False g st size_run sz by (subst dec_run_idle) (simp_all add: v2_one_byte_size_ready_def)
    moreover have "feed mem (sz @ vdata v @ rest) ?s = deliver (feed mem (vdata v @ rest)) (dec_run mem 0 0 ?t)"
      using False sz by (simp add: feed_one del: feed.simps)
    ultimately show thesis using False st by (intro that [of "?t\<lparr>d_size := ?n\<rparr>"]) simp_all
  qed
  obtain d' where "deliver (feed mem (vdata v @ rest)) (dec_run mem 0 0 (d_next_step ?n D2_message_ready e)) =
      (case feed mem rest d' of (fs, r) \<Rightarrow> ((vflags v AND 3, vdata v) # fs, r))" "at_start D2_flags_ready m d'"
    by (rule read_body [of "d_next_step ?n D2_message_ready e" D2_flags_ready "vdata v" mem rest])
      (use e in \<open>simp_all add: msg_step_def\<close>)
  with that [of d'] f1 e(1) hd show thesis by simp
qed

text \<open>Both protocols at once: \<open>k\<close> is the encoder's first action, \<open>first\<close> the decoder's.\<close>

definition wire_flags :: "enc_step \<Rightarrow> vmsg \<Rightarrow> byte" where
  "wire_flags k v = vflags v AND (if k = V1_message_ready then more_flag else 3)"

definition peer_step :: "enc_step \<Rightarrow> dec_step" where
  "peer_step k = (if k = V1_message_ready then D1_one_byte_size_ready else D2_flags_ready)"

lemma frames_fed:
  assumes "k \<in> {V1_message_ready, V2_message_ready}" "at_start (peer_step k) m d" "\<forall>v\<in>set vs. fits mem m (vdata v)"
  shows "\<exists>d'. feed mem (concat (map (enc_rest k) vs)) d = (map (\<lambda>v. (wire_flags k v, vdata v)) vs, None, d') \<and>
    at_start (peer_step k) m d'"
  using assms(2,3)
proof (induction vs arbitrary: d)
  case (Cons v vs)
  let ?rest = "concat (map (enc_rest k) vs)"
  obtain d1 where "feed mem (enc_rest k v @ ?rest) d =
      (case feed mem ?rest d1 of (fs, r) \<Rightarrow> ((wire_flags k v, vdata v) # fs, r))" "at_start (peer_step k) m d1"
  proof (cases "k = V1_message_ready")
    case True
    with Cons.prems have "at_start D1_one_byte_size_ready m d" "fits mem m (vdata v)" by (simp_all add: peer_step_def)
    from v1_frame [OF this, of ?rest] obtain d1 where "feed mem (enc_rest V1_message_ready v @ ?rest) d =
      (case feed mem ?rest d1 of (fs, r) \<Rightarrow> ((vflags v AND more_flag, vdata v) # fs, r))"
      "at_start D1_one_byte_size_ready m d1" .
    with that [of d1] True show thesis by (simp add: peer_step_def wire_flags_def del: enc_rest.simps)
  next
    case False
    with assms(1) have "k = V2_message_ready" by simp
    with Cons.prems have "at_start D2_flags_ready m d" "fits mem m (vdata v)" by (simp_all add: peer_step_def)
    from v2_frame [OF this, of ?rest] obtain d1 where "feed mem (enc_rest V2_message_ready v @ ?rest) d =
      (case feed mem ?rest d1 of (fs, r) \<Rightarrow> ((vflags v AND 3, vdata v) # fs, r))"
      "at_start D2_flags_ready m d1" .
    with that [of d1] \<open>k = V2_message_ready\<close> show thesis by (simp add: peer_step_def wire_flags_def del: enc_rest.simps)
  qed
  with Cons.IH [of d1] Cons.prems(2) show ?case by (auto simp del: enc_rest.simps)
qed simp

subsection \<open>Size limit and target bounds\<close>

text \<open>
  Every store stays in its target: the eight bytes of \<open>tmpbuf\<close>, or a body whose size
  passed the limit.
\<close>

definition target_size :: "decoder \<Rightarrow> nat" where
  "target_size d = (case d_next d of D1_eight_byte_size_ready \<Rightarrow> 8 | D2_eight_byte_size_ready \<Rightarrow> 8
     | D1_message_ready \<Rightarrow> d_size d | D2_message_ready \<Rightarrow> d_size d | _ \<Rightarrow> 1)"

definition sound_frame :: "int \<Rightarrow> byte \<times> byte list \<Rightarrow> bool" where
  "sound_frame m f \<longleftrightarrow> (0 \<le> m \<longrightarrow> int (length (snd f)) \<le> m) \<and> fst f AND 3 = fst f"

definition dec_inv :: "(nat \<Rightarrow> bool) \<Rightarrow> int \<Rightarrow> decoder \<Rightarrow> bool" where
  "dec_inv mem m d \<longleftrightarrow> d_max d = m \<and> length (d_got d) + d_to_read d = target_size d \<and>
     (0 \<le> m \<longrightarrow> int (d_size d) \<le> m) \<and> (d_size d = 0 \<or> mem (d_size d)) \<and> d_flags d AND 3 = d_flags d \<and>
     sound_frame m (d_frame d)"

lemma no_size: "\<not> 0 < (s :: u64) \<Longrightarrow> unat s = 0"
  by (simp add: word_greater_zero_iff)

lemma flag_masks: "(x AND 1) AND 3 = ((x :: byte) AND 1)"
  by (simp add: and.assoc)

lemma uint_pred_byte: "b \<noteq> 0 \<Longrightarrow> int (unat (b :: byte) - 1) = uint b - 1"
  by (metis One_nat_def Suc_leI neq0_conv of_nat_1 of_nat_diff uint_nat unat_0 unat_byte_eq_iff)

lemma d_run_next_inv:
  assumes "dec_inv mem m d" "m < 2 ^ 63" "d_to_read d = 0" "d_run_next mem 0 0 (d_next d) d = (rc, d')"
  shows "dec_inv mem m d'"
proof -
  note inv = assms(1) [unfolded dec_inv_def target_size_def]
  show ?thesis
  proof (cases "d_next d")
    case D1_one_byte_size_ready
    with assms inv uint_pred_byte [of "d_got d ! 0"] show ?thesis
      by (auto simp: v1_one_byte_size_ready_def Let_def d_init_size_def d_next_step_def dec_inv_def target_size_def
        split: if_splits)
  next
    case D1_eight_byte_size_ready
    with assms inv limit_unat [of m "get_uint64 (d_got d) - 1"] show ?thesis
      by (auto simp: v1_eight_byte_size_ready_def Let_def d_init_size_def d_next_step_def dec_inv_def target_size_def
        split: if_splits)
  next
    case D2_one_byte_size_ready
    with assms inv limit_unat [of m "ucast (d_got d ! 0)"] no_size [of "ucast (d_got d ! 0)"] show ?thesis
      by (auto simp: v2_one_byte_size_ready_def v2_size_ready_def v2_init_body_def d_init_size_def d_next_step_def dec_inv_def
        target_size_def split: if_splits)
  next
    case D2_eight_byte_size_ready
    with assms inv limit_unat [of m "get_uint64 (d_got d)"] no_size [of "get_uint64 (d_got d)"] show ?thesis
      by (auto simp: v2_eight_byte_size_ready_def v2_size_ready_def v2_init_body_def d_init_size_def d_next_step_def dec_inv_def
        target_size_def split: if_splits)
  next
    case D1_flags_ready
    with assms inv show ?thesis
      by (auto simp: v1_flags_ready_def d_next_step_def dec_inv_def target_size_def flag_masks)
  next
    case D2_flags_ready
    with assms inv show ?thesis
      by (auto simp: v2_flags_ready_def Let_def d_next_step_def dec_inv_def target_size_def)
  next
    case D1_message_ready
    with assms inv show ?thesis
      by (auto simp: v1_dec_message_ready_def d_next_step_def dec_inv_def target_size_def sound_frame_def)
  next
    case D2_message_ready
    with assms inv show ?thesis
      by (auto simp: v2_dec_message_ready_def d_next_step_def dec_inv_def target_size_def sound_frame_def)
  qed
qed

lemma dec_run_inv:
  "dec_inv mem m d \<Longrightarrow> m < 2 ^ 63 \<Longrightarrow> dec_run mem 0 0 d = (rc, d') \<Longrightarrow> dec_inv mem m d'"
proof (induction mem "0 :: u64" "0 :: u64" d rule: dec_run.induct)
  case (1 mem d)
  show ?case
  proof (cases "d_to_read d = 0")
    case True
    obtain rc1 d1 where r: "d_run_next mem 0 0 (d_next d) d = (rc1, d1)" by force
    from d_run_next_inv [OF 1(2,3) True r] have i: "dec_inv mem m d1" .
    show ?thesis
    proof (cases rc1)
      case Rc_0
      have "\<not> d_to_read d \<noteq> 0" using True by simp
      from 1(1) [OF this r [symmetric] Rc_0 i 1(3)] 1(4) True r Rc_0 show ?thesis by (simp add: dec_run_idle)
    qed (use 1(4) True r i in \<open>simp_all add: dec_run_idle\<close>)
  qed (use 1 in simp)
qed

lemma target_size_take [simp]: "target_size (d_take n bs d) = target_size d"
  by (cases "d_next d") (simp_all add: target_size_def)

lemma d_take_frame [simp]: "d_frame (d_take n bs d) = d_frame d"
  by (simp add: d_take_def)

lemma push_inv:
  assumes "dec_inv mem m d" "m < 2 ^ 63" "d_to_read d \<noteq> 0" "push mem b d = (rc, d')"
  shows "dec_inv mem m d'"
proof -
  have "dec_inv mem m (d_take 1 [b] d)"
    using assms(1,3) target_size_take [of 1 "[b]" d] by (auto simp add: dec_inv_def)
  from dec_run_inv [OF this assms(2)] assms(4) show ?thesis by (simp add: push_def)
qed

lemma feed_inv:
  assumes "dec_inv mem m d" "m < 2 ^ 63" "d_to_read d \<noteq> 0" "feed mem bs d = (fs, e, d')"
  shows "dec_inv mem m d' \<and> (\<forall>f\<in>set fs. sound_frame m f)"
  using assms
proof (induction bs arbitrary: d fs)
  case (Cons b bs)
  obtain rc d1 where p: "push mem b d = (rc, d1)" by force
  from push_inv [OF Cons.prems(1-3) p] have i: "dec_inv mem m d1" .
  then have s: "sound_frame m (d_frame d1)" by (simp add: dec_inv_def)
  show ?case
  proof (cases rc)
    case (Rc_error x)
    with Cons.prems(4) p i show ?thesis by simp
  next
    case Rc_0
    with p push_to_read have "d_to_read d1 \<noteq> 0" by blast
    with Cons.IH [OF i Cons.prems(2)] Cons.prems(4) p Rc_0 show ?thesis by simp
  next
    case Rc_1
    with p push_to_read have "d_to_read d1 \<noteq> 0" by blast
    from Cons.IH [OF i Cons.prems(2) this] Cons.prems(4) p Rc_1 s show ?thesis by (auto split: prod.splits)
  qed
qed simp

lemma new_decoder_inv:
  "dec_inv mem m (v1_decoder m)" "dec_inv mem m (v2_decoder m)"
  by (simp_all add: dec_inv_def v1_decoder_def v2_decoder_def new_decoder_def d_next_step_def target_size_def
    sound_frame_def)

lemma new_decoder_reads [simp]: "d_to_read (v1_decoder m) = 1" "d_to_read (v2_decoder m) = 1"
  by (simp_all add: v1_decoder_def v2_decoder_def new_decoder_def)

subsection \<open>Properties\<close>

text \<open>The decoders as they are created, and the whole stream under a size limit.\<close>

lemma new_decoder_fresh: "d \<in> {v1_decoder m, v2_decoder m} \<Longrightarrow> fresh d \<and> d_to_read d \<noteq> 0 \<and> own d = d"
  by (auto simp: fresh_def v1_decoder_def v2_decoder_def new_decoder_def d_next_step_def)

lemma new_decoder_safe:
  assumes "d \<in> {v1_decoder m, v2_decoder m}" "m < 2 ^ 63" "d = v2_decoder m \<and> m < 0 \<longrightarrow> fst (snd (feed mem str d)) \<noteq> Some ENOMEM"
  shows "safe mem str d"
proof (cases "d = v2_decoder m \<and> m < 0")
  case True
  with assms(3) new_decoder_fresh [OF assms(1)] show ?thesis by (simp add: safe_def)
next
  case False
  with assms(1,2) show ?thesis
    by (auto simp: safe_def limited_def is_v1_def v1_decoder_def v2_decoder_def new_decoder_def d_next_step_def)
qed







text \<open>
  Without a limit the test for a body that ends behind the receive buffer can overflow: a peer
  announces the size \<open>2 ^ 64 - 1\<close>, the address after the header is a small one, the sum wraps
  around, and the receive buffer becomes the body, behind the end of which the next read stores.
  The reference reports that there is no memory.
\<close>

theorem v2_size_overflows:
  "in_events (\<lambda>n. n < 100) 16 (\<lambda>i. (4096, 64)) [8, 19] ([2, 0xff, 0xff, 0xff, 0xff, 0xff, 0xff, 0xff, 0xff] @ replicate 20 7) (v2_decoder (- 1)) = None \<and>
   fst (snd (feed (\<lambda>n. n < 100) ([2, 0xff, 0xff, 0xff, 0xff, 0xff, 0xff, 0xff, 0xff] @ replicate 20 7) (v2_decoder (- 1)))) = Some ENOMEM"
proof -
  let ?mem = "\<lambda>n :: nat. n < 100" and ?xs = "[0xff, 0xff, 0xff, 0xff, 0xff, 0xff, 0xff, 0xff] :: byte list"
  define d where "d = v2_decoder (- 1)"
  define d1 where "d1 = d_next_step 8 D2_eight_byte_size_ready (d_take 1 [2] d\<lparr>d_flags := 0\<rparr>)"
  have d: "d_next d = D2_flags_ready" "d_to_read d = 1" "d_got d = []" "d_max d = - 1" "d_place d = None"
    by (simp_all add: d_def v2_decoder_def new_decoder_def d_next_step_def)
  have d1: "d_next d1 = D2_eight_byte_size_ready" "d_to_read d1 = 8" "d_got d1 = []" "d_max d1 = - 1" "d_place d1 = None"
    by (simp_all add: d1_def d d_next_step_def)
  have 1: "dec_run ?mem pos lim (d_take 1 [2] d) = (Rc_0, d1)" for pos lim
    using d by (subst dec_run.simps) (simp add: v2_flags_ready_def Let_def d1_def)
  have g: "get_uint64 ?xs = - 1" by (simp add: get_uint64_def)
  have big: "unat (- 1 :: u64) = 18446744073709551615" by (simp add: unsigned_minus_1_eq_mask mask_eq_exp_minus_1)
  have err: "dec_run ?mem 0 0 (d_take 8 ?xs d1) = (Rc_error ENOMEM, d_take 8 ?xs d1\<lparr>d_size := 0\<rparr>)"
    using d1 g big by (subst dec_run.simps) (simp add: v2_eight_byte_size_ready_def v2_size_ready_def v2_init_body_def d_init_size_def word_greater_zero_iff)
  define d2 where "d2 = (d_next_step (18446744073709551615) D2_message_ready (d_take 8 ?xs d1\<lparr>d_size := 18446744073709551615\<rparr>))\<lparr>d_place := Some 0\<rparr>"
  have d2: "d_place d2 = Some 0" "d_to_read d2 = 18446744073709551615" by (simp_all add: d2_def)
  have run: "dec_run ?mem 4105 4105 (d_take 8 ?xs d1) = (Rc_0, d2)"
    using d1 g big by (subst dec_run.simps) (simp add: v2_eight_byte_size_ready_def v2_size_ready_def v2_init_body_def max_vsm_size_def d2_def)
  have "feed ?mem (2 # ?xs @ replicate 20 7) d = feed ?mem (?xs @ replicate 20 7) d1"
    using feed_one [OF d(2), of ?mem 2 "?xs @ replicate 20 7"] 1 by simp
  also have "\<dots> = ([], Some ENOMEM, d_take 8 ?xs d1\<lparr>d_size := 0\<rparr>)"
    using feed_eight [OF d1(2), of ?xs ?mem "replicate 20 7"] err by simp
  finally have ref: "fst (snd (feed ?mem (2 # ?xs @ replicate 20 7) d)) = Some ENOMEM" by simp
  have one: "d_take 1 (2 # ?xs) d = d_take 1 [2] d" by (simp add: d_take_def)
  have first: "dec_run ?mem pos lim (d_take 1 (2 # ?xs) d) = (Rc_0, d1)" for pos lim by (simp only: one 1)
  have eight: "Suc (Suc (Suc (Suc (Suc (Suc (Suc (Suc 0))))))) = 8" by simp
  have loop: "dec_loop ?mem 4105 4096 0 (2 # ?xs) d = (Rc_0, 9, d2)"
    using d d1 d2 first run by (simp add: dec_loop.simps eight)
  have event: "in_event ?mem 16 (4096, 64) (2 # ?xs) d = Some ([], None, d2)"
    using loop d by (simp add: in_event_def get_buffer_def decode_def)
  have "in_event ?mem 16 (4096, 64) (replicate 20 7) d2 = None"
    using d2 by (simp add: in_event_def get_buffer_def decode_def)
  with event ref d d2 show ?thesis
    by (simp add: d_def [symmetric] get_buffer_def Let_def)
qed

end
