(* ===== verification/Socket_Reads.thy ===== *)
theory Socket_Reads
  imports Socket_Pipes
begin

text \<open>
  Why the receive loops of the sockets end: \<open>unread p w\<close> is the number of parts in the inbound
  queue of pipe \<open>p\<close>, \<open>fq_unread\<close> their sum over the pipes of a fair queue. A read that
  delivers something makes it smaller and no read makes it larger, so a loop that goes on
  only after a successful read has it as its measure.
\<close>

definition unread :: "nat \<Rightarrow> world \<Rightarrow> nat" where
  "unread p w = (case pends w p of None \<Rightarrow> 0 | Some e \<Rightarrow>
     (case inpipe e of None \<Rightarrow> 0 | Some i \<Rightarrow>
       (case upipes (wnet w) i of None \<Rightarrow> 0 | Some u \<Rightarrow> up_size u)))"

lemma up_read_size_le: "up_read u = (r, u') \<Longrightarrow> up_size u' \<le> up_size u"
  by (cases u) (auto simp: lp_read_def split: list.splits option.splits)

lemma read_message_size:
  "read_message u c = (r, c', u') \<Longrightarrow> up_size u' \<le> up_size u \<and> (r \<noteq> None \<longrightarrow> up_size u' < up_size u)"
proof (induction u c rule: read_message.induct)
  case (1 u c)
  obtain r1 u1 where r1: "up_read u = (r1, u1)" by force
  show ?case
  proof (cases r1)
    case None
    with 1(2) r1 up_read_size_le [OF r1] show ?thesis by (simp add: read_message.simps [of u c])
  next
    case (Some m)
    with r1 up_read_size have l: "up_size u1 < up_size u" by simp
    show ?thesis
    proof (cases "v_is_credential m")
      case True
      with 1(2) r1 Some have "read_message u1 (vdata m) = (r, c', u')" by (simp add: read_message.simps [of u c])
      with 1(1) [OF r1 [symmetric] Some True] l show ?thesis by simp
    next
      case False
      with 1(2) r1 Some l show ?thesis by (auto simp: read_message.simps [of u c])
    qed
  qed
qed

text \<open>A read of an end changes one queue of its own, and makes it no longer.\<close>

lemma send_upipes [simp]: "send p c s = Some s' \<Longrightarrow> upipes s' = upipes s"
  by (auto simp: send_def bind_eq_Some_conv)

lemma p_read_shape:
  assumes "p_read e n = Some (r, e', n')"
  shows "inpipe e' = inpipe e" and "upipes n' = upipes n \<or>
    (\<exists>i u u'. inpipe e = Some i \<and> upipes n i = Some u \<and> upipes n' = (upipes n)(i \<mapsto> u') \<and> up_size u' \<le> up_size u \<and>
      (r \<noteq> None \<longrightarrow> up_size u' < up_size u))"
    and "r \<noteq> None \<Longrightarrow> \<exists>i u u'. inpipe e = Some i \<and> upipes n i = Some u \<and> upipes n' = (upipes n)(i \<mapsto> u') \<and>
      up_size u' < up_size u"
proof -
  have *: "inpipe e' = inpipe e \<and> (upipes n' = upipes n \<and> r = None \<or>
    (\<exists>i u u'. inpipe e = Some i \<and> upipes n i = Some u \<and> upipes n' = (upipes n)(i \<mapsto> u') \<and> up_size u' \<le> up_size u \<and>
      (r \<noteq> None \<longrightarrow> up_size u' < up_size u)))"
  proof (cases "\<not> in_active e \<or> state e \<noteq> Active \<and> state e \<noteq> Waiting_for_delimiter")
    case True
    with assms show ?thesis by (auto simp: p_read_def split: if_splits)
  next
    case False
    with assms obtain i u where i: "inpipe e = Some i" "upipes n i = Some u"
      by (auto simp: p_read_def bind_eq_Some_conv)
    obtain r1 c u' where r1: "read_message u (p_credential e) = (r1, c, u')" by (metis surj_pair)
    note sz = read_message_size [OF r1]
    from False assms i r1 have "inpipe e' = inpipe e" "upipes n' = (upipes n)(i \<mapsto> u')" "r = None \<or> r = r1"
      by (auto simp: p_read_def p_process_delimiter_def Let_def put_upipe_def bind_eq_Some_conv send_upipes
        split: option.splits if_splits)
    with i sz show ?thesis by auto
  qed
  then show "inpipe e' = inpipe e" "upipes n' = upipes n \<or>
    (\<exists>i u u'. inpipe e = Some i \<and> upipes n i = Some u \<and> upipes n' = (upipes n)(i \<mapsto> u') \<and> up_size u' \<le> up_size u \<and>
      (r \<noteq> None \<longrightarrow> up_size u' < up_size u))"
    "r \<noteq> None \<Longrightarrow> \<exists>i u u'. inpipe e = Some i \<and> upipes n i = Some u \<and> upipes n' = (upipes n)(i \<mapsto> u') \<and>
      up_size u' < up_size u" by blast+
qed

lemma w_read_unread:
  assumes "w_read p w = Some (r, w')"
  shows "unread x w' \<le> unread x w" and "r \<noteq> None \<Longrightarrow> unread p w' < unread p w"
proof -
  from assms obtain e e' n' where e: "pends w p = Some e" "p_read e (wnet w) = Some (r, e', n')"
    "w' = w\<lparr>pends := (pends w)(p \<mapsto> e'), wnet := n'\<rparr>" by (auto simp: w_read_def bind_eq_Some_conv)
  note sh = p_read_shape [OF e(2)]
  show "unread x w' \<le> unread x w"
    using e sh(1,2) by (auto simp: unread_def split: option.splits if_splits)
  show "unread p w' < unread p w" if "r \<noteq> None"
    using e sh(1) sh(3) [OF that] by (auto simp: unread_def)
qed

definition fq_unread :: "fq \<Rightarrow> world \<Rightarrow> nat" where
  "fq_unread q w = (\<Sum>p\<in>set (items (fq_pipes q)). unread p w)"

lemma fq_deactivate_items: "fq_deactivate q = Some q' \<Longrightarrow> set (items (fq_pipes q')) = set (items (fq_pipes q))"
  by (auto simp: fq_deactivate_def arr_swap_def Let_def bind_eq_Some_conv table_at_def swap_set split: if_splits)

lemma fq_loop_unread:
  assumes "fq_loop w_read n q w = Some (r, q', w')"
  shows "set (items (fq_pipes q')) = set (items (fq_pipes q)) \<and> (\<forall>x. unread x w' \<le> unread x w) \<and>
    (r \<noteq> None \<longrightarrow> (\<exists>p\<in>set (items (fq_pipes q)). unread p w' < unread p w))"
  using assms
proof (induction n arbitrary: q w)
  case 0
  then show ?case by simp
next
  case (Suc n)
  from Suc.prems obtain p r1 w1 where p: "table_at (items (fq_pipes q)) (fq_current q) = Some p"
    "w_read p w = Some (r1, w1)" by (auto simp: bind_eq_Some_conv)
  from p(1) have pin: "p \<in> set (items (fq_pipes q))" by (auto simp: table_at_def split: if_splits)
  note rd = w_read_unread [OF p(2)]
  show ?case
  proof (cases r1)
    case (Some m)
    with Suc.prems p have "w' = w1" "items (fq_pipes q') = items (fq_pipes q)"
      by (auto simp: Let_def split: if_splits)
    with rd Some pin show ?thesis by auto
  next
    case None
    with Suc.prems p obtain q1 where q1: "fq_deactivate q = Some q1" "fq_loop w_read n q1 w1 = Some (r, q', w')"
      by (auto simp: bind_eq_Some_conv)
    from Suc.IH [OF q1(2)] fq_deactivate_items [OF q1(1)]
    have IH: "set (items (fq_pipes q')) = set (items (fq_pipes q))" "\<And>x. unread x w' \<le> unread x w1"
      "r \<noteq> None \<Longrightarrow> \<exists>p\<in>set (items (fq_pipes q)). unread p w' < unread p w1" by auto
    have "unread x w' \<le> unread x w" for x using IH(2) rd(1) le_trans by blast
    moreover have "\<exists>p\<in>set (items (fq_pipes q)). unread p w' < unread p w" if "r \<noteq> None"
      using IH(3) [OF that] rd(1) less_le_trans by blast
    ultimately show ?thesis using IH(1) by blast
  qed
qed

lemma fq_recv_unread:
  assumes "fq_recvpipe w_read q w = Some (r, q', w')"
  shows "fq_unread q' w' \<le> fq_unread q w" and "r \<noteq> None \<Longrightarrow> fq_unread q' w' < fq_unread q w"
proof -
  note l = fq_loop_unread [OF assms [unfolded fq_recvpipe_def]]
  then show "fq_unread q' w' \<le> fq_unread q w" by (simp add: fq_unread_def sum_mono)
  show "fq_unread q' w' < fq_unread q w" if "r \<noteq> None"
    using l that unfolding fq_unread_def by (simp, intro sum_strict_mono_ex1) auto
qed

lemma fq_recv_shrinks: "fq_recvpipe w_read q w = Some (Some m, q', w') \<Longrightarrow> fq_unread q' w' < fq_unread q w"
  using fq_recv_unread(2) by blast

subsection \<open>Whole messages\<close>

text \<open>
  A pipe delivers whole messages: a flush publishes complete messages only, so in a queue a
  part with \<open>more\<close> is followed by another part, which is no delimiter or credential.
\<close>

fun whole :: "vmsg list \<Rightarrow> bool" where
  "whole [] = True"
| "whole (m # ms) = ((has_more m \<longrightarrow> (case ms of [] \<Rightarrow> False | n # _ \<Rightarrow> \<not> v_is_delimiter n \<and> \<not> v_is_credential n)) \<and> whole ms)"

definition whole_world :: "world \<Rightarrow> bool" where
  "whole_world w \<longleftrightarrow> (\<forall>p. whole (inbox p w))"

lemma up_read_stream: "up_read u = (r, u') \<Longrightarrow> msgs_in u = (case r of None \<Rightarrow> [] | Some m \<Rightarrow> m # msgs_in u')"
  by (cases u) (auto simp: lp_read_def split: list.splits option.splits)

lemma up_read_none: "up_read u = (None, u') \<Longrightarrow> msgs_in u' = []"
  by (cases u) (auto simp: lp_read_def split: list.splits)

lemma read_message_stream:
  "read_message u c = (r, c', u') \<Longrightarrow> \<exists>cs. msgs_in u = cs @ (case r of None \<Rightarrow> [] | Some m \<Rightarrow> [m]) @ msgs_in u' \<and>
    (\<forall>m\<in>set cs. v_is_credential m)"
proof (induction u c rule: read_message.induct)
  case (1 u c)
  obtain r1 u1 where r1: "up_read u = (r1, u1)" by force
  show ?case
  proof (cases r1)
    case None
    with 1(2) r1 up_read_stream [OF r1] up_read_none show ?thesis by (auto simp: read_message.simps [of u c])
  next
    case (Some m)
    show ?thesis
    proof (cases "v_is_credential m")
      case True
      with 1(2) r1 Some have "read_message u1 (vdata m) = (r, c', u')" by (simp add: read_message.simps [of u c])
      with 1(1) [OF r1 [symmetric] Some True] obtain cs where
        "msgs_in u1 = cs @ (case r of None \<Rightarrow> [] | Some m \<Rightarrow> [m]) @ msgs_in u'" "\<forall>m\<in>set cs. v_is_credential m" by auto
      with True up_read_stream [OF r1] Some show ?thesis by (intro exI [of _ "m # cs"]) auto
    next
      case False
      with 1(2) r1 Some up_read_stream [OF r1] show ?thesis by (auto simp: read_message.simps [of u c])
    qed
  qed
qed

lemma whole_append: "whole (xs @ ys) \<Longrightarrow> whole ys"
  by (induction xs) auto

lemma readable_next:
  assumes "msgs_in u = n # ms" "\<not> v_is_delimiter n" "\<not> v_is_credential n"
  shows "\<exists>c' u'. read_message u c = (Some n, c', u')"
proof -
  obtain r u' where r: "up_read u = (r, u')" by force
  with up_read_stream [OF r] assms have "r = Some n" by (cases r) auto
  with r assms show ?thesis by (simp add: read_message.simps [of u c])
qed

lemma w_read_whole:
  assumes "whole_world w" "w_read p w = Some (r, w')"
  shows "whole_world w'" and "r = Some m \<Longrightarrow> has_more m \<Longrightarrow> w_readable p w'"
proof -
  from assms(2) obtain e e' n' where e: "pends w p = Some e" "p_read e (wnet w) = Some (r, e', n')"
    "w' = w\<lparr>pends := (pends w)(p \<mapsto> e'), wnet := n'\<rparr>" by (auto simp: w_read_def bind_eq_Some_conv)
  have main: "whole_world w' \<and> (\<forall>m. r = Some m \<longrightarrow> has_more m \<longrightarrow> w_readable p w')"
  proof (cases "\<not> in_active e \<or> state e \<noteq> Active \<and> state e \<noteq> Waiting_for_delimiter")
    case True
    with e(2) have "r = None" "e' = e" "n' = wnet w" by (auto simp: p_read_def split: if_splits)
    moreover from this e(1,3) have "w' = w" by (simp add: fun_upd_idem)
    ultimately show ?thesis using assms(1) by simp
  next
    case False
    with e(2) obtain i u where i: "inpipe e = Some i" "upipes (wnet w) i = Some u"
      by (auto simp: p_read_def bind_eq_Some_conv)
    obtain r1 c u' where r1: "read_message u (p_credential e) = (r1, c, u')" by (metis surj_pair)
    from read_message_stream [OF r1] obtain cs where
      cs: "msgs_in u = cs @ (case r1 of None \<Rightarrow> [] | Some m \<Rightarrow> [m]) @ msgs_in u'" by blast
    have "whole (msgs_in u)" using assms(1) inbox_at [OF e(1) i] by (metis whole_world_def)
    then have wu': "whole ((case r1 of None \<Rightarrow> [] | Some m \<Rightarrow> [m]) @ msgs_in u')" using cs whole_append by metis
    then have w1: "whole (msgs_in u')" using whole_append by blast
    from False e(2) i r1 have s: "inpipe e' = inpipe e" "upipes n' = (upipes (wnet w))(i \<mapsto> u')"
      "r = None \<or> r = r1 \<and> in_active e' \<and> state e' = state e"
      by (auto simp: p_read_def p_process_delimiter_def Let_def put_upipe_def bind_eq_Some_conv send_upipes
        split: option.splits if_splits)
    have "w_readable p w'" if m: "r = Some m" "has_more m" for m
    proof -
      from m s(3) have "r1 = Some m" "in_active e'" "state e' = state e" by auto
      with wu' m(2) obtain n ms where "msgs_in u' = n # ms" "\<not> v_is_delimiter n" "\<not> v_is_credential n"
        by (cases "msgs_in u'") auto
      from readable_next [OF this, of "p_credential e'"] False s i \<open>in_active e'\<close> \<open>state e' = state e\<close>
        \<open>\<not> v_is_delimiter n\<close> e(3) show ?thesis by (auto simp: readable_end_def w_readable_def)
    qed
    with inbox_update [OF e(1) s(1) i s(2)] w1 assms(1) e(3) show ?thesis by (simp add: whole_world_def)
  qed
  from main show "whole_world w'" "r = Some m \<Longrightarrow> has_more m \<Longrightarrow> w_readable p w'" by auto
qed

text \<open>
  The state in which a socket receives: no receive faults, and after a part with \<open>more\<close> the
  next one can be read from the same pipe.
\<close>

definition fq_ready :: "fq \<Rightarrow> world \<Rightarrow> bool" where
  "fq_ready q w \<longleftrightarrow> fq_inv q \<and> (\<forall>x\<in>set (active_pipes q). can_read x w) \<and> whole_world w \<and>
     (fq_more q \<longrightarrow> 0 < fq_active q \<and> w_readable (items (fq_pipes q) ! fq_current q) w)"

text \<open>The pipe that delivers is read last, so what it has left is what the queue sees next.\<close>

lemma fq_loop_last_read:
  assumes "fq_loop w_read n q w = Some (Some (m, p), q', w')" "whole_world w"
  shows "whole_world w' \<and> (has_more m \<longrightarrow> w_readable p w')"
  using assms
proof (induction n arbitrary: q w)
  case (Suc n)
  from Suc.prems obtain x r1 w1 where x: "table_at (items (fq_pipes q)) (fq_current q) = Some x"
    "w_read x w = Some (r1, w1)" by (auto simp: bind_eq_Some_conv)
  note rd = w_read_whole [OF Suc.prems(2) x(2)]
  show ?case
  proof (cases r1)
    case (Some m1)
    with Suc.prems(1) x have "m1 = m" "x = p" "w' = w1" by (auto simp: Let_def split: if_splits)
    with rd Some show ?thesis by auto
  next
    case None
    with Suc.prems(1) x obtain q1 where "fq_loop w_read n q1 w1 = Some (Some (m, p), q', w')"
      by (auto simp: bind_eq_Some_conv)
    from Suc.IH [OF this rd(1)] show ?thesis .
  qed
qed simp

lemma fq_loop_whole: "fq_loop w_read n q w = Some (r, q', w') \<Longrightarrow> whole_world w \<Longrightarrow> whole_world w'"
proof (induction n arbitrary: q w)
  case (Suc n)
  from Suc.prems obtain x r1 w1 where x: "table_at (items (fq_pipes q)) (fq_current q) = Some x"
    "w_read x w = Some (r1, w1)" by (auto simp: bind_eq_Some_conv)
  note rd = w_read_whole(1) [OF Suc.prems(2) x(2)]
  show ?case
  proof (cases r1)
    case (Some m1)
    with Suc.prems(1) x rd show ?thesis by (auto simp: Let_def split: if_splits)
  next
    case None
    with Suc.prems(1) x obtain q1 where "fq_loop w_read n q1 w1 = Some (r, q', w')"
      by (auto simp: bind_eq_Some_conv)
    from Suc.IH [OF this rd(1)] show ?thesis .
  qed
qed simp

lemma fq_ready_recv:
  assumes "fq_ready q w"
  obtains r q' w' where "fq_recvpipe w_read q w = Some (r, q', w')" "fq_ready q' w'"
    "case r of None \<Rightarrow> active_pipes q' = [] \<and> \<not> fq_more q \<and> \<not> fq_more q'
      | Some (m, p) \<Rightarrow> fq_more q' = has_more m \<and> (fq_more q \<longrightarrow> p = items (fq_pipes q) ! fq_current q) \<and>
          (has_more m \<longrightarrow> items (fq_pipes q') ! fq_current q' = p)"
    "set (items (fq_pipes q')) = set (items (fq_pipes q))" "\<forall>x. can_read x w \<longrightarrow> can_read x w'"
proof -
  note rdy = assms [unfolded fq_ready_def]
  from rdy have "fq_inv q" "\<forall>x\<in>set (active_pipes q). can_read x w"
    "fq_more q \<longrightarrow> 0 < fq_active q \<longrightarrow> w_readable (items (fq_pipes q) ! fq_current q) w" by auto
  from fq_pipes.fq_loop_ok [OF this(1) refl this(2,3)] obtain r q' w' where
    l: "fq_loop w_read (fq_active q) q w = Some (r, q', w')" "fq_pipes.received q w r q' w'" by blast
  note rc = l(2) [unfolded fq_pipes.received_def]
  have ww: "whole_world w'" using fq_loop_whole [OF l(1)] rdy by simp
  have al: "\<forall>x. can_read x w \<longrightarrow> can_read x w'" using rc by blast
  show thesis
  proof (cases r)
    case None
    with rc have n: "active_pipes q' = []" "fq_more q' = fq_more q" "\<forall>x\<in>set (active_pipes q). \<not> w_readable x w" by auto
    have nm: "\<not> fq_more q"
    proof
      assume m: "fq_more q"
      with rdy have "0 < fq_active q" "w_readable (items (fq_pipes q) ! fq_current q) w" by auto
      moreover from this(1) obtain k where "fq_active q = Suc k" by (cases "fq_active q") auto
      ultimately show False using fq_pipes.current_active(3) [of q k] rdy n(3) by blast
    qed
    with n rc ww have "fq_ready q' w'" by (auto simp: fq_ready_def)
    with that [of None q' w'] l(1) None n nm rc al show thesis by (simp add: fq_recvpipe_def)
  next
    case (Some mp)
    obtain m p where mp: "mp = (m, p)" by (cases mp)
    from rc have s: "p \<in> set (active_pipes q')" "fq_more q' = has_more m" "set (active_pipes q') \<subseteq> set (active_pipes q)"
      "has_more m \<longrightarrow> items (fq_pipes q') ! fq_current q' = p" "fq_inv q'" "\<forall>x. can_read x w \<longrightarrow> can_read x w'"
      "set (items (fq_pipes q')) = set (items (fq_pipes q))" "fq_more q \<longrightarrow> p = items (fq_pipes q) ! fq_current q"
      unfolding Some mp by auto
    from fq_loop_last_read [of "fq_active q" q w m p q' w'] l(1) rdy have "has_more m \<longrightarrow> w_readable p w'"
      by (simp add: Some mp)
    moreover have "0 < fq_active q'" using s(1) by (cases "fq_active q'") (auto simp: active_pipes_def)
    ultimately have "fq_ready q' w'" using s rdy ww by (auto simp: fq_ready_def)
    with that [of r q' w'] l(1) s al show thesis by (simp add: fq_recvpipe_def Some mp)
  qed
qed

lemma fq_ready_step:
  assumes "fq_ready q w"
  shows "\<exists>r q' w'. fq_recvpipe w_read q w = Some (r, q', w') \<and> fq_ready q' w' \<and>
    (case r of None \<Rightarrow> active_pipes q' = [] \<and> \<not> fq_more q \<and> \<not> fq_more q' | Some (m, p) \<Rightarrow> fq_more q' = has_more m)"
  by (rule fq_ready_recv [OF assms]) (auto split: option.splits)

subsection \<open>Everything a socket can receive\<close>

text \<open>
  The parts that repeated receives give until \<open>EAGAIN\<close>; what a socket hands to its user is
  stated relative to them.
\<close>

function fq_drain :: "fq \<Rightarrow> world \<Rightarrow> ((vmsg \<times> nat) list \<times> fq \<times> world) option" where
  "fq_drain q w =
     (case fq_recvpipe w_read q w of
        None \<Rightarrow> None
      | Some (None, q', w') \<Rightarrow> Some ([], q', w')
      | Some (Some m, q', w') \<Rightarrow> (case fq_drain q' w' of None \<Rightarrow> None | Some (ms, r) \<Rightarrow> Some (m # ms, r)))"
  by pat_completeness auto
termination
  by (relation "measure (\<lambda>(q, w). fq_unread q w)") (auto intro: fq_recv_shrinks)

declare fq_drain.simps [simp del]

lemma fq_drain_ok: "fq_ready q w \<Longrightarrow> \<exists>ms q' w'. fq_drain q w = Some (ms, q', w') \<and> fq_ready q' w'"
proof (induction q w rule: fq_drain.induct)
  case (1 q w)
  from fq_ready_step [OF 1(2)] obtain r q1 w1 where
    r: "fq_recvpipe w_read q w = Some (r, q1, w1)" "fq_ready q1 w1" by blast
  show ?case
  proof (cases r)
    case None
    with r show ?thesis by (simp add: fq_drain.simps [of q w])
  next
    case (Some mp)
    from 1(1) [OF r(1) refl Some refl r(2)] r(1) Some show ?thesis
      by (auto simp: fq_drain.simps [of q w])
  qed
qed

subsection \<open>What is read, and what is passed over\<close>

text \<open>Credentials and delimiters are for the pipe; a read passes over them and loses nothing else.\<close>

definition passed_over :: "vmsg list \<Rightarrow> bool" where
  "passed_over cs \<longleftrightarrow> (\<forall>c\<in>set cs. v_is_credential c \<or> v_is_delimiter c)"

lemma w_read_inbox:
  assumes "can_read p w" "w_read p w = Some (r, w')"
  shows "\<exists>cs. passed_over cs \<and> inbox x w = cs @ (if x = p then case r of None \<Rightarrow> [] | Some m \<Rightarrow> [m] else []) @ inbox x w'"
proof -
  from assms(2) obtain e e' n' where e: "pends w p = Some e" "p_read e (wnet w) = Some (r, e', n')"
    "w' = w\<lparr>pends := (pends w)(p \<mapsto> e'), wnet := n'\<rparr>" by (auto simp: w_read_def bind_eq_Some_conv)
  show ?thesis
  proof (cases "\<not> in_active e \<or> state e \<noteq> Active \<and> state e \<noteq> Waiting_for_delimiter")
    case True
    with e(2) have "r = None" "e' = e" "n' = wnet w" by (auto simp: p_read_def split: if_splits)
    moreover from this e(1,3) have "w' = w" by (simp add: fun_upd_idem)
    ultimately show ?thesis by (intro exI [of _ "[]"]) (simp add: passed_over_def)
  next
    case False
    with e(2) obtain i u where i: "inpipe e = Some i" "upipes (wnet w) i = Some u"
      by (auto simp: p_read_def bind_eq_Some_conv)
    obtain r1 c u' where r1: "read_message u (p_credential e) = (r1, c, u')" by (metis surj_pair)
    from read_message_stream [OF r1] obtain cs where
      cs: "msgs_in u = cs @ (case r1 of None \<Rightarrow> [] | Some m \<Rightarrow> [m]) @ msgs_in u'" "\<forall>m\<in>set cs. v_is_credential m" by blast
    from False e(2) i r1 have s: "inpipe e' = inpipe e" "upipes n' = (upipes (wnet w))(i \<mapsto> u')"
      "r = r1 \<or> r = None \<and> (\<exists>m. r1 = Some m \<and> v_is_delimiter m)"
      by (auto simp: p_read_def p_process_delimiter_def Let_def put_upipe_def bind_eq_Some_conv send_upipes
        split: option.splits if_splits)
    have "map_option inpipe (pends w x) = Some (Some i) \<longleftrightarrow> x = p"
      using assms(1) e(1) i(1) unfolding can_read_def world_ok_def by (cases "pends w x") (auto, metis)
    with inbox_update [OF e(1) s(1) i s(2), of x] e(3) have "inbox x w' = (if x = p then msgs_in u' else inbox x w)" by simp
    then show ?thesis using s(3) cs inbox_at [OF e(1) i]
      by (cases "x = p") (auto simp: passed_over_def intro: exI [of _ cs] exI [of _ "cs @ [the r1]"] exI [of _ "[]"])
  qed
qed

lemma fq_loop_inbox:
  "fq_loop w_read n q w = Some (r, q', w') \<Longrightarrow> world_ok w \<Longrightarrow> msgs_ok w \<Longrightarrow>
    \<exists>cs. passed_over cs \<and> inbox x w = cs @ (case r of Some (m, p) \<Rightarrow> if x = p then [m] else [] | None \<Rightarrow> []) @ inbox x w'"
proof (induction n arbitrary: q w)
  case 0
  then show ?case by (intro exI [of _ "[]"]) (auto simp: passed_over_def)
next
  case (Suc n)
  from Suc.prems(1) obtain p r1 w1 where p: "table_at (items (fq_pipes q)) (fq_current q) = Some p"
    "w_read p w = Some (r1, w1)" by (auto simp: bind_eq_Some_conv)
  then have c: "can_read p w" using Suc.prems(2,3) by (auto simp: can_read_def w_read_def bind_eq_Some_conv)
  from w_read_inbox [OF this p(2), of x] obtain cs where
    cs: "passed_over cs" "inbox x w = cs @ (if x = p then case r1 of None \<Rightarrow> [] | Some m \<Rightarrow> [m] else []) @ inbox x w1" by blast
  show ?case
  proof (cases r1)
    case (Some m)
    with Suc.prems(1) p have "w' = w1" "r = Some (m, p)" by (auto simp: Let_def split: if_splits)
    with cs Some show ?thesis by auto
  next
    case None
    with Suc.prems(1) p obtain q1 where q1: "fq_loop w_read n q1 w1 = Some (r, q', w')" by (auto simp: bind_eq_Some_conv)
    from fq_pipes.read_ok [OF c] p(2) c have "world_ok w1" "msgs_ok w1" by (auto simp: can_read_def)
    from Suc.IH [OF q1 this] obtain ds where "passed_over ds"
      "inbox x w1 = ds @ (case r of Some (m, p) \<Rightarrow> if x = p then [m] else [] | None \<Rightarrow> []) @ inbox x w'" by blast
    with cs None show ?thesis by (intro exI [of _ "cs @ ds"]) (auto simp: passed_over_def)
  qed
qed



subsection \<open>Results of socket operations\<close>

datatype sock_error = EAGAIN | EFSM | EHOSTUNREACH | EFAULT | EINVAL | EPROTO | EACCES | ENOTCONN | ECONNREFUSED

datatype rc = Ok | Err sock_error

text \<open>A message of the given bytes, as \<open>init_size\<close> makes it.\<close>

definition sized_msg :: "byte list \<Rightarrow> vmsg" where
  "sized_msg d = plain (if length d \<le> max_vsm_size then type_vsm else type_lmsg) 0 d"

end
