(* ===== verification/Socket_Sends.thy ===== *)
theory Socket_Sends
  imports Socket_Reads
begin

text \<open>
  Sending whole messages to one pipe: what a load balancer does to the content of its pipes,
  and that a pipe which takes the first part of a message takes the others. \<open>w_process\<close> is the
  arrival of a command at one of the pipes.
\<close>

text \<open>A command of the peer reaches a pipe.\<close>

definition w_process :: "nat \<Rightarrow> command \<Rightarrow> world \<Rightarrow> world option" where
  "w_process p c w = do {
     e \<leftarrow> pends w p;
     (r, n) \<leftarrow> process_command c e (wnet w);
     Some (w\<lparr>pends := (pends w)(p := r), wnet := n\<rparr>) }"

subsection \<open>Load balancing and the contents of the pipes\<close>

lemma lb_loop_dropping: "lb_loop wr rb m n l w = Some (r, l', w') \<Longrightarrow> lb_dropping l' = lb_dropping l"
proof (induction n arbitrary: l w)
  case (Suc n)
  then show ?case by (fastforce simp: bind_eq_Some_conv Let_def split: if_splits)
qed simp

text \<open>The load balancer of a socket between two parts, \<open>alive\<close> and \<open>room\<close> as in \<open>pipe_target\<close>.\<close>

definition lb_ready :: "(nat \<Rightarrow> 'w \<Rightarrow> bool) \<Rightarrow> (nat \<Rightarrow> 'w \<Rightarrow> bool) \<Rightarrow> lb \<Rightarrow> 'w \<Rightarrow> bool" where
  "lb_ready alive room l w \<longleftrightarrow> lb_inv l \<and> \<not> lb_dropping l \<and> (\<forall>x\<in>set (lb_actives l). alive x w) \<and>
     (lb_more l \<longrightarrow> 0 < lb_active l \<and> room (items (lb_pipes l) ! lb_current l) w)"

text \<open>A pipe that has taken a part with \<open>more\<close> has room for the next one.\<close>

locale pipe_parts = pipe_log +
  assumes more_room: "alive p w \<Longrightarrow> wr p m w = Some (True, w') \<Longrightarrow> has_more m \<Longrightarrow> room p w'"
begin

lemma lb_loop_content:
  assumes "lb_inv l" "lb_active l = n" "\<forall>x\<in>set (lb_actives l). alive x w" "\<not> lb_more l"
    "lb_loop wr rb m n l w = Some (r, l', w')"
  shows "(\<forall>x. alive x w \<longrightarrow> content x w' = (if r = Sent x then store m (content x w) else content x w)) \<and>
    (\<forall>p. r = Sent p \<longrightarrow> has_more m \<longrightarrow> room p w')"
  using assms
proof (induction n arbitrary: l w)
  case (Suc n)
  let ?xs = "items (lb_pipes l)" and ?c = "lb_current l"
  let ?p = "?xs ! ?c"
  note c = lb_current_active [OF Suc.prems(1,2)]
  from Suc.prems(3) c(4) have al: "alive ?p w" by blast
  from write_ok [OF al, of m] obtain b w1 where
    wr: "wr ?p m w = Some (b, w1)" "b \<longleftrightarrow> room ?p w" "\<forall>x. alive x w \<longrightarrow> alive x w1" by blast
  note co = write_content [OF al wr(1)]
  show ?case
  proof (cases b)
    case True
    with wr c(2) Suc.prems(5) have "r = Sent ?p" "w' = w1" by auto
    with co True more_room [OF al, of m w1] wr(1) show ?thesis by auto
  next
    case False
    from Suc.prems(1) have ok: "arr_ok (lb_pipes l)" by (simp add: lb_inv_def)
    obtain a where a: "if ?c < n then arr_swap ?c n (lb_pipes l) = Some a else a = lb_pipes l"
      using arr_swap_ok [OF ok c(2,3)] by (cases "?c < n") auto
    then have a': "arr_swap ?c n (lb_pipes l) = Some a \<or> ?c = n \<and> a = lb_pipes l"
      using c(1) by (auto split: if_splits)
    let ?l = "l\<lparr>lb_active := n, lb_pipes := a, lb_current := (if ?c = n then 0 else ?c)\<rparr>"
    note de = lb_deactivate [OF Suc.prems(1,2) a']
    have "set (lb_actives ?l) = set (lb_actives l) - {?p}" using de(2) by (simp add: lb_actives_def)
    then have al': "\<forall>x\<in>set (lb_actives ?l). alive x w1" using Suc.prems(3) wr(3) by blast
    have "lb_loop wr rb m n ?l w1 = Some (r, l', w')"
    proof (cases "?c < n")
      case True
      then have "arr_swap ?c n (lb_pipes l) = Some a" "?l = l\<lparr>lb_active := n, lb_pipes := a\<rparr>" using a by simp_all
      then show ?thesis using True c(2) wr(1) False Suc.prems(2,4,5) by simp
    next
      case ge: False
      then have "?l = l\<lparr>lb_active := n, lb_current := 0\<rparr>" using a c(1) by simp
      then show ?thesis using ge c(2) wr(1) False Suc.prems(2,4,5) by simp
    qed
    from Suc.IH [OF de(1) _ al' _ this] Suc.prems(4) co False wr(3) show ?thesis by simp
  qed
qed simp

text \<open>
  One part through \<open>sendpipe\<close>: written to one pipe (the current one inside a message), or
  nothing happens. Inside a message whose pipe has room it is always written.
\<close>

lemma lb_sendpipe_content:
  assumes "lb_ready alive room l w"
  obtains r l' w' where "lb_sendpipe wr rb fl m l w = Some (r, l', w')" "lb_ready alive room l' w'"
    "\<forall>x. alive x w \<longrightarrow> alive x w'"
    "set (items (lb_pipes l')) = set (items (lb_pipes l))"
    "\<forall>x. alive x w \<longrightarrow> content x w' = (if r = Sent x then store m (content x w) else content x w)"
    "case r of Sent p \<Rightarrow> p \<in> set (lb_actives l) \<and> room p w \<and> lb_more l' = has_more m \<and>
        (lb_more l \<longrightarrow> p = items (lb_pipes l) ! lb_current l) \<and> (has_more m \<longrightarrow> p = items (lb_pipes l') ! lb_current l')
      | Again \<Rightarrow> \<not> lb_more l \<and> \<not> lb_more l' \<and> (\<forall>x\<in>set (lb_actives l). \<not> room x w)
      | Dropped \<Rightarrow> False"
proof -
  note rs = assms [unfolded lb_ready_def]
  then have "lb_inv l" "\<not> lb_dropping l" "lb_more l \<longrightarrow> 0 < lb_active l" "\<forall>x\<in>set (lb_actives l). alive x w" by auto
  from lb_sendpipe_ok [OF this, of m] obtain r l' w' where
    ok: "lb_sendpipe wr rb fl m l w = Some (r, l', w')" "lb_inv l'" "set (items (lb_pipes l')) = set (items (lb_pipes l))"
      "\<forall>x. alive x w \<longrightarrow> alive x w'" "set (lb_actives l') \<subseteq> set (lb_actives l)" and
    cs: "case r of
       Sent p \<Rightarrow> p \<in> set (lb_actives l') \<and> room p w \<and> lb_more l' = has_more m \<and> \<not> lb_dropping l' \<and>
         (lb_more l \<longrightarrow> p = items (lb_pipes l) ! lb_current l) \<and>
         (has_more m \<longrightarrow> p = items (lb_pipes l') ! lb_current l' \<and> 0 < lb_active l')
     | Again \<Rightarrow> \<not> lb_more l' \<and> (if lb_more l then \<not> room (items (lb_pipes l) ! lb_current l) w
         else (\<forall>x\<in>set (lb_actives l). \<not> room x w))
     | Dropped \<Rightarrow> False" by (elim exE conjE) (rule that)
  obtain r1 l1 w1 where lp: "lb_loop wr rb m (lb_active l) l w = Some (r1, l1, w1)"
    using ok(1) rs by (auto simp: lb_sendpipe_def bind_eq_Some_conv)
  have c1: "(\<forall>x. alive x w \<longrightarrow> content x w1 = (if r1 = Sent x then store m (content x w) else content x w)) \<and>
    (\<forall>p. r1 = Sent p \<longrightarrow> has_more m \<longrightarrow> room p w1)"
  proof (cases "lb_more l")
    case False
    with lb_loop_content [OF _ refl _ _ lp] rs show ?thesis by blast
  next
    case True
    with rs obtain n where n: "lb_active l = Suc n" by (cases "lb_active l") auto
    note c = lb_current_active [OF _ n]
    let ?p = "items (lb_pipes l) ! lb_current l"
    from rs c(4) have al: "alive ?p w" by blast
    from write_ok [OF al, of m] rs True obtain w2 where w2: "wr ?p m w = Some (True, w2)" by auto
    with lp n c(2) rs have "r1 = Sent ?p" "w1 = w2" by auto
    with write_content [OF al w2] more_room [OF al w2] show ?thesis by auto
  qed
  from lb_loop_ok [OF _ refl, of l w m] rs lp have al1: "\<forall>x. alive x w \<longrightarrow> alive x w1" and nd: "r1 \<noteq> Dropped"
    by (cases "lb_active l = 0"; auto simp: sent_to_def)+
  have r1: "r = r1" "(\<exists>p. r = Sent p \<and> \<not> has_more m \<and> fl p w1 = Some w') \<or> w' = w1"
    "lb_dropping l' = lb_dropping l1"
    using ok(1) lp rs cs nd
    by (auto simp: lb_sendpipe_def bind_eq_Some_conv Let_def split: send_result.splits if_splits)
  have co: "(\<forall>x. alive x w \<longrightarrow> content x w' = (if r = Sent x then store m (content x w) else content x w)) \<and>
    (\<forall>p. r = Sent p \<longrightarrow> has_more m \<longrightarrow> room p w')"
  proof (cases "w' = w1")
    case False
    with r1(2) obtain p where p: "r = Sent p" "\<not> has_more m" "fl p w1 = Some w'" by blast
    with cs ok(5) rs al1 have "alive p w1" by auto
    from flush_content [OF this p(3)] al1 c1 r1(1) p(1,2) show ?thesis by simp
  qed (use c1 r1 in simp)
  have "lb_dropping l' = lb_dropping l" using r1(3) lb_loop_dropping [OF lp] by simp
  then have "lb_ready alive room l' w'"
    using ok(2,4,5) cs rs co by (auto simp: lb_ready_def split: send_result.splits)
  moreover have "case r of Sent p \<Rightarrow> p \<in> set (lb_actives l) \<and> room p w \<and> lb_more l' = has_more m \<and>
        (lb_more l \<longrightarrow> p = items (lb_pipes l) ! lb_current l) \<and> (has_more m \<longrightarrow> p = items (lb_pipes l') ! lb_current l')
      | Again \<Rightarrow> \<not> lb_more l \<and> \<not> lb_more l' \<and> (\<forall>x\<in>set (lb_actives l). \<not> room x w)
      | Dropped \<Rightarrow> False"
    using cs ok(5) rs by (auto split: send_result.splits if_splits)
  ultimately show thesis using that ok(1,3,4) co by blast
qed

end

lemma write_more_same:
  assumes "p_write m e n = Some (True, e', n')" "has_more m"
  shows "e' = e \<and> fst (p_check_write e)"
proof -
  obtain b f where k: "p_check_write e = (b, f)" by (cases "p_check_write e")
  with assms have b by (auto simp: p_write_def split: if_splits)
  with k have "f = e" by (auto simp: p_check_write_def Let_def split: if_splits)
  with k \<open>b\<close> assms show ?thesis by (auto simp: p_write_def Let_def bind_eq_Some_conv)
qed

interpretation lb_parts: pipe_parts w_write w_rollback w_flush w_check_write can_write w_room w_content up_store
proof
  fix p m w w' assume a: "w_write p m w = Some (True, w')" "has_more m"
  then obtain e e' n where "pends w p = Some e" "p_write m e (wnet w) = Some (True, e', n)"
    "w' = w\<lparr>pends := (pends w)(p \<mapsto> e'), wnet := n\<rparr>"
    unfolding w_write_def by (auto simp: bind_eq_Some_conv)
  with write_more_same [OF this(2) a(2)] show "w_room p w'" by (simp add: w_room_def)
qed

subsection \<open>Sending and receiving do not disturb each other\<close>

text \<open>
  A calm socket: no pipe leads back to the socket itself, and no pipe is about to end. What
  can be read is then not touched by writes, and what can be written not by reads.
\<close>

definition calm :: "world \<Rightarrow> bool" where
  "calm w \<longleftrightarrow> world_ok w \<and> (\<forall>p q e f i. pends w p = Some e \<longrightarrow> pends w q = Some f \<longrightarrow> inpipe e = Some i \<longrightarrow>
     outpipe f \<noteq> Some i) \<and> (\<forall>p. \<forall>m\<in>set (inbox p w). \<not> v_is_delimiter m)"

definition in_view :: "world \<Rightarrow> pipe_t \<Rightarrow> nat option \<times> bool \<times> pstate \<times> byte list \<times> upipe option" where
  "in_view w e = (inpipe e, in_active e, state e, p_credential e, Option.bind (inpipe e) (upipes (wnet w)))"

definition out_view :: "world \<Rightarrow> pipe_t \<Rightarrow> nat option \<times> bool \<times> pstate \<times> int \<times> u64 \<times> u64 \<times> upipe option" where
  "out_view w e = (outpipe e, out_active e, state e, hwm e, msgs_written e, peers_msgs_read e,
     Option.bind (outpipe e) (upipes (wnet w)))"

definition outward :: "world \<Rightarrow> world \<Rightarrow> bool" where
  "outward w w' \<longleftrightarrow> (calm w \<longrightarrow> calm w' \<and> (\<forall>x. map_option (in_view w') (pends w' x) = map_option (in_view w) (pends w x)))"

definition inward :: "world \<Rightarrow> world \<Rightarrow> bool" where
  "inward w w' \<longleftrightarrow> (calm w \<longrightarrow> calm w' \<and> (\<forall>x. map_option (out_view w') (pends w' x) = map_option (out_view w) (pends w x)))"

lemma outward_refl: "outward w w" and outward_trans: "outward u v \<Longrightarrow> outward v w \<Longrightarrow> outward u w"
  by (simp_all add: outward_def)

lemma inward_refl: "inward w w" and inward_trans: "inward u v \<Longrightarrow> inward v w \<Longrightarrow> inward u w"
  by (simp_all add: inward_def)

lemma same_in_view:
  assumes "map_option (in_view w') (pends w' x) = map_option (in_view w) (pends w x)"
  shows "inbox x w' = inbox x w" "w_readable x w' = w_readable x w" "(pends w' x = None) = (pends w x = None)"
proof -
  show "(pends w' x = None) = (pends w x = None)" using assms by (cases "pends w x"; cases "pends w' x") auto
  show "inbox x w' = inbox x w" "w_readable x w' = w_readable x w"
    using assms by (cases "pends w x"; cases "pends w' x";
      auto simp: inbox_def w_readable_def in_view_def readable_end_def split: option.splits Option.bind_splits)+
qed

lemma same_out_view:
  assumes "map_option (out_view w') (pends w' x) = map_option (out_view w) (pends w x)"
  shows "w_content x w' = w_content x w" "w_room x w' = w_room x w" "(pends w' x = None) = (pends w x = None)"
proof -
  show "(pends w' x = None) = (pends w x = None)" using assms by (cases "pends w x"; cases "pends w' x") auto
  show "w_content x w' = w_content x w"
    using assms by (cases "pends w x"; cases "pends w' x")
      (auto simp: w_content_def out_view_def split: option.splits Option.bind_splits)
  show "w_room x w' = w_room x w"
    using assms by (cases "pends w x"; cases "pends w' x")
      (auto simp: w_room_def out_view_def p_check_write_def p_check_hwm_def)
qed

lemma fq_ready_outward:
  assumes "outward w w'" "calm w" "fq_ready q w"
  shows "fq_ready q w'"
proof -
  from assms(1,2) have *: "calm w'" "\<And>x. map_option (in_view w') (pends w' x) = map_option (in_view w) (pends w x)"
    by (auto simp: outward_def)
  from same_in_view [OF *(2)] *(1) assms(3) show ?thesis
    by (auto simp: fq_ready_def can_read_def whole_world_def msgs_ok_def calm_def)
qed

lemma lb_ready_inward:
  assumes "inward w w'" "calm w" "lb_ready can_write w_room l w"
  shows "lb_ready can_write w_room l w'"
proof -
  from assms(1,2) have *: "calm w'" "\<And>x. map_option (out_view w') (pends w' x) = map_option (out_view w) (pends w x)"
    by (auto simp: inward_def)
  from same_out_view [OF *(2)] *(1) assms(3) show ?thesis
    by (auto simp: lb_ready_def can_write_def calm_def)
qed

text \<open>Both loops only use the operations of the pipes.\<close>

lemma lb_loop_keeps:
  assumes "\<And>w. R w w" "\<And>u v w. R u v \<Longrightarrow> R v w \<Longrightarrow> R u w" "\<And>p w b w'. wr p m w = Some (b, w') \<Longrightarrow> R w w'"
    "\<And>p w w'. rb p w = Some w' \<Longrightarrow> R w w'" "lb_loop wr rb m n l w = Some (r, l', w')"
  shows "R w w'"
  using assms(5)
proof (induction n arbitrary: l w)
  case (Suc n)
  from Suc.prems obtain p b w1 where p: "wr p m w = Some (b, w1)" and
    "b \<and> w' = w1 \<or> rb p w1 = Some w' \<or> (\<exists>l1. lb_loop wr rb m n l1 w1 = Some (r, l', w'))"
    by (auto simp: bind_eq_Some_conv Let_def split: if_splits)
  with assms(2) [OF assms(3) [OF p]] assms(3) [OF p] assms(4) Suc.IH show ?case by blast
qed (use assms(1) in simp)

lemma lb_sendpipe_keeps:
  assumes "\<And>w. R w w" "\<And>u v w. R u v \<Longrightarrow> R v w \<Longrightarrow> R u w" "\<And>p w b w'. wr p m w = Some (b, w') \<Longrightarrow> R w w'"
    "\<And>p w w'. rb p w = Some w' \<Longrightarrow> R w w'" "\<And>p w w'. fl p w = Some w' \<Longrightarrow> R w w'"
    "lb_sendpipe wr rb fl m l w = Some (r, l', w')"
  shows "R w w'"
proof (cases "lb_dropping l")
  case False
  with assms(6) obtain r1 l1 w1 where lp: "lb_loop wr rb m (lb_active l) l w = Some (r1, l1, w1)"
    by (auto simp: lb_sendpipe_def bind_eq_Some_conv)
  with False assms(6) have "w' = w1 \<or> (\<exists>p. fl p w1 = Some w')"
    by (cases r1) (auto simp: lb_sendpipe_def bind_eq_Some_conv Let_def split: if_splits)
  moreover have "R w w1" by (rule lb_loop_keeps [where R = R, OF _ _ _ _ lp]) (fact assms)+
  ultimately show ?thesis using assms(2,5) by blast
qed (use assms(1,6) in \<open>simp add: lb_sendpipe_def\<close>)

lemma fq_loop_keeps:
  assumes "\<And>w. R w w" "\<And>u v w. R u v \<Longrightarrow> R v w \<Longrightarrow> R u w" "\<And>p w x w'. rd p w = Some (x, w') \<Longrightarrow> R w w'"
    "fq_loop rd n q w = Some (r, q', w')"
  shows "R w w'"
  using assms(4)
proof (induction n arbitrary: q w)
  case (Suc n)
  from Suc.prems obtain p x w1 where p: "rd p w = Some (x, w1)" and
    "w' = w1 \<or> (\<exists>q1. fq_loop rd n q1 w1 = Some (r, q', w'))"
    by (fastforce simp: bind_eq_Some_conv Let_def split: option.splits if_splits)
  with assms(2) [OF assms(3) [OF p]] assms(3) [OF p] Suc.IH show ?case by blast
qed (use assms(1) in simp)

lemma fq_drain_keeps:
  assumes "\<And>w. R w w" "\<And>u v w. R u v \<Longrightarrow> R v w \<Longrightarrow> R u w" "\<And>p w x w'. w_read p w = Some (x, w') \<Longrightarrow> R w w'"
    "fq_drain q w = Some (ms, q', w')"
  shows "R w w'"
  using assms(4)
proof (induction q w arbitrary: ms rule: fq_drain.induct)
  case (1 q w)
  from 1(2) obtain x q1 w1 where x: "fq_recvpipe w_read q w = Some (x, q1, w1)"
    by (subst (asm) fq_drain.simps) (auto split: option.splits)
  note k = fq_loop_keeps [where R = R, OF assms(1-3) x [unfolded fq_recvpipe_def]]
  show ?case
  proof (cases x)
    case None
    with 1(2) x k show ?thesis by (simp add: fq_drain.simps [of q w])
  next
    case (Some m)
    with 1(2) x obtain ms' where "fq_drain q1 w1 = Some (ms', q', w')"
      by (auto simp: fq_drain.simps [of q w] split: option.splits)
    from 1(1) [OF x refl Some refl this] k show ?thesis by (rule assms(2) [rotated])
  qed
qed

subsection \<open>The operations of a pipe\<close>

text \<open>A change of the outbound side of one pipe.\<close>

lemma outwardI:
  assumes "pends w p = Some e" "calm w \<Longrightarrow> world_ok w'" "pends w' = (pends w)(p \<mapsto> e')"
    "inpipe e' = inpipe e" "in_active e' = in_active e" "state e' = state e" "p_credential e' = p_credential e"
    "outpipe e' = outpipe e" "\<And>a. outpipe e \<noteq> Some a \<Longrightarrow> upipes (wnet w') a = upipes (wnet w) a"
  shows "outward w w'"
  unfolding outward_def
proof (intro impI)
  assume c: "calm w"
  have ne: "outpipe e \<noteq> Some i" if "pends w x = Some f" "inpipe f = Some i" for x f i
    using c assms(1) that unfolding calm_def by blast
  have v: "map_option (in_view w') (pends w' x) = map_option (in_view w) (pends w x)" for x
  proof (cases "pends w x")
    case (Some f)
    have "Option.bind (inpipe f) (upipes (wnet w')) = Option.bind (inpipe f) (upipes (wnet w))"
      using ne [OF Some] assms(9) by (cases "inpipe f") auto
    with Some assms(1,3-8) show ?thesis by (auto simp: in_view_def)
  qed (use assms(1,3) in auto)
  have "inpipe g = Some i \<Longrightarrow> outpipe h \<noteq> Some i" if "pends w' x = Some g" "pends w' y = Some h" for x y g h i
    using c assms(1,3,4,8) that unfolding calm_def by (metis fun_upd_apply option.inject)
  with c assms(2) same_in_view(1) [OF v] v
  show "calm w' \<and> (\<forall>x. map_option (in_view w') (pends w' x) = map_option (in_view w) (pends w x))"
    unfolding calm_def by simp
qed

lemma write_outward:
  assumes "w_write p m w = Some (b, w')"
  shows "outward w w'"
proof -
  from assms obtain e e' n where e: "pends w p = Some e" "p_write m e (wnet w) = Some (b, e', n)"
    "w' = w\<lparr>pends := (pends w)(p \<mapsto> e'), wnet := n\<rparr>" unfolding w_write_def by (auto simp: bind_eq_Some_conv)
  have ok: "world_ok w'" if "calm w"
  proof -
    have "can_write p w" using that e(1) by (simp add: can_write_def calm_def)
    from lb_pipes.write_ok [OF this, of m] assms show ?thesis using \<open>can_write p w\<close> by (auto simp: can_write_def)
  qed
  have "in_active e' = in_active e \<and> p_credential e' = p_credential e"
    using e(2) by (auto simp: p_write_def p_check_write_def Let_def bind_eq_Some_conv split: if_splits)
  with write_effect [OF e(2)] e(3) show ?thesis
    by (intro outwardI [OF e(1) ok, of e']) (auto split: if_splits)
qed

lemma flush_outward:
  assumes "w_flush p w = Some w'"
  shows "outward w w'"
proof -
  from assms obtain e n where e: "pends w p = Some e" "p_flush e (wnet w) = Some n" "w' = w\<lparr>wnet := n\<rparr>"
    unfolding w_flush_def by (auto simp: bind_eq_Some_conv)
  have ok: "world_ok w'" if "calm w"
  proof -
    have "can_write p w" using that e(1) by (simp add: can_write_def calm_def)
    from lb_pipes.flush_ok [OF this] assms show ?thesis using \<open>can_write p w\<close> by (auto simp: can_write_def)
  qed
  from flush_effect [OF e(2)] e show ?thesis
    by (intro outwardI [OF e(1) ok, of e]) auto
qed

lemma rollback_outward:
  assumes "w_rollback p w = Some w'"
  shows "outward w w'"
proof -
  from assms obtain e n where e: "pends w p = Some e" "p_rollback e (wnet w) = Some n" "w' = w\<lparr>wnet := n\<rparr>"
    unfolding w_rollback_def by (auto simp: bind_eq_Some_conv)
  have ok: "world_ok w'" if "calm w"
  proof -
    have "can_write p w" using that e(1) by (simp add: can_write_def calm_def)
    from lb_pipes.rollback_ok [OF this] assms show ?thesis using \<open>can_write p w\<close> by (auto simp: can_write_def)
  qed
  have "upipes n a = upipes (wnet w) a" if "outpipe e \<noteq> Some a" for a
    using e(2) that by (auto simp: p_rollback_def bind_eq_Some_conv split: option.splits)
  with e show ?thesis by (intro outwardI [OF e(1) ok, of e]) auto
qed

lemma read_inward:
  assumes "w_read p w = Some (r, w')"
  shows "inward w w'"
  unfolding inward_def
proof (intro impI)
  assume c: "calm w"
  from assms obtain e e' n where e: "pends w p = Some e" "p_read e (wnet w) = Some (r, e', n)"
    "w' = w\<lparr>pends := (pends w)(p \<mapsto> e'), wnet := n\<rparr>" unfolding w_read_def by (auto simp: bind_eq_Some_conv)
  have "can_read p w" using c e(1) by (simp add: can_read_def calm_def msgs_ok_def)
  from fq_pipes.read_ok [OF this] assms \<open>can_read p w\<close> have ok: "world_ok w'" by (auto simp: can_read_def)
  have d: "\<not> v_is_delimiter m" if "m \<in> set (inbox p w)" for m using c that by (auto simp: calm_def)
  have same: "inpipe e' = inpipe e \<and> outpipe e' = outpipe e \<and> out_active e' = out_active e \<and> state e' = state e \<and>
      hwm e' = hwm e \<and> msgs_written e' = msgs_written e \<and> peers_msgs_read e' = peers_msgs_read e \<and>
      (n = wnet w \<or> (\<exists>i u u'. inpipe e = Some i \<and> upipes (wnet w) i = Some u \<and> upipes n = (upipes (wnet w))(i \<mapsto> u') \<and>
        set (msgs_in u') \<subseteq> set (msgs_in u)))"
  proof (cases "\<not> in_active e \<or> state e \<noteq> Active \<and> state e \<noteq> Waiting_for_delimiter")
    case True
    with e(2) show ?thesis by (auto simp: p_read_def split: if_splits)
  next
    case False
    with e(2) obtain i u where i: "inpipe e = Some i" "upipes (wnet w) i = Some u"
      by (auto simp: p_read_def bind_eq_Some_conv)
    obtain r1 cr u' where r1: "read_message u (p_credential e) = (r1, cr, u')" by (metis surj_pair)
    from read_message_stream [OF r1] obtain cs where
      cs: "msgs_in u = cs @ (case r1 of None \<Rightarrow> [] | Some m \<Rightarrow> [m]) @ msgs_in u'" by blast
    have "\<not> v_is_delimiter m" if "r1 = Some m" for m using d inbox_at [OF e(1) i] cs that by simp
    with False e(2) i r1 cs show ?thesis
      by (auto simp: p_read_def Let_def bind_eq_Some_conv put_upipe_def send_upipes split: option.splits if_splits)
  qed
  have v: "map_option (out_view w') (pends w' x) = map_option (out_view w) (pends w x)" for x
  proof (cases "pends w x")
    case (Some f)
    have "outpipe f \<noteq> inpipe e" if "inpipe e \<noteq> None" using c e(1) Some that unfolding calm_def by (metis option.exhaust)
    then have "Option.bind (outpipe f) (upipes n) = Option.bind (outpipe f) (upipes (wnet w))"
      using same by (cases "outpipe f") auto
    with Some same e(1,3) show ?thesis by (auto simp: out_view_def)
  qed (use e(1,3) in auto)
  have "inpipe g = Some i \<Longrightarrow> outpipe h \<noteq> Some i" if "pends w' x = Some g" "pends w' y = Some h" for x y g h i
    using c e(1,3) same that unfolding calm_def by (auto split: if_splits; metis)
  moreover have "\<not> v_is_delimiter m" if "m \<in> set (inbox x w')" for x m
  proof -
    have "set (inbox x w') \<subseteq> set (inbox x w)"
    proof (cases "n = wnet w")
      case True
      with e(1,3) same show ?thesis by (auto simp: inbox_def split: option.splits if_splits)
    next
      case False
      with same obtain i u u' where "inpipe e = Some i" "upipes (wnet w) i = Some u"
        "upipes n = (upipes (wnet w))(i \<mapsto> u')" "set (msgs_in u') \<subseteq> set (msgs_in u)" by blast
      from inbox_shrinks [OF e(1) _ this] same e(3) show ?thesis by simp
    qed
    with c that show ?thesis unfolding calm_def by blast
  qed
  ultimately show "calm w' \<and> (\<forall>x. map_option (out_view w') (pends w' x) = map_option (out_view w) (pends w x))"
    using ok v unfolding calm_def by blast
qed

lemma sendpipe_outward: "lb_sendpipe w_write w_rollback w_flush m l w = Some (r, l', w') \<Longrightarrow> outward w w'"
  by (rule lb_sendpipe_keeps [where R = outward, OF outward_refl outward_trans write_outward rollback_outward flush_outward])

lemma recvpipe_inward: "fq_recvpipe w_read q w = Some (r, q', w') \<Longrightarrow> inward w w'"
  unfolding fq_recvpipe_def by (rule fq_loop_keeps [where R = inward, OF inward_refl inward_trans read_inward])

lemma fq_drain_idle: "fq_drain q w = Some (ms, q', w') \<Longrightarrow> fq_ready q w \<Longrightarrow> \<not> fq_more q'"
proof (induction q w arbitrary: ms rule: fq_drain.induct)
  case (1 q w)
  from fq_ready_step [OF 1(3)] obtain r q1 w1 where
    r: "fq_recvpipe w_read q w = Some (r, q1, w1)" "fq_ready q1 w1" "r = None \<longrightarrow> \<not> fq_more q1" by fastforce
  show ?case
  proof (cases r)
    case None
    with r 1(2) show ?thesis by (simp add: fq_drain.simps [of q w])
  next
    case (Some m)
    with 1(2) r(1) obtain ms' where "fq_drain q1 w1 = Some (ms', q', w')"
      by (auto simp: fq_drain.simps [of q w] split: option.splits)
    from 1(1) [OF r(1) refl Some refl this r(2)] show ?thesis .
  qed
qed

lemma drain_inward: "fq_drain q w = Some (ms, q', w') \<Longrightarrow> inward w w'"
  by (rule fq_drain_keeps [where R = inward, OF inward_refl inward_trans read_inward])

lemma check_write_outward:
  assumes "w_check_write p w = Some (b, w')"
  shows "outward w w'"
proof -
  from assms obtain e where e: "pends w p = Some e" "w' = w\<lparr>pends := (pends w)(p \<mapsto> snd (p_check_write e))\<rparr>"
    unfolding w_check_write_def by (cases "pends w p") (auto split: prod.splits)
  have ok: "world_ok w'" if "calm w"
  proof -
    have "can_write p w" using that e(1) by (simp add: can_write_def calm_def)
    from lb_pipes.check_ok [OF this] assms show ?thesis using \<open>can_write p w\<close> by (auto simp: can_write_def)
  qed
  have "snd (p_check_write e) = e \<or> snd (p_check_write e) = e\<lparr>out_active := False\<rparr>"
    by (auto simp: p_check_write_def Let_def)
  with e show ?thesis by (intro outwardI [OF e(1) ok, of "snd (p_check_write e)"]) auto
qed

subsection \<open>Unfinished messages\<close>

text \<open>
  The parts in an outbound pipe, those of complete messages apart from those of the message
  that is being written; \<open>None\<close> for a conflating pipe.
\<close>

fun up_parts :: "upipe \<Rightarrow> (vmsg list \<times> vmsg list) option" where
  "up_parts (Normal l) = Some (ready l @ unflushed l, partial l)"
| "up_parts (Conflated x) = None"

fun add_part :: "vmsg \<Rightarrow> vmsg list \<times> vmsg list \<Rightarrow> vmsg list \<times> vmsg list" where
  "add_part m (d, q) = (if has_more m then (d, q @ [m]) else (d @ q @ [m], []))"

definition w_parts :: "nat \<Rightarrow> world \<Rightarrow> (vmsg list \<times> vmsg list) option" where
  "w_parts p w = do { e \<leftarrow> pends w p; a \<leftarrow> outpipe e; u \<leftarrow> upipes (wnet w) a; up_parts u }"

lemma content_parts: "w_content p w = (case w_parts p w of None \<Rightarrow> (True, []) | Some (d, q) \<Rightarrow> (False, d @ q))"
proof -
  have "up_content u = (case up_parts u of None \<Rightarrow> (True, []) | Some (d, q) \<Rightarrow> (False, d @ q))" for u by (cases u) auto
  then show ?thesis by (auto simp: w_content_def w_parts_def split: option.splits Option.bind_splits)
qed

lemma up_parts_write [simp]: "up_parts (up_write b m (has_more m) u) = map_option (add_part m) (up_parts u)"
  by (cases u) (auto simp: lp_write_def)

lemma up_parts_flush [simp]: "up_parts (snd (up_flush u)) = up_parts u"
  by (cases u) (auto simp: lp_flush_def)

lemma up_parts_rollback: "uwf u \<Longrightarrow> rollback_upipe u = Some u' \<Longrightarrow> up_parts u' = map_option (\<lambda>(d, q). (d, [])) (up_parts u)"
  by (cases u) (auto simp: rollback_loop_ok)

text \<open>A change of one outbound queue.\<close>

lemma w_parts_step:
  assumes "world_ok w" "pends w p = Some e" "outpipe e' = outpipe e" "outpipe e = Some a" "upipes (wnet w) a = Some u"
    "upipes n = (upipes (wnet w))(a \<mapsto> u')"
  shows "w_parts x (w\<lparr>pends := (pends w)(p \<mapsto> e'), wnet := n\<rparr>) = (if x = p then up_parts u' else w_parts x w)"
proof (cases "x = p")
  case True
  with assms show ?thesis by (simp add: w_parts_def)
next
  case False
  have "outpipe f \<noteq> Some a" if "pends w x = Some f" for f
    using assms(1,2,4) that False unfolding world_ok_def by (metis option.distinct(1))
  with False assms(6) show ?thesis by (cases "pends w x") (auto simp: w_parts_def split: Option.bind_splits)
qed

lemma w_parts_same:
  assumes "map_option outpipe (pends w' x) = map_option outpipe (pends w x)" "upipes (wnet w') = upipes (wnet w)"
  shows "w_parts x w' = w_parts x w"
proof (cases "pends w x")
  case None
  with assms(1) show ?thesis by (simp add: w_parts_def)
next
  case (Some e)
  with assms(1) obtain e' where "pends w' x = Some e'" "outpipe e' = outpipe e" by auto
  with Some assms(2) show ?thesis by (simp add: w_parts_def)
qed

lemma write_parts:
  assumes "world_ok w" "w_write p m w = Some (b, w')"
  shows "w_parts x w' = (if x = p \<and> b then map_option (add_part m) (w_parts x w) else w_parts x w)"
proof -
  from assms(2) obtain e e' n where e: "pends w p = Some e" "p_write m e (wnet w) = Some (b, e', n)"
    "w' = w\<lparr>pends := (pends w)(p \<mapsto> e'), wnet := n\<rparr>" unfolding w_write_def by (auto simp: bind_eq_Some_conv)
  note ef = write_effect [OF e(2)]
  show ?thesis
  proof (cases b)
    case True
    with ef obtain a u where a: "outpipe e = Some a" "upipes (wnet w) a = Some u"
      "upipes n = (upipes (wnet w))(a \<mapsto> up_write (contended (wnet w)) m (has_more m) u)" by auto
    have "w_parts p w = up_parts u" using e(1) a by (simp add: w_parts_def)
    with w_parts_step [OF assms(1) e(1) _ a, of e' x] ef True e(3) show ?thesis by simp
  next
    case False
    with ef e show ?thesis by (simp, intro w_parts_same) auto
  qed
qed

lemma flush_parts:
  assumes "world_ok w" "w_flush p w = Some w'"
  shows "w_parts x w' = w_parts x w"
proof -
  from assms(2) obtain e n where e: "pends w p = Some e" "p_flush e (wnet w) = Some n" "w' = w\<lparr>wnet := n\<rparr>"
    unfolding w_flush_def by (auto simp: bind_eq_Some_conv)
  from flush_effect [OF e(2)] consider "upipes n = upipes (wnet w)"
    | a u where "outpipe e = Some a" "upipes (wnet w) a = Some u" "upipes n = (upipes (wnet w))(a \<mapsto> snd (up_flush u))"
    by blast
  then show ?thesis
  proof cases
    case 1
    with e(3) show ?thesis by (intro w_parts_same) simp_all
  next
    case 2
    have "w_parts p w = up_parts u" "w\<lparr>pends := (pends w)(p \<mapsto> e), wnet := n\<rparr> = w'"
      using e(1,3) 2 by (simp_all add: w_parts_def fun_upd_idem)
    with w_parts_step [OF assms(1) e(1) refl 2, of x] show ?thesis by simp
  qed
qed

lemma rollback_parts:
  assumes "world_ok w" "w_rollback p w = Some w'"
  shows "w_parts x w' = (if x = p then map_option (\<lambda>(d, q). (d, [])) (w_parts x w) else w_parts x w)"
proof -
  from assms(2) obtain e n where e: "pends w p = Some e" "p_rollback e (wnet w) = Some n" "w' = w\<lparr>wnet := n\<rparr>"
    unfolding w_rollback_def by (auto simp: bind_eq_Some_conv)
  show ?thesis
  proof (cases "outpipe e")
    case None
    with e have "w' = w" "w_parts p w = None" by (auto simp: p_rollback_def w_parts_def)
    then show ?thesis by simp
  next
    case (Some a)
    with e(2) obtain u u' where u: "upipes (wnet w) a = Some u" "rollback_upipe u = Some u'" "n = put_upipe a u' (wnet w)"
      by (auto simp: p_rollback_def bind_eq_Some_conv)
    have "uwf u" using world_end [OF assms(1) e(1)] u(1) by (auto simp: ready_end_def)
    moreover have "w_parts p w = up_parts u" "w\<lparr>pends := (pends w)(p \<mapsto> e), wnet := n\<rparr> = w'"
      using e(1,3) u Some by (simp_all add: w_parts_def fun_upd_idem)
    ultimately show ?thesis
      using w_parts_step [OF assms(1) e(1) refl Some u(1), of n u' x] up_parts_rollback [OF _ u(2)] u(3) by simp
  qed
qed

text \<open>What one part through the load balancer does to the queues: it is added, or the message is taken back.\<close>

definition forget_part :: "vmsg list \<times> vmsg list \<Rightarrow> vmsg list \<times> vmsg list" where
  "forget_part = (\<lambda>(d, q). (d, []))"

definition parts_after :: "lb \<Rightarrow> send_result \<Rightarrow> vmsg \<Rightarrow> nat \<Rightarrow> vmsg list \<times> vmsg list \<Rightarrow> vmsg list \<times> vmsg list" where
  "parts_after l r m x = (if r = Sent x then add_part m
     else if r = Again \<and> lb_more l \<and> x = items (lb_pipes l) ! lb_current l then forget_part else id)"

lemma lb_loop_parts:
  "lb_loop w_write w_rollback m n l w = Some (r, l', w') \<Longrightarrow> world_ok w \<Longrightarrow> (lb_more l \<longrightarrow> 0 < n) \<Longrightarrow>
    w_parts x w' = map_option (parts_after l r m x) (w_parts x w)"
proof (induction n arbitrary: l w)
  case 0
  then show ?case by (auto simp: parts_after_def option.map_id option.map_ident)
next
  case (Suc n)
  from Suc.prems(1) obtain p b w1 where p: "table_at (items (lb_pipes l)) (lb_current l) = Some p"
    "w_write p m w = Some (b, w1)" by (auto simp: bind_eq_Some_conv)
  then have pc: "p = items (lb_pipes l) ! lb_current l" by (auto simp: table_at_def split: if_splits)
  note wp = write_parts [OF Suc.prems(2) p(2)]
  have ok: "world_ok w1" using write_shown [OF p(2)] Suc.prems(2) by (auto simp: shown_def)
  show ?case
  proof (cases b)
    case True
    with Suc.prems(1) p have "r = Sent p" "w' = w1" by auto
    with wp True show ?thesis by (simp add: parts_after_def option.map_id option.map_ident)
  next
    case nb: False
    show ?thesis
    proof (cases "lb_more l")
      case True
      with Suc.prems(1) p nb have "r = Again" "w_rollback p w1 = Some w'" by (auto simp: bind_eq_Some_conv)
      with rollback_parts [OF ok, of p w' x] wp nb True pc show ?thesis
        by (simp add: parts_after_def forget_part_def option.map_id option.map_ident)
    next
      case False
      with Suc.prems(1) p nb obtain l1 where l1: "lb_loop w_write w_rollback m n l1 w1 = Some (r, l', w')" "\<not> lb_more l1"
        by (auto simp: bind_eq_Some_conv Let_def split: if_splits)
      from Suc.IH [OF l1(1) ok] l1(2) wp nb False show ?thesis by (simp add: parts_after_def option.map_id option.map_ident)
    qed
  qed
qed

lemma lb_loop_undropped: "lb_loop wr rb m n l w = Some (r, l', w') \<Longrightarrow> r \<noteq> Dropped"
  by (induction n arbitrary: l w) (fastforce simp: bind_eq_Some_conv Let_def split: if_splits)+

lemma lb_sendpipe_parts:
  assumes "lb_sendpipe w_write w_rollback w_flush m l w = Some (r, l', w')" "world_ok w" "lb_more l \<longrightarrow> 0 < lb_active l"
  shows "w_parts x w' = map_option (parts_after l r m x) (w_parts x w)"
proof (cases "lb_dropping l")
  case True
  with assms(1) show ?thesis by (auto simp: lb_sendpipe_def parts_after_def option.map_id option.map_ident)
next
  case False
  with assms(1) obtain r1 l1 w1 where lp: "lb_loop w_write w_rollback m (lb_active l) l w = Some (r1, l1, w1)"
    by (auto simp: lb_sendpipe_def bind_eq_Some_conv)
  note co = lb_loop_parts [OF lp assms(2,3)]
  have ok: "world_ok w1" using lb_loop_shown [OF lp] assms(2) by (auto simp: shown_def)
  have "r1 \<noteq> Dropped" by (rule lb_loop_undropped [OF lp])
  with assms(1) False lp consider (flush) p where "r1 = Sent p" "r = r1" "w_flush p w1 = Some w'" | (none) "w' = w1" "r = r1"
    by (auto simp: lb_sendpipe_def bind_eq_Some_conv Let_def split: send_result.splits if_splits)
  then show ?thesis
  proof cases
    case flush
    with flush_parts [OF ok flush(3), of x] co show ?thesis by simp
  qed (use co in simp)
qed

text \<open>
  C20: Load balancing on real pipes never aborts. A part goes to an active pipe with room, inside a message
  to the current pipe, which took the part before (unless \<open>pipe_terminated\<close> moved it: \<open>lb_splits_message\<close>); it is
  added there and nothing else is changed. \<open>EAGAIN\<close> comes only when no active pipe has room,
  or when the current pipe inside a message has none; then the parts of that message, and nothing else, are
  taken back. After the last part the message is flushed: no complete message is left hidden from
  the peers which was not so before. When the pipe of the message has ended (\<open>lb_dropping\<close>), the part is
  dropped, and so are all up to the last one of its message.
\<close>

theorem lb_send_correct:
  assumes "lb_inv l" "lb_more l \<and> \<not> lb_dropping l \<longrightarrow> 0 < lb_active l" "\<forall>x\<in>set (lb_actives l). can_write x w"
  shows "\<exists>r l' w'. lb_sendpipe w_write w_rollback w_flush m l w = Some (r, l', w') \<and> lb_inv l' \<and>
    set (items (lb_pipes l')) = set (items (lb_pipes l)) \<and>
    (\<forall>x\<in>set (lb_actives l) - set (lb_actives l'). \<not> w_room x w) \<and>
    (r = Dropped \<longleftrightarrow> lb_dropping l) \<and>
    (case r of
       Sent p \<Rightarrow> p \<in> set (lb_actives l') \<and> w_room p w \<and> lb_more l' = has_more m \<and> \<not> lb_dropping l' \<and>
         (lb_more l \<longrightarrow> p = items (lb_pipes l) ! lb_current l) \<and>
         (has_more m \<longrightarrow> p = items (lb_pipes l') ! lb_current l' \<and> 0 < lb_active l') \<and>
         (\<forall>x. w_parts x w' = (if x = p then map_option (add_part m) (w_parts x w) else w_parts x w))
     | Again \<Rightarrow> \<not> lb_more l' \<and> (if lb_more l then \<not> w_room (items (lb_pipes l) ! lb_current l) w
         else (\<forall>x\<in>set (lb_actives l). \<not> w_room x w)) \<and>
         (\<forall>x. w_parts x w' = (if lb_more l \<and> x = items (lb_pipes l) ! lb_current l
            then map_option (\<lambda>(d, q). (d, [])) (w_parts x w) else w_parts x w))
     | Dropped \<Rightarrow> w' = w \<and> lb_more l' = has_more m \<and> lb_dropping l' = has_more m) \<and>
    (\<forall>x. w_hidden x w' \<longrightarrow> w_hidden x w)"
proof (cases "lb_dropping l")
  case True
  let ?l = "l\<lparr>lb_more := has_more m, lb_dropping := has_more m\<rparr>"
  have "lb_inv ?l" "lb_actives ?l = lb_actives l" using assms(1) by (simp_all add: lb_inv_def lb_actives_def)
  with True show ?thesis by (intro exI [of _ Dropped] exI [of _ ?l] exI [of _ w]) (simp add: lb_sendpipe_def)
next
  case False
  with assms(2) have more: "lb_more l \<longrightarrow> 0 < lb_active l" by simp
  from lb_pipes.lb_sendpipe_ok [OF assms(1) False more assms(3), of m] obtain r l' w' where
    r: "lb_sendpipe w_write w_rollback w_flush m l w = Some (r, l', w')" "lb_inv l'"
      "set (items (lb_pipes l')) = set (items (lb_pipes l))" "\<forall>x\<in>set (lb_actives l) - set (lb_actives l'). \<not> w_room x w" and
    cs: "case r of
       Sent p \<Rightarrow> p \<in> set (lb_actives l') \<and> w_room p w \<and> lb_more l' = has_more m \<and> \<not> lb_dropping l' \<and>
         (lb_more l \<longrightarrow> p = items (lb_pipes l) ! lb_current l) \<and>
         (has_more m \<longrightarrow> p = items (lb_pipes l') ! lb_current l' \<and> 0 < lb_active l')
     | Again \<Rightarrow> \<not> lb_more l' \<and> (if lb_more l then \<not> w_room (items (lb_pipes l) ! lb_current l) w
         else (\<forall>x\<in>set (lb_actives l). \<not> w_room x w))
     | Dropped \<Rightarrow> False" by (elim exE conjE) (rule that)
  have fin: "(\<forall>x. w_parts x w' = map_option (parts_after l r m x) (w_parts x w)) \<and> (\<forall>x. w_hidden x w' \<longrightarrow> w_hidden x w)"
  proof (cases "lb_active l")
    case 0
    with r(1) False have "w' = w" "r = Again" by (auto simp: lb_sendpipe_def)
    with more 0 show ?thesis by (simp add: parts_after_def option.map_id option.map_ident)
  next
    case (Suc n)
    with assms(1,3) have "world_ok w" by (auto simp: lb_actives_def lb_inv_def can_write_def take_Suc_conv_app_nth)
    with lb_sendpipe_parts [OF r(1) this more] sendpipe_shown [OF r(1)] show ?thesis by (auto simp: shown_def)
  qed
  then have "\<forall>x. w_parts x w' = map_option (parts_after l r m x) (w_parts x w)" "\<forall>x. w_hidden x w' \<longrightarrow> w_hidden x w" by blast+
  with r cs False show ?thesis
    by (intro exI [of _ r] exI [of _ l'] exI [of _ w'])
      (cases r; auto simp: parts_after_def forget_part_def option.map_id option.map_ident)
qed

theorem lb_send_correct_witness:
  "\<exists>r l' w'. lb_sendpipe w_write w_rollback w_flush (plain type_vsm 0 [1]) lb3 world3 = Some (r, l', w') \<and> lb_inv l' \<and> r \<noteq> Dropped"
  using lb_send_correct [of lb3 world3 "plain type_vsm 0 [1]"] lb3_inv can_write3 by auto

subsection \<open>The three pipes\<close>

lemma calm3: "calm world3"
proof -
  have "outpipe f \<noteq> Some i" if "pends world3 p = Some e" "pends world3 q = Some f" "inpipe e = Some i" for p q e f i
    using that by (auto simp: pends3 end_of_def new_pipe_def split: if_splits)
  then show ?thesis by (auto simp: calm_def world3_ok inbox3)
qed

lemma fq3_ready: "fq_ready fq3 world3"
  using fq3_inv by (auto simp: fq_ready_def can_read_def world3_ok msgs_ok_def inbox3 pends3 whole_world_def)

lemma calm_incoming:
  assumes "calm w" "upipes (wnet w) (10 + k) \<noteq> None" "pends w k = Some e" "\<forall>m\<in>set ms. \<not> v_is_delimiter m"
  shows "calm (incoming k ms w)"
proof -
  have "msgs_ok w" using assms(1) by (auto simp: calm_def msgs_ok_def)
  with incoming_ok(1) [of w k e ms] assms have "world_ok (incoming k ms w)" by (auto simp: calm_def)
  moreover have "pends (incoming k ms w) = pends w" by (simp add: incoming_def)
  ultimately show ?thesis using assms(1,4) by (auto simp: calm_def inbox_incoming)
qed

end
