(* ===== verification/Xpub.thy ===== *)
theory Xpub
  imports Multi_Trie Socket_Sends
begin

text \<open>
  \<open>xpub_t\<close> of \<open>src/zmqsrc/src/xpub.cpp\<close> (and \<open>pub_t\<close> of \<open>pub.cpp\<close>, which differs in its type):
  the subscriptions of the peers are kept in multi-tries, a message goes through the
  distributor to the pipes whose subscriptions match. Pipes and their queues are those of
  \<open>Socket_Pipes\<close>. \<open>pending_pipes\<close> holds the null pointer as \<open>None\<close>; metadata of messages is
  not represented. The properties connect the trie with the distributor: who is subscribed
  gets the message.
\<close>

datatype pub_type = ZMQ_PUB | ZMQ_XPUB

record xpub =
  x_type :: pub_type
  x_subs :: mtrie
  x_manual_subs :: mtrie
  x_dist :: dist
  verbose_subs :: bool
  verbose_unsubs :: bool
  x_more :: bool
  lossy :: bool
  manual :: bool
  last_pipe :: "nat option"
  pending_pipes :: "nat option list"
  welcome_msg :: "byte list"
  pending_data :: "byte list list"
  pending_flags :: "byte list"
  invert_matching :: bool

definition new_xpub :: "pub_type \<Rightarrow> bool \<Rightarrow> xpub" where
  "new_xpub t invert = \<lparr>x_type = t, x_subs = new_mtrie, x_manual_subs = new_mtrie, x_dist = new_dist,
     verbose_subs = False, verbose_unsubs = False, x_more = False, lossy = True, manual = False,
     last_pipe = None, pending_pipes = [], welcome_msg = [], pending_data = [], pending_flags = [],
     invert_matching = invert\<rparr>"

definition x_pend :: "byte list \<Rightarrow> byte \<Rightarrow> xpub \<Rightarrow> xpub" where
  "x_pend d f x = x\<lparr>pending_data := pending_data x @ [d], pending_flags := pending_flags x @ [f]\<rparr>"

subsection \<open>Reading subscriptions\<close>

text \<open>What the loop of \<open>xread_activated\<close> does with one message (lines 89 to 138).\<close>

definition x_process :: "nat \<Rightarrow> vmsg \<Rightarrow> xpub \<Rightarrow> xpub option" where
  "x_process p sub x =
     (let data = vdata sub in
      if data \<noteq> [] \<and> (hd data = 0 \<or> hd data = 1) then
        if manual x then do {
          (_, t) \<leftarrow> (if hd data = 0 then mtrie_rm_prefix (x_manual_subs x) (tl data) p
                    else mtrie_add (x_manual_subs x) (tl data) p);
          let x = x\<lparr>x_manual_subs := t, pending_pipes := pending_pipes x @ [Some p]\<rparr>;
          Some (x_pend data 0 x) }
        else do {
          (unique, t) \<leftarrow> (if hd data = 0 then mtrie_rm_prefix (x_subs x) (tl data) p
                    else mtrie_add (x_subs x) (tl data) p);
          let x = x\<lparr>x_subs := t\<rparr>;
          Some (if x_type x = ZMQ_XPUB \<and> (unique \<or> hd data = 1 \<and> verbose_subs x \<or>
                  hd data = 0 \<and> verbose_unsubs x \<and> verbose_subs x)
                then x_pend data 0 x else x) }
      else Some (x_pend data (vflags sub) x))"

function x_read_activated :: "nat \<Rightarrow> xpub \<Rightarrow> world \<Rightarrow> (xpub \<times> world) option" where
  "x_read_activated p x w =
     (case w_read p w of
        None \<Rightarrow> None
      | Some (None, w') \<Rightarrow> Some (x, w')
      | Some (Some sub, w') \<Rightarrow> (case x_process p sub x of None \<Rightarrow> None | Some x' \<Rightarrow> x_read_activated p x' w'))"
  by pat_completeness auto
termination
  by (relation "measure (\<lambda>(p, x, w). unread p w)") (auto dest: w_read_unread(2))

declare x_read_activated.simps [simp del]

definition x_attach_pipe :: "nat \<Rightarrow> bool \<Rightarrow> xpub \<Rightarrow> world \<Rightarrow> (xpub \<times> world) option" where
  "x_attach_pipe p subscribe_to_all x w = do {
     d \<leftarrow> dist_attach p (x_dist x);
     let x = x\<lparr>x_dist := d\<rparr>;
     x \<leftarrow> (if subscribe_to_all then do { (_, t) \<leftarrow> mtrie_add (x_subs x) [] p; Some (x\<lparr>x_subs := t\<rparr>) } else Some x);
     w \<leftarrow> (if length (welcome_msg x) > 0 then do {
            (_, w) \<leftarrow> w_write p (sized_msg (welcome_msg x)) w;
            w_flush p w }
          else Some w);
     x_read_activated p x w }"

definition x_write_activated :: "nat \<Rightarrow> xpub \<Rightarrow> xpub option" where
  "x_write_activated p x = do { d \<leftarrow> dist_activated p (x_dist x); Some (x\<lparr>x_dist := d\<rparr>) }"

subsection \<open>Options and termination\<close>

datatype pub_option = XPUB_VERBOSE | XPUB_VERBOSER | XPUB_NODROP | XPUB_MANUAL | SUBSCRIBE | UNSUBSCRIBE
  | XPUB_WELCOME_MSG | Other_option

text \<open>
  \<open>val\<close> is the \<open>int\<close> that \<open>optval\<close> holds when it has four bytes. The first component of the
  result is false for \<open>EINVAL\<close>.
\<close>

definition x_setsockopt :: "pub_option \<Rightarrow> byte list \<Rightarrow> int \<Rightarrow> xpub \<Rightarrow> (bool \<times> xpub) option" where
  "x_setsockopt opt optval val x =
     (if opt \<in> {XPUB_VERBOSE, XPUB_VERBOSER, XPUB_NODROP, XPUB_MANUAL} then
        if length optval \<noteq> 4 \<or> val < 0 then Some (False, x)
        else Some (True,
          if opt = XPUB_VERBOSE then x\<lparr>verbose_subs := (val \<noteq> 0), verbose_unsubs := False\<rparr>
          else if opt = XPUB_VERBOSER then x\<lparr>verbose_subs := (val \<noteq> 0), verbose_unsubs := (val \<noteq> 0)\<rparr>
          else if opt = XPUB_NODROP then x\<lparr>lossy := (val = 0)\<rparr>
          else x\<lparr>manual := (val \<noteq> 0)\<rparr>)
      else if opt = SUBSCRIBE \<and> manual x then
        (case last_pipe x of None \<Rightarrow> Some (True, x)
         | Some p \<Rightarrow> do { (_, t) \<leftarrow> mtrie_add (x_subs x) optval p; Some (True, x\<lparr>x_subs := t\<rparr>) })
      else if opt = UNSUBSCRIBE \<and> manual x then
        (case last_pipe x of None \<Rightarrow> Some (True, x)
         | Some p \<Rightarrow> do { (_, t) \<leftarrow> mtrie_rm_prefix (x_subs x) optval p; Some (True, x\<lparr>x_subs := t\<rparr>) })
      else if opt = XPUB_WELCOME_MSG then Some (True, x\<lparr>welcome_msg := optval\<rparr>)
      else Some (False, x))"

definition send_unsubscription :: "byte list \<Rightarrow> xpub \<Rightarrow> xpub" where
  "send_unsubscription data x =
     (if x_type x \<noteq> ZMQ_PUB then
        let x = x_pend (0 # data) 0 x in
        if manual x then x\<lparr>last_pipe := None, pending_pipes := pending_pipes x @ [None]\<rparr> else x
      else x)"

definition x_pipe_terminated :: "nat \<Rightarrow> xpub \<Rightarrow> xpub option" where
  "x_pipe_terminated p x = do {
     x \<leftarrow> (if manual x then do {
            (calls, t) \<leftarrow> mtrie_rm (x_manual_subs x) p False;
            Some (fold send_unsubscription calls (x\<lparr>x_manual_subs := t\<rparr>)) }
          else do {
            (calls, t) \<leftarrow> mtrie_rm (x_subs x) p (\<not> verbose_unsubs x);
            Some (fold send_unsubscription calls (x\<lparr>x_subs := t\<rparr>)) });
     d \<leftarrow> dist_pipe_terminated p (x_dist x);
     Some (x\<lparr>x_dist := d\<rparr>) }"

subsection \<open>Sending and receiving\<close>

text \<open>\<open>mark_as_matching\<close> for every pipe that the trie signals.\<close>

primrec mark_matching :: "nat list \<Rightarrow> dist \<Rightarrow> dist option" where
  "mark_matching [] d = Some d"
| "mark_matching (p # ps) d = do { d \<leftarrow> dist_match p d; mark_matching ps d }"

text \<open>\<open>check_hwm\<close> of a pipe; every pipe of the distributor has an end.\<close>

definition w_check_hwm :: "world \<Rightarrow> nat \<Rightarrow> bool" where
  "w_check_hwm w p = (case pends w p of None \<Rightarrow> True | Some e \<Rightarrow> p_check_hwm e)"

text \<open>The first component of the result is false for \<open>EAGAIN\<close>.\<close>

definition x_send :: "vmsg \<Rightarrow> xpub \<Rightarrow> world \<Rightarrow> (bool \<times> xpub \<times> world) option" where
  "x_send m x w = do {
     let msg_more = has_more m;
     x \<leftarrow> (if \<not> x_more x then do {
            ps \<leftarrow> mtrie_match (x_subs x) (vdata m);
            d \<leftarrow> mark_matching ps (x_dist x);
            d \<leftarrow> (if invert_matching x then dist_reverse_match d else Some d);
            Some (x\<lparr>x_dist := d\<rparr>) }
          else Some x);
     if lossy x \<or> dist_check_hwm (w_check_hwm w) (x_dist x) then do {
       (d, w) \<leftarrow> send_to_matching w_write w_flush m (x_dist x) w;
       let d = (if \<not> msg_more then dist_unmatch d else d);
       Some (True, x\<lparr>x_dist := d, x_more := msg_more\<rparr>, w) }
     else Some (False, x, w) }"

definition x_has_out :: "xpub \<Rightarrow> bool" where
  "x_has_out x = dist_has_out (x_dist x)"

text \<open>No message is \<open>EAGAIN\<close>.\<close>

definition x_recv :: "xpub \<Rightarrow> (vmsg option \<times> xpub) option" where
  "x_recv x =
     (if pending_data x = [] then Some (None, x)
      else
        let x = (if manual x \<and> pending_pipes x \<noteq> []
              then x\<lparr>last_pipe := hd (pending_pipes x), pending_pipes := tl (pending_pipes x)\<rparr> else x) in
        do { f \<leftarrow> table_at (pending_flags x) 0;
          Some (Some ((sized_msg (hd (pending_data x)))\<lparr>vflags := f\<rparr>),
            x\<lparr>pending_data := tl (pending_data x), pending_flags := tl (pending_flags x)\<rparr>) })"

definition x_has_in :: "xpub \<Rightarrow> bool" where
  "x_has_in x \<longleftrightarrow> pending_data x \<noteq> []"

subsection \<open>The PUB socket\<close>

definition w_set_nodelay :: "nat \<Rightarrow> world \<Rightarrow> world option" where
  "w_set_nodelay p w = do { e \<leftarrow> pends w p; Some (w\<lparr>pends := (pends w)(p \<mapsto> p_set_nodelay e)\<rparr>) }"

definition pub_attach_pipe :: "nat \<Rightarrow> bool \<Rightarrow> xpub \<Rightarrow> world \<Rightarrow> (xpub \<times> world) option" where
  "pub_attach_pipe p subscribe_to_all x w = do {
     w \<leftarrow> w_set_nodelay p w;
     x_attach_pipe p subscribe_to_all x w }"

text \<open>\<open>ENOTSUP\<close> in every case.\<close>

definition pub_recv :: "xpub \<Rightarrow> vmsg option" where
  "pub_recv x = None"

definition pub_has_in :: "xpub \<Rightarrow> bool" where
  "pub_has_in x = False"

subsection \<open>Invariant\<close>

text \<open>
  Every subscribed pipe is attached, the two flags for a message in parts agree, and between
  messages no pipe is marked.
\<close>

definition xpub_inv :: "xpub \<Rightarrow> bool" where
  "xpub_inv x \<longleftrightarrow> mtrie_wf (x_subs x) \<and> mtrie_wf (x_manual_subs x) \<and> dist_inv (x_dist x) \<and>
     (\<forall>p. subs (x_subs x) p \<subseteq> attached (x_dist x)) \<and> (x_more x \<longleftrightarrow> d_more (x_dist x)) \<and>
     (\<not> x_more x \<longrightarrow> matching_set (x_dist x) = {}) \<and> length (pending_flags x) = length (pending_data x)"

text \<open>The pipes subscribed to some prefix of the data.\<close>

definition subscribers :: "mtrie \<Rightarrow> byte list \<Rightarrow> nat set" where
  "subscribers t data = (\<Union>k\<in>{..length data}. subs t (take k data))"

lemma match_subscribers:
  assumes "mtrie_wf t"
  obtains ps where "mtrie_match t data = Some ps" "set ps = subscribers t data"
proof -
  have "set (concat (map (\<lambda>k. sorted_list_of_set (subs t (take k data))) [0..<Suc (length data)])) = subscribers t data"
    using finite_subs [OF assms]
    by (simp add: subscribers_def atLeast0LessThan lessThan_Suc_atMost del: upt_Suc)
  with mtrie_match_ok [OF assms, of data] that show thesis by blast
qed

lemma mark_matching_ok:
  assumes "dist_inv d" "\<not> d_more d" "set ps \<subseteq> attached d"
  shows "\<exists>d'. mark_matching ps d = Some d' \<and> dist_inv d' \<and> attached d' = attached d \<and> d_more d' = d_more d \<and>
    eligible_set d' = eligible_set d \<and> matching_set d' = matching_set d \<union> (set ps \<inter> eligible_set d)"
  using assms
proof (induction ps arbitrary: d)
  case (Cons p ps)
  from dist_match_ok [OF Cons.prems(1) _ Cons.prems(2), of p] Cons.prems(3) obtain d1 where
    d1: "dist_match p d = Some d1" "dist_inv d1" "attached d1 = attached d" "d_more d1 = d_more d"
      "eligible_set d1 = eligible_set d"
      "matching_set d1 = (if p \<in> eligible_set d then insert p (matching_set d) else matching_set d)" by auto
  from Cons.IH [of d1] d1 Cons.prems obtain d2 where
    "mark_matching ps d1 = Some d2" "dist_inv d2" "attached d2 = attached d" "d_more d2 = d_more d"
    "eligible_set d2 = eligible_set d" "matching_set d2 = matching_set d1 \<union> (set ps \<inter> eligible_set d)" by auto
  with d1 show ?case by (intro exI [of _ d2]) auto
qed simp

text \<open>The pipes a message is meant for: chosen by its first part.\<close>

definition audience :: "vmsg \<Rightarrow> xpub \<Rightarrow> nat set" where
  "audience m x = (if x_more x then matching_set (x_dist x)
     else {p \<in> eligible_set (x_dist x). (p \<in> subscribers (x_subs x) (vdata m)) \<noteq> invert_matching x})"

lemma unmatch_sets [simp]: "matching_set (dist_unmatch d) = {}"
  by (simp add: matching_set_def dist_unmatch_def)

lemma matching_eligible: "dist_inv d \<Longrightarrow> matching_set d \<subseteq> eligible_set d \<and> eligible_set d \<subseteq> attached d"
  using set_take_subset_set_take [of "d_matching d" "d_eligible d" "items (d_pipes d)"]
  by (auto simp: dist_sets dist_inv_def dest: in_set_takeD)

lemma choose_audience:
  assumes "xpub_inv x" "\<not> x_more x"
  obtains ps d1 d2 where "mtrie_match (x_subs x) (vdata m) = Some ps" "mark_matching ps (x_dist x) = Some d1"
    "(if invert_matching x then dist_reverse_match d1 else Some d1) = Some d2"
    "dist_inv d2" "attached d2 = attached (x_dist x)" "\<not> d_more d2" "eligible_set d2 = eligible_set (x_dist x)"
    "matching_set d2 = audience m x"
proof -
  note inv = assms(1) [unfolded xpub_inv_def]
  from match_subscribers [of "x_subs x" "vdata m"] inv obtain ps where
    ps: "mtrie_match (x_subs x) (vdata m) = Some ps" "set ps = subscribers (x_subs x) (vdata m)" by blast
  from inv have "set ps \<subseteq> attached (x_dist x)" by (auto simp: ps(2) subscribers_def)
  from mark_matching_ok [OF _ _ this] inv assms(2) obtain d1 where
    d1: "mark_matching ps (x_dist x) = Some d1" "dist_inv d1" "attached d1 = attached (x_dist x)" "\<not> d_more d1"
      "eligible_set d1 = eligible_set (x_dist x)" "matching_set d1 = set ps \<inter> eligible_set (x_dist x)" by auto
  show thesis
  proof (cases "invert_matching x")
    case True
    from dist_reverse_ok [OF d1(2,4)] obtain d2 where
      "dist_reverse_match d1 = Some d2" "dist_inv d2" "d_more d2 = d_more d1" "attached d2 = attached d1"
      "eligible_set d2 = eligible_set d1" "matching_set d2 = eligible_set d1 - matching_set d1" by blast
    with True d1 ps assms(2) show thesis by (intro that [OF ps(1) d1(1), of d2]) (auto simp: audience_def)
  next
    case False
    with d1 ps assms(2) show thesis by (intro that [OF ps(1) d1(1), of d1]) (auto simp: audience_def)
  qed
qed

text \<open>Whether a send is accepted: a lossy socket drops instead of refusing.\<close>

definition x_accepts :: "vmsg \<Rightarrow> xpub \<Rightarrow> world \<Rightarrow> bool" where
  "x_accepts m x w \<longleftrightarrow> lossy x \<or> (\<forall>p\<in>audience m x. w_check_hwm w p)"

lemma choose_pipes:
  assumes "xpub_inv x"
  obtains d0 where "(if \<not> x_more x then do { ps \<leftarrow> mtrie_match (x_subs x) (vdata m); d \<leftarrow> mark_matching ps (x_dist x);
        d \<leftarrow> (if invert_matching x then dist_reverse_match d else Some d); Some (x\<lparr>x_dist := d\<rparr>) } else Some x) =
        Some (x\<lparr>x_dist := d0\<rparr>)"
      "dist_inv d0" "attached d0 = attached (x_dist x)" "matching_set d0 = audience m x"
      "lossy x \<or> dist_check_hwm (w_check_hwm w) d0 \<longleftrightarrow> x_accepts m x w"
proof -
  have acc: "lossy x \<or> dist_check_hwm (w_check_hwm w) d0 \<longleftrightarrow> x_accepts m x w" if "matching_set d0 = audience m x" for d0
    using that by (auto simp: x_accepts_def dist_check_hwm_def list_all_iff matching_set_def)
  show thesis
  proof (cases "x_more x")
    case True
    with that [of "x_dist x"] acc [of "x_dist x"] assms show thesis by (simp add: audience_def xpub_inv_def)
  next
    case False
    from choose_audience [OF assms False, of m] obtain ps d1 d2 where
      "mtrie_match (x_subs x) (vdata m) = Some ps" "mark_matching ps (x_dist x) = Some d1"
      "(if invert_matching x then dist_reverse_match d1 else Some d1) = Some d2"
      "dist_inv d2" "attached d2 = attached (x_dist x)" "matching_set d2 = audience m x" .
    with that [of d2] acc [of d2] False show thesis by simp
  qed
qed

text \<open>What a send does.\<close>

lemma x_send_ok:
  assumes inv: "xpub_inv x" and acc: "x_accepts m x w" and al: "\<forall>p\<in>attached (x_dist x). can_write p w"
  shows "\<exists>x' w'. x_send m x w = Some (True, x', w') \<and> xpub_inv x' \<and> x_subs x' = x_subs x \<and> x_more x' = has_more m \<and>
    attached (x_dist x') = attached (x_dist x) \<and> (\<forall>p\<in>attached (x_dist x). can_write p w') \<and>
    (\<forall>p\<in>attached (x_dist x). w_content p w' =
      (if p \<in> audience m x \<and> w_room p w then up_store m (w_content p w) else w_content p w)) \<and>
    (\<forall>p. w_hidden p w' \<longrightarrow> w_hidden p w) \<and>
    (has_more m \<longrightarrow> matching_set (x_dist x') = {p \<in> audience m x. w_room p w})"
proof -
  note inv' = inv [unfolded xpub_inv_def]
  obtain d0 where d0: "(if \<not> x_more x then do { ps \<leftarrow> mtrie_match (x_subs x) (vdata m); d \<leftarrow> mark_matching ps (x_dist x);
        d \<leftarrow> (if invert_matching x then dist_reverse_match d else Some d); Some (x\<lparr>x_dist := d\<rparr>) } else Some x) =
        Some (x\<lparr>x_dist := d0\<rparr>)"
      "dist_inv d0" "attached d0 = attached (x_dist x)" "matching_set d0 = audience m x"
      "lossy x \<or> dist_check_hwm (w_check_hwm w) d0 \<longleftrightarrow> x_accepts m x w"
    by (rule choose_pipes [OF inv])
  have sub: "audience m x \<subseteq> attached (x_dist x)" using matching_eligible [OF d0(2)] d0(3,4) by auto
  then have cw: "\<forall>p\<in>matching_set (d0). can_write p w" using al d0(4) by auto
  from lb_pipes.send_to_matching_ok [OF d0(2) this, of m] obtain d' w' where
    s: "send_to_matching w_write w_flush m d0 w = Some (d', w')" "dist_inv d'" "d_more d' = has_more m"
      "attached d' = attached (x_dist x)" "matching_set d' = audience m x - lb_pipes.refused (audience m x) w"
      "\<forall>p. can_write p w \<longrightarrow> can_write p w' \<and>
        w_content p w' = (if p \<in> audience m x \<and> w_room p w then up_store m (w_content p w) else w_content p w)"
    unfolding d0(3,4) by blast
  let ?d = "if \<not> has_more m then dist_unmatch d' else d'"
  let ?x = "x\<lparr>x_dist := ?d, x_more := has_more m\<rparr>"
  have d: "dist_inv ?d" "attached ?d = attached (x_dist x)" "d_more ?d = has_more m"
    "matching_set ?d = (if has_more m then matching_set d' else {})"
    using s(2-4) by (auto simp: dist_inv_def dist_unmatch_def dist_sets)
  have "x_send m x w = Some (True, ?x, w')"
    unfolding x_send_def Let_def d0(1) using acc d0(5) s(1) by auto
  moreover have "xpub_inv ?x" using inv' d by (simp add: xpub_inv_def)
  moreover have "\<forall>p. w_hidden p w' \<longrightarrow> w_hidden p w" using matching_visible [OF s(1) d0(2) cw] by blast
  ultimately show ?thesis using d s(5,6) al
    by (intro exI [of _ ?x] exI [of _ w']) (auto simp: lb_pipes.refused_def)
qed

lemma x_send_refused:
  assumes "xpub_inv x" "\<not> x_accepts m x w"
  shows "\<exists>x'. x_send m x w = Some (False, x', w) \<and> x_subs x' = x_subs x"
proof -
  obtain d0 where "(if \<not> x_more x then do { ps \<leftarrow> mtrie_match (x_subs x) (vdata m); d \<leftarrow> mark_matching ps (x_dist x);
        d \<leftarrow> (if invert_matching x then dist_reverse_match d else Some d); Some (x\<lparr>x_dist := d\<rparr>) } else Some x) =
        Some (x\<lparr>x_dist := d0\<rparr>)" "lossy x \<or> dist_check_hwm (w_check_hwm w) d0 \<longleftrightarrow> x_accepts m x w"
    by (rule choose_pipes [OF assms(1)])
  with assms(2) show ?thesis unfolding x_send_def Let_def by (intro exI [of _ "x\<lparr>x_dist := d0\<rparr>"]) auto
qed

subsection \<open>Subscriptions and the end of a pipe\<close>

text \<open>
  What a message from upstream does to the subscriptions, and whether it is passed on to the
  user: the first subscription to a prefix and the last unsubscription, or all of them in the
  verbose modes; everything else unchanged.
\<close>

definition is_sub :: "vmsg \<Rightarrow> bool" where "is_sub m \<longleftrightarrow> vdata m \<noteq> [] \<and> hd (vdata m) = 1"
definition is_unsub :: "vmsg \<Rightarrow> bool" where "is_unsub m \<longleftrightarrow> vdata m \<noteq> [] \<and> hd (vdata m) = 0"

definition subs_after :: "nat \<Rightarrow> vmsg \<Rightarrow> (byte list \<Rightarrow> nat set) \<Rightarrow> byte list \<Rightarrow> nat set" where
  "subs_after p m f = (let q = tl (vdata m) in
     if is_sub m then f(q := insert p (f q)) else if is_unsub m then f(q := f q - {p}) else f)"

definition passed_on :: "nat \<Rightarrow> vmsg \<Rightarrow> xpub \<Rightarrow> bool" where
  "passed_on p m x = (let s = subs (x_subs x) (tl (vdata m)) in
     if is_sub m then x_type x = ZMQ_XPUB \<and> (s = {} \<or> verbose_subs x)
     else if is_unsub m then x_type x = ZMQ_XPUB \<and> (s = {p} \<or> verbose_unsubs x \<and> verbose_subs x)
     else True)"

lemma x_process_ok:
  assumes "xpub_inv x" "\<not> manual x" "p \<in> attached (x_dist x)"
    "is_unsub m \<longrightarrow> p \<in> subs (x_subs x) (tl (vdata m))"
  shows "\<exists>x'. x_process p m x = Some x' \<and> xpub_inv x' \<and> x_dist x' = x_dist x \<and> manual x' = manual x \<and>
    subs (x_subs x') = subs_after p m (subs (x_subs x)) \<and>
    pending_data x' = pending_data x @ (if passed_on p m x then [vdata m] else [])"
proof -
  note inv = assms(1) [unfolded xpub_inv_def]
  consider (sub) "is_sub m" "\<not> is_unsub m" | (unsub) "is_unsub m" "\<not> is_sub m" | (user) "\<not> is_sub m" "\<not> is_unsub m"
    by (auto simp: is_sub_def is_unsub_def)
  then show ?thesis
  proof cases
    case sub
    from mtrie_add_ok [of "x_subs x" "tl (vdata m)" p] inv obtain t where
      t: "mtrie_add (x_subs x) (tl (vdata m)) p = Some (subs (x_subs x) (tl (vdata m)) = {}, t)" "mtrie_wf t"
        "subs t = (subs (x_subs x))(tl (vdata m) := insert p (subs (x_subs x) (tl (vdata m))))" by blast
    with sub assms(2,3) inv show ?thesis
      by (auto simp: x_process_def is_sub_def Let_def x_pend_def xpub_inv_def subs_after_def is_unsub_def passed_on_def)
  next
    case unsub
    from mtrie_rm_prefix_ok [of "x_subs x" p "tl (vdata m)"] inv assms(4) unsub obtain t where
      t: "mtrie_rm_prefix (x_subs x) (tl (vdata m)) p = Some (subs (x_subs x) (tl (vdata m)) = {p}, t)" "mtrie_wf t"
        "subs t = (subs (x_subs x))(tl (vdata m) := subs (x_subs x) (tl (vdata m)) - {p})" by blast
    with unsub assms(2,3) inv show ?thesis
      by (auto simp: x_process_def is_sub_def Let_def x_pend_def xpub_inv_def subs_after_def is_unsub_def passed_on_def)
  next
    case user
    with inv show ?thesis
      by (auto simp: x_process_def is_sub_def Let_def x_pend_def xpub_inv_def subs_after_def is_unsub_def passed_on_def)
  qed
qed

lemma fold_unsubscription:
  assumes "\<not> manual x"
  shows "fold send_unsubscription qs x = (if x_type x = ZMQ_PUB then x
    else x\<lparr>pending_data := pending_data x @ map ((#) 0) qs, pending_flags := pending_flags x @ map (\<lambda>_. 0) qs\<rparr>)"
  using assms
proof (induction qs arbitrary: x)
  case (Cons q qs)
  then show ?case by (cases "x_type x") (auto simp: send_unsubscription_def x_pend_def Let_def)
qed simp

lemma x_terminated_ok:
  assumes "xpub_inv x" "\<not> manual x" "p \<in> attached (x_dist x)"
  shows "\<exists>x' calls. x_pipe_terminated p x = Some x' \<and> xpub_inv x' \<and> manual x' = manual x \<and>
    attached (x_dist x') = attached (x_dist x) - {p} \<and> subs (x_subs x') = (\<lambda>q. subs (x_subs x) q - {p}) \<and>
    pending_data x' = pending_data x @ (if x_type x = ZMQ_PUB then [] else map ((#) 0) calls) \<and> distinct calls \<and>
    set calls = {q. p \<in> subs (x_subs x) q \<and> (\<not> verbose_unsubs x \<longrightarrow> subs (x_subs x) q = {p})}"
proof -
  note inv = assms(1) [unfolded xpub_inv_def]
  have "mtrie_wf (x_subs x)" using inv by simp
  from mtrie_rm_ok [OF this, of p "\<not> verbose_unsubs x"] obtain calls t where
    t: "mtrie_rm (x_subs x) p (\<not> verbose_unsubs x) = Some (calls, t)" "mtrie_wf t" "subs t = (\<lambda>q. subs (x_subs x) q - {p})"
      "distinct calls" "set calls = {q. p \<in> subs (x_subs x) q \<and> (\<not> verbose_unsubs x \<longrightarrow> subs (x_subs x) q = {p})}"
    by (elim exE conjE) (rule that)
  have "dist_inv (x_dist x)" using inv by simp
  from dist_terminated_ok [OF this assms(3)] obtain d where
    d: "dist_pipe_terminated p (x_dist x) = Some d" "dist_inv d" "d_more d = d_more (x_dist x)"
      "attached d = attached (x_dist x) - {p}" "matching_set d = matching_set (x_dist x) - {p}"
    by (elim exE conjE) (rule that)
  let ?x = "fold send_unsubscription calls (x\<lparr>x_subs := t\<rparr>)"
  have x: "x_dist ?x = x_dist x" "manual ?x = manual x" "x_subs ?x = t" "x_manual_subs ?x = x_manual_subs x"
    "x_more ?x = x_more x" "length (pending_flags ?x) = length (pending_data ?x)"
    "pending_data ?x = pending_data x @ (if x_type x = ZMQ_PUB then [] else map ((#) 0) calls)"
    using assms(2) inv by (simp_all add: fold_unsubscription)
  have r: "x_pipe_terminated p x = Some (?x\<lparr>x_dist := d\<rparr>)"
    using assms(2) t(1) d(1) x(1) by (simp add: x_pipe_terminated_def)
  have "xpub_inv (?x\<lparr>x_dist := d\<rparr>)"
    using inv t(2,3) d(2-5) x by (auto simp: xpub_inv_def)
  with r x t d show ?thesis by (intro exI [of _ "?x\<lparr>x_dist := d\<rparr>"] exI [of _ calls]) simp
qed

lemma x_attach_dist_ok:
  assumes "xpub_inv x" "p \<notin> attached (x_dist x)"
  shows "\<exists>d. dist_attach p (x_dist x) = Some d \<and> xpub_inv (x\<lparr>x_dist := d\<rparr>) \<and> attached d = insert p (attached (x_dist x))"
proof -
  note inv = assms(1) [unfolded xpub_inv_def]
  from dist_attach_ok [of "x_dist x" p] inv assms(2) obtain d where
    d: "dist_attach p (x_dist x) = Some d" "dist_inv d" "attached d = insert p (attached (x_dist x))"
      "d_more d = d_more (x_dist x)" "matching_set d = matching_set (x_dist x)" by blast
  then have "xpub_inv (x\<lparr>x_dist := d\<rparr>)" using inv by (simp add: xpub_inv_def subset_insertI2)
  with d show ?thesis by simp
qed

lemma x_activated_ok:
  assumes "xpub_inv x" "p \<in> attached (x_dist x)" "p \<notin> eligible_set (x_dist x)"
  shows "\<exists>x'. x_write_activated p x = Some x' \<and> xpub_inv x' \<and> x_subs x' = x_subs x \<and>
    eligible_set (x_dist x') = insert p (eligible_set (x_dist x))"
  using dist_activated_ok [of "x_dist x" p] assms by (auto simp: xpub_inv_def x_write_activated_def)

lemma new_xpub_inv: "xpub_inv (new_xpub ty invert)"
  by (simp add: xpub_inv_def new_xpub_def mtrie_wf_new dist_inv_new) (simp add: new_dist_def dist_sets)

text \<open>Three pipes, the first with a high watermark of one message, each with something sent by the peer.\<close>

definition three_peers :: "xpub \<Rightarrow> vmsg list \<Rightarrow> vmsg list \<Rightarrow> vmsg list \<Rightarrow> (xpub \<times> world) option" where
  "three_peers x a b c = do {
     let w = incoming 0 a (incoming 1 b (incoming 2 c world3));
     let w = w\<lparr>pends := (pends w)(0 \<mapsto> (end_of 0)\<lparr>hwm := 1\<rparr>)\<rparr>;
     (x, w) \<leftarrow> x_attach_pipe 0 False x w;
     (x, w) \<leftarrow> x_attach_pipe 1 False x w;
     x_attach_pipe 2 False x w }"

subsection \<open>Findings\<close>

text \<open>
  With \<open>ZMQ_XPUB_NODROP\<close>, a send that fails with \<open>EAGAIN\<close> leaves the pipes of its message
  marked, and \<open>xsend\<close> never unmarks them before it chooses the pipes of the next message: here
  pipe 1, subscribed to \<open>A\<close> only, gets the message \<open>B\<close>.
\<close>

theorem xpub_leaks_after_eagain:
  "do {
     (x, w) \<leftarrow> three_peers (new_xpub ZMQ_PUB False) [sized_msg [1, 65]] [sized_msg [1, 65]] [sized_msg [1, 66]];
     (_, x) \<leftarrow> x_setsockopt XPUB_NODROP [1, 0, 0, 0] 1 x;
     (r1, x, w) \<leftarrow> x_send (sized_msg [65]) x w;
     (r2, x, w) \<leftarrow> x_send (sized_msg [65]) x w;
     w \<leftarrow> w_process 0 (Activate_write 1) w;
     (r3, x, w) \<leftarrow> x_send (sized_msg [66]) x w;
     ps \<leftarrow> mtrie_match (x_subs x) [66];
     Some ([r1, r2, r3], ps, w_content 1 w) }
   = Some ([True, False, True], [2], (False, [sized_msg [65], sized_msg [66]]))"
  by code_simp

text \<open>
  In manual mode a user message is queued without an entry in \<open>pending_pipes\<close>, but its
  reception takes one: \<open>last_pipe\<close> is then the pipe of a later subscription. Here the user
  accepts the subscription \<open>B\<close> of pipe 1, and pipe 2 gets subscribed.
\<close>

theorem xpub_manual_wrong_pipe:
  "do {
     (_, x) \<leftarrow> x_setsockopt XPUB_MANUAL [1, 0, 0, 0] 1 (new_xpub ZMQ_XPUB False);
     (x, w) \<leftarrow> three_peers x [sized_msg [5]] [sized_msg [1, 66]] [sized_msg [1, 67]];
     (m1, x) \<leftarrow> x_recv x;
     (m2, x) \<leftarrow> x_recv x;
     (_, x) \<leftarrow> x_setsockopt SUBSCRIBE [66] 0 x;
     ps \<leftarrow> mtrie_match (x_subs x) [66];
     Some (map_option vdata m1, map_option vdata m2, ps) }
   = Some (Some [5], Some [1, 66], [2])"
  by code_simp

text \<open>
  In manual mode the end of a pipe removes it from the manual subscriptions only: the
  subscriptions that the user has accepted still hold the pipe, which is no longer attached
  (and is deleted), and the next matching message follows the dangling pointer.
\<close>

theorem xpub_manual_dangling:
  assumes "xpub_inv x" "manual x" "p \<in> attached (x_dist x)" "p \<in> subs (x_subs x) q"
  shows "\<exists>x'. x_pipe_terminated p x = Some x' \<and> p \<notin> attached (x_dist x') \<and> p \<in> subs (x_subs x') q"
proof -
  note inv = assms(1) [unfolded xpub_inv_def]
  have "mtrie_wf (x_manual_subs x)" using inv by simp
  from mtrie_rm_ok [OF this, of p False] obtain calls t where
    t: "mtrie_rm (x_manual_subs x) p False = Some (calls, t)" by (elim exE conjE) (rule that)
  have keep: "x_dist (fold send_unsubscription cs y) = x_dist y \<and> x_subs (fold send_unsubscription cs y) = x_subs y" for cs y
    by (induction cs arbitrary: y) (auto simp: send_unsubscription_def x_pend_def Let_def)
  have "dist_inv (x_dist x)" using inv by simp
  from dist_terminated_ok [OF this assms(3)] obtain d where
    "dist_pipe_terminated p (x_dist x) = Some d" "attached d = attached (x_dist x) - {p}"
    by (elim exE conjE) (rule that)
  with t assms keep show ?thesis by (simp add: x_pipe_terminated_def)
qed

subsection \<open>Properties\<close>

text \<open>
  C25: A publisher sends to the right pipes: in every state with the invariant, \<open>xsend\<close> never
  aborts. When it accepts the part, the first part of a message goes to the eligible pipes that have a subscription to
  a prefix of it (or, with inverted matching, to those that have none), the other parts to the
  pipes that took the first one; of these, the pipes with room get the part and no other pipe
  gets anything; after the last part no pipe is left marked, the message is flushed (no complete message is
  left hidden from the peers which was not so before) and the invariant holds. It accepts every part in a lossy socket, and with
  \<open>ZMQ_XPUB_NODROP\<close> exactly when all those pipes are below their watermarks; otherwise it returns \<open>EAGAIN\<close> and no pipe gets anything (but
  the invariant may be lost: the pipes stay marked, see \<open>xpub_leaks_after_eagain\<close>).
\<close>

theorem xpub_send_audience:
  assumes "xpub_inv x" "\<forall>p\<in>attached (x_dist x). can_write p w"
  shows "\<exists>ok x' w'. x_send m x w = Some (ok, x', w') \<and> x_subs x' = x_subs x \<and>
    ok = (lossy x \<or> (\<forall>p. (if x_more x then p \<in> matching_set (x_dist x) else p \<in> eligible_set (x_dist x) \<and>
            (\<exists>k\<le>length (vdata m). p \<in> subs (x_subs x) (take k (vdata m))) \<noteq> invert_matching x) \<longrightarrow> w_check_hwm w p)) \<and>
    (if \<not> ok then w' = w
     else xpub_inv x' \<and>
       (\<forall>p\<in>attached (x_dist x). w_content p w' =
         (if w_room p w \<and> (if x_more x then p \<in> matching_set (x_dist x) else p \<in> eligible_set (x_dist x) \<and>
               (\<exists>k\<le>length (vdata m). p \<in> subs (x_subs x) (take k (vdata m))) \<noteq> invert_matching x)
          then up_store m (w_content p w) else w_content p w)) \<and>
       (\<forall>p. w_hidden p w' \<longrightarrow> w_hidden p w) \<and>
       (if has_more m then matching_set (x_dist x') \<subseteq> {p. w_room p w} else matching_set (x_dist x') = {}))"
proof -
  have aud: "p \<in> audience m x \<longleftrightarrow> (if x_more x then p \<in> matching_set (x_dist x) else p \<in> eligible_set (x_dist x) \<and>
      (\<exists>k\<le>length (vdata m). p \<in> subs (x_subs x) (take k (vdata m))) \<noteq> invert_matching x)" for p
    by (auto simp: audience_def subscribers_def)
  have acc: "x_accepts m x w \<longleftrightarrow> lossy x \<or> (\<forall>p. p \<in> audience m x \<longrightarrow> w_check_hwm w p)" by (auto simp: x_accepts_def)
  show ?thesis
  proof (cases "x_accepts m x w")
    case False
    from x_send_refused [OF assms(1) this] False show ?thesis unfolding aud [symmetric] acc [symmetric] by auto
  next
    case True
    from x_send_ok [OF assms(1) True assms(2)] obtain x' w' where
      *: "x_send m x w = Some (True, x', w')" "xpub_inv x'" "x_subs x' = x_subs x" "x_more x' = has_more m"
      "\<forall>p\<in>attached (x_dist x). w_content p w' =
        (if p \<in> audience m x \<and> w_room p w then up_store m (w_content p w) else w_content p w)"
      "\<forall>p. w_hidden p w' \<longrightarrow> w_hidden p w"
      "has_more m \<longrightarrow> matching_set (x_dist x') = {p \<in> audience m x. w_room p w}" by blast
    then have "if has_more m then matching_set (x_dist x') \<subseteq> {p. w_room p w} else matching_set (x_dist x') = {}"
      by (auto simp: xpub_inv_def)
    with * True show ?thesis unfolding aud [symmetric] acc [symmetric]
      by (intro exI [of _ True] exI [of _ x'] exI [of _ w']) auto
  qed
qed

text \<open>A publisher with inverted matching, with three pipes and no subscription.\<close>

definition xpub3 :: xpub where
  "xpub3 = (new_xpub ZMQ_XPUB True)\<lparr>x_dist := dist_unmatch dist3\<rparr>"

lemma unmatched_sets [simp]:
  "attached (dist_unmatch d) = attached d" "eligible_set (dist_unmatch d) = eligible_set d"
  by (simp_all add: dist_sets dist_unmatch_def)

lemma xpub3_inv: "xpub_inv xpub3" "attached (x_dist xpub3) = {0, 1, 2}" "eligible_set (x_dist xpub3) = {0, 1, 2}"
  "subs (x_subs xpub3) = (\<lambda>_. {})" "lossy xpub3" "\<not> manual xpub3" "invert_matching xpub3" "\<not> x_more xpub3"
proof -
  have d: "dist_inv (dist_unmatch dist3)" using dist3_inv(1) by (simp add: dist_inv_def dist_unmatch_def)
  have "\<not> d_more dist3" by code_simp
  then have "\<not> d_more (dist_unmatch dist3)" by (simp add: dist_unmatch_def)
  with d show "xpub_inv xpub3" by (simp add: xpub_inv_def xpub3_def new_xpub_def mtrie_wf_new)
qed (simp_all add: xpub3_def new_xpub_def dist3_inv)

theorem xpub_send_audience_witness:
  "\<exists>x' w'. x_send (plain type_vsm 0 [7]) xpub3 world3 = Some (True, x', w') \<and>
    w_content 1 w' = (False, [plain type_vsm 0 [7]])"
proof -
  have "\<forall>p\<in>attached (x_dist xpub3). can_write p world3" using can_write3 xpub3_inv(2) by auto
  from xpub_send_audience [OF xpub3_inv(1) this, of "plain type_vsm 0 [7]"] obtain x' w' where
    r: "x_send (plain type_vsm 0 [7]) xpub3 world3 = Some (True, x', w')"
    "w_content 1 w' = (if w_room 1 world3 then up_store (plain type_vsm 0 [7]) (w_content 1 world3) else w_content 1 world3)"
    using xpub3_inv by auto
  have "fst (p_check_write (end_of 1))" by code_simp
  then have "w_room 1 world3" by (simp add: w_room_def pends3)
  moreover have "w_content 1 world3 = (False, [])" by code_simp
  ultimately show ?thesis using r by (intro exI [of _ x'] exI [of _ w']) simp
qed

text \<open>
  C26: A publisher keeps the subscriptions right and tells the user what changed: with
  automatic handling of subscriptions, a message from an attached pipe never aborts (a peer
  that unsubscribes only from what it is subscribed to), changes the subscriptions of that
  pipe only, and is handed to the user exactly when it is the first subscription to its
  prefix, the last unsubscription, wanted by a verbose mode, or an ordinary message; the end
  of a pipe removes all its subscriptions and hands the user one unsubscription for each
  prefix that nobody is subscribed to any more. The invariant is kept.
\<close>

theorem xpub_subscriptions:
  assumes "xpub_inv x" "\<not> manual x" "p \<in> attached (x_dist x)"
    "is_unsub m \<longrightarrow> p \<in> subs (x_subs x) (tl (vdata m))"
  shows "(\<exists>x'. x_process p m x = Some x' \<and> xpub_inv x' \<and> x_dist x' = x_dist x \<and>
      subs (x_subs x') = subs_after p m (subs (x_subs x)) \<and>
      pending_data x' = pending_data x @ (if passed_on p m x then [vdata m] else [])) \<and>
    (\<exists>x' cs. x_pipe_terminated p x = Some x' \<and> xpub_inv x' \<and> attached (x_dist x') = attached (x_dist x) - {p} \<and>
      subs (x_subs x') = (\<lambda>q. subs (x_subs x) q - {p}) \<and>
      pending_data x' = pending_data x @ (if x_type x = ZMQ_PUB then [] else map ((#) 0) cs) \<and> distinct cs \<and>
      set cs = {q. p \<in> subs (x_subs x) q \<and> (\<not> verbose_unsubs x \<longrightarrow> subs (x_subs x) q = {p})})"
proof
  show "\<exists>x'. x_process p m x = Some x' \<and> xpub_inv x' \<and> x_dist x' = x_dist x \<and>
      subs (x_subs x') = subs_after p m (subs (x_subs x)) \<and>
      pending_data x' = pending_data x @ (if passed_on p m x then [vdata m] else [])"
    using x_process_ok [OF assms] by (elim exE conjE) (intro exI conjI)
  show "\<exists>x' cs. x_pipe_terminated p x = Some x' \<and> xpub_inv x' \<and> attached (x_dist x') = attached (x_dist x) - {p} \<and>
      subs (x_subs x') = (\<lambda>q. subs (x_subs x) q - {p}) \<and>
      pending_data x' = pending_data x @ (if x_type x = ZMQ_PUB then [] else map ((#) 0) cs) \<and> distinct cs \<and>
      set cs = {q. p \<in> subs (x_subs x) q \<and> (\<not> verbose_unsubs x \<longrightarrow> subs (x_subs x) q = {p})}"
    using x_terminated_ok [OF assms(1-3)] by (elim exE conjE) (intro exI conjI)
qed

theorem xpub_subscriptions_witness:
  "\<exists>x'. x_process 2 (sized_msg [1, 65]) xpub3 = Some x' \<and> pending_data x' = [[1, 65]] \<and> subs (x_subs x') [65] = {2}"
proof -
  have m: "is_sub (sized_msg [1, 65])" "\<not> is_unsub (sized_msg [1, 65])" "vdata (sized_msg [1, 65]) = [1, 65]"
    by (simp_all add: is_sub_def is_unsub_def sized_msg_def plain_def)
  from xpub_subscriptions [OF xpub3_inv(1,6), of 2 "sized_msg [1, 65]"] m xpub3_inv obtain x' where
    "x_process 2 (sized_msg [1, 65]) xpub3 = Some x'" "subs (x_subs x') = subs_after 2 (sized_msg [1, 65]) (\<lambda>_. {})"
    "pending_data x' = pending_data xpub3 @ (if passed_on 2 (sized_msg [1, 65]) xpub3 then [[1, 65]] else [])" by auto
  then show ?thesis using m xpub3_inv(4)
    by (simp add: subs_after_def passed_on_def) (simp add: xpub3_def new_xpub_def)
qed

end
