(* ===== verification/Xsub.thy ===== *)
theory Xsub
  imports Subscription_Trie Socket_Reads
begin

text \<open>
  \<open>xsub_t\<close> of \<open>src/zmqsrc/src/xsub.cpp\<close> and \<open>sub_t\<close> of \<open>sub.cpp\<close>: the subscriptions of the user
  are kept in a trie and sent to every publisher, messages are received by fair queueing and
  those that match no subscription are skipped. \<open>errno_assert (rc == 0)\<close> after a receive in the
  middle of a message is a fault when there is nothing to receive. The property says that what
  the user gets is the received messages without those that do not match, whole and in order.
\<close>

record xsub =
  s_fq :: fq
  s_dist :: dist
  s_subs :: trie
  has_message :: bool
  message :: vmsg
  s_more :: bool
  s_filter :: bool
  s_invert :: bool

definition new_xsub :: "bool \<Rightarrow> bool \<Rightarrow> xsub" where
  "new_xsub filtering invert = \<lparr>s_fq = new_fq, s_dist = new_dist, s_subs = new_trie, has_message = False,
     message = empty_msg, s_more = False, s_filter = filtering, s_invert = invert\<rparr>"

definition send_subscription :: "nat \<Rightarrow> byte list \<Rightarrow> world \<Rightarrow> world option" where
  "send_subscription p data w = do { (_, w) \<leftarrow> w_write p (sized_msg (1 # data)) w; Some w }"

primrec send_subscriptions :: "nat \<Rightarrow> byte list list \<Rightarrow> world \<Rightarrow> world option" where
  "send_subscriptions p [] w = Some w"
| "send_subscriptions p (d # ds) w = do { w \<leftarrow> send_subscription p d w; send_subscriptions p ds w }"

definition s_hiccuped :: "nat \<Rightarrow> xsub \<Rightarrow> world \<Rightarrow> world option" where
  "s_hiccuped p s w = do {
     ds \<leftarrow> trie_apply (s_subs s);
     w \<leftarrow> send_subscriptions p ds w;
     w_flush p w }"

definition s_attach_pipe :: "nat \<Rightarrow> xsub \<Rightarrow> world \<Rightarrow> (xsub \<times> world) option" where
  "s_attach_pipe p s w = do {
     q \<leftarrow> fq_attach p (s_fq s);
     d \<leftarrow> dist_attach p (s_dist s);
     let s = s\<lparr>s_fq := q, s_dist := d\<rparr>;
     ds \<leftarrow> trie_apply (s_subs s);
     w \<leftarrow> send_subscriptions p ds w;
     w \<leftarrow> w_flush p w;
     Some (s, w) }"

definition s_read_activated :: "nat \<Rightarrow> xsub \<Rightarrow> xsub option" where
  "s_read_activated p s = do { q \<leftarrow> fq_activated p (s_fq s); Some (s\<lparr>s_fq := q\<rparr>) }"

definition s_write_activated :: "nat \<Rightarrow> xsub \<Rightarrow> xsub option" where
  "s_write_activated p s = do { d \<leftarrow> dist_activated p (s_dist s); Some (s\<lparr>s_dist := d\<rparr>) }"

definition s_pipe_terminated :: "byte list \<Rightarrow> nat \<Rightarrow> xsub \<Rightarrow> xsub option" where
  "s_pipe_terminated cred p s = do {
     q \<leftarrow> fq_pipe_terminated cred p (s_fq s);
     d \<leftarrow> dist_pipe_terminated p (s_dist s);
     Some (s\<lparr>s_fq := q, s_dist := d\<rparr>) }"

subsection \<open>Sending\<close>

definition s_send_to_all :: "vmsg \<Rightarrow> xsub \<Rightarrow> world \<Rightarrow> (xsub \<times> world) option" where
  "s_send_to_all m s w = do { (d, w) \<leftarrow> send_to_all w_write w_flush m (s_dist s) w; Some (s\<lparr>s_dist := d\<rparr>, w) }"

definition s_send :: "vmsg \<Rightarrow> xsub \<Rightarrow> world \<Rightarrow> (xsub \<times> world) option" where
  "s_send m s w =
     (let data = vdata m in
      if data \<noteq> [] \<and> hd data = 1 then do {
        (_, t) \<leftarrow> trie_add (s_subs s) (tl data);
        s_send_to_all m (s\<lparr>s_subs := t\<rparr>) w }
      else if data \<noteq> [] \<and> hd data = 0 then do {
        (last, t) \<leftarrow> trie_rm (s_subs s) (tl data);
        let s = s\<lparr>s_subs := t\<rparr>;
        if last then s_send_to_all m s w else Some (s, w) }
      else s_send_to_all m s w)"

definition s_has_out :: "xsub \<Rightarrow> bool" where "s_has_out s = True"

subsection \<open>Receiving\<close>

definition s_match :: "vmsg \<Rightarrow> xsub \<Rightarrow> bool option" where
  "s_match m s = do { matching \<leftarrow> trie_check (s_subs s) (vdata m); Some (matching \<noteq> s_invert s) }"

text \<open>\<open>while (msg_->flags () & msg_t::more)\<close>, lines 166 to 169 and 206 to 209.\<close>

function skip_parts :: "vmsg \<Rightarrow> fq \<Rightarrow> world \<Rightarrow> (fq \<times> world) option" where
  "skip_parts m q w =
     (if has_more m then
        (case fq_recvpipe w_read q w of
           Some (Some (m', _), q', w') \<Rightarrow> skip_parts m' q' w'
         | _ \<Rightarrow> None)
      else Some (q, w))"
  by pat_completeness auto
termination
  by (relation "measure (\<lambda>(m, q, w). fq_unread q w)") (auto intro: fq_recv_shrinks)

declare skip_parts.simps [simp del]

text \<open>A skip loses the parts that it reads, and only makes the queue shorter.\<close>

lemma skip_parts_unread: "skip_parts m q w = Some (q', w') \<Longrightarrow> fq_unread q' w' \<le> fq_unread q w"
proof (induction m q w rule: skip_parts.induct)
  case (1 m q w)
  show ?case
  proof (cases "has_more m")
    case True
    with 1(2) obtain m1 p q1 w1 where r: "fq_recvpipe w_read q w = Some (Some (m1, p), q1, w1)"
      "skip_parts m1 q1 w1 = Some (q', w')"
      by (subst (asm) skip_parts.simps) (auto split: option.splits prod.splits)
    from 1(1) [OF True r(1) refl refl refl refl r(2)] fq_recv_shrinks [OF r(1)] show ?thesis by simp
  qed (use 1(2) in \<open>simp add: skip_parts.simps [of m q w]\<close>)
qed

text \<open>
  The loop of \<open>xrecv\<close> (lines 147 to 170) with \<open>pass\<close> the test of a message, and of \<open>xhas_in\<close>
  (186 to 210), which is the same with another test; \<open>None\<close> in the result is \<open>EAGAIN\<close>.
\<close>

function recv_matching :: "(vmsg \<Rightarrow> bool option) \<Rightarrow> fq \<Rightarrow> world \<Rightarrow> (vmsg option \<times> fq \<times> world) option" where
  "recv_matching pass q w =
     (case fq_recvpipe w_read q w of
        None \<Rightarrow> None
      | Some (None, q', w') \<Rightarrow> Some (None, q', w')
      | Some (Some (m, _), q', w') \<Rightarrow>
          (case pass m of
             None \<Rightarrow> None
           | Some True \<Rightarrow> Some (Some m, q', w')
           | Some False \<Rightarrow> (case skip_parts m q' w' of None \<Rightarrow> None | Some (q'', w'') \<Rightarrow> recv_matching pass q'' w'')))"
  by pat_completeness auto
termination
proof (relation "measure (\<lambda>(pass, q, w). fq_unread q w)", goal_cases)
  case (2 pass q w r0 r1 x r2 m p q1 w1 b r3 q2 w2)
  then have "fq_recvpipe w_read q w = Some (Some (m, p), q1, w1)" "skip_parts m q1 w1 = Some (q2, w2)" by auto
  from fq_recv_shrinks [OF this(1)] skip_parts_unread [OF this(2)] show ?case by simp
qed simp

declare recv_matching.simps [simp del]

definition s_pass :: "xsub \<Rightarrow> bool \<Rightarrow> vmsg \<Rightarrow> bool option" where
  "s_pass s inside m = (if inside \<or> \<not> s_filter s then Some True else s_match m s)"

definition s_recv :: "xsub \<Rightarrow> world \<Rightarrow> (vmsg option \<times> xsub \<times> world) option" where
  "s_recv s w =
     (if has_message s then
        let m = message s in Some (Some m, s\<lparr>message := empty_msg, has_message := False, s_more := has_more m\<rparr>, w)
      else do {
        (r, q, w) \<leftarrow> recv_matching (s_pass s (s_more s)) (s_fq s) w;
        let s = s\<lparr>s_fq := q\<rparr>;
        Some (r, case r of None \<Rightarrow> s | Some m \<Rightarrow> s\<lparr>s_more := has_more m\<rparr>, w) })"

definition s_has_in :: "xsub \<Rightarrow> world \<Rightarrow> (bool \<times> xsub \<times> world) option" where
  "s_has_in s w =
     (if s_more s then Some (True, s, w)
      else if has_message s then Some (True, s, w)
      else do {
        (r, q, w) \<leftarrow> recv_matching (s_pass s False) (s_fq s) w;
        let s = s\<lparr>s_fq := q\<rparr>;
        Some (r \<noteq> None, case r of None \<Rightarrow> s | Some m \<Rightarrow> s\<lparr>message := m, has_message := True\<rparr>, w) })"

definition s_get_credential :: "xsub \<Rightarrow> world \<Rightarrow> byte list" where
  "s_get_credential s w = fq_get_credential (w_credential w) (s_fq s)"

subsection \<open>The SUB socket\<close>

text \<open>\<open>Some True\<close> is \<open>ZMQ_SUBSCRIBE\<close>, \<open>Some False\<close> is \<open>ZMQ_UNSUBSCRIBE\<close>; the result is false for \<open>EINVAL\<close>.\<close>

definition sub_setsockopt :: "bool option \<Rightarrow> byte list \<Rightarrow> xsub \<Rightarrow> world \<Rightarrow> (bool \<times> xsub \<times> world) option" where
  "sub_setsockopt option optval s w =
     (case option of
        None \<Rightarrow> Some (False, s, w)
      | Some b \<Rightarrow> do {
          (s, w) \<leftarrow> s_send (sized_msg ((if b then 1 else 0) # optval)) s w;
          Some (True, s, w) })"

text \<open>\<open>ENOTSUP\<close> in every case.\<close>

definition sub_send :: "vmsg \<Rightarrow> xsub \<Rightarrow> xsub option" where
  "sub_send m s = None"

definition sub_has_out :: "xsub \<Rightarrow> bool" where
  "sub_has_out s = False"

subsection \<open>What the user is to get\<close>

text \<open>
  The parts of a stream that pass: \<open>st\<close> says whether a message is being read, and if so
  whether it passed. \<open>deliverable\<close> is the stream of parts that the user has still to get of
  everything received so far.
\<close>

fun kept :: "(vmsg \<Rightarrow> bool) \<Rightarrow> bool option \<Rightarrow> vmsg list \<Rightarrow> vmsg list" where
  "kept P st [] = []"
| "kept P st (m # ms) =
     (let b = (case st of None \<Rightarrow> P m | Some b \<Rightarrow> b) in
      (if b then [m] else []) @ kept P (if has_more m then Some b else None) ms)"

definition after_part :: "bool \<Rightarrow> bool option" where
  "after_part b = (if b then Some True else None)"

definition drained :: "fq \<Rightarrow> world \<Rightarrow> vmsg list" where
  "drained q w = (case fq_drain q w of None \<Rightarrow> [] | Some (ms, _) \<Rightarrow> map fst ms)"

definition wanted :: "xsub \<Rightarrow> vmsg \<Rightarrow> bool" where
  "wanted s m \<longleftrightarrow> \<not> s_filter s \<or> (\<exists>k\<le>length (vdata m). refs (s_subs s) (take k (vdata m)) \<noteq> 0) \<noteq> s_invert s"

definition deliverable :: "xsub \<Rightarrow> world \<Rightarrow> vmsg list" where
  "deliverable s w =
     (if has_message s then message s # kept (wanted s) (after_part (has_more (message s))) (drained (s_fq s) w)
      else kept (wanted s) (after_part (s_more s)) (drained (s_fq s) w))"

definition xsub_inv :: "xsub \<Rightarrow> world \<Rightarrow> bool" where
  "xsub_inv s w \<longleftrightarrow> trie_wf (s_subs s) \<and> fq_ready (s_fq s) w \<and>
     (if has_message s then \<not> s_more s \<and> fq_more (s_fq s) = has_more (message s) else s_more s = fq_more (s_fq s))"

lemma drained_step:
  assumes "fq_ready q w" "fq_recvpipe w_read q w = Some (r, q', w')" "fq_ready q' w'"
  shows "drained q w = (case r of None \<Rightarrow> [] | Some (m, _) \<Rightarrow> m # drained q' w')"
proof -
  from fq_drain_ok [OF assms(3)] obtain ms e where "fq_drain q' w' = Some (ms, e)" by auto
  with assms(2) show ?thesis
    by (cases r) (auto simp: drained_def fq_drain.simps [of q w] split: prod.splits)
qed

lemma drained_inactive:
  assumes "fq_ready q w" "active_pipes q = []"
  shows "drained q w = []"
proof -
  from assms have "fq_active q = 0" by (auto simp: fq_ready_def fq_inv_def active_pipes_def)
  then show ?thesis by (simp add: drained_def fq_drain.simps [of q w] fq_recvpipe_def)
qed

lemma skip_parts_ok:
  assumes "fq_ready q w" "fq_more q = has_more m"
  shows "\<exists>q' w'. skip_parts m q w = Some (q', w') \<and> fq_ready q' w' \<and> \<not> fq_more q' \<and>
    kept P (if has_more m then Some False else None) (drained q w) = kept P None (drained q' w')"
  using assms
proof (induction m q w rule: skip_parts.induct)
  case (1 m q w)
  show ?case
  proof (cases "has_more m")
    case False
    with 1 show ?thesis by (simp add: skip_parts.simps [of m q w])
  next
    case True
    from fq_ready_step [OF 1(2)] True 1(3) obtain m1 p q1 w1 where
      r: "fq_recvpipe w_read q w = Some (Some (m1, p), q1, w1)" "fq_ready q1 w1" "fq_more q1 = has_more m1"
      by (auto split: option.splits)
    from 1(1) [OF True r(1) refl refl refl refl r(2,3)] obtain q' w' where
      s: "skip_parts m1 q1 w1 = Some (q', w')" "fq_ready q' w'" "\<not> fq_more q'"
        "kept P (if has_more m1 then Some False else None) (drained q1 w1) = kept P None (drained q' w')" by blast
    have "skip_parts m q w = Some (q', w')" using True r(1) s(1) by (simp add: skip_parts.simps [of m q w])
    moreover have "kept P (Some False) (drained q w) = kept P None (drained q' w')"
      using drained_step [OF 1(2) r(1,2)] s(4) by simp
    ultimately show ?thesis using s(2,3) True by auto
  qed
qed

lemma recv_matching_ok:
  assumes "fq_ready q w" "\<And>m. pass m = Some (inside \<or> P m)" "inside = fq_more q"
  shows "\<exists>r q' w'. recv_matching pass q w = Some (r, q', w') \<and> fq_ready q' w' \<and>
    (case r of None \<Rightarrow> \<not> inside \<and> \<not> fq_more q' \<and> drained q' w' = [] | Some m \<Rightarrow> fq_more q' = has_more m) \<and>
    kept P (after_part inside) (drained q w) =
      (case r of None \<Rightarrow> [] | Some m \<Rightarrow> m # kept P (after_part (has_more m)) (drained q' w'))"
  using assms(1,3)
proof (induction "fq_unread q w" arbitrary: q w rule: less_induct)
  case less
  from fq_ready_step [OF less(2)] obtain r q1 w1 where
    r: "fq_recvpipe w_read q w = Some (r, q1, w1)" "fq_ready q1 w1"
      "case r of None \<Rightarrow> active_pipes q1 = [] \<and> \<not> fq_more q \<and> \<not> fq_more q1 | Some (m, p) \<Rightarrow> fq_more q1 = has_more m" by blast
  note dr = drained_step [OF less(2) r(1,2)]
  show ?case
  proof (cases r)
    case None
    with r drained_inactive [OF r(2)] dr less(3) show ?thesis by (auto simp: recv_matching.simps [of pass q w])
  next
    case (Some mp)
    obtain m p where mp: "mp = (m, p)" by (cases mp)
    show ?thesis
    proof (cases "inside \<or> P m")
      case True
      with assms(2) have "pass m = Some True" by simp
      with r(1) Some mp have rm: "recv_matching pass q w = Some (Some m, q1, w1)"
        by (simp add: recv_matching.simps [of pass q w])
      have "kept P (after_part inside) (drained q w) = m # kept P (after_part (has_more m)) (drained q1 w1)"
        using True dr Some mp by (auto simp: after_part_def Let_def)
      with rm r(2,3) Some mp show ?thesis by simp
    next
      case False
      with assms(2) have pf: "pass m = Some False" by simp
      from r Some mp have "fq_more q1 = has_more m" by simp
      from skip_parts_ok [OF r(2) this, of P] obtain q2 w2 where
        s: "skip_parts m q1 w1 = Some (q2, w2)" "fq_ready q2 w2" "\<not> fq_more q2"
          "kept P (if has_more m then Some False else None) (drained q1 w1) = kept P None (drained q2 w2)" by blast
      have rec: "recv_matching pass q w = recv_matching pass q2 w2"
        using r(1) Some mp pf s(1) by (simp add: recv_matching.simps [of pass q w])
      have "inside = fq_more q2" using False s(3) by simp
      have shrink: "fq_unread q2 w2 < fq_unread q w"
        using fq_recv_shrinks [of q w "(m, p)"] skip_parts_unread [OF s(1)] r(1) Some mp by fastforce
      have IH: "\<exists>r q' w'. recv_matching pass q2 w2 = Some (r, q', w') \<and> fq_ready q' w' \<and>
        (case r of None \<Rightarrow> \<not> inside \<and> \<not> fq_more q' \<and> drained q' w' = [] | Some m \<Rightarrow> fq_more q' = has_more m) \<and>
        kept P (after_part inside) (drained q2 w2) =
          (case r of None \<Rightarrow> [] | Some m \<Rightarrow> m # kept P (after_part (has_more m)) (drained q' w'))"
        by (rule less(1)) (use shrink s(2) \<open>inside = fq_more q2\<close> in simp_all)
      have "kept P (after_part inside) (drained q w) = kept P (after_part inside) (drained q2 w2)"
        using False dr Some mp s(4) by (simp add: after_part_def)
      with IH rec show ?thesis by simp
    qed
  qed
qed

lemma s_pass_ok: "trie_wf (s_subs s) \<Longrightarrow> s_pass s inside m = Some (inside \<or> wanted s m)"
  by (auto simp: s_pass_def s_match_def wanted_def trie_check_ok)

lemma wanted_fields [simp]:
  "wanted (s\<lparr>s_fq := q\<rparr>) = wanted s" "wanted (s\<lparr>s_more := b\<rparr>) = wanted s" "wanted (s\<lparr>message := m\<rparr>) = wanted s"
  "wanted (s\<lparr>has_message := b\<rparr>) = wanted s"
  by (simp_all add: wanted_def fun_eq_iff)

lemma s_recv_ok:
  assumes "xsub_inv s w"
  shows "\<exists>r s' w'. s_recv s w = Some (r, s', w') \<and> xsub_inv s' w' \<and> s_subs s' = s_subs s \<and>
    deliverable s w = (case r of None \<Rightarrow> [] | Some m \<Rightarrow> m # deliverable s' w')"
proof (cases "has_message s")
  case True
  with assms show ?thesis by (simp add: s_recv_def Let_def xsub_inv_def deliverable_def)
next
  case False
  note inv = assms [unfolded xsub_inv_def]
  from inv False have rdy: "fq_ready (s_fq s) w" "s_more s = fq_more (s_fq s)" "trie_wf (s_subs s)" by auto
  from recv_matching_ok [where pass = "s_pass s (s_more s)" and P = "wanted s", OF rdy(1) s_pass_ok [OF rdy(3)] rdy(2)]
  obtain r q w' where
    r: "recv_matching (s_pass s (s_more s)) (s_fq s) w = Some (r, q, w')" "fq_ready q w'"
      "case r of None \<Rightarrow> \<not> s_more s \<and> \<not> fq_more q \<and> drained q w' = [] | Some m \<Rightarrow> fq_more q = has_more m"
      "kept (wanted s) (after_part (s_more s)) (drained (s_fq s) w) =
        (case r of None \<Rightarrow> [] | Some m \<Rightarrow> m # kept (wanted s) (after_part (has_more m)) (drained q w'))" by blast
  show ?thesis
  proof (cases r)
    case None
    with r False rdy show ?thesis by (simp add: s_recv_def xsub_inv_def deliverable_def)
  next
    case (Some m)
    with r False rdy show ?thesis by (simp add: s_recv_def xsub_inv_def deliverable_def)
  qed
qed

lemma s_has_in_ok:
  assumes "xsub_inv s w"
  shows "\<exists>b s' w'. s_has_in s w = Some (b, s', w') \<and> xsub_inv s' w' \<and> s_subs s' = s_subs s \<and>
    deliverable s' w' = deliverable s w \<and> b = (s_more s \<or> deliverable s w \<noteq> [])"
proof (cases "s_more s \<or> has_message s")
  case True
  with assms show ?thesis by (auto simp: s_has_in_def deliverable_def)
next
  case False
  note inv = assms [unfolded xsub_inv_def]
  from inv False have rdy: "fq_ready (s_fq s) w" "False = fq_more (s_fq s)" "trie_wf (s_subs s)" by auto
  from recv_matching_ok [where pass = "s_pass s False" and P = "wanted s", OF rdy(1) s_pass_ok [OF rdy(3)] rdy(2)]
  obtain r q w' where
    r: "recv_matching (s_pass s False) (s_fq s) w = Some (r, q, w')" "fq_ready q w'"
      "case r of None \<Rightarrow> \<not> False \<and> \<not> fq_more q \<and> drained q w' = [] | Some m \<Rightarrow> fq_more q = has_more m"
      "kept (wanted s) (after_part False) (drained (s_fq s) w) =
        (case r of None \<Rightarrow> [] | Some m \<Rightarrow> m # kept (wanted s) (after_part (has_more m)) (drained q w'))" by blast
  show ?thesis
  proof (cases r)
    case None
    with r False rdy show ?thesis
      by (intro exI [of _ False]) (simp add: s_has_in_def xsub_inv_def deliverable_def after_part_def)
  next
    case (Some m)
    with r False rdy show ?thesis
      by (intro exI [of _ True]) (simp add: s_has_in_def xsub_inv_def deliverable_def after_part_def)
  qed
qed

subsection \<open>Findings\<close>

text \<open>
  \<open>xsend\<close> does not look whether a part is the first of its message: the second part of a user
  message that starts with the byte 1 is taken for a subscription.
\<close>

theorem xsub_part_subscribes:
  "do {
     (s, w) \<leftarrow> s_send (plain type_vsm more_flag [9]) (new_xsub False False) world3;
     (s, w) \<leftarrow> s_send (plain type_vsm 0 [1, 65]) s w;
     trie_check (s_subs s) [65, 66] } = Some True"
  by code_simp

subsection \<open>Properties\<close>

text \<open>
  C27: A subscriber gets exactly what it wants, in every state with the invariant (the queues hold whole messages, and in the
  middle of a message its pipe can still be read): of all the parts received, the user is handed,
  one by one and in order, those of the messages whose first part matches (starts with a
  subscribed prefix, or with inverted matching does not), all parts of such a message and no
  part of any other, and \<open>EAGAIN\<close> only when there is no such part; \<open>xhas_in\<close> says whether
  there is one and loses nothing. The loops end, no assertion fails and the invariant is kept. Not covered is a
  pipe that the application ends (\<open>zmq_disconnect\<close>) while a message from it is being read: that breaks the
  invariant, and the next receive aborts (\<open>fq_aborts_after_terminate\<close>).
\<close>

theorem xsub_receives_matching:
  assumes "xsub_inv s w"
  shows "(\<exists>r s' w'. s_recv s w = Some (r, s', w') \<and> xsub_inv s' w' \<and> s_subs s' = s_subs s \<and>
      deliverable s w = (case r of None \<Rightarrow> [] | Some m \<Rightarrow> m # deliverable s' w')) \<and>
    (\<exists>b s' w'. s_has_in s w = Some (b, s', w') \<and> xsub_inv s' w' \<and> deliverable s' w' = deliverable s w \<and>
      b = (s_more s \<or> deliverable s w \<noteq> []))"
  using s_recv_ok [OF assms] s_has_in_ok [OF assms] by (elim exE conjE) (intro conjI exI)

text \<open>A subscriber to the prefix 3, with a message that matches and one that does not.\<close>

definition xsub3 :: xsub where
  "xsub3 = (new_xsub True False)\<lparr>s_fq := fq3, s_subs := snd (the (trie_add new_trie [3]))\<rparr>"

lemma whole_world_in: "whole_world world_in"
  by (simp add: whole_world_def world_in_def inbox_incoming inbox3)

lemma xsub3_inv: "xsub_inv xsub3 world_in"
proof -
  from trie_add_ok [OF trie_wf_new, of "[3]"] obtain t where "trie_add new_trie [3] = Some (True, t)" "trie_wf t" by auto
  then have "trie_wf (s_subs xsub3)" by (simp add: xsub3_def)
  moreover have "fq_ready fq3 world_in"
    using fq3_inv world_in_ok whole_world_in by (auto simp: fq_ready_def)
  ultimately show ?thesis using fq3_inv by (simp add: xsub_inv_def) (simp add: xsub3_def new_xsub_def)
qed

theorem xsub_receives_matching_witness:
  "\<exists>s' w'. s_recv xsub3 world_in = Some (Some (plain type_vsm more_flag [3]), s', w') \<and> xsub_inv s' w' \<and>
    hd (deliverable xsub3 world_in) = plain type_vsm more_flag [3]"
proof -
  have "case s_recv xsub3 world_in of Some (Some m, _) \<Rightarrow> m = plain type_vsm more_flag [3] | _ \<Rightarrow> False" by code_simp
  with xsub_receives_matching [OF xsub3_inv] show ?thesis by (auto split: option.splits)
qed

end
