(* ===== verification/Req.thy ===== *)
theory Req
  imports Socket_Sends
begin

unbundle bit_operations_syntax

text \<open>
  \<open>dealer_t\<close> of \<open>src/zmqsrc/src/dealer.cpp\<close> (fair queueing in, load balancing out) and
  \<open>req_t\<close> of \<open>req.cpp\<close>, which is a dealer that alternates between sending a request and
  receiving its reply; and \<open>req_session_t\<close>, which checks the shape of what a peer sends to a
  request socket. \<open>req\<close> extends the record of the dealer as the class extends the class. The
  request id is copied to its frame as it is in memory, here that of a little-endian machine.
\<close>

record dealer =
  dl_fq :: fq
  dl_lb :: lb
  dl_probe :: bool

definition new_dealer :: dealer where
  "new_dealer = \<lparr>dl_fq = new_fq, dl_lb = new_lb, dl_probe = False\<rparr>"

definition dl_attach_pipe :: "nat \<Rightarrow> 'a dealer_scheme \<Rightarrow> world \<Rightarrow> ('a dealer_scheme \<times> world) option" where
  "dl_attach_pipe p s w = do {
     w \<leftarrow> (if dl_probe s then do { (_, w) \<leftarrow> w_write p empty_msg w; w_flush p w } else Some w);
     q \<leftarrow> fq_attach p (dl_fq s);
     l \<leftarrow> lb_attach p (dl_lb s);
     Some (s\<lparr>dl_fq := q, dl_lb := l\<rparr>, w) }"

datatype req_option = PROBE_ROUTER | REQ_CORRELATE | REQ_RELAXED | No_req_option

text \<open>\<open>val\<close> is the \<open>int\<close> of the option when its length is four; the result is false for \<open>EINVAL\<close>.\<close>

definition dl_setsockopt :: "req_option \<Rightarrow> nat \<Rightarrow> int \<Rightarrow> 'a dealer_scheme \<Rightarrow> bool \<times> 'a dealer_scheme" where
  "dl_setsockopt opt len val s =
     (let is_int = (len = 4) in
      if opt = PROBE_ROUTER \<and> is_int \<and> val \<ge> 0 then (True, s\<lparr>dl_probe := (val \<noteq> 0)\<rparr>) else (False, s))"

definition dl_sendpipe :: "vmsg \<Rightarrow> 'a dealer_scheme \<Rightarrow> world \<Rightarrow> (send_result \<times> 'a dealer_scheme \<times> world) option" where
  "dl_sendpipe m s w = do {
     (r, l, w) \<leftarrow> lb_sendpipe w_write w_rollback w_flush m (dl_lb s) w;
     Some (r, s\<lparr>dl_lb := l\<rparr>, w) }"

definition dl_recvpipe :: "'a dealer_scheme \<Rightarrow> world \<Rightarrow> ((vmsg \<times> nat) option \<times> 'a dealer_scheme \<times> world) option" where
  "dl_recvpipe s w = do { (r, q, w) \<leftarrow> fq_recvpipe w_read (dl_fq s) w; Some (r, s\<lparr>dl_fq := q\<rparr>, w) }"

definition dl_send :: "vmsg \<Rightarrow> 'a dealer_scheme \<Rightarrow> world \<Rightarrow> (rc \<times> 'a dealer_scheme \<times> world) option" where
  "dl_send m s w = do { (r, s, w) \<leftarrow> dl_sendpipe m s w; Some (if r = Again then Err EAGAIN else Ok, s, w) }"

definition dl_recv :: "'a dealer_scheme \<Rightarrow> world \<Rightarrow> (vmsg option \<times> 'a dealer_scheme \<times> world) option" where
  "dl_recv s w = do { (r, s, w) \<leftarrow> dl_recvpipe s w; Some (map_option fst r, s, w) }"

definition dl_has_in :: "'a dealer_scheme \<Rightarrow> world \<Rightarrow> (bool \<times> 'a dealer_scheme \<times> world) option" where
  "dl_has_in s w = do { (b, q, w) \<leftarrow> fq_has_in w_check_read (dl_fq s) w; Some (b, s\<lparr>dl_fq := q\<rparr>, w) }"

definition dl_has_out :: "'a dealer_scheme \<Rightarrow> world \<Rightarrow> (bool \<times> 'a dealer_scheme \<times> world) option" where
  "dl_has_out s w = do { (b, l, w) \<leftarrow> lb_has_out w_check_write (dl_lb s) w; Some (b, s\<lparr>dl_lb := l\<rparr>, w) }"

definition dl_get_credential :: "'a dealer_scheme \<Rightarrow> world \<Rightarrow> byte list" where
  "dl_get_credential s w = fq_get_credential (w_credential w) (dl_fq s)"

definition dl_read_activated :: "nat \<Rightarrow> 'a dealer_scheme \<Rightarrow> 'a dealer_scheme option" where
  "dl_read_activated p s = do { q \<leftarrow> fq_activated p (dl_fq s); Some (s\<lparr>dl_fq := q\<rparr>) }"

definition dl_write_activated :: "nat \<Rightarrow> 'a dealer_scheme \<Rightarrow> 'a dealer_scheme option" where
  "dl_write_activated p s = do { l \<leftarrow> lb_activated p (dl_lb s); Some (s\<lparr>dl_lb := l\<rparr>) }"

definition dl_pipe_terminated :: "byte list \<Rightarrow> nat \<Rightarrow> 'a dealer_scheme \<Rightarrow> 'a dealer_scheme option" where
  "dl_pipe_terminated cred p s = do {
     q \<leftarrow> fq_pipe_terminated cred p (dl_fq s);
     l \<leftarrow> lb_pipe_terminated p (dl_lb s);
     Some (s\<lparr>dl_fq := q, dl_lb := l\<rparr>) }"

subsection \<open>The request socket\<close>

record req = dealer +
  receiving_reply :: bool
  message_begins :: bool
  reply_pipe :: "nat option"
  request_id_frames_enabled :: bool
  request_id :: u32
  strict :: bool

text \<open>The first request id is random, an argument.\<close>

definition new_req :: "u32 \<Rightarrow> req" where
  "new_req i = dealer.extend new_dealer \<lparr>receiving_reply = False, message_begins = True, reply_pipe = None,
     request_id_frames_enabled = False, request_id = i, strict = True\<rparr>"

definition native_u32 :: "u32 \<Rightarrow> byte list" where
  "native_u32 x = map (\<lambda>i. ucast (drop_bit (8 * i) x)) [0..<4]"

definition id_msg :: "u32 \<Rightarrow> vmsg" where
  "id_msg i = plain type_lmsg more_flag (native_u32 i)"

definition bottom_msg :: vmsg where
  "bottom_msg = plain type_vsm more_flag []"

text \<open>\<open>sendpipe (\<dots>, &reply_pipe)\<close> sets the pipe when it has written the message.\<close>

definition send_frame :: "vmsg \<Rightarrow> req \<Rightarrow> world \<Rightarrow> (rc \<times> req \<times> world) option" where
  "send_frame m s w = do {
     (r, s, w) \<leftarrow> dl_sendpipe m s w;
     Some (case r of Again \<Rightarrow> (Err EAGAIN, s, w) | Sent p \<Rightarrow> (Ok, s\<lparr>reply_pipe := Some p\<rparr>, w) | Dropped \<Rightarrow> (Ok, s, w)) }"

text \<open>
  The bottom frame, lines 100 to 125. The loop that eats all messages which are there is
  \<open>fq_drain\<close>.
\<close>

definition send_bottom :: "req \<Rightarrow> world \<Rightarrow> (rc \<times> req \<times> world) option" where
  "send_bottom s w = do {
     (r, s, w) \<leftarrow> send_frame bottom_msg s w;
     if r \<noteq> Ok then Some (r, s, w)
     else do {
       zmq_assert (reply_pipe s \<noteq> None);
       let s = s\<lparr>message_begins := False\<rparr>;
       (_, q, w) \<leftarrow> fq_drain (dl_fq s) w;
       Some (Ok, s\<lparr>dl_fq := q\<rparr>, w) } }"

text \<open>The beginning of a request, lines 80 to 125.\<close>

definition begin_request :: "req \<Rightarrow> world \<Rightarrow> (rc \<times> req \<times> world) option" where
  "begin_request s w = do {
     let s = s\<lparr>reply_pipe := None\<rparr>;
     if request_id_frames_enabled s then do {
       let s = s\<lparr>request_id := request_id s + 1\<rparr>;
       (r, s, w) \<leftarrow> send_frame (id_msg (request_id s)) s w;
       if r \<noteq> Ok then Some (r, s, w) else send_bottom s w }
     else send_bottom s w }"

definition r_send :: "vmsg \<Rightarrow> req \<Rightarrow> world \<Rightarrow> (rc \<times> req \<times> world) option" where
  "r_send m s w =
     (if receiving_reply s \<and> strict s then Some (Err EFSM, s, w)
      else do {
        let s = (if receiving_reply s then s\<lparr>receiving_reply := False, message_begins := True\<rparr> else s);
        (r, s, w) \<leftarrow> (if message_begins s then begin_request s w else Some (Ok, s, w));
        if r \<noteq> Ok then Some (r, s, w)
        else do {
          (r, s, w) \<leftarrow> dl_send m s w;
          if r \<noteq> Ok then Some (r, s, w)
          else Some (Ok, if \<not> has_more m then s\<lparr>receiving_reply := True, message_begins := True\<rparr> else s, w) } })"

subsection \<open>Receiving the reply\<close>

function recv_reply_pipe :: "nat option \<Rightarrow> fq \<Rightarrow> world \<Rightarrow> (vmsg option \<times> fq \<times> world) option" where
  "recv_reply_pipe reply q w =
     (case fq_recvpipe w_read q w of
        None \<Rightarrow> None
      | Some (None, q', w') \<Rightarrow> Some (None, q', w')
      | Some (Some (m, p), q', w') \<Rightarrow>
          if reply = None \<or> reply = Some p then Some (Some m, q', w') else recv_reply_pipe reply q' w')"
  by pat_completeness auto
termination
  by (relation "measure (\<lambda>(reply, q, w). fq_unread q w)") (auto intro: fq_recv_shrinks)

declare recv_reply_pipe.simps [simp del]

lemma recv_reply_unread:
  "recv_reply_pipe reply q w = Some (r, q', w') \<Longrightarrow>
    fq_unread q' w' \<le> fq_unread q w \<and> (r \<noteq> None \<longrightarrow> fq_unread q' w' < fq_unread q w)"
proof (induction reply q w rule: recv_reply_pipe.induct)
  case (1 reply q w)
  from 1(2) obtain r1 q1 w1 where r1: "fq_recvpipe w_read q w = Some (r1, q1, w1)"
    by (subst (asm) recv_reply_pipe.simps) (auto split: option.splits)
  note sh = fq_recv_unread [OF r1]
  show ?case
  proof (cases r1)
    case None
    with 1(2) r1 sh show ?thesis by (auto simp: recv_reply_pipe.simps [of reply q w])
  next
    case (Some mp)
    obtain m p where mp: "mp = (m, p)" by (cases mp)
    with Some sh have lt: "fq_unread q1 w1 < fq_unread q w" by simp
    show ?thesis
    proof (cases "reply = None \<or> reply = Some p")
      case True
      with 1(2) r1 Some mp lt show ?thesis by (auto simp: recv_reply_pipe.simps [of reply q w])
    next
      case False
      with 1(2) r1 Some mp have rec: "recv_reply_pipe reply q1 w1 = Some (r, q', w')"
        by (auto simp: recv_reply_pipe.simps [of reply q w])
      from 1(1) [OF r1 refl Some _ refl False rec] mp lt show ?thesis by auto
    qed
  qed
qed

text \<open>The loops that skip the rest of a message, lines 163 to 166 and 179 to 182.\<close>

function skip_reply :: "nat option \<Rightarrow> vmsg \<Rightarrow> fq \<Rightarrow> world \<Rightarrow> (fq \<times> world) option" where
  "skip_reply reply m q w =
     (if has_more m then
        (case recv_reply_pipe reply q w of
           Some (Some m', q', w') \<Rightarrow> skip_reply reply m' q' w'
         | _ \<Rightarrow> None)
      else Some (q, w))"
  by pat_completeness auto
termination
  by (relation "measure (\<lambda>(reply, m, q, w). fq_unread q w)") (auto dest: recv_reply_unread)

declare skip_reply.simps [simp del]

lemma skip_reply_unread: "skip_reply reply m q w = Some (q', w') \<Longrightarrow> fq_unread q' w' \<le> fq_unread q w"
proof (induction reply m q w rule: skip_reply.induct)
  case (1 reply m q w)
  show ?case
  proof (cases "has_more m")
    case True
    with 1(2) obtain m1 q1 w1 where r: "recv_reply_pipe reply q w = Some (Some m1, q1, w1)"
      "skip_reply reply m1 q1 w1 = Some (q', w')"
      by (subst (asm) skip_reply.simps) (auto split: option.splits prod.splits)
    from 1(1) [OF True r(1) refl refl refl r(2)] recv_reply_unread [OF r(1)] show ?thesis by simp
  qed (use 1(2) in \<open>simp add: skip_reply.simps [of reply m q w]\<close>)
qed

text \<open>
  One frame of the envelope: \<open>None\<close> in the result is \<open>EAGAIN\<close>, \<open>Some False\<close> that the message is
  not the reply and has been skipped.
\<close>

definition check_frame :: "nat option \<Rightarrow> (vmsg \<Rightarrow> bool) \<Rightarrow> fq \<Rightarrow> world \<Rightarrow> (bool option \<times> fq \<times> world) option" where
  "check_frame reply bad q w = do {
     (r, q, w) \<leftarrow> recv_reply_pipe reply q w;
     case r of
       None \<Rightarrow> Some (None, q, w)
     | Some m \<Rightarrow> if bad m then do { (q, w) \<leftarrow> skip_reply reply m q w; Some (Some False, q, w) }
         else Some (Some True, q, w) }"

lemma check_frame_unread: "check_frame reply bad q w = Some (Some b, q', w') \<Longrightarrow> fq_unread q' w' < fq_unread q w"
  by (auto simp: check_frame_def bind_eq_Some_conv split: option.splits if_splits
    dest!: recv_reply_unread skip_reply_unread)

definition bad_id :: "u32 \<Rightarrow> vmsg \<Rightarrow> bool" where
  "bad_id i m \<longleftrightarrow> \<not> has_more m \<or> length (vdata m) \<noteq> 4 \<or> vdata m \<noteq> native_u32 i"

definition bad_bottom :: "vmsg \<Rightarrow> bool" where
  "bad_bottom m \<longleftrightarrow> \<not> has_more m \<or> length (vdata m) \<noteq> 0"

text \<open>
  One turn of the loop through the envelope, lines 153 to 186; \<open>ido\<close> is the request id when its
  frame is enabled.
\<close>

definition reply_envelope :: "nat option \<Rightarrow> u32 option \<Rightarrow> fq \<Rightarrow> world \<Rightarrow> (bool option \<times> fq \<times> world) option" where
  "reply_envelope reply ido q w = do {
     (r, q, w) \<leftarrow> (case ido of None \<Rightarrow> Some (Some True, q, w) | Some i \<Rightarrow> check_frame reply (bad_id i) q w);
     if r = Some True then check_frame reply bad_bottom q w else Some (r, q, w) }"

lemma reply_envelope_unread:
  "reply_envelope reply ido q w = Some (Some False, q', w') \<Longrightarrow> fq_unread q' w' < fq_unread q w"
  by (auto simp: reply_envelope_def bind_eq_Some_conv split: option.splits if_splits dest!: check_frame_unread)

text \<open>The loop: true when the next part is the body, false for \<open>EAGAIN\<close>.\<close>

function reply_begins :: "nat option \<Rightarrow> u32 option \<Rightarrow> fq \<Rightarrow> world \<Rightarrow> (bool \<times> fq \<times> world) option" where
  "reply_begins reply ido q w =
     (case reply_envelope reply ido q w of
        None \<Rightarrow> None
      | Some (None, q', w') \<Rightarrow> Some (False, q', w')
      | Some (Some True, q', w') \<Rightarrow> Some (True, q', w')
      | Some (Some False, q', w') \<Rightarrow> reply_begins reply ido q' w')"
  by pat_completeness auto
termination
  by (relation "measure (\<lambda>(reply, ido, q, w). fq_unread q w)") (auto dest: reply_envelope_unread)

declare reply_begins.simps [simp del]

definition r_recv :: "req \<Rightarrow> world \<Rightarrow> ((sock_error + vmsg) \<times> req \<times> world) option" where
  "r_recv s w =
     (if \<not> receiving_reply s then Some (Inl EFSM, s, w)
      else do {
        (ok, q, w) \<leftarrow> (if message_begins s then
            reply_begins (reply_pipe s) (if request_id_frames_enabled s then Some (request_id s) else None) (dl_fq s) w
          else Some (True, dl_fq s, w));
        if \<not> ok then Some (Inl EAGAIN, s\<lparr>dl_fq := q\<rparr>, w)
        else do {
          let s = s\<lparr>message_begins := False\<rparr>;
          (r, q, w) \<leftarrow> recv_reply_pipe (reply_pipe s) q w;
          let s = s\<lparr>dl_fq := q\<rparr>;
          case r of
            None \<Rightarrow> Some (Inl EAGAIN, s, w)
          | Some m \<Rightarrow> Some (Inr m, if \<not> has_more m then s\<lparr>receiving_reply := False, message_begins := True\<rparr> else s, w) } })"

definition r_has_in :: "req \<Rightarrow> world \<Rightarrow> (bool \<times> req \<times> world) option" where
  "r_has_in s w = (if \<not> receiving_reply s then Some (False, s, w) else dl_has_in s w)"

definition r_has_out :: "req \<Rightarrow> world \<Rightarrow> (bool \<times> req \<times> world) option" where
  "r_has_out s w = (if receiving_reply s then Some (False, s, w) else dl_has_out s w)"

definition r_setsockopt :: "req_option \<Rightarrow> nat \<Rightarrow> int \<Rightarrow> req \<Rightarrow> bool \<times> req" where
  "r_setsockopt opt len val s =
     (let is_int = (len = 4) in
      if opt = REQ_CORRELATE \<and> is_int \<and> val \<ge> 0 then (True, s\<lparr>request_id_frames_enabled := (val \<noteq> 0)\<rparr>)
      else if opt = REQ_RELAXED \<and> is_int \<and> val \<ge> 0 then (True, s\<lparr>strict := (val = 0)\<rparr>)
      else dl_setsockopt opt len val s)"

definition r_pipe_terminated :: "byte list \<Rightarrow> nat \<Rightarrow> req \<Rightarrow> req option" where
  "r_pipe_terminated cred p s =
     (let s = (if reply_pipe s = Some p then s\<lparr>reply_pipe := None\<rparr> else s) in dl_pipe_terminated cred p s)"

subsection \<open>The session of a request socket\<close>

datatype req_state = Rs_bottom | Rs_request_id | Rs_body

text \<open>\<open>session_base_t::push_msg\<close> with the pipe of the session; a session without a pipe has \<open>None\<close>.\<close>

definition session_push_msg :: "nat option \<Rightarrow> vmsg \<Rightarrow> world \<Rightarrow> (rc \<times> world) option" where
  "session_push_msg p m w =
     (if vflags m AND command_flag \<noteq> 0 then Some (Ok, w)
      else case p of
        None \<Rightarrow> Some (Err EAGAIN, w)
      | Some p \<Rightarrow> do { (ok, w) \<leftarrow> w_write p m w; Some (if ok then Ok else Err EAGAIN, w) })"

definition rs_push_msg :: "nat option \<Rightarrow> vmsg \<Rightarrow> req_state \<Rightarrow> world \<Rightarrow> (rc \<times> req_state \<times> world) option" where
  "rs_push_msg p m st w =
     (let push = (\<lambda>st. do { (r, w) \<leftarrow> session_push_msg p m w; Some (r, st, w) }) in
      case st of
        Rs_bottom \<Rightarrow>
          if vflags m = more_flag \<and> length (vdata m) = 4 then push Rs_request_id
          else if vflags m = more_flag \<and> length (vdata m) = 0 then push Rs_body
          else Some (Err EFAULT, st, w)
      | Rs_request_id \<Rightarrow>
          if vflags m = more_flag \<and> length (vdata m) = 0 then push Rs_body else Some (Err EFAULT, st, w)
      | Rs_body \<Rightarrow>
          if vflags m = more_flag then push st
          else if vflags m = 0 then push Rs_bottom
          else Some (Err EFAULT, st, w))"

definition rs_reset :: "req_state \<Rightarrow> req_state" where
  "rs_reset st = Rs_bottom"

subsection \<open>Findings\<close>

text \<open>
  When the pipe of a request stops taking messages in the middle of it (here its peer
  terminates), the load balancer takes the written parts back and \<open>EAGAIN\<close> is returned, but the
  socket stays inside the request. The next attempt to send the part (a blocking send makes it
  by itself) goes to another pipe without the delimiter, and the socket then waits for a reply
  from the first pipe.
\<close>

definition two_pipes :: "(req \<times> world) option" where
  "two_pipes = do {
     (s, w) \<leftarrow> dl_attach_pipe 0 (new_req 7) world3;
     dl_attach_pipe 1 s w }"

theorem req_loses_delimiter:
  "do {
     (s, w) \<leftarrow> two_pipes;
     (r1, s, w) \<leftarrow> r_send (plain type_vsm more_flag [1]) s w;
     w \<leftarrow> w_process 0 Pipe_term w;
     (r2, s, w) \<leftarrow> r_send (plain type_vsm 0 [2]) s w;
     (r3, s, w) \<leftarrow> r_send (plain type_vsm 0 [2]) s w;
     Some ([r1, r2, r3], w_content 0 w, w_content 1 w, receiving_reply s, reply_pipe s) }
   = Some ([Ok, Err EAGAIN, Ok], (False, []), (False, [plain type_vsm 0 [2]]), True, Some 0)"
  by code_simp

text \<open>
  The session changes its state before it knows that the pipe takes the part. When the pipe is
  full, the engine offers the part again later; after a request id the second attempt is
  refused and the connection with the peer is closed.
\<close>

theorem req_session_refuses_retry:
  "do {
     let w = world3\<lparr>pends := (pends world3)(0 \<mapsto> (end_of 0)\<lparr>hwm := 1\<rparr>)\<rparr>;
     (r1, st, w) \<leftarrow> rs_push_msg (Some 0) bottom_msg Rs_bottom w;
     (r2, st, w) \<leftarrow> rs_push_msg (Some 0) (plain type_vsm 0 [1]) st w;
     (r3, st, w) \<leftarrow> rs_push_msg (Some 0) (id_msg 5) st w;
     w \<leftarrow> w_process 0 (Activate_write 1) w;
     (r4, st, w) \<leftarrow> rs_push_msg (Some 0) (id_msg 5) st w;
     Some [r1, r2, r3, r4] }
   = Some [Ok, Ok, Err EAGAIN, Err EFAULT]"
  by code_simp


subsection \<open>Sending a request\<close>

definition dealer_ready :: "'a dealer_scheme \<Rightarrow> world \<Rightarrow> bool" where
  "dealer_ready s w \<longleftrightarrow> calm w \<and> fq_ready (dl_fq s) w \<and> lb_ready can_write w_room (dl_lb s) w"

lemma dl_sendpipe_ok:
  fixes s :: "'a dealer_scheme"
  assumes "dealer_ready s w"
  obtains r l w' where "dl_sendpipe m s w = Some (r, s\<lparr>dl_lb := l\<rparr>, w')" "dealer_ready (s\<lparr>dl_lb := l\<rparr>) w'"
    "\<forall>x. can_write x w \<longrightarrow> can_write x w'"
    "\<forall>x. can_write x w \<longrightarrow> w_content x w' = (if r = Sent x then up_store m (w_content x w) else w_content x w)"
    "case r of Sent p \<Rightarrow> p \<in> set (lb_actives (dl_lb s)) \<and> w_room p w \<and> lb_more l = has_more m \<and>
        (lb_more (dl_lb s) \<longrightarrow> p = items (lb_pipes (dl_lb s)) ! lb_current (dl_lb s)) \<and>
        (has_more m \<longrightarrow> p = items (lb_pipes l) ! lb_current l)
      | Again \<Rightarrow> \<not> lb_more (dl_lb s) \<and> \<not> lb_more l \<and> (\<forall>x\<in>set (lb_actives (dl_lb s)). \<not> w_room x w)
      | Dropped \<Rightarrow> False"
    "\<forall>p. r = Sent p \<longrightarrow> \<not> has_more m \<longrightarrow> \<not> w_hidden p w'"
proof -
  note rdy = assms [unfolded dealer_ready_def]
  then have "lb_ready can_write w_room (dl_lb s) w" by simp
  obtain r l w' where
    *: "lb_sendpipe w_write w_rollback w_flush m (dl_lb s) w = Some (r, l, w')" "lb_ready can_write w_room l w'"
      "\<forall>x. can_write x w \<longrightarrow> can_write x w'"
      "\<forall>x. can_write x w \<longrightarrow> w_content x w' = (if r = Sent x then up_store m (w_content x w) else w_content x w)"
      "case r of Sent p \<Rightarrow> p \<in> set (lb_actives (dl_lb s)) \<and> w_room p w \<and> lb_more l = has_more m \<and>
        (lb_more (dl_lb s) \<longrightarrow> p = items (lb_pipes (dl_lb s)) ! lb_current (dl_lb s)) \<and>
        (has_more m \<longrightarrow> p = items (lb_pipes l) ! lb_current l)
      | Again \<Rightarrow> \<not> lb_more (dl_lb s) \<and> \<not> lb_more l \<and> (\<forall>x\<in>set (lb_actives (dl_lb s)). \<not> w_room x w)
      | Dropped \<Rightarrow> False" by (rule lb_parts.lb_sendpipe_content [OF \<open>lb_ready _ _ _ _\<close>, of m]) (rule that)
  note o = sendpipe_outward [OF *(1)]
  from o rdy fq_ready_outward [OF o] *(2) have "dealer_ready (s\<lparr>dl_lb := l\<rparr>) w'"
    by (simp add: dealer_ready_def outward_def)
  moreover have "dl_sendpipe m s w = Some (r, s\<lparr>dl_lb := l\<rparr>, w')" using *(1) by (simp add: dl_sendpipe_def)
  moreover have "\<forall>p. r = Sent p \<longrightarrow> \<not> has_more m \<longrightarrow> \<not> w_hidden p w'"
    using sendpipe_visible [of m "dl_lb s" w _ l w'] *(1) rdy by (auto simp: calm_def)
  ultimately show thesis using that *(3-5) by blast
qed

lemma dl_drain_ok:
  fixes s :: "'a dealer_scheme"
  assumes "dealer_ready s w"
  obtains ms q w' where "fq_drain (dl_fq s) w = Some (ms, q, w')" "dealer_ready (s\<lparr>dl_fq := q\<rparr>) w'"
    "\<forall>x. w_content x w' = w_content x w" "\<forall>x. can_write x w \<longrightarrow> can_write x w'" "\<not> fq_more q"
proof -
  note rdy = assms [unfolded dealer_ready_def]
  from fq_drain_ok rdy obtain ms q w' where d: "fq_drain (dl_fq s) w = Some (ms, q, w')" "fq_ready q w'" by blast
  note i = drain_inward [OF d(1)]
  with rdy have v: "calm w'" "\<And>x. map_option (out_view w') (pends w' x) = map_option (out_view w) (pends w x)"
    by (auto simp: inward_def)
  from lb_ready_inward [OF i] rdy d(2) v(1) have "dealer_ready (s\<lparr>dl_fq := q\<rparr>) w'" by (simp add: dealer_ready_def)
  with that [OF d(1)] same_out_view [OF v(2)] v(1) fq_drain_idle [OF d(1)] rdy show thesis by (simp add: can_write_def calm_def)
qed

definition reply_from :: "req \<Rightarrow> bool" where
  "reply_from s \<longleftrightarrow> reply_pipe s = None \<or> reply_pipe s = Some (items (fq_pipes (dl_fq s)) ! fq_current (dl_fq s))"

text \<open>
  The four phases: idle, inside a request (its pipe is the current one of the load balancer),
  before a reply, inside a reply.
\<close>

definition req_inv :: "req \<Rightarrow> world \<Rightarrow> bool" where
  "req_inv s w \<longleftrightarrow> dealer_ready s w \<and> (lb_more (dl_lb s) \<longleftrightarrow> \<not> receiving_reply s \<and> \<not> message_begins s) \<and>
     (lb_more (dl_lb s) \<longrightarrow> reply_pipe s = Some (items (lb_pipes (dl_lb s)) ! lb_current (dl_lb s))) \<and>
     (if receiving_reply s \<and> \<not> message_begins s then fq_more (dl_fq s) \<and> reply_from s
      else receiving_reply s \<or> \<not> message_begins s \<longrightarrow> \<not> fq_more (dl_fq s))"

text \<open>The frames before the first part of a request.\<close>

definition envelope :: "req \<Rightarrow> vmsg list" where
  "envelope s = (if request_id_frames_enabled s then [id_msg (request_id s + 1)] else []) @ [bottom_msg]"

lemma has_more_frames [simp]: "has_more (id_msg i)" "has_more bottom_msg"
  by (simp_all add: id_msg_def bottom_msg_def has_more_def plain_def)

text \<open>
  What sending some frames does: they all go to one pipe, which is then the current one, or
  nothing is sent and there was no room.
\<close>

definition frames_sent :: "vmsg list \<Rightarrow> req \<Rightarrow> world \<Rightarrow> nat \<Rightarrow> lb \<Rightarrow> world \<Rightarrow> bool" where
  "frames_sent ms s w p l w' \<longleftrightarrow> (\<forall>x. can_write x w \<longrightarrow> can_write x w') \<and>
     p \<in> set (lb_actives (dl_lb s)) \<and> w_room p w \<and> (lb_more (dl_lb s) \<longrightarrow> p = items (lb_pipes (dl_lb s)) ! lb_current (dl_lb s)) \<and>
     (lb_more l \<longrightarrow> p = items (lb_pipes l) ! lb_current l) \<and> (\<not> lb_more l \<longrightarrow> \<not> w_hidden p w') \<and>
     (\<forall>x. can_write x w \<longrightarrow> w_content x w' = (if x = p then fold up_store ms (w_content x w) else w_content x w))"

definition not_sent :: "req \<Rightarrow> world \<Rightarrow> lb \<Rightarrow> world \<Rightarrow> bool" where
  "not_sent s w l w' \<longleftrightarrow> (\<forall>x. can_write x w \<longrightarrow> can_write x w') \<and> \<not> lb_more (dl_lb s) \<and> \<not> lb_more l \<and>
     (\<forall>x\<in>set (lb_actives (dl_lb s)). \<not> w_room x w) \<and> (\<forall>x. can_write x w \<longrightarrow> w_content x w' = w_content x w)"

lemma part_ok:
  assumes "dealer_ready s w"
  shows "\<exists>r l w'. dl_sendpipe m s w = Some (r, s\<lparr>dl_lb := l\<rparr>, w') \<and> dealer_ready (s\<lparr>dl_lb := l\<rparr>) w' \<and>
    (case r of Sent p \<Rightarrow> frames_sent [m] s w p l w' \<and> lb_more l = has_more m | Again \<Rightarrow> not_sent s w l w' | Dropped \<Rightarrow> False)"
proof -
  obtain r l w' where
    *: "dl_sendpipe m s w = Some (r, s\<lparr>dl_lb := l\<rparr>, w')" "dealer_ready (s\<lparr>dl_lb := l\<rparr>) w'"
      "\<forall>x. can_write x w \<longrightarrow> can_write x w'"
      "\<forall>x. can_write x w \<longrightarrow> w_content x w' = (if r = Sent x then up_store m (w_content x w) else w_content x w)"
    and cs: "case r of Sent p \<Rightarrow> p \<in> set (lb_actives (dl_lb s)) \<and> w_room p w \<and> lb_more l = has_more m \<and>
        (lb_more (dl_lb s) \<longrightarrow> p = items (lb_pipes (dl_lb s)) ! lb_current (dl_lb s)) \<and>
        (has_more m \<longrightarrow> p = items (lb_pipes l) ! lb_current l)
      | Again \<Rightarrow> \<not> lb_more (dl_lb s) \<and> \<not> lb_more l \<and> (\<forall>x\<in>set (lb_actives (dl_lb s)). \<not> w_room x w)
      | Dropped \<Rightarrow> False" and vis: "\<forall>p. r = Sent p \<longrightarrow> \<not> has_more m \<longrightarrow> \<not> w_hidden p w'"
    by (rule dl_sendpipe_ok [OF assms(1), of m]) (rule that)
  show ?thesis
    using * cs vis by (intro exI [of _ r] exI [of _ l] exI [of _ w'])
      (cases r; auto simp: frames_sent_def not_sent_def)
qed

lemma frames_sent_append:
  assumes "frames_sent ms s w p l v" "lb_more l" "frames_sent ns (s'\<lparr>dl_lb := l\<rparr>) v q l' w'"
  shows "q = p \<and> frames_sent (ms @ ns) s w p l' w'"
  using assms by (auto simp: frames_sent_def)

lemma frames_sent_drain:
  assumes "frames_sent ms s w p l w1" "lb_more l" "\<forall>x. w_content x w' = w_content x w1" "\<forall>x. can_write x w1 \<longrightarrow> can_write x w'"
  shows "frames_sent ms s w p l w'"
proof -
  note f = assms(1) [unfolded frames_sent_def]
  have "w_content x w' = (if x = p then fold up_store ms (w_content x w) else w_content x w)" if "can_write x w" for x
    using f that spec [OF assms(3), of x] by simp
  moreover have "can_write x w'" if "can_write x w" for x using f that assms(4) by blast
  ultimately show ?thesis using f assms(2) unfolding frames_sent_def by blast
qed

lemma send_frame_ok:
  assumes "dealer_ready s w" "has_more m"
  shows "(\<exists>p l w'. send_frame m s w = Some (Ok, s\<lparr>dl_lb := l, reply_pipe := Some p\<rparr>, w') \<and>
      dealer_ready (s\<lparr>dl_lb := l\<rparr>) w' \<and> frames_sent [m] s w p l w' \<and> lb_more l) \<or>
    (\<exists>l w'. send_frame m s w = Some (Err EAGAIN, s\<lparr>dl_lb := l\<rparr>, w') \<and> dealer_ready (s\<lparr>dl_lb := l\<rparr>) w' \<and> not_sent s w l w')"
proof -
  from part_ok [OF assms(1), of m] obtain r l w' where
    *: "dl_sendpipe m s w = Some (r, s\<lparr>dl_lb := l\<rparr>, w')" "dealer_ready (s\<lparr>dl_lb := l\<rparr>) w'"
      "case r of Sent p \<Rightarrow> frames_sent [m] s w p l w' \<and> lb_more l = has_more m | Again \<Rightarrow> not_sent s w l w' | Dropped \<Rightarrow> False"
    by blast
  with assms(2) show ?thesis by (cases r) (auto simp: send_frame_def)
qed

lemma send_bottom_ok:
  assumes "dealer_ready s w"
  shows "(\<exists>p l q w'. send_bottom s w = Some (Ok, s\<lparr>dl_lb := l, reply_pipe := Some p, message_begins := False, dl_fq := q\<rparr>, w') \<and>
      dealer_ready (s\<lparr>dl_lb := l, dl_fq := q\<rparr>) w' \<and> frames_sent [bottom_msg] s w p l w' \<and> lb_more l \<and> \<not> fq_more q) \<or>
    (\<exists>l w'. send_bottom s w = Some (Err EAGAIN, s\<lparr>dl_lb := l\<rparr>, w') \<and> dealer_ready (s\<lparr>dl_lb := l\<rparr>) w' \<and> not_sent s w l w')"
  using send_frame_ok [OF assms has_more_frames(2)]
proof (elim disjE exE conjE, goal_cases)
  case (1 p l w1)
  let ?s = "s\<lparr>dl_lb := l, reply_pipe := Some p, message_begins := False\<rparr>"
  from 1(2) have rdy: "dealer_ready ?s w1" by (simp add: dealer_ready_def)
  obtain ms q w' where d: "fq_drain (dl_fq s) w1 = Some (ms, q, w')" "dealer_ready (?s\<lparr>dl_fq := q\<rparr>) w'"
    "\<forall>x. w_content x w' = w_content x w1" "\<forall>x. can_write x w1 \<longrightarrow> can_write x w'" "\<not> fq_more q"
    by (rule dl_drain_ok [OF rdy]) (auto intro: that)
  have "send_bottom s w = Some (Ok, ?s\<lparr>dl_fq := q\<rparr>, w')" using 1(1) d(1) by (simp add: send_bottom_def)
  moreover have "dealer_ready (s\<lparr>dl_lb := l, dl_fq := q\<rparr>) w'" using d(2) by (simp add: dealer_ready_def)
  moreover have "frames_sent [bottom_msg] s w p l w'" by (rule frames_sent_drain [OF 1(3,4) d(3,4)])
  ultimately show ?case using 1(4) d(5) by blast
next
  case (2 l w1)
  then show ?case by (auto simp: send_bottom_def)
qed

lemma begin_request_ok:
  assumes "dealer_ready s w" "\<not> lb_more (dl_lb s)"
  shows "\<exists>r s' w'. begin_request s w = Some (r, s', w') \<and> dealer_ready s' w' \<and>
    receiving_reply s' = receiving_reply s \<and>
    (if r = Ok then \<exists>p. reply_pipe s' = Some p \<and> frames_sent (envelope s) s w p (dl_lb s') w' \<and> lb_more (dl_lb s') \<and>
        \<not> fq_more (dl_fq s') \<and> \<not> message_begins s'
     else r = Err EAGAIN \<and> not_sent s w (dl_lb s') w' \<and> message_begins s' = message_begins s)"
proof (cases "request_id_frames_enabled s")
  case False
  let ?s = "s\<lparr>reply_pipe := None\<rparr>"
  have b: "begin_request s w = send_bottom ?s w" using False by (simp add: begin_request_def)
  have "dealer_ready ?s w" using assms(1) by (simp add: dealer_ready_def)
  from send_bottom_ok [OF this] show ?thesis
  proof (elim disjE exE conjE, goal_cases)
    case (1 p l q w')
    then show ?case unfolding b envelope_def
      by (intro exI conjI) (assumption, auto simp: dealer_ready_def frames_sent_def False)
  next
    case (2 l w')
    then show ?case unfolding b by (intro exI conjI) (assumption, auto simp: dealer_ready_def not_sent_def)
  qed
next
  case True
  let ?i = "request_id s + 1"
  let ?s = "s\<lparr>reply_pipe := None, request_id := ?i\<rparr>"
  have "dealer_ready ?s w" using assms(1) by (simp add: dealer_ready_def)
  from send_frame_ok [OF this has_more_frames(1) [of ?i]] show ?thesis
  proof (elim disjE exE conjE, goal_cases)
    case (1 p l w1)
    let ?t = "?s\<lparr>dl_lb := l, reply_pipe := Some p\<rparr>"
    from 1(2) have "dealer_ready ?t w1" by (simp add: dealer_ready_def)
    from send_bottom_ok [OF this] show ?case
    proof (elim disjE exE conjE, goal_cases)
      case b: (1 p2 l2 q w2)
      have "frames_sent [id_msg ?i] s w p l w1" using 1(3) by (simp add: frames_sent_def)
      moreover have "frames_sent [bottom_msg] (?t\<lparr>dl_lb := l\<rparr>) w1 p2 l2 w2" using b(3) by (simp add: frames_sent_def)
      ultimately have "p2 = p \<and> frames_sent ([id_msg ?i] @ [bottom_msg]) s w p l2 w2"
        by (rule frames_sent_append [OF _ 1(4)])
      with 1 b True show ?case
        by (intro exI [of _ Ok] exI [of _ "?t\<lparr>dl_lb := l2, reply_pipe := Some p2, message_begins := False, dl_fq := q\<rparr>"]
          exI [of _ w2]) (simp add: begin_request_def envelope_def dealer_ready_def)
    next
      case b: (2 l2 w2)
      with 1(4) show ?case by (simp add: not_sent_def)
    qed
  next
    case (2 l w1)
    with True show ?case
      by (intro exI [of _ "Err EAGAIN"] exI [of _ "?s\<lparr>dl_lb := l\<rparr>"] exI [of _ w1])
        (simp add: begin_request_def dealer_ready_def not_sent_def)
  qed
qed

text \<open>The frames of one call of \<open>xsend\<close>.\<close>

definition request_frames :: "vmsg \<Rightarrow> req \<Rightarrow> vmsg list" where
  "request_frames m s = (if message_begins s \<or> receiving_reply s then envelope s else []) @ [m]"

lemma r_send_begin:
  assumes "dealer_ready s w" "\<not> lb_more (dl_lb s)" "message_begins s" "\<not> receiving_reply s"
  shows "\<exists>r s' w'. r_send m s w = Some (r, s', w') \<and> req_inv s' w' \<and>
    (if r = Ok then \<exists>p. reply_pipe s' = Some p \<and> frames_sent (envelope s @ [m]) s w p (dl_lb s') w' \<and>
        receiving_reply s' = (\<not> has_more m) \<and> message_begins s' = (\<not> has_more m)
     else r = Err EAGAIN \<and> not_sent s w (dl_lb s') w' \<and> message_begins s' \<and> \<not> receiving_reply s')"
proof -
  from begin_request_ok [OF assms(1,2)] obtain r s1 w1 where
    b: "begin_request s w = Some (r, s1, w1)" "dealer_ready s1 w1" "receiving_reply s1 = receiving_reply s"
      "if r = Ok then \<exists>p. reply_pipe s1 = Some p \<and> frames_sent (envelope s) s w p (dl_lb s1) w1 \<and> lb_more (dl_lb s1) \<and>
        \<not> fq_more (dl_fq s1) \<and> \<not> message_begins s1
       else r = Err EAGAIN \<and> not_sent s w (dl_lb s1) w1 \<and> message_begins s1 = message_begins s" by blast
  show ?thesis
  proof (cases "r = Ok")
    case False
    with b assms(3,4) have "r_send m s w = Some (r, s1, w1)" "req_inv s1 w1"
      by (auto simp: r_send_def req_inv_def not_sent_def)
    with False b(3,4) assms(3,4) show ?thesis by (intro exI [of _ r] exI [of _ s1] exI [of _ w1]) simp
  next
    case True
    with b(4) obtain p where p: "reply_pipe s1 = Some p" "frames_sent (envelope s) s w p (dl_lb s1) w1"
      "lb_more (dl_lb s1)" "\<not> fq_more (dl_fq s1)" "\<not> message_begins s1" by auto
    from part_ok [OF b(2), of m] obtain x l w2 where
      x: "dl_sendpipe m s1 w1 = Some (x, s1\<lparr>dl_lb := l\<rparr>, w2)" "dealer_ready (s1\<lparr>dl_lb := l\<rparr>) w2"
        "case x of Sent p \<Rightarrow> frames_sent [m] s1 w1 p l w2 \<and> lb_more l = has_more m | Again \<Rightarrow> not_sent s1 w1 l w2 | Dropped \<Rightarrow> False"
      by blast
    with p(3) obtain p2 where p2: "x = Sent p2" "frames_sent [m] s1 w1 p2 l w2" "lb_more l = has_more m"
      by (cases x) (auto simp: not_sent_def)
    have "frames_sent [m] (s1\<lparr>dl_lb := dl_lb s1\<rparr>) w1 p2 l w2" using p2(2) by simp
    from frames_sent_append [OF p(2,3) this] have
      fs: "p2 = p" "frames_sent (envelope s @ [m]) s w p l w2" by auto
    let ?s = "if \<not> has_more m then s1\<lparr>dl_lb := l, receiving_reply := True, message_begins := True\<rparr> else s1\<lparr>dl_lb := l\<rparr>"
    have "r_send m s w = Some (Ok, ?s, w2)" using True b(1) x(1) p2(1) assms(3,4) by (simp add: r_send_def dl_send_def)
    moreover have "req_inv ?s w2"
      using x(2) p p2 fs b(3) assms(4) by (auto simp: req_inv_def dealer_ready_def frames_sent_def)
    ultimately show ?thesis using p(1,5) fs(2) b(3) assms(4)
      by (intro exI [of _ Ok] exI [of _ ?s] exI [of _ w2]) auto
  qed
qed

lemma r_send_continue:
  assumes "req_inv s w" "\<not> message_begins s" "\<not> receiving_reply s"
  shows "\<exists>s' w' p. r_send m s w = Some (Ok, s', w') \<and> req_inv s' w' \<and> reply_pipe s' = Some p \<and> reply_pipe s = Some p \<and>
    frames_sent [m] s w p (dl_lb s') w' \<and> receiving_reply s' = (\<not> has_more m) \<and> message_begins s' = (\<not> has_more m)"
proof -
  from assms have i: "dealer_ready s w" "lb_more (dl_lb s)" "\<not> fq_more (dl_fq s)"
    "reply_pipe s = Some (items (lb_pipes (dl_lb s)) ! lb_current (dl_lb s))" by (auto simp: req_inv_def)
  from part_ok [OF i(1), of m] obtain x l w2 where
    x: "dl_sendpipe m s w = Some (x, s\<lparr>dl_lb := l\<rparr>, w2)" "dealer_ready (s\<lparr>dl_lb := l\<rparr>) w2"
      "case x of Sent p \<Rightarrow> frames_sent [m] s w p l w2 \<and> lb_more l = has_more m | Again \<Rightarrow> not_sent s w l w2 | Dropped \<Rightarrow> False"
    by blast
  with i(2) obtain p where p: "x = Sent p" "frames_sent [m] s w p l w2" "lb_more l = has_more m"
    by (cases x) (auto simp: not_sent_def)
  let ?s = "if \<not> has_more m then s\<lparr>dl_lb := l, receiving_reply := True, message_begins := True\<rparr> else s\<lparr>dl_lb := l\<rparr>"
  have "r_send m s w = Some (Ok, ?s, w2)" using x(1) p(1) assms(2,3) by (simp add: r_send_def dl_send_def)
  moreover have "req_inv ?s w2" using x(2) p i assms(2,3) by (auto simp: req_inv_def dealer_ready_def frames_sent_def)
  moreover have "reply_pipe s = Some p" using p(2) i(2,4) by (auto simp: frames_sent_def)
  ultimately show ?thesis using p(2) assms(2,3) by (intro exI [of _ ?s] exI [of _ w2] exI [of _ p]) auto
qed

subsection \<open>What the reply is\<close>

text \<open>
  Everything that can be received, of the pipe of the request only (of every pipe when that one
  has gone), cut into messages.
\<close>

definition from_reply :: "nat option \<Rightarrow> fq \<Rightarrow> world \<Rightarrow> vmsg list" where
  "from_reply reply q w = (case fq_drain q w of None \<Rightarrow> []
     | Some (ms, _) \<Rightarrow> map fst (filter (\<lambda>(m, p). reply = None \<or> reply = Some p) ms))"

fun messages :: "vmsg list \<Rightarrow> vmsg list list" where
  "messages [] = []"
| "messages (m # ms) = (if has_more m then (case messages ms of [] \<Rightarrow> [[m]] | x # xs \<Rightarrow> (m # x) # xs) else [m] # messages ms)"

definition is_reply :: "u32 option \<Rightarrow> vmsg list \<Rightarrow> bool" where
  "is_reply ido ms = (case ido of
     None \<Rightarrow> 1 < length ms \<and> vdata (ms ! 0) = []
   | Some i \<Rightarrow> 2 < length ms \<and> vdata (ms ! 0) = native_u32 i \<and> vdata (ms ! 1) = [])"

definition reply_body :: "u32 option \<Rightarrow> vmsg list \<Rightarrow> vmsg list" where
  "reply_body ido ms = (case find (is_reply ido) (messages ms) of None \<Rightarrow> []
     | Some x \<Rightarrow> drop (case ido of None \<Rightarrow> 1 | Some _ \<Rightarrow> 2) x)"

definition reply_id :: "req \<Rightarrow> u32 option" where
  "reply_id s = (if request_id_frames_enabled s then Some (request_id s) else None)"

text \<open>The parts of the reply that the user has still to get.\<close>

definition expected :: "req \<Rightarrow> world \<Rightarrow> vmsg list" where
  "expected s w =
     (let ms = from_reply (reply_pipe s) (dl_fq s) w in
      if message_begins s then reply_body (reply_id s) ms else hd (messages ms))"

lemma from_reply_step:
  assumes "fq_ready q w" "fq_recvpipe w_read q w = Some (r, q', w')" "fq_ready q' w'"
  shows "from_reply reply q w = (case r of None \<Rightarrow> []
    | Some (m, p) \<Rightarrow> (if reply = None \<or> reply = Some p then [m] else []) @ from_reply reply q' w')"
proof -
  from fq_drain_ok [OF assms(3)] obtain ms e where "fq_drain q' w' = Some (ms, e)" by auto
  with assms(2) show ?thesis
    by (cases r) (auto simp: from_reply_def fq_drain.simps [of q w] split: prod.splits)
qed

lemma from_reply_inactive:
  assumes "fq_ready q w" "active_pipes q = []"
  shows "from_reply reply q w = []"
proof -
  from assms have "fq_active q = 0" by (auto simp: fq_ready_def fq_inv_def active_pipes_def)
  then show ?thesis by (simp add: from_reply_def fq_drain.simps [of q w] fq_recvpipe_def)
qed

text \<open>The queue is inside a message of the pipe of the request.\<close>

definition in_reply :: "nat option \<Rightarrow> fq \<Rightarrow> bool" where
  "in_reply reply q \<longleftrightarrow> fq_more q \<and> (reply = None \<or> reply = Some (items (fq_pipes q) ! fq_current q))"

lemma recv_reply_ok:
  assumes "fq_ready q w"
  shows "\<exists>r q' w'. recv_reply_pipe reply q w = Some (r, q', w') \<and> fq_ready q' w' \<and>
    (case r of None \<Rightarrow> \<not> in_reply reply q \<and> \<not> fq_more q' \<and> from_reply reply q w = [] \<and> from_reply reply q' w' = []
      | Some m \<Rightarrow> from_reply reply q w = m # from_reply reply q' w' \<and> (if has_more m then in_reply reply q' else \<not> fq_more q'))"
  using assms
proof (induction reply q w rule: recv_reply_pipe.induct)
  case (1 reply q w)
  obtain r q1 w1 where
    r: "fq_recvpipe w_read q w = Some (r, q1, w1)" "fq_ready q1 w1"
      "case r of None \<Rightarrow> active_pipes q1 = [] \<and> \<not> fq_more q \<and> \<not> fq_more q1
      | Some (m, p) \<Rightarrow> fq_more q1 = has_more m \<and> (fq_more q \<longrightarrow> p = items (fq_pipes q) ! fq_current q) \<and>
          (has_more m \<longrightarrow> items (fq_pipes q1) ! fq_current q1 = p)"
    by (rule fq_ready_recv [OF 1(2)]) (rule that)
  note st = from_reply_step [OF 1(2) r(1,2), of reply]
  show ?case
  proof (cases r)
    case None
    with r st from_reply_inactive [OF r(2)] show ?thesis
      by (auto simp: recv_reply_pipe.simps [of reply q w] in_reply_def)
  next
    case (Some mp)
    obtain m p where mp: "mp = (m, p)" by (cases mp)
    show ?thesis
    proof (cases "reply = None \<or> reply = Some p")
      case True
      with r Some mp st show ?thesis
        by (auto simp: recv_reply_pipe.simps [of reply q w] in_reply_def)
    next
      case False
      from 1(1) [OF r(1) refl Some _ refl False r(2)] mp obtain r' q' w' where
        "recv_reply_pipe reply q1 w1 = Some (r', q', w')" "fq_ready q' w'"
        "case r' of None \<Rightarrow> \<not> in_reply reply q1 \<and> \<not> fq_more q' \<and> from_reply reply q1 w1 = [] \<and> from_reply reply q' w' = []
        | Some m \<Rightarrow> from_reply reply q1 w1 = m # from_reply reply q' w' \<and> (if has_more m then in_reply reply q' else \<not> fq_more q')"
        by blast
      moreover have "recv_reply_pipe reply q w = recv_reply_pipe reply q1 w1"
        using False r(1) Some mp by (auto simp: recv_reply_pipe.simps [of reply q w])
      moreover have "\<not> in_reply reply q" using r(3) Some mp False by (auto simp: in_reply_def)
      ultimately show ?thesis using st Some mp False by (auto split: option.splits)
    qed
  qed
qed

lemma in_reply_next:
  assumes "fq_ready q w" "in_reply reply q"
  obtains m q' w' where "recv_reply_pipe reply q w = Some (Some m, q', w')" "fq_ready q' w'"
    "from_reply reply q w = m # from_reply reply q' w'" "if has_more m then in_reply reply q' else \<not> fq_more q'"
  using recv_reply_ok [OF assms(1), of reply] assms(2) that by (auto split: option.splits)

lemma skip_reply_ok:
  assumes "fq_ready q w" "if has_more m then in_reply reply q else \<not> fq_more q"
  shows "\<exists>q' w' xs. skip_reply reply m q w = Some (q', w') \<and> fq_ready q' w' \<and> \<not> fq_more q' \<and>
    messages (m # from_reply reply q w) = (m # xs) # messages (from_reply reply q' w') \<and> (\<not> has_more m \<longrightarrow> xs = [])"
  using assms
proof (induction reply m q w rule: skip_reply.induct)
  case (1 reply m q w)
  show ?case
  proof (cases "has_more m")
    case False
    with 1(2,3) show ?thesis by (auto simp: skip_reply.simps [of reply m q w])
  next
    case True
    with 1(3) have "in_reply reply q" by simp
    from in_reply_next [OF 1(2) this] obtain m1 q1 w1 where
      r: "recv_reply_pipe reply q w = Some (Some m1, q1, w1)" "fq_ready q1 w1"
        "from_reply reply q w = m1 # from_reply reply q1 w1" "if has_more m1 then in_reply reply q1 else \<not> fq_more q1" by blast
    from 1(1) [OF True r(1) refl refl refl r(2,4)] obtain q' w' xs where
      "skip_reply reply m1 q1 w1 = Some (q', w')" "fq_ready q' w'" "\<not> fq_more q'"
      "messages (m1 # from_reply reply q1 w1) = (m1 # xs) # messages (from_reply reply q' w')" by blast
    with True r(1,3) show ?thesis by (simp add: skip_reply.simps [of reply m q w])
  qed
qed

lemma check_frame_ok:
  assumes "fq_ready q w"
  shows "\<exists>r q' w'. check_frame reply bad q w = Some (r, q', w') \<and> fq_ready q' w' \<and>
    (case r of None \<Rightarrow> \<not> in_reply reply q \<and> \<not> fq_more q' \<and> from_reply reply q w = [] \<and> from_reply reply q' w' = []
      | Some True \<Rightarrow> (\<exists>m. from_reply reply q w = m # from_reply reply q' w' \<and> \<not> bad m \<and>
          (if has_more m then in_reply reply q' else \<not> fq_more q'))
      | Some False \<Rightarrow> \<not> fq_more q' \<and> (\<exists>m xs. hd (from_reply reply q w) = m \<and> bad m \<and> (\<not> has_more m \<longrightarrow> xs = []) \<and>
          from_reply reply q w \<noteq> [] \<and> messages (from_reply reply q w) = (m # xs) # messages (from_reply reply q' w')))"
proof -
  from recv_reply_ok [OF assms, of reply] obtain r q1 w1 where
    r: "recv_reply_pipe reply q w = Some (r, q1, w1)" "fq_ready q1 w1" and
    cs: "case r of None \<Rightarrow> \<not> in_reply reply q \<and> \<not> fq_more q1 \<and> from_reply reply q w = [] \<and> from_reply reply q1 w1 = []
      | Some m \<Rightarrow> from_reply reply q w = m # from_reply reply q1 w1 \<and> (if has_more m then in_reply reply q1 else \<not> fq_more q1)"
    by blast
  show ?thesis
  proof (cases r)
    case None
    with r cs show ?thesis by (simp add: check_frame_def)
  next
    case (Some m)
    show ?thesis
    proof (cases "bad m")
      case False
      with r cs Some show ?thesis by (simp add: check_frame_def)
    next
      case True
      from Some cs have "if has_more m then in_reply reply q1 else \<not> fq_more q1" by simp
      from skip_reply_ok [OF r(2) this] obtain q' w' xs where
        "skip_reply reply m q1 w1 = Some (q', w')" "fq_ready q' w'" "\<not> fq_more q'"
        "messages (m # from_reply reply q1 w1) = (m # xs) # messages (from_reply reply q' w')" "\<not> has_more m \<longrightarrow> xs = []" by blast
      with r cs Some True show ?thesis by (auto simp: check_frame_def)
    qed
  qed
qed

lemma messages_hd: "ms \<noteq> [] \<Longrightarrow> messages ms = hd (messages ms) # tl (messages ms) \<and> hd (messages ms) \<noteq> [] \<and> hd (hd (messages ms)) = hd ms"
  by (induction ms rule: messages.induct) (auto split: list.splits)

lemma reply_body_skip:
  assumes "messages ms = x # messages ms'" "\<not> is_reply ido x"
  shows "reply_body ido ms = reply_body ido ms'"
  using assms by (simp add: reply_body_def)

lemma not_reply:
  "bad_bottom a \<Longrightarrow> \<not> has_more a \<longrightarrow> xs = [] \<Longrightarrow> \<not> is_reply None (a # xs)"
  "bad_id i a \<Longrightarrow> \<not> has_more a \<longrightarrow> xs = [] \<Longrightarrow> \<not> is_reply (Some i) (a # xs)"
  "bad_bottom b \<Longrightarrow> \<not> has_more b \<longrightarrow> xs = [] \<Longrightarrow> \<not> is_reply (Some i) (a # b # xs)"
  by (auto simp: is_reply_def bad_bottom_def bad_id_def native_u32_def)

lemma in_reply_stream: "fq_ready q w \<Longrightarrow> in_reply reply q \<Longrightarrow> from_reply reply q w \<noteq> []"
  using in_reply_next [of q w reply] by (metis list.distinct(1))

text \<open>One message: not there, the reply, or skipped.\<close>

definition tried :: "nat option \<Rightarrow> u32 option \<Rightarrow> fq \<Rightarrow> world \<Rightarrow> bool option \<Rightarrow> fq \<Rightarrow> world \<Rightarrow> bool" where
  "tried reply ido q w r q' w' \<longleftrightarrow> fq_ready q' w' \<and>
    (case r of None \<Rightarrow> \<not> fq_more q' \<and> reply_body ido (from_reply reply q w) = [] \<and> from_reply reply q' w' = []
      | Some True \<Rightarrow> in_reply reply q' \<and> reply_body ido (from_reply reply q w) = hd (messages (from_reply reply q' w'))
      | Some False \<Rightarrow> \<not> fq_more q' \<and> reply_body ido (from_reply reply q w) = reply_body ido (from_reply reply q' w'))"

text \<open>The bottom frame after the frames \<open>as\<close>, which are right.\<close>

lemma bottom_tried:
  assumes "fq_ready q1 w1" "from_reply reply q w = as @ from_reply reply q1 w1" "\<forall>a\<in>set as. has_more a"
    "as \<noteq> [] \<longrightarrow> in_reply reply q1" "case ido of None \<Rightarrow> as = [] | Some i \<Rightarrow> \<exists>a. as = [a] \<and> vdata a = native_u32 i"
  shows "\<exists>r q' w'. check_frame reply bad_bottom q1 w1 = Some (r, q', w') \<and> tried reply ido q w r q' w'"
proof -
  from check_frame_ok [OF assms(1), of reply bad_bottom] obtain r q' w' where
    r: "check_frame reply bad_bottom q1 w1 = Some (r, q', w')" "fq_ready q' w'" and
    cs: "case r of None \<Rightarrow> \<not> in_reply reply q1 \<and> \<not> fq_more q' \<and> from_reply reply q1 w1 = [] \<and> from_reply reply q' w' = []
      | Some True \<Rightarrow> (\<exists>m. from_reply reply q1 w1 = m # from_reply reply q' w' \<and> \<not> bad_bottom m \<and>
          (if has_more m then in_reply reply q' else \<not> fq_more q'))
      | Some False \<Rightarrow> \<not> fq_more q' \<and> (\<exists>m xs. hd (from_reply reply q1 w1) = m \<and> bad_bottom m \<and> (\<not> has_more m \<longrightarrow> xs = []) \<and>
          from_reply reply q1 w1 \<noteq> [] \<and> messages (from_reply reply q1 w1) = (m # xs) # messages (from_reply reply q' w'))" by blast
  have pre: "messages (from_reply reply q w) = (as @ x) # xs" if "messages (from_reply reply q1 w1) = x # xs" for x xs
    unfolding assms(2) using assms(3) that by (induction as) auto
  consider "r = None" | (t) "r = Some True" | (f) "r = Some False" by (metis (full_types) option.exhaust)
  then have "tried reply ido q w r q' w'"
  proof cases
    case 1
    with cs assms(4,5) have "from_reply reply q w = []" by (cases ido) (auto simp: assms(2))
    with cs r(2) 1 show ?thesis by (simp add: tried_def reply_body_def)
  next
    case t
    with cs obtain m where m: "from_reply reply q1 w1 = m # from_reply reply q' w'" "\<not> bad_bottom m" "in_reply reply q'"
      by (auto simp: bad_bottom_def split: if_splits)
    let ?h = "hd (messages (from_reply reply q' w'))"
    from messages_hd [OF in_reply_stream [OF r(2) m(3)]] m(2) have "messages (from_reply reply q1 w1) =
      (m # ?h) # tl (messages (from_reply reply q' w'))" "?h \<noteq> []"
      by (auto simp: m(1) bad_bottom_def split: list.splits)
    from pre [OF this(1)] this(2) m(2) assms(5) have "reply_body ido (from_reply reply q w) = ?h"
      by (auto simp: reply_body_def is_reply_def bad_bottom_def nth_append split: option.splits)
    with r m t show ?thesis by (simp add: tried_def)
  next
    case f
    with cs obtain m xs where m: "bad_bottom m" "\<not> has_more m \<longrightarrow> xs = []" "\<not> fq_more q'"
      "messages (from_reply reply q1 w1) = (m # xs) # messages (from_reply reply q' w')" by auto
    have "\<not> is_reply ido (as @ m # xs)"
      using not_reply(1,3) [OF m(1,2)] assms(5) by (auto split: option.splits)
    from reply_body_skip [OF pre [OF m(4)] this] r f m(3) show ?thesis by (simp add: tried_def)
  qed
  with r show ?thesis by blast
qed

lemma reply_envelope_ok:
  assumes "fq_ready q w" "\<not> fq_more q"
  shows "\<exists>r q' w'. reply_envelope reply ido q w = Some (r, q', w') \<and> tried reply ido q w r q' w'"
proof (cases ido)
  case None
  with bottom_tried [of q w reply q w "[]" ido] assms show ?thesis by (simp add: reply_envelope_def)
next
  case (Some i)
  from check_frame_ok [OF assms(1), of reply "bad_id i"] obtain r q1 w1 where
    r: "check_frame reply (bad_id i) q w = Some (r, q1, w1)" "fq_ready q1 w1" and
    cs: "case r of None \<Rightarrow> \<not> in_reply reply q \<and> \<not> fq_more q1 \<and> from_reply reply q w = [] \<and> from_reply reply q1 w1 = []
      | Some True \<Rightarrow> (\<exists>m. from_reply reply q w = m # from_reply reply q1 w1 \<and> \<not> bad_id i m \<and>
          (if has_more m then in_reply reply q1 else \<not> fq_more q1))
      | Some False \<Rightarrow> \<not> fq_more q1 \<and> (\<exists>m xs. hd (from_reply reply q w) = m \<and> bad_id i m \<and> (\<not> has_more m \<longrightarrow> xs = []) \<and>
          from_reply reply q w \<noteq> [] \<and> messages (from_reply reply q w) = (m # xs) # messages (from_reply reply q1 w1))" by blast
  consider (n) "r = None" | (t) "r = Some True" | (f) "r = Some False" by (metis (full_types) option.exhaust)
  then show ?thesis
  proof cases
    case n
    with r cs Some show ?thesis by (simp add: reply_envelope_def tried_def reply_body_def)
  next
    case t
    with cs obtain m where m: "from_reply reply q w = [m] @ from_reply reply q1 w1" "\<not> bad_id i m" "in_reply reply q1"
      by (auto simp: bad_id_def split: if_splits)
    have "\<exists>a. [m] = [a] \<and> vdata a = native_u32 i" "has_more m" using m(2) by (auto simp: bad_id_def)
    with bottom_tried [OF r(2) m(1), of ido] m(3) Some r(1) t show ?thesis
      by (simp add: reply_envelope_def)
  next
    case f
    with cs obtain m xs where m: "bad_id i m" "\<not> has_more m \<longrightarrow> xs = []" "\<not> fq_more q1"
      "messages (from_reply reply q w) = (m # xs) # messages (from_reply reply q1 w1)" by auto
    from reply_body_skip [OF m(4) not_reply(2) [OF m(1,2)]] r f m(3) Some show ?thesis
      by (simp add: reply_envelope_def tried_def)
  qed
qed

lemma reply_begins_ok:
  assumes "fq_ready q w" "\<not> fq_more q"
  shows "\<exists>ok q' w'. reply_begins reply ido q w = Some (ok, q', w') \<and> tried reply ido q w (if ok then Some True else None) q' w'"
  using assms
proof (induction reply ido q w rule: reply_begins.induct)
  case (1 reply ido q w)
  from reply_envelope_ok [OF 1(2,3), of reply ido] obtain r q1 w1 where
    r: "reply_envelope reply ido q w = Some (r, q1, w1)" "tried reply ido q w r q1 w1" by blast
  consider (n) "r = None" | (t) "r = Some True" | (f) "r = Some False" by (metis (full_types) option.exhaust)
  then show ?case
  proof cases
    case n
    with r show ?thesis by (intro exI [of _ False]) (simp add: reply_begins.simps [of reply ido q w])
  next
    case t
    with r show ?thesis by (intro exI [of _ True]) (simp add: reply_begins.simps [of reply ido q w])
  next
    case f
    with r(2) have s: "fq_ready q1 w1" "\<not> fq_more q1" and
      b: "reply_body ido (from_reply reply q w) = reply_body ido (from_reply reply q1 w1)" by (auto simp: tried_def)
    from 1(1) [OF r(1) refl f _ refl s] obtain ok q' w' where
      "reply_begins reply ido q1 w1 = Some (ok, q', w')" "tried reply ido q1 w1 (if ok then Some True else None) q' w'" by auto
    with r(1) f b show ?thesis by (auto simp: reply_begins.simps [of reply ido q w] tried_def split: if_splits)
  qed
qed

lemma recv_reply_inward: "recv_reply_pipe reply q w = Some (r, q', w') \<Longrightarrow> inward w w'"
proof (induction reply q w arbitrary: r rule: recv_reply_pipe.induct)
  case (1 reply q w)
  from 1(2) obtain x q1 w1 where x: "fq_recvpipe w_read q w = Some (x, q1, w1)"
    by (subst (asm) recv_reply_pipe.simps) (auto split: option.splits)
  note i = recvpipe_inward [OF x]
  show ?case
  proof (cases x)
    case None
    with 1(2) x i show ?thesis by (simp add: recv_reply_pipe.simps [of reply q w])
  next
    case (Some mp)
    obtain m p where mp: "mp = (m, p)" by (cases mp)
    show ?thesis
    proof (cases "reply = None \<or> reply = Some p")
      case True
      with 1(2) x Some mp i show ?thesis by (auto simp: recv_reply_pipe.simps [of reply q w])
    next
      case False
      with 1(2) x Some mp have "recv_reply_pipe reply q1 w1 = Some (r, q', w')"
        by (auto simp: recv_reply_pipe.simps [of reply q w])
      from 1(1) [OF x refl Some _ refl False this] mp i show ?thesis using inward_trans by blast
    qed
  qed
qed

lemma skip_reply_inward: "skip_reply reply m q w = Some (q', w') \<Longrightarrow> inward w w'"
proof (induction reply m q w rule: skip_reply.induct)
  case (1 reply m q w)
  show ?case
  proof (cases "has_more m")
    case True
    with 1(2) obtain m1 q1 w1 where r: "recv_reply_pipe reply q w = Some (Some m1, q1, w1)"
      "skip_reply reply m1 q1 w1 = Some (q', w')"
      by (subst (asm) skip_reply.simps) (auto split: option.splits prod.splits)
    from 1(1) [OF True r(1) refl refl refl r(2)] recv_reply_inward [OF r(1)] show ?thesis using inward_trans by blast
  qed (use 1(2) inward_refl in \<open>simp add: skip_reply.simps [of reply m q w]\<close>)
qed

lemma check_frame_inward: "check_frame reply bad q w = Some (r, q', w') \<Longrightarrow> inward w w'"
  using inward_trans [OF recv_reply_inward skip_reply_inward] recv_reply_inward
  by (fastforce simp: check_frame_def bind_eq_Some_conv split: option.splits if_splits)

lemma reply_begins_inward: "reply_begins reply ido q w = Some (ok, q', w') \<Longrightarrow> inward w w'"
proof (induction reply ido q w rule: reply_begins.induct)
  case (1 reply ido q w)
  from 1(2) obtain r q1 w1 where r: "reply_envelope reply ido q w = Some (r, q1, w1)"
    by (subst (asm) reply_begins.simps) (auto split: option.splits)
  have i: "inward w w1"
    using r check_frame_inward inward_trans [OF check_frame_inward check_frame_inward] inward_refl
    by (fastforce simp: reply_envelope_def bind_eq_Some_conv split: option.splits if_splits)
  show ?case
  proof (cases "r = Some False")
    case True
    with 1(2) r have "reply_begins reply ido q1 w1 = Some (ok, q', w')" by (simp add: reply_begins.simps [of reply ido q w])
    from 1(1) [OF r refl True _ refl this] i show ?thesis using inward_trans by auto
  qed (use 1(2) r i in \<open>auto simp: reply_begins.simps [of reply ido q w] split: option.splits bool.splits\<close>)
qed

lemma dealer_ready_inward:
  fixes s :: "'a dealer_scheme"
  assumes "dealer_ready s w" "inward w w'" "fq_ready q w'"
  shows "dealer_ready (s\<lparr>dl_fq := q\<rparr>) w'"
  using assms lb_ready_inward [OF assms(2)] by (simp add: dealer_ready_def inward_def)

text \<open>One part of the body.\<close>

lemma body_part_ok:
  assumes "req_inv s w" "receiving_reply s" "fq_ready q1 w1" "in_reply (reply_pipe s) q1" "inward w w1"
  shows "\<exists>m q2 w2. recv_reply_pipe (reply_pipe s) q1 w1 = Some (Some m, q2, w2) \<and>
    req_inv (if \<not> has_more m then s\<lparr>dl_fq := q2, receiving_reply := False, message_begins := True\<rparr>
      else s\<lparr>dl_fq := q2, message_begins := False\<rparr>) w2 \<and>
    hd (messages (from_reply (reply_pipe s) q1 w1)) =
      m # (if has_more m then hd (messages (from_reply (reply_pipe s) q2 w2)) else [])"
proof -
  from in_reply_next [OF assms(3,4)] obtain m q2 w2 where
    m: "recv_reply_pipe (reply_pipe s) q1 w1 = Some (Some m, q2, w2)" "fq_ready q2 w2"
      "from_reply (reply_pipe s) q1 w1 = m # from_reply (reply_pipe s) q2 w2"
      "if has_more m then in_reply (reply_pipe s) q2 else \<not> fq_more q2" by blast
  from assms(1,2) have i: "dealer_ready s w" "\<not> lb_more (dl_lb s)" by (auto simp: req_inv_def)
  from dealer_ready_inward [OF i(1) inward_trans [OF assms(5) recv_reply_inward [OF m(1)]] m(2)]
  have "dealer_ready (s\<lparr>dl_fq := q2\<rparr>) w2" .
  with i(2) assms(2) m(4) have "req_inv (if \<not> has_more m then s\<lparr>dl_fq := q2, receiving_reply := False, message_begins := True\<rparr>
      else s\<lparr>dl_fq := q2, message_begins := False\<rparr>) w2"
    by (auto simp: req_inv_def dealer_ready_def in_reply_def reply_from_def)
  moreover have "messages (from_reply (reply_pipe s) q2 w2) \<noteq> []" if "has_more m"
    using that m(4) messages_hd [OF in_reply_stream [OF m(2)]] by (metis list.distinct(1))
  then have "hd (messages (from_reply (reply_pipe s) q1 w1)) =
      m # (if has_more m then hd (messages (from_reply (reply_pipe s) q2 w2)) else [])"
    using m(3) by (auto split: list.splits)
  ultimately show ?thesis using m(1) by blast
qed

lemma r_recv_ok:
  assumes "req_inv s w" "receiving_reply s"
  shows "\<exists>r s' w'. r_recv s w = Some (r, s', w') \<and> req_inv s' w' \<and>
    (case r of
       Inl e \<Rightarrow> e = EAGAIN \<and> expected s w = [] \<and> message_begins s \<and> receiving_reply s' \<and> message_begins s'
     | Inr m \<Rightarrow> expected s w = m # (if has_more m then expected s' w' else []) \<and>
         receiving_reply s' = has_more m \<and> message_begins s' = (\<not> has_more m))"
proof -
  note inv = assms(1) [unfolded req_inv_def]
  let ?p = "reply_pipe s"
  have rdy: "dealer_ready s w" "fq_ready (dl_fq s) w" using inv by (auto simp: dealer_ready_def)
  show ?thesis
  proof (cases "message_begins s")
    case False
    with inv assms(2) have "in_reply ?p (dl_fq s)" by (auto simp: in_reply_def reply_from_def)
    from body_part_ok [OF assms rdy(2) this inward_refl] obtain m q2 w2 where
      m: "recv_reply_pipe ?p (dl_fq s) w = Some (Some m, q2, w2)"
      "req_inv (if \<not> has_more m then s\<lparr>dl_fq := q2, receiving_reply := False, message_begins := True\<rparr>
        else s\<lparr>dl_fq := q2, message_begins := False\<rparr>) w2"
      "hd (messages (from_reply ?p (dl_fq s) w)) = m # (if has_more m then hd (messages (from_reply ?p q2 w2)) else [])"
      by blast
    with False assms(2) show ?thesis
      by (intro exI [of _ "Inr m"] exI [of _ "if \<not> has_more m then s\<lparr>dl_fq := q2, receiving_reply := False, message_begins := True\<rparr>
        else s\<lparr>dl_fq := q2, message_begins := False\<rparr>"] exI [of _ w2]) (auto simp: r_recv_def expected_def)
  next
    case True
    with inv assms(2) have "\<not> fq_more (dl_fq s)" by simp
    from reply_begins_ok [OF rdy(2) this, of ?p "reply_id s"] obtain ok q1 w1 where
      b: "reply_begins ?p (reply_id s) (dl_fq s) w = Some (ok, q1, w1)"
        "tried ?p (reply_id s) (dl_fq s) w (if ok then Some True else None) q1 w1" by blast
    note iw = reply_begins_inward [OF b(1)]
    have b1: "reply_begins ?p (if request_id_frames_enabled s then Some (request_id s) else None) (dl_fq s) w = Some (ok, q1, w1)"
      using b(1) by (simp add: reply_id_def)
    show ?thesis
    proof (cases ok)
      case False
      with b(2) have t: "fq_ready q1 w1" "\<not> fq_more q1" "reply_body (reply_id s) (from_reply ?p (dl_fq s) w) = []"
        by (auto simp: tried_def)
      have "req_inv (s\<lparr>dl_fq := q1\<rparr>) w1"
        using dealer_ready_inward [OF rdy(1) iw t(1)] inv True assms(2) t(2) by (simp add: req_inv_def)
      with False True assms(2) t(3) b1 show ?thesis by (simp add: r_recv_def expected_def)
    next
      case ok: True
      with b(2) have t: "fq_ready q1 w1" "in_reply ?p q1"
        "reply_body (reply_id s) (from_reply ?p (dl_fq s) w) = hd (messages (from_reply ?p q1 w1))"
        by (auto simp: tried_def)
      from body_part_ok [OF assms t(1,2) iw] obtain m q2 w2 where
        m: "recv_reply_pipe ?p q1 w1 = Some (Some m, q2, w2)"
        "req_inv (if \<not> has_more m then s\<lparr>dl_fq := q2, receiving_reply := False, message_begins := True\<rparr>
          else s\<lparr>dl_fq := q2, message_begins := False\<rparr>) w2"
        "hd (messages (from_reply ?p q1 w1)) = m # (if has_more m then hd (messages (from_reply ?p q2 w2)) else [])"
        by blast
      with ok True assms(2) t(3) b1 show ?thesis
        by (intro exI [of _ "Inr m"] exI [of _ "if \<not> has_more m then s\<lparr>dl_fq := q2, receiving_reply := False, message_begins := True\<rparr>
          else s\<lparr>dl_fq := q2, message_begins := False\<rparr>"] exI [of _ w2]) (auto simp: r_recv_def expected_def)
    qed
  qed
qed

subsection \<open>Properties\<close>

text \<open>
  C28: As long as no pipe is about to end and the pipe of an unfinished request keeps room for its next part
  (\<open>req_inv\<close>, which sends and receives keep), a request is sent whole, to one pipe, with its envelope: when the last request has been
  answered (or the strict mode is off), the first part goes with the request id (if enabled)
  and the empty bottom frame to an active pipe with room, whose reply is then awaited, the
  later parts follow it to the same pipe, and after the last one the pipe is flushed, so that its peer can see the whole
  request; nothing else is written anywhere. If no active pipe
  has room, \<open>EAGAIN\<close> is returned and nothing is sent; while a reply is awaited in strict mode,
  \<open>EFSM\<close> is returned and nothing changes. When the pipe of a request ends in its middle, the rest is not sent whole:
  \<open>req_loses_delimiter\<close>.
\<close>

theorem req_sends_whole_request:
  assumes "req_inv s w"
  shows "\<exists>r s' w'. r_send m s w = Some (r, s', w') \<and> req_inv s' w' \<and>
    (if receiving_reply s \<and> strict s then r = Err EFSM \<and> s' = s \<and> w' = w
     else if r = Ok then receiving_reply s' = (\<not> has_more m) \<and> message_begins s' = (\<not> has_more m) \<and>
       (\<exists>p. reply_pipe s' = Some p \<and> w_room p w \<and>
         (if message_begins s \<or> receiving_reply s then p \<in> set (lb_actives (dl_lb s)) else reply_pipe s = Some p) \<and>
         (\<forall>x. can_write x w \<longrightarrow> w_content x w' =
            (if x = p then fold up_store (request_frames m s) (w_content x w) else w_content x w)) \<and>
         (\<not> has_more m \<longrightarrow> \<not> w_hidden p w'))
     else r = Err EAGAIN \<and> (message_begins s \<or> receiving_reply s) \<and> message_begins s' \<and> \<not> receiving_reply s' \<and>
       (\<forall>x\<in>set (lb_actives (dl_lb s)). \<not> w_room x w) \<and> (\<forall>x. can_write x w \<longrightarrow> w_content x w' = w_content x w))"
proof -
  consider (efsm) "receiving_reply s" "strict s" | (again) "receiving_reply s" "\<not> strict s"
    | (start) "\<not> receiving_reply s" "message_begins s" | (inside) "\<not> receiving_reply s" "\<not> message_begins s" by blast
  then show ?thesis
  proof cases
    case efsm
    with assms show ?thesis by (simp add: r_send_def)
  next
    case again
    let ?s = "s\<lparr>receiving_reply := False, message_begins := True\<rparr>"
    from assms again have "dealer_ready ?s w" "\<not> lb_more (dl_lb ?s)" by (auto simp: req_inv_def dealer_ready_def)
    from r_send_begin [OF this, of m] obtain r s' w' where
      "r_send m ?s w = Some (r, s', w')" "req_inv s' w'"
      "if r = Ok then \<exists>p. reply_pipe s' = Some p \<and> frames_sent (envelope ?s @ [m]) ?s w p (dl_lb s') w' \<and>
        receiving_reply s' = (\<not> has_more m) \<and> message_begins s' = (\<not> has_more m)
       else r = Err EAGAIN \<and> not_sent ?s w (dl_lb s') w' \<and> message_begins s' \<and> \<not> receiving_reply s'" by auto
    moreover have "r_send m s w = r_send m ?s w" using again by (simp add: r_send_def)
    moreover have "envelope ?s = envelope s" by (simp add: envelope_def)
    ultimately show ?thesis using again
      by (intro exI [of _ r] exI [of _ s'] exI [of _ w'])
        (auto simp: frames_sent_def not_sent_def request_frames_def req_inv_def split: if_splits)
  next
    case start
    with assms have "dealer_ready s w" "\<not> lb_more (dl_lb s)" by (auto simp: req_inv_def)
    from r_send_begin [OF this start(2,1), of m] obtain r s' w' where
      "r_send m s w = Some (r, s', w')" "req_inv s' w'"
      "if r = Ok then \<exists>p. reply_pipe s' = Some p \<and> frames_sent (envelope s @ [m]) s w p (dl_lb s') w' \<and>
        receiving_reply s' = (\<not> has_more m) \<and> message_begins s' = (\<not> has_more m)
       else r = Err EAGAIN \<and> not_sent s w (dl_lb s') w' \<and> message_begins s' \<and> \<not> receiving_reply s'" by auto
    with start show ?thesis
      by (intro exI [of _ r] exI [of _ s'] exI [of _ w'])
        (auto simp: frames_sent_def not_sent_def request_frames_def req_inv_def split: if_splits)
  next
    case inside
    from r_send_continue [OF assms inside(2,1), of m] obtain s' w' p where
      "r_send m s w = Some (Ok, s', w')" "req_inv s' w'" "reply_pipe s' = Some p" "reply_pipe s = Some p"
      "frames_sent [m] s w p (dl_lb s') w'" "receiving_reply s' = (\<not> has_more m)" "message_begins s' = (\<not> has_more m)" by blast
    with inside show ?thesis
      by (intro exI [of _ Ok] exI [of _ s'] exI [of _ w']) (auto simp: frames_sent_def request_frames_def req_inv_def)
  qed
qed

text \<open>A request socket with three pipes, and the same with a reply on its way.\<close>

definition req3 :: req where
  "req3 = (new_req 7)\<lparr>dl_fq := fq3, dl_lb := lb3\<rparr>"

lemma req3_inv: "req_inv req3 world3"
  using calm3 fq3_ready lb3_inv fq3_inv(4) can_write3
  by (auto simp: req_inv_def req3_def new_req_def new_dealer_def dealer.defs dealer_ready_def lb_ready_def)

theorem req_sends_whole_request_witness:
  "\<exists>s' w'. r_send (plain type_vsm 0 [1]) req3 world3 = Some (Ok, s', w') \<and> req_inv s' w' \<and> receiving_reply s' \<and>
    reply_pipe s' \<noteq> None"
proof -
  from req_sends_whole_request [OF req3_inv, of "plain type_vsm 0 [1]"] obtain r s' w' where
    r: "r_send (plain type_vsm 0 [1]) req3 world3 = Some (r, s', w')" "req_inv s' w'"
      "r = Ok \<longrightarrow> receiving_reply s' \<and> reply_pipe s' \<noteq> None" by (auto simp: req3_def new_req_def new_dealer_def dealer.defs split: if_splits)
  have "case r_send (plain type_vsm 0 [1]) req3 world3 of Some (r, _) \<Rightarrow> r = Ok | None \<Rightarrow> False" by code_simp
  with r show ?thesis by auto
qed

text \<open>
  C29: The user gets exactly the reply, as long as no pipe is about to end and the pipe of a reply that is being read can be read on
  (\<open>req_inv\<close>, which is kept): of everything received from the pipe of the request (from any pipe, when the socket knows no
  pipe to expect the reply from), the
  body of the first message that has the right envelope (the request id if enabled, then an
  empty frame, then at least one part), part by part; \<open>EAGAIN\<close> only when there is no such
  message, \<open>EFSM\<close> only when no reply is awaited. After its last part a new request can be sent.
  The loops end and no assertion fails.
\<close>

theorem req_receives_reply:
  assumes "req_inv s w"
  shows "\<exists>r s' w'. r_recv s w = Some (r, s', w') \<and> req_inv s' w' \<and>
    (if \<not> receiving_reply s then r = Inl EFSM \<and> s' = s \<and> w' = w
     else case r of
       Inl e \<Rightarrow> e = EAGAIN \<and> expected s w = [] \<and> message_begins s \<and> receiving_reply s' \<and> message_begins s'
     | Inr m \<Rightarrow> expected s w = m # (if has_more m then expected s' w' else []) \<and>
         receiving_reply s' = has_more m \<and> message_begins s' = (\<not> has_more m))"
proof (cases "receiving_reply s")
  case True
  from r_recv_ok [OF assms True] True show ?thesis by simp
next
  case False
  with assms show ?thesis by (simp add: r_recv_def)
qed

definition reply_world :: world where
  "reply_world = incoming 0 [plain type_vsm more_flag [8], plain type_vsm 0 [], bottom_msg, plain type_vsm 0 [9]] world3"

definition waiting_req :: req where
  "waiting_req = req3\<lparr>receiving_reply := True, reply_pipe := Some 0\<rparr>"

lemma waiting_inv: "req_inv waiting_req reply_world"
proof -
  let ?ms = "[plain type_vsm more_flag [8], plain type_vsm 0 [], bottom_msg, plain type_vsm 0 [9]]"
  have "msgs_ok world3" "upipes (wnet world3) (10 + 0) \<noteq> None" "pends world3 0 = Some (end_of 0)"
    by (simp add: msgs_ok_def inbox3, simp add: world3_def net3_def, simp add: pends3)
  note in_ok = incoming_ok [OF world3_ok this, of ?ms]
  have i: "world_ok reply_world" "msgs_ok reply_world"
    unfolding reply_world_def by (rule in_ok; simp add: bottom_msg_def)+
  have pe: "pends reply_world = pends world3" by (simp add: reply_world_def incoming_def)
  have ib: "inbox x reply_world = ?ms \<or> inbox x reply_world = []" for x
    by (simp add: reply_world_def inbox_incoming inbox3)
  have wh: "whole ?ms" "\<forall>m\<in>set ?ms. \<not> v_is_delimiter m" by (auto simp: bottom_msg_def)
  have "whole_world reply_world" unfolding whole_world_def using ib wh(1) by (metis whole.simps(1))
  moreover have "calm reply_world"
  proof -
    have "\<not> v_is_delimiter m" if "m \<in> set (inbox x reply_world)" for x m
      using ib [of x] wh(2) that by auto
    then show ?thesis using calm3 i(1) by (simp add: calm_def pe)
  qed
  moreover have "w_room x reply_world = w_room x world3" for x by (simp add: w_room_def pe)
  ultimately show ?thesis
    using i lb3_inv fq3_inv can_write3 pends3 pe
    by (auto simp: req_inv_def waiting_req_def req3_def new_req_def new_dealer_def dealer.defs dealer_ready_def lb_ready_def
      fq_ready_def can_read_def can_write_def)
qed

theorem req_receives_reply_witness:
  "\<exists>s' w'. r_recv waiting_req reply_world = Some (Inr (plain type_vsm 0 [9]), s', w') \<and> req_inv s' w' \<and>
    expected waiting_req reply_world = [plain type_vsm 0 [9]] \<and> \<not> receiving_reply s'"
proof -
  have "case r_recv waiting_req reply_world of Some (r, _) \<Rightarrow> r = Inr (plain type_vsm 0 [9]) | None \<Rightarrow> False" by code_simp
  with req_receives_reply [OF waiting_inv] show ?thesis
    by (auto simp: waiting_req_def split: prod.splits)
qed

text \<open>The parts of one connection, pushed one after the other as long as they are taken.\<close>

primrec rs_push_all :: "nat option \<Rightarrow> vmsg list \<Rightarrow> req_state \<Rightarrow> world \<Rightarrow> (bool \<times> req_state \<times> world) option" where
  "rs_push_all p [] st w = Some (True, st, w)"
| "rs_push_all p (m # ms) st w = do {
     (r, st, w) \<leftarrow> rs_push_msg p m st w;
     if r = Ok then rs_push_all p ms st w else Some (False, st, w) }"

text \<open>An optional request id, an empty frame and a body.\<close>

definition reply_shape :: "vmsg list \<Rightarrow> bool" where
  "reply_shape x = (case x of
     a # b # ys \<Rightarrow> vdata a = [] \<or> length (vdata a) = 4 \<and> vdata b = [] \<and> ys \<noteq> []
   | _ \<Rightarrow> False)"

text \<open>The states of the session as a reader of whole messages.\<close>

fun rs_next :: "vmsg \<Rightarrow> req_state \<Rightarrow> req_state option" where
  "rs_next m Rs_bottom = (if has_more m \<and> length (vdata m) = 4 then Some Rs_request_id
     else if has_more m \<and> vdata m = [] then Some Rs_body else None)"
| "rs_next m Rs_request_id = (if has_more m \<and> vdata m = [] then Some Rs_body else None)"
| "rs_next m Rs_body = Some (if has_more m then Rs_body else Rs_bottom)"

primrec rs_reads :: "vmsg list \<Rightarrow> req_state \<Rightarrow> bool" where
  "rs_reads [] st = (st = Rs_bottom)"
| "rs_reads (m # ms) st = (case rs_next m st of None \<Rightarrow> False | Some st \<Rightarrow> rs_reads ms st)"

definition whole_messages :: "vmsg list \<Rightarrow> bool" where
  "whole_messages ms \<longleftrightarrow> ms = [] \<or> \<not> has_more (last ms)"

lemma messages_Cons: "ms \<noteq> [] \<Longrightarrow> \<exists>a ys xs. messages ms = (a # ys) # xs"
  using messages_hd [of ms] by (metis list.collapse)

lemma rs_reads_messages:
  "rs_reads ms Rs_bottom \<longleftrightarrow> whole_messages ms \<and> (\<forall>x\<in>set (messages ms). reply_shape x)"
  "rs_reads ms Rs_body \<longleftrightarrow> ms \<noteq> [] \<and> whole_messages ms \<and> (\<forall>x\<in>set (tl (messages ms)). reply_shape x)"
  "rs_reads ms Rs_request_id \<longleftrightarrow> ms \<noteq> [] \<and> whole_messages ms \<and> 1 < length (hd (messages ms)) \<and>
     vdata (hd (hd (messages ms))) = [] \<and> (\<forall>x\<in>set (tl (messages ms)). reply_shape x)"
proof (induction ms)
  case Nil
  {
    case 1
    show ?case by (simp add: whole_messages_def)
  next
    case 2
    show ?case by simp
  next
    case 3
    show ?case by simp
  }
next
  case (Cons m ms)
  have wm: "whole_messages (m # ms) \<longleftrightarrow> (if ms = [] then \<not> has_more m else whole_messages ms)"
    by (simp add: whole_messages_def)
  {
    case 1
    show ?case
    proof (cases "ms = []")
      case False
      from messages_Cons [OF this] obtain a ys xs where "messages ms = (a # ys) # xs" by blast
      with Cons False show ?thesis by (auto simp: wm reply_shape_def)
    qed (simp add: whole_messages_def reply_shape_def)
  next
    case 2
    show ?case
    proof (cases "ms = []")
      case False
      from messages_Cons [OF this] obtain a ys xs where "messages ms = (a # ys) # xs" by blast
      with Cons False show ?thesis by (auto simp: wm)
    qed (simp add: whole_messages_def)
  next
    case 3
    show ?case
    proof (cases "ms = []")
      case False
      from messages_Cons [OF this] obtain a ys xs where "messages ms = (a # ys) # xs" by blast
      with Cons False show ?thesis by (auto simp: wm)
    qed (simp add: whole_messages_def)
  }
qed

text \<open>A pipe without a high watermark takes everything.\<close>

definition unlimited :: "nat \<Rightarrow> world \<Rightarrow> bool" where
  "unlimited p w \<longleftrightarrow> world_ok w \<and> (\<exists>e. pends w p = Some e \<and> out_active e \<and> state e = Active \<and> hwm e \<le> 0)"

lemma unlimited_write:
  assumes "unlimited p w"
  shows "\<exists>w'. w_write p m w = Some (True, w') \<and> unlimited p w'"
proof -
  from assms obtain e where e: "world_ok w" "pends w p = Some e" "out_active e" "state e = Active" "hwm e \<le> 0"
    by (auto simp: unlimited_def)
  then have chk: "p_check_write e = (True, e)" by (simp add: p_check_write_def p_check_hwm_def)
  have cw: "can_write p w" using e by (simp add: can_write_def)
  from lb_pipes.write_ok [OF cw, of m] cw obtain b w' where
    r: "w_write p m w = Some (b, w')" "b = w_room p w" "world_ok w'" by (auto simp: can_write_def)
  have b using r(2) chk e(2) by (simp add: w_room_def)
  with r(1) e(2) obtain e' n where n: "p_write m e (wnet w) = Some (True, e', n)" "w' = w\<lparr>pends := (pends w)(p \<mapsto> e'), wnet := n\<rparr>"
    unfolding w_write_def by (auto simp: bind_eq_Some_conv)
  with chk have "out_active e' = out_active e \<and> state e' = state e \<and> hwm e' = hwm e"
    by (auto simp: p_write_def Let_def bind_eq_Some_conv split: if_splits)
  with r n(2) \<open>b\<close> e show ?thesis by (auto simp: unlimited_def)
qed

lemma rs_push_ok:
  assumes "unlimited p w" "vflags m = more_flag \<or> vflags m = 0"
  shows "\<exists>r st' w'. rs_push_msg (Some p) m st w = Some (r, st', w') \<and> unlimited p w' \<and>
    (case rs_next m st of None \<Rightarrow> r = Err EFAULT \<and> st' = st | Some t \<Rightarrow> r = Ok \<and> st' = t)"
proof -
  from unlimited_write [OF assms(1), of m] obtain w' where w: "w_write p m w = Some (True, w')" "unlimited p w'" by blast
  have f: "vflags m AND command_flag = 0" "has_more m \<longleftrightarrow> vflags m = more_flag"
    using assms(2) by (auto simp: has_more_def)
  show ?thesis
    using w f assms by (cases st) (auto simp: rs_push_msg_def session_push_msg_def)
qed

text \<open>
  C30: The session of a request socket is an exact filter: with a pipe that has no high
  watermark, a stream of parts is taken to its end, and leaves the session between two
  messages, exactly when it consists of whole messages each of which is an optional frame of
  four bytes, an empty frame and a body of at least one part.
\<close>

theorem req_session_filters:
  assumes "unlimited p w" "\<forall>m\<in>set ms. vflags m = more_flag \<or> vflags m = 0"
  shows "\<exists>ok st w'. rs_push_all (Some p) ms Rs_bottom w = Some (ok, st, w') \<and>
    (ok \<and> st = Rs_bottom \<longleftrightarrow> (ms = [] \<or> \<not> has_more (last ms)) \<and> (\<forall>x\<in>set (messages ms). reply_shape x))"
proof -
  have "\<exists>ok t w'. rs_push_all (Some p) ms st w = Some (ok, t, w') \<and> (ok \<and> t = Rs_bottom \<longleftrightarrow> rs_reads ms st)"
    if "unlimited p w" "\<forall>m\<in>set ms. vflags m = more_flag \<or> vflags m = 0" for ms st w
    using that
  proof (induction ms arbitrary: st w)
    case Nil
    then show ?case by (intro exI [of _ True]) simp
  next
    case (Cons m ms)
    from Cons.prems have "vflags m = more_flag \<or> vflags m = 0" by simp
    from rs_push_ok [OF Cons.prems(1) this, of st] obtain r st' w1 where
      r: "rs_push_msg (Some p) m st w = Some (r, st', w1)" "unlimited p w1"
        "case rs_next m st of None \<Rightarrow> r = Err EFAULT \<and> st' = st | Some t \<Rightarrow> r = Ok \<and> st' = t" by blast
    from Cons.IH [OF r(2), of st'] Cons.prems(2) r show ?case
      by (cases "rs_next m st") auto
  qed
  from this [OF assms, of Rs_bottom] show ?thesis by (simp add: rs_reads_messages whole_messages_def)
qed

theorem req_session_filters_witness:
  "\<exists>w'. rs_push_all (Some 0) [id_msg 5, bottom_msg, plain type_vsm 0 [1]] Rs_bottom world3 = Some (True, Rs_bottom, w')"
proof -
  have "unlimited 0 world3" by (simp add: unlimited_def world3_ok pends3 end_of_def new_pipe_def)
  moreover have "\<forall>m\<in>set [id_msg 5, bottom_msg, plain type_vsm 0 [1]]. vflags m = more_flag \<or> vflags m = 0"
    by (simp add: id_msg_def bottom_msg_def plain_def)
  ultimately obtain ok st w' where
    r: "rs_push_all (Some 0) [id_msg 5, bottom_msg, plain type_vsm 0 [1]] Rs_bottom world3 = Some (ok, st, w')"
    and eq: "ok \<and> st = Rs_bottom \<longleftrightarrow> (\<forall>x\<in>set (messages [id_msg 5, bottom_msg, plain type_vsm 0 [1]]). reply_shape x)"
    using req_session_filters [of 0 world3 "[id_msg 5, bottom_msg, plain type_vsm 0 [1]]"] by auto
  have "reply_shape [id_msg 5, bottom_msg, plain type_vsm 0 [1]]" by code_simp
  with eq have "ok \<and> st = Rs_bottom" by simp
  with r show ?thesis by simp
qed

end
