(* ===== verification/Router.thy ===== *)
theory Router
  imports Socket_Sends Wire "HOL-Library.AList"
begin

unbundle bit_operations_syntax

text \<open>
  \<open>router_t\<close> of \<open>src/zmqsrc/src/router.cpp\<close>: every peer has an identity, received messages are
  given the identity of their sender as a first part, and the first part of a message to be
  sent names the peer it goes to. \<open>outpipes\<close> is the map from identities to pipes; its order is
  not used. A pipe that is being terminated is passed with its end, which is deleted after the
  call. The metadata of messages is not represented.
\<close>

record router =
  rt_fq :: fq
  prefetched :: bool
  identity_sent :: bool
  prefetched_id :: vmsg
  prefetched_msg :: vmsg
  current_in :: "nat option"
  terminate_current_in :: bool
  more_in :: bool
  anonymous_pipes :: "nat set"
  outpipes :: "(byte list \<times> nat \<times> bool) list"
  current_out :: "nat option"
  more_out :: bool
  next_rid :: u32
  mandatory :: bool
  raw_socket :: bool
  probe_router :: bool
  handover :: bool
  opt_raw_socket :: bool
  opt_recv_identity :: bool
  connect_rid :: "byte list"

text \<open>The first generated identity is random, an argument.\<close>

definition new_router :: "u32 \<Rightarrow> router" where
  "new_router rid = \<lparr>rt_fq = new_fq, prefetched = False, identity_sent = False, prefetched_id = empty_msg,
     prefetched_msg = empty_msg, current_in = None, terminate_current_in = False, more_in = False,
     anonymous_pipes = {}, outpipes = [], current_out = None, more_out = False, next_rid = rid,
     mandatory = False, raw_socket = False, probe_router = False, handover = False,
     opt_raw_socket = False, opt_recv_identity = True, connect_rid = []\<rparr>"

definition rt_destroy :: "router \<Rightarrow> unit option" where
  "rt_destroy s = do { zmq_assert (anonymous_pipes s = {}); zmq_assert (outpipes s = []) }"

subsection \<open>Identities\<close>

text \<open>\<open>buf\<close> of \<open>identify_peer\<close>: a zero and the next number.\<close>

definition auto_identity :: "router \<Rightarrow> byte list \<times> router" where
  "auto_identity s = (0 # put_uint32 [0, 0, 0, 0] (next_rid s), s\<lparr>next_rid := next_rid s + 1\<rparr>)"

definition w_set_identity :: "nat \<Rightarrow> byte list \<Rightarrow> world \<Rightarrow> world option" where
  "w_set_identity p i w = do { e \<leftarrow> pends w p; Some (w\<lparr>pends := (pends w)(p \<mapsto> p_set_identity i e)\<rparr>) }"

text \<open>\<open>outpipes.insert\<close> and the assertion that the identity was not there.\<close>

definition add_outpipe :: "byte list \<Rightarrow> nat \<Rightarrow> bool \<Rightarrow> router \<Rightarrow> router option" where
  "add_outpipe i p act s = do {
     zmq_assert (map_of (outpipes s) i = None);
     Some (s\<lparr>outpipes := (i, p, act) # outpipes s\<rparr>) }"

text \<open>The new connection takes over the identity of \<open>p\<close>, lines 475 to 495.\<close>

definition take_over :: "byte list \<Rightarrow> nat \<Rightarrow> bool \<Rightarrow> router \<Rightarrow> world \<Rightarrow> (router \<times> world) option" where
  "take_over identity p act s w = do {
     let (new_identity, s) = auto_identity s;
     w \<leftarrow> w_set_identity p new_identity w;
     s \<leftarrow> add_outpipe new_identity p act s;
     let s = s\<lparr>outpipes := AList.delete identity (outpipes s)\<rparr>;
     if current_in s = Some p then Some (s\<lparr>terminate_current_in := True\<rparr>, w)
     else do { w \<leftarrow> w_terminate True p w; Some (s, w) } }"

text \<open>The identity of a new peer; \<open>None\<close> in the result when it is not known or refused.\<close>

definition peer_identity :: "nat \<Rightarrow> router \<Rightarrow> world \<Rightarrow> (byte list option \<times> router \<times> world) option" where
  "peer_identity p s w =
     (if connect_rid s \<noteq> [] then do {
        let identity = connect_rid s;
        let s = s\<lparr>connect_rid := []\<rparr>;
        zmq_assert (map_of (outpipes s) identity = None);
        Some (Some identity, s, w) }
      else if opt_raw_socket s then let (identity, s) = auto_identity s in Some (Some identity, s, w)
      else do {
        (r, w) \<leftarrow> w_read p w;
        case r of
          None \<Rightarrow> Some (None, s, w)
        | Some m \<Rightarrow>
            if vdata m = [] then let (identity, s) = auto_identity s in Some (Some identity, s, w)
            else let identity = vdata m in
              (case map_of (outpipes s) identity of
                 None \<Rightarrow> Some (Some identity, s, w)
               | Some (q, act) \<Rightarrow>
                   if \<not> handover s then Some (None, s, w)
                   else do { (s, w) \<leftarrow> take_over identity q act s w; Some (Some identity, s, w) }) })"

definition identify_peer :: "nat \<Rightarrow> router \<Rightarrow> world \<Rightarrow> (bool \<times> router \<times> world) option" where
  "identify_peer p s w = do {
     (r, s, w) \<leftarrow> peer_identity p s w;
     case r of
       None \<Rightarrow> Some (False, s, w)
     | Some identity \<Rightarrow> do {
         w \<leftarrow> w_set_identity p identity w;
         s \<leftarrow> add_outpipe identity p True s;
         Some (True, s, w) } }"

subsection \<open>Pipes and options\<close>

definition rt_fq_attach :: "nat \<Rightarrow> router \<Rightarrow> router option" where
  "rt_fq_attach p s = do { q \<leftarrow> fq_attach p (rt_fq s); Some (s\<lparr>rt_fq := q\<rparr>) }"

definition rt_attach_pipe :: "nat \<Rightarrow> router \<Rightarrow> world \<Rightarrow> (router \<times> world) option" where
  "rt_attach_pipe p s w = do {
     w \<leftarrow> (if probe_router s then do { (_, w) \<leftarrow> w_write p empty_msg w; w_flush p w } else Some w);
     (ok, s, w) \<leftarrow> identify_peer p s w;
     if ok then do { s \<leftarrow> rt_fq_attach p s; Some (s, w) }
     else Some (s\<lparr>anonymous_pipes := insert p (anonymous_pipes s)\<rparr>, w) }"

definition rt_read_activated :: "nat \<Rightarrow> router \<Rightarrow> world \<Rightarrow> (router \<times> world) option" where
  "rt_read_activated p s w =
     (if p \<notin> anonymous_pipes s then do { q \<leftarrow> fq_activated p (rt_fq s); Some (s\<lparr>rt_fq := q\<rparr>, w) }
      else do {
        (ok, s, w) \<leftarrow> identify_peer p s w;
        if ok then do { s \<leftarrow> rt_fq_attach p (s\<lparr>anonymous_pipes := anonymous_pipes s - {p}\<rparr>); Some (s, w) }
        else Some (s, w) })"

definition rt_pipe_terminated :: "nat \<Rightarrow> pipe_t \<Rightarrow> router \<Rightarrow> router option" where
  "rt_pipe_terminated p e s =
     (if p \<in> anonymous_pipes s then Some (s\<lparr>anonymous_pipes := anonymous_pipes s - {p}\<rparr>)
      else do {
        zmq_assert (map_of (outpipes s) (p_identity e) \<noteq> None);
        let s = s\<lparr>outpipes := AList.delete (p_identity e) (outpipes s)\<rparr>;
        q \<leftarrow> fq_pipe_terminated (p_credential e) p (rt_fq s);
        let s = s\<lparr>rt_fq := q\<rparr>;
        Some (if current_out s = Some p then s\<lparr>current_out := None\<rparr> else s) })"

text \<open>The first entry of the pipe becomes active.\<close>

definition rt_write_activated :: "nat \<Rightarrow> router \<Rightarrow> router option" where
  "rt_write_activated p s =
     (case find (\<lambda>(i, q, act). q = p) (outpipes s) of
        None \<Rightarrow> None
      | Some (i, q, act) \<Rightarrow> do {
          zmq_assert (\<not> act);
          Some (s\<lparr>outpipes := AList.update i (p, True) (outpipes s)\<rparr>) })"

datatype router_option = CONNECT_RID | ROUTER_RAW | ROUTER_MANDATORY | ROUTER_PROBE | ROUTER_HANDOVER | No_router_option

text \<open>\<open>val\<close> is the \<open>int\<close> of the option when it has four bytes; the result is false for \<open>EINVAL\<close>.\<close>

definition rt_setsockopt :: "router_option \<Rightarrow> byte list \<Rightarrow> int \<Rightarrow> router \<Rightarrow> bool \<times> router" where
  "rt_setsockopt opt optval val s =
     (let is_int = (length optval = 4) in
      if opt = CONNECT_RID then (if optval \<noteq> [] then (True, s\<lparr>connect_rid := optval\<rparr>) else (False, s))
      else if opt = No_router_option \<or> \<not> (is_int \<and> val \<ge> 0) then (False, s)
      else (True,
        if opt = ROUTER_RAW then
          let s = s\<lparr>raw_socket := (val \<noteq> 0)\<rparr> in
          if raw_socket s then s\<lparr>opt_recv_identity := False, opt_raw_socket := True\<rparr> else s
        else if opt = ROUTER_MANDATORY then s\<lparr>mandatory := (val \<noteq> 0)\<rparr>
        else if opt = ROUTER_PROBE then s\<lparr>probe_router := (val \<noteq> 0)\<rparr>
        else s\<lparr>handover := (val \<noteq> 0)\<rparr>))"

subsection \<open>Sending\<close>

text \<open>The first part names the peer, lines 198 to 238.\<close>

definition rt_route :: "vmsg \<Rightarrow> router \<Rightarrow> world \<Rightarrow> (rc \<times> router \<times> world) option" where
  "rt_route m s w = do {
     zmq_assert (current_out s = None);
     if has_more m then
       let s = s\<lparr>more_out := True\<rparr> in
       (case map_of (outpipes s) (vdata m) of
          Some (p, act) \<Rightarrow> do {
            (ok, w) \<leftarrow> w_check_write p w;
            if ok then Some (Ok, s\<lparr>current_out := Some p\<rparr>, w)
            else
              let s = s\<lparr>outpipes := AList.update (vdata m) (p, False) (outpipes s)\<rparr> in
              Some (if mandatory s then (Err EAGAIN, s\<lparr>more_out := False\<rparr>, w) else (Ok, s, w)) }
        | None \<Rightarrow> Some (if mandatory s then (Err EHOSTUNREACH, s\<lparr>more_out := False\<rparr>, w) else (Ok, s, w)))
     else Some (Ok, s, w) }"

definition rt_send :: "vmsg \<Rightarrow> router \<Rightarrow> world \<Rightarrow> (rc \<times> router \<times> world) option" where
  "rt_send m s w =
     (if \<not> more_out s then rt_route m s w
      else
        let m = (if opt_raw_socket s then m\<lparr>vflags := vflags m AND NOT more_flag\<rparr> else m);
            s = s\<lparr>more_out := has_more m\<rparr> in
        (case current_out s of
           None \<Rightarrow> Some (Ok, s, w)
         | Some p \<Rightarrow>
             if raw_socket s \<and> vdata m = [] then do {
               w \<leftarrow> w_terminate False p w;
               Some (Ok, s\<lparr>current_out := None\<rparr>, w) }
             else do {
               (ok, w) \<leftarrow> w_write p m w;
               if \<not> ok then Some (Ok, s\<lparr>current_out := None\<rparr>, w)
               else if \<not> more_out s then do { w \<leftarrow> w_flush p w; Some (Ok, s\<lparr>current_out := None\<rparr>, w) }
               else Some (Ok, s, w) }))"

definition rt_rollback :: "router \<Rightarrow> world \<Rightarrow> (router \<times> world) option" where
  "rt_rollback s w =
     (case current_out s of
        None \<Rightarrow> Some (s, w)
      | Some p \<Rightarrow> do { w \<leftarrow> w_rollback p w; Some (s\<lparr>current_out := None, more_out := False\<rparr>, w) })"

definition rt_has_out :: "router \<Rightarrow> bool" where "rt_has_out s = True"

subsection \<open>Receiving\<close>

text \<open>Lines 313 to 320 and 384 to 392: identities that come after a reconnection are skipped.\<close>

function recv_payload :: "fq \<Rightarrow> world \<Rightarrow> ((vmsg \<times> nat) option \<times> fq \<times> world) option" where
  "recv_payload q w =
     (case fq_recvpipe w_read q w of
        None \<Rightarrow> None
      | Some (None, q', w') \<Rightarrow> Some (None, q', w')
      | Some (Some (m, p), q', w') \<Rightarrow> if v_is_identity m then recv_payload q' w' else Some (Some (m, p), q', w'))"
  by pat_completeness auto
termination
  by (relation "measure (\<lambda>(q, w). fq_unread q w)") (auto intro: fq_recv_shrinks)

declare recv_payload.simps [simp del]

text \<open>The end of a received message, lines 303 to 309 and 331 to 337.\<close>

definition message_received :: "router \<Rightarrow> world \<Rightarrow> (router \<times> world) option" where
  "message_received s w =
     (if \<not> more_in s then do {
        (s, w) \<leftarrow> (if terminate_current_in s then do {
            p \<leftarrow> current_in s;
            w \<leftarrow> w_terminate True p w;
            Some (s\<lparr>terminate_current_in := False\<rparr>, w) }
          else Some (s, w));
        Some (s\<lparr>current_in := None\<rparr>, w) }
      else Some (s, w))"

definition identity_msg :: "nat \<Rightarrow> world \<Rightarrow> vmsg option" where
  "identity_msg p w = do { e \<leftarrow> pends w p; Some ((sized_msg (p_identity e))\<lparr>vflags := more_flag\<rparr>) }"

definition rt_recv :: "router \<Rightarrow> world \<Rightarrow> (vmsg option \<times> router \<times> world) option" where
  "rt_recv s w =
     (if prefetched s then do {
        let (m, s) = (if \<not> identity_sent s
          then (prefetched_id s, s\<lparr>prefetched_id := empty_msg, identity_sent := True\<rparr>)
          else (prefetched_msg s, s\<lparr>prefetched_msg := empty_msg, prefetched := False\<rparr>));
        (s, w) \<leftarrow> message_received (s\<lparr>more_in := has_more m\<rparr>) w;
        Some (Some m, s, w) }
      else do {
        (r, q, w) \<leftarrow> recv_payload (rt_fq s) w;
        let s = s\<lparr>rt_fq := q\<rparr>;
        case r of
          None \<Rightarrow> Some (None, s, w)
        | Some (m, p) \<Rightarrow>
            if more_in s then do {
              (s, w) \<leftarrow> message_received (s\<lparr>more_in := has_more m\<rparr>) w;
              Some (Some m, s, w) }
            else do {
              i \<leftarrow> identity_msg p w;
              Some (Some i, s\<lparr>prefetched_msg := m, prefetched := True, current_in := Some p, identity_sent := True\<rparr>, w) } })"

definition rt_has_in :: "router \<Rightarrow> world \<Rightarrow> (bool \<times> router \<times> world) option" where
  "rt_has_in s w =
     (if more_in s then Some (True, s, w)
      else if prefetched s then Some (True, s, w)
      else do {
        (r, q, w) \<leftarrow> recv_payload (rt_fq s) w;
        let s = s\<lparr>rt_fq := q\<rparr>;
        case r of
          None \<Rightarrow> Some (False, s, w)
        | Some (m, p) \<Rightarrow> do {
            i \<leftarrow> identity_msg p w;
            Some (True, s\<lparr>prefetched_msg := m, prefetched_id := i, prefetched := True, identity_sent := False,
              current_in := Some p\<rparr>, w) } })"

definition rt_get_credential :: "router \<Rightarrow> world \<Rightarrow> byte list" where
  "rt_get_credential s w = fq_get_credential (w_credential w) (rt_fq s)"

subsection \<open>Findings\<close>

text \<open>Three peers that have sent an identity (empty for a generated one) and these messages.\<close>

definition id_part :: "byte list \<Rightarrow> vmsg" where
  "id_part i = (sized_msg i)\<lparr>vflags := identity_flag\<rparr>"

definition three_routes :: "router \<Rightarrow> vmsg list \<Rightarrow> vmsg list \<Rightarrow> vmsg list \<Rightarrow> (router \<times> world) option" where
  "three_routes s a b c = do {
     let w = incoming 0 a (incoming 1 b (incoming 2 c world3));
     (s, w) \<leftarrow> rt_attach_pipe 0 s w;
     (s, w) \<leftarrow> rt_attach_pipe 1 s w;
     rt_attach_pipe 2 s w }"

text \<open>
  A peer may choose an identity that starts with a zero. If it is the next one to be generated,
  the assertion in \<open>identify_peer\<close> fails when the next peer without an identity connects.
\<close>

theorem router_identity_collision:
  "Option.is_none (three_routes (new_router 5) [id_part [0, 0, 0, 0, 5]] [id_part []] [id_part []])"
  by code_simp

text \<open>
  A write that fails inside a message (here because the high watermark is lowered between two
  parts) does not make the entry of the pipe inactive, as the failing \<open>check_write\<close> of a first
  part does; when the pipe becomes writable again, the assertion of \<open>xwrite_activated\<close> fails.
\<close>

theorem router_aborts_on_reactivation:
  "do {
     (s, w) \<leftarrow> three_routes (new_router 5) [id_part [65]] [id_part [66]] [id_part [67]];
     let w = w\<lparr>pends := (pends w)(0 := map_option (p_set_hwms 10 10) (pends w 0))\<rparr>;
     (r, s, w) \<leftarrow> rt_send (plain type_vsm more_flag [65]) s w;
     (r, s, w) \<leftarrow> rt_send (plain type_vsm 0 [1]) s w;
     (r, s, w) \<leftarrow> rt_send (plain type_vsm more_flag [65]) s w;
     (r1, s, w) \<leftarrow> rt_send (plain type_vsm more_flag [2]) s w;
     let w = w\<lparr>pends := (pends w)(0 := map_option (p_set_hwms 1 1) (pends w 0))\<rparr>;
     (r2, s, w) \<leftarrow> rt_send (plain type_vsm 0 [3]) s w;
     w \<leftarrow> w_process 0 (Activate_write 1) w;
     Some (r1, r2, events (wnet w), Option.is_none (rt_write_activated 0 s)) }
   = Some (Ok, Ok, [(9, 0, Write_activated)], True)"
  by code_simp

text \<open>
  With \<open>ZMQ_ROUTER_HANDOVER\<close>, a pipe whose message is being received is terminated after its
  last part. If it ends before, nothing clears \<open>current_in\<close>, and the next receive calls
  \<open>terminate\<close> on the deleted pipe.
\<close>

theorem router_terminates_deleted_pipe:
  "do {
     let w = incoming 0 [id_part [65], plain type_vsm 0 [1]] (incoming 1 [id_part [65]] world3);
     let s = snd (rt_setsockopt ROUTER_HANDOVER [1, 0, 0, 0] 1 (new_router 5));
     (s, w) \<leftarrow> rt_attach_pipe 0 s w;
     (b, s, w) \<leftarrow> rt_has_in s w;
     (s, w) \<leftarrow> rt_attach_pipe 1 s w;
     w \<leftarrow> w_terminate False 0 w;
     e \<leftarrow> pends w 0;
     w \<leftarrow> w_process 0 Pipe_term_ack w;
     s \<leftarrow> rt_pipe_terminated 0 e s;
     (m, s, w) \<leftarrow> rt_recv s w;
     Some (b, map_option vdata m, Option.is_none (pends w 0), Option.is_none (rt_recv s w)) }
   = Some (True, Some [65], True, True)"
  by code_simp

subsection \<open>The table of peers\<close>

text \<open>
  Every entry is a live pipe with that identity, no pipe has two, and the pipe of the message
  being sent is in the table.
\<close>

definition routes_ok :: "router \<Rightarrow> world \<Rightarrow> bool" where
  "routes_ok s w \<longleftrightarrow> world_ok w \<and> distinct (map fst (outpipes s)) \<and>
     (\<forall>i p a. map_of (outpipes s) i = Some (p, a) \<longrightarrow> (\<exists>e. pends w p = Some e \<and> p_identity e = i)) \<and>
     (\<forall>p. current_out s = Some p \<longrightarrow> more_out s \<and> (\<exists>i a. map_of (outpipes s) i = Some (p, a)))"

text \<open>The identities of the pipes, which only \<open>identify_peer\<close> changes.\<close>

definition ident :: "world \<Rightarrow> nat \<Rightarrow> byte list option" where
  "ident w p = map_option p_identity (pends w p)"

lemma routes_ok_ident:
  "routes_ok s w \<longleftrightarrow> world_ok w \<and> distinct (map fst (outpipes s)) \<and>
     (\<forall>i p a. map_of (outpipes s) i = Some (p, a) \<longrightarrow> ident w p = Some i) \<and>
     (\<forall>p. current_out s = Some p \<longrightarrow> more_out s \<and> (\<exists>i a. map_of (outpipes s) i = Some (p, a)))"
  by (auto simp: routes_ok_def ident_def)

lemma ident_write: "w_write p m w = Some (b, w') \<Longrightarrow> ident w' = ident w"
  by (auto simp: w_write_def p_write_def p_check_write_def Let_def ident_def bind_eq_Some_conv fun_eq_iff split: if_splits)

lemma ident_check_write: "w_check_write p w = Some (b, w') \<Longrightarrow> ident w' = ident w"
  by (auto simp: w_check_write_def p_check_write_def Let_def ident_def bind_eq_Some_conv fun_eq_iff split: if_splits)

lemma ident_net: "pends w' = pends w \<Longrightarrow> ident w' = ident w"
  by (simp add: ident_def fun_eq_iff)

lemma ident_flush: "w_flush p w = Some w' \<Longrightarrow> ident w' = ident w"
  by (rule ident_net) (auto simp: w_flush_def bind_eq_Some_conv)

lemma ident_rollback: "w_rollback p w = Some w' \<Longrightarrow> ident w' = ident w"
  by (rule ident_net) (auto simp: w_rollback_def bind_eq_Some_conv)

text \<open>Writing a part to a pipe of the table, and flushing it.\<close>

lemma route_alive: "routes_ok s w \<Longrightarrow> map_of (outpipes s) i = Some (p, a) \<Longrightarrow> can_write p w"
  unfolding routes_ok_def can_write_def by (metis option.simps(3))

lemma ident_alive: "ident w' = ident w \<Longrightarrow> world_ok w' \<Longrightarrow> can_write p w \<Longrightarrow> can_write p w'"
  unfolding can_write_def ident_def fun_eq_iff by (metis option.map_disc_iff)

lemma update_active:
  "map_of l i = Some (p, a) \<Longrightarrow> map (\<lambda>(i, p, a). (i, p)) (AList.update i (p, b) l) = map (\<lambda>(i, p, a). (i, p)) l"
  by (induction l) (auto split: if_splits)

lemma check_route:
  assumes "can_write p w"
  shows "\<exists>w'. w_check_write p w = Some (w_room p w, w') \<and> world_ok w' \<and> ident w' = ident w \<and> outward w w' \<and>
    (\<forall>x. w_room x w' = w_room x w \<and> w_parts x w' = w_parts x w)"
proof -
  from lb_pipes.check_ok [OF assms] obtain w' where
    w: "w_check_write p w = Some (w_room p w, w')" "\<forall>x. can_write x w \<longrightarrow> can_write x w' \<and> w_room x w' = w_room x w" by auto
  from assms obtain e where e0: "pends w p = Some e" by (auto simp: can_write_def)
  obtain b f where "p_check_write e = (b, f)" by (cases "p_check_write e")
  with w(1) e0 have e: "pends w p = Some e" "p_check_write e = (b, f)" "w' = w\<lparr>pends := (pends w)(p \<mapsto> f)\<rparr>"
    by (auto simp: w_check_write_def)
  then have f: "f = e \<or> f = e\<lparr>out_active := False\<rparr>" by (auto simp: p_check_write_def Let_def split: if_splits)
  have "w_parts x w' = w_parts x w" for x using e f by (intro w_parts_same) auto
  moreover have "w_room x w' = w_room x w" for x
    using w(2) assms e(1,3) by (cases "pends w x = None") (auto simp: can_write_def w_room_def split: if_splits)
  ultimately show ?thesis using w ident_check_write [OF w(1)] check_write_outward [OF w(1)] assms by (auto simp: can_write_def)
qed

lemma check_write_twice: "fst (p_check_write (snd (p_check_write e))) = fst (p_check_write e)"
  by (auto simp: p_check_write_def Let_def)

lemma write_route:
  assumes "can_write p w"
  shows "\<exists>w'. w_write p m w = Some (w_room p w, w') \<and> world_ok w' \<and> ident w' = ident w \<and> outward w w' \<and>
    (\<forall>x. w_parts x w' = (if x = p \<and> w_room p w then map_option (add_part m) (w_parts x w) else w_parts x w)) \<and>
    (has_more m \<longrightarrow> (\<forall>x. w_room x w' = w_room x w))"
proof -
  obtain e e' b n where r: "pends w p = Some e" "w_write p m w = Some (b, w\<lparr>pends := (pends w)(p \<mapsto> e'), wnet := n\<rparr>)"
    "b = w_room p w" "world_ok (w\<lparr>pends := (pends w)(p \<mapsto> e'), wnet := n\<rparr>)"
    by (rule w_write_ok [OF assms, of m]) (rule that)
  let ?w = "w\<lparr>pends := (pends w)(p \<mapsto> e'), wnet := n\<rparr>"
  have "w_room p ?w = w_room p w" if "has_more m"
  proof (cases "w_room p w")
    case True
    with lb_parts.more_room [OF assms, of m ?w] r(2,3) that show ?thesis by simp
  next
    case False
    obtain k f where k: "p_check_write e = (k, f)" by (cases "p_check_write e")
    with False r(1) have "\<not> k" by (simp add: w_room_def)
    with k r(1) have "w_write p m w = Some (False, w\<lparr>pends := (pends w)(p \<mapsto> f)\<rparr>)" by (simp add: w_write_def p_write_def)
    with r(2) have "w\<lparr>pends := (pends w)(p \<mapsto> f)\<rparr> = ?w" by simp
    then have "pends (w\<lparr>pends := (pends w)(p \<mapsto> f)\<rparr>) p = pends ?w p" by (rule arg_cong)
    then have "e' = f" by simp
    with check_write_twice [of e] k r(1) \<open>\<not> k\<close> show ?thesis by (simp add: w_room_def)
  qed
  then have "w_room x ?w = w_room x w" if "has_more m" for x
    using that by (cases "x = p") (simp_all add: w_room_def)
  with r assms ident_write [OF r(2)] write_outward [OF r(2)] write_parts [OF _ r(2)] show ?thesis
    by (intro exI [of _ ?w]) (auto simp: can_write_def)
qed

lemma flush_route:
  assumes "can_write p w"
  shows "\<exists>w'. w_flush p w = Some w' \<and> world_ok w' \<and> ident w' = ident w \<and> outward w w' \<and> (\<forall>x. w_parts x w' = w_parts x w)"
proof -
  from lb_pipes.flush_ok [OF assms] obtain w' where
    w: "w_flush p w = Some w'" "\<forall>x. can_write x w \<longrightarrow> can_write x w'" by blast
  with ident_flush [OF w(1)] flush_outward [OF w(1)] flush_parts [OF _ w(1)] assms show ?thesis by (auto simp: can_write_def)
qed

lemma rollback_route:
  assumes "can_write p w"
  shows "\<exists>w'. w_rollback p w = Some w' \<and> world_ok w' \<and> ident w' = ident w \<and> outward w w' \<and>
    (\<forall>x. w_parts x w' = (if x = p then map_option (\<lambda>(d, q). (d, [])) (w_parts x w) else w_parts x w)) \<and>
    (\<forall>x. w_room x w' = w_room x w)"
proof -
  from lb_pipes.rollback_ok [OF assms] obtain w' where
    w: "w_rollback p w = Some w'" "\<forall>x. can_write x w \<longrightarrow> can_write x w'" by blast
  have "pends w' = pends w" using w(1) by (auto simp: w_rollback_def bind_eq_Some_conv)
  then have "\<forall>x. w_room x w' = w_room x w" by (simp add: w_room_def)
  with w ident_rollback [OF w(1)] rollback_outward [OF w(1)] rollback_parts [OF _ w(1)] assms show ?thesis
    by (auto simp: can_write_def)
qed

subsection \<open>What a send does\<close>

text \<open>The pipe that is selected after the part.\<close>

definition target :: "vmsg \<Rightarrow> router \<Rightarrow> world \<Rightarrow> nat option" where
  "target m s w =
     (if \<not> has_more m then None
      else if more_out s then (case current_out s of Some p \<Rightarrow> if w_room p w then Some p else None | None \<Rightarrow> None)
      else (case map_of (outpipes s) (vdata m) of Some (p, a) \<Rightarrow> if w_room p w then Some p else None | None \<Rightarrow> None))"

definition send_error :: "vmsg \<Rightarrow> router \<Rightarrow> world \<Rightarrow> rc" where
  "send_error m s w =
     (if more_out s \<or> \<not> has_more m \<or> \<not> mandatory s \<or> target m s w \<noteq> None then Ok
      else if map_of (outpipes s) (vdata m) = None then Err EHOSTUNREACH else Err EAGAIN)"

lemma rt_send_ok:
  assumes "routes_ok s w" "\<not> raw_socket s" "\<not> opt_raw_socket s"
  shows "\<exists>o' w'. rt_send m s w = Some (send_error m s w, s\<lparr>outpipes := o', current_out := target m s w,
        more_out := (has_more m \<and> send_error m s w = Ok)\<rparr>, w') \<and>
      routes_ok (s\<lparr>outpipes := o', current_out := target m s w, more_out := (has_more m \<and> send_error m s w = Ok)\<rparr>) w' \<and>
      map (\<lambda>(i, p, a). (i, p)) o' = map (\<lambda>(i, p, a). (i, p)) (outpipes s) \<and> ident w' = ident w \<and> outward w w' \<and>
      (\<forall>x. w_parts x w' = (if more_out s \<and> current_out s = Some x \<and> w_room x w then map_option (add_part m) (w_parts x w)
         else w_parts x w)) \<and>
      (has_more m \<longrightarrow> (\<forall>x. w_room x w' = w_room x w))"
proof (cases "more_out s")
  case False
  with assms(1) have co: "current_out s = None" by (auto simp: routes_ok_def)
  show ?thesis
  proof (cases "has_more m")
    case nm: False
    with False co assms show ?thesis
      by (intro exI [of _ "outpipes s"] exI [of _ w])
        (simp add: rt_send_def rt_route_def routes_ok_ident target_def send_error_def outward_refl)
  next
    case True
    show ?thesis
    proof (cases "map_of (outpipes s) (vdata m)")
      case None
      with False co True assms show ?thesis
        by (intro exI [of _ "outpipes s"] exI [of _ w])
          (auto simp: rt_send_def rt_route_def routes_ok_ident target_def send_error_def outward_refl)
    next
      case (Some pa)
      obtain p a where pa: "pa = (p, a)" by (cases pa)
      from check_route [OF route_alive [OF assms(1) Some [unfolded pa]]] obtain w' where
        w: "w_check_write p w = Some (w_room p w, w')" "world_ok w'" "ident w' = ident w" "outward w w'"
          "\<forall>x. w_room x w' = w_room x w \<and> w_parts x w' = w_parts x w" by blast
      show ?thesis
      proof (cases "w_room p w")
        case True
        with Some pa False co \<open>has_more m\<close> assms w show ?thesis
          by (intro exI [of _ "outpipes s"] exI [of _ w'])
            (auto simp: rt_send_def rt_route_def routes_ok_ident target_def send_error_def)
      next
        case nr: False
        let ?o = "AList.update (vdata m) (p, False) (outpipes s)"
        have d: "distinct (map fst ?o)" using assms(1) by (simp add: routes_ok_def distinct_update)
        have mo: "map_of ?o i = Some (q, b) \<Longrightarrow> \<exists>b. map_of (outpipes s) i = Some (q, b)" for i q b
          using Some pa by (auto simp: update_conv' split: if_splits)
        have "map (\<lambda>(i, p, a). (i, p)) ?o = map (\<lambda>(i, p, a). (i, p)) (outpipes s)"
          using Some pa by (simp add: update_active)
        with nr Some pa False co \<open>has_more m\<close> assms w d mo show ?thesis
          by (intro exI [of _ ?o] exI [of _ w'])
            (auto simp: rt_send_def rt_route_def routes_ok_ident target_def send_error_def)
      qed
    qed
  qed
next
  case True
  show ?thesis
  proof (cases "current_out s")
    case None
    with True assms show ?thesis
      by (intro exI [of _ "outpipes s"] exI [of _ w])
        (simp add: rt_send_def routes_ok_ident Let_def target_def send_error_def outward_refl)
  next
    case (Some p)
    with assms(1) obtain i a where r: "map_of (outpipes s) i = Some (p, a)" unfolding routes_ok_def by blast
    note cw = route_alive [OF assms(1) r]
    from write_route [OF cw, of m] obtain w1 where
      w1: "w_write p m w = Some (w_room p w, w1)" "world_ok w1" "ident w1 = ident w" "outward w w1"
        "\<forall>x. w_parts x w1 = (if x = p \<and> w_room p w then map_option (add_part m) (w_parts x w) else w_parts x w)"
        "has_more m \<longrightarrow> (\<forall>x. w_room x w1 = w_room x w)" by blast
    show ?thesis
    proof (cases "w_room p w \<and> \<not> has_more m")
      case False
      have t: "target m s w = (if w_room p w then Some p else None)" "send_error m s w = Ok"
        using False True Some by (auto simp: target_def send_error_def)
      have "rt_send m s w = Some (Ok, s\<lparr>current_out := target m s w, more_out := has_more m\<rparr>, w1)"
        using False True Some assms(2,3) w1(1) unfolding t by (simp add: rt_send_def Let_def)
      moreover have "routes_ok (s\<lparr>current_out := target m s w, more_out := has_more m\<rparr>) w1"
        using assms(1) w1(2,3) False r unfolding t by (auto simp: routes_ok_ident)
      ultimately show ?thesis using t True Some w1(3-6) False
        by (intro exI [of _ "outpipes s"] exI [of _ w1]) simp
    next
      case fl: True
      have "can_write p w1" using ident_alive [OF w1(3,2) cw] .
      from flush_route [OF this] obtain w2 where
        w2: "w_flush p w1 = Some w2" "world_ok w2" "ident w2 = ident w1" "outward w1 w2" "\<forall>x. w_parts x w2 = w_parts x w1" by blast
      have t: "target m s w = None" "send_error m s w = Ok" using fl True by (simp_all add: target_def send_error_def)
      have "rt_send m s w = Some (Ok, s\<lparr>current_out := None, more_out := False\<rparr>, w2)"
        using fl True Some assms(2,3) w1(1) w2(1) by (simp add: rt_send_def Let_def)
      moreover have "routes_ok (s\<lparr>current_out := None, more_out := False\<rparr>) w2"
        using assms(1) w1(3) w2(2,3) by (simp add: routes_ok_ident)
      moreover note outward_trans [OF w1(4) w2(4)]
      ultimately show ?thesis using t fl True Some w1(3,5) w2(3,5)
        by (intro exI [of _ "outpipes s"] exI [of _ w2]) simp
    qed
  qed
qed

text \<open>After its last part a message can be seen by its peer.\<close>

lemma rt_send_visible:
  assumes "rt_send m s w = Some (r, s', w')" "routes_ok s w" "\<not> raw_socket s" "\<not> opt_raw_socket s"
    "more_out s" "\<not> has_more m" "current_out s = Some p" "w_room p w"
  shows "\<not> w_hidden p w'"
proof -
  from assms(2,7) obtain i a where "map_of (outpipes s) i = Some (p, a)" unfolding routes_ok_def by blast
  from write_route [OF route_alive [OF assms(2) this], of m] assms(8) obtain w1 where
    w1: "w_write p m w = Some (True, w1)" "world_ok w1" by auto
  with assms have "w_flush p w1 = Some w'" by (auto simp: rt_send_def Let_def bind_eq_Some_conv)
  with flush_shown w1(2) show ?thesis by blast
qed

subsection \<open>What is received\<close>

text \<open>
  The parts that can be received, with their pipes; without the identities, which come alone
  between messages.
\<close>

definition arrivals :: "fq \<Rightarrow> world \<Rightarrow> (vmsg \<times> nat) list" where
  "arrivals q w = (case fq_drain q w of None \<Rightarrow> [] | Some (ms, _) \<Rightarrow> ms)"

definition payloads :: "fq \<Rightarrow> world \<Rightarrow> (vmsg \<times> nat) list" where
  "payloads q w = filter (\<lambda>(m, p). \<not> v_is_identity m) (arrivals q w)"

fun ids_apart :: "bool \<Rightarrow> (vmsg \<times> nat) list \<Rightarrow> bool" where
  "ids_apart inside [] = True"
| "ids_apart inside ((m, p) # ms) =
     (if v_is_identity m then \<not> inside \<and> \<not> has_more m \<and> ids_apart False ms else ids_apart (has_more m) ms)"

lemma arrivals_step:
  assumes "fq_ready q w" "fq_recvpipe w_read q w = Some (r, q', w')" "fq_ready q' w'"
  shows "arrivals q w = (case r of None \<Rightarrow> [] | Some mp \<Rightarrow> mp # arrivals q' w')"
proof -
  from fq_drain_ok [OF assms(3)] obtain ms e where "fq_drain q' w' = Some (ms, e)" by auto
  with assms(2) show ?thesis
    by (cases r) (auto simp: arrivals_def fq_drain.simps [of q w] split: prod.splits)
qed

lemma arrivals_inactive:
  assumes "fq_ready q w" "active_pipes q = []"
  shows "arrivals q w = []"
proof -
  from assms have "fq_active q = 0" by (auto simp: fq_ready_def fq_inv_def active_pipes_def)
  then show ?thesis by (simp add: arrivals_def fq_drain.simps [of q w] fq_recvpipe_def)
qed

lemma ident_read:
  assumes "w_read p w = Some (r, w')"
  shows "ident w' = ident w"
proof -
  from assms obtain e e' n where e: "pends w p = Some e" "p_read e (wnet w) = Some (r, e', n)"
    "w' = w\<lparr>pends := (pends w)(p \<mapsto> e'), wnet := n\<rparr>" by (auto simp: w_read_def bind_eq_Some_conv)
  have "p_identity e' = p_identity e"
  proof (cases "\<not> in_active e \<or> state e \<noteq> Active \<and> state e \<noteq> Waiting_for_delimiter")
    case True
    with e(2) show ?thesis by (auto simp: p_read_def split: if_splits)
  next
    case False
    with e(2) obtain i u where i: "inpipe e = Some i" "upipes (wnet w) i = Some u"
      by (auto simp: p_read_def bind_eq_Some_conv)
    obtain r1 cr u' where r1: "read_message u (p_credential e) = (r1, cr, u')" by (metis surj_pair)
    with False e(2) i show ?thesis
      by (auto simp: p_read_def p_process_delimiter_def Let_def bind_eq_Some_conv split: option.splits if_splits)
  qed
  with e show ?thesis by (auto simp: ident_def)
qed

lemma recvpipe_ident: "fq_recvpipe w_read q w = Some (r, q', w') \<Longrightarrow> ident w' = ident w"
  unfolding fq_recvpipe_def by (rule fq_loop_keeps [where R = "\<lambda>w w'. ident w' = ident w"]) (auto dest: ident_read)

lemma recvpipe_alive:
  assumes "fq_recvpipe w_read q w = Some (Some (m, p), q', w')"
  shows "pends w' p \<noteq> None"
proof -
  have "fq_loop w_read n q w = Some (Some (m, p), q', w') \<Longrightarrow> pends w' p \<noteq> None" for n
  proof (induction n arbitrary: q w)
    case (Suc n)
    from Suc.prems obtain x r w1 where x: "w_read x w = Some (r, w1)" "x = p \<and> w' = w1 \<or>
        (\<exists>q1. fq_loop w_read n q1 w1 = Some (Some (m, p), q', w'))"
      by (fastforce simp: bind_eq_Some_conv Let_def split: option.splits if_splits)
    have "pends w1 x \<noteq> None" using x(1) by (auto simp: w_read_def bind_eq_Some_conv)
    with x(2) Suc.IH show ?case by blast
  qed simp
  with assms show ?thesis by (simp add: fq_recvpipe_def)
qed

lemma recv_payload_ok:
  assumes "fq_ready q w" "ids_apart (fq_more q) (arrivals q w)"
  shows "\<exists>r q' w'. recv_payload q w = Some (r, q', w') \<and> fq_ready q' w' \<and> ids_apart (fq_more q') (arrivals q' w') \<and>
    ident w' = ident w \<and>
    (case r of None \<Rightarrow> payloads q w = [] \<and> payloads q' w' = [] \<and> \<not> fq_more q \<and> \<not> fq_more q'
      | Some (m, p) \<Rightarrow> payloads q w = (m, p) # payloads q' w' \<and> fq_more q' = has_more m \<and> pends w' p \<noteq> None)"
  using assms
proof (induction q w rule: recv_payload.induct)
  case (1 q w)
  from fq_ready_step [OF 1(2)] obtain r q1 w1 where
    r: "fq_recvpipe w_read q w = Some (r, q1, w1)" "fq_ready q1 w1"
      "case r of None \<Rightarrow> active_pipes q1 = [] \<and> \<not> fq_more q \<and> \<not> fq_more q1 | Some (m, p) \<Rightarrow> fq_more q1 = has_more m" by blast
  note st = arrivals_step [OF 1(2) r(1,2)] and id1 = recvpipe_ident [OF r(1)]
  show ?case
  proof (cases r)
    case None
    with r st id1 arrivals_inactive [OF r(2)] show ?thesis by (simp add: recv_payload.simps [of q w] payloads_def)
  next
    case (Some mp)
    obtain m p where mp: "mp = (m, p)" by (cases mp)
    show ?thesis
    proof (cases "v_is_identity m")
      case False
      with r Some mp st id1 1(3) recvpipe_alive [of q w m p q1 w1] show ?thesis
        by (simp add: recv_payload.simps [of q w] payloads_def)
    next
      case True
      with 1(3) st Some mp r(3) have n: "\<not> fq_more q" "\<not> fq_more q1" "ids_apart (fq_more q1) (arrivals q1 w1)" by auto
      from 1(1) [OF r(1) refl Some _ refl True r(2) n(3)] mp obtain r' q' w' where
        "recv_payload q1 w1 = Some (r', q', w')" "fq_ready q' w'" "ids_apart (fq_more q') (arrivals q' w')" "ident w' = ident w1"
        "case r' of None \<Rightarrow> payloads q1 w1 = [] \<and> payloads q' w' = [] \<and> \<not> fq_more q1 \<and> \<not> fq_more q'
         | Some (m, p) \<Rightarrow> payloads q1 w1 = (m, p) # payloads q' w' \<and> fq_more q' = has_more m \<and> pends w' p \<noteq> None" by blast
      moreover have "recv_payload q w = recv_payload q1 w1"
        using True r(1) Some mp by (simp add: recv_payload.simps [of q w])
      moreover have "payloads q w = payloads q1 w1" using True st Some mp by (simp add: payloads_def)
      ultimately show ?thesis using n(1) id1 by (auto split: option.splits)
    qed
  qed
qed

text \<open>The stream of parts with the identity of the sender before every message.\<close>

definition identity_of :: "world \<Rightarrow> nat \<Rightarrow> vmsg" where
  "identity_of w p = (sized_msg (case ident w p of None \<Rightarrow> [] | Some i \<Rightarrow> i))\<lparr>vflags := more_flag\<rparr>"

fun tagged :: "(nat \<Rightarrow> vmsg) \<Rightarrow> bool \<Rightarrow> (vmsg \<times> nat) list \<Rightarrow> vmsg list" where
  "tagged f inside [] = []"
| "tagged f inside ((m, p) # ms) = (if inside then [m] else [f p, m]) @ tagged f (has_more m) ms"

definition to_deliver :: "router \<Rightarrow> world \<Rightarrow> vmsg list" where
  "to_deliver s w =
     (if prefetched s then (if identity_sent s then [] else [prefetched_id s]) @
        prefetched_msg s # tagged (identity_of w) (has_more (prefetched_msg s)) (payloads (rt_fq s) w)
      else tagged (identity_of w) (more_in s) (payloads (rt_fq s) w))"

definition recv_inv :: "router \<Rightarrow> world \<Rightarrow> bool" where
  "recv_inv s w \<longleftrightarrow> fq_ready (rt_fq s) w \<and> ids_apart (fq_more (rt_fq s)) (arrivals (rt_fq s) w) \<and> \<not> terminate_current_in s \<and>
     (if prefetched s then fq_more (rt_fq s) = has_more (prefetched_msg s) \<and>
        (\<not> identity_sent s \<longrightarrow> \<not> more_in s \<and> has_more (prefetched_id s))
      else more_in s = fq_more (rt_fq s))"

lemma identity_of_cong: "ident w' = ident w \<Longrightarrow> identity_of w' = identity_of w"
  by (simp add: identity_of_def fun_eq_iff)

lemma identity_msg_ok: "pends w p \<noteq> None \<Longrightarrow> identity_msg p w = Some (identity_of w p)"
  by (auto simp: identity_msg_def identity_of_def ident_def)

lemma has_more_identity [simp]: "has_more (identity_of w p)"
  by (simp add: identity_of_def has_more_def)

lemma rt_recv_ok:
  assumes "recv_inv s w"
  shows "\<exists>r s' w'. rt_recv s w = Some (r, s', w') \<and> recv_inv s' w' \<and> ident w' = ident w \<and>
    to_deliver s w = (case r of None \<Rightarrow> [] | Some m \<Rightarrow> m # to_deliver s' w')"
proof (cases "prefetched s")
  case True
  with assms show ?thesis
    by (cases "identity_sent s") (auto simp: rt_recv_def message_received_def recv_inv_def to_deliver_def Let_def)
next
  case False
  note inv = assms [unfolded recv_inv_def]
  from inv recv_payload_ok [of "rt_fq s" w] obtain r q w' where
    r: "recv_payload (rt_fq s) w = Some (r, q, w')" "fq_ready q w'" "ids_apart (fq_more q) (arrivals q w')" "ident w' = ident w" and
    cs: "case r of None \<Rightarrow> payloads (rt_fq s) w = [] \<and> payloads q w' = [] \<and> \<not> fq_more (rt_fq s) \<and> \<not> fq_more q
      | Some (m, p) \<Rightarrow> payloads (rt_fq s) w = (m, p) # payloads q w' \<and> fq_more q = has_more m \<and> pends w' p \<noteq> None" by blast
  note io = identity_of_cong [OF r(4)]
  show ?thesis
  proof (cases r)
    case None
    with r cs False inv show ?thesis by (simp add: rt_recv_def recv_inv_def to_deliver_def)
  next
    case (Some mp)
    obtain m p where mp: "mp = (m, p)" by (cases mp)
    with cs Some have p: "payloads (rt_fq s) w = (m, p) # payloads q w'" "fq_more q = has_more m" "pends w' p \<noteq> None" by auto
    from identity_msg_ok [OF p(3)] r p(1,2) False inv Some mp io show ?thesis
      by (cases "more_in s") (auto simp: rt_recv_def message_received_def recv_inv_def to_deliver_def Let_def)
  qed
qed

lemma rt_has_in_ok:
  assumes "recv_inv s w"
  shows "\<exists>b s' w'. rt_has_in s w = Some (b, s', w') \<and> recv_inv s' w' \<and> to_deliver s' w' = to_deliver s w \<and>
    b = (more_in s \<or> to_deliver s w \<noteq> [])"
proof (cases "more_in s \<or> prefetched s")
  case True
  with assms show ?thesis by (auto simp: rt_has_in_def to_deliver_def)
next
  case False
  note inv = assms [unfolded recv_inv_def]
  from inv recv_payload_ok [of "rt_fq s" w] obtain r q w' where
    r: "recv_payload (rt_fq s) w = Some (r, q, w')" "fq_ready q w'" "ids_apart (fq_more q) (arrivals q w')" "ident w' = ident w" and
    cs: "case r of None \<Rightarrow> payloads (rt_fq s) w = [] \<and> payloads q w' = [] \<and> \<not> fq_more (rt_fq s) \<and> \<not> fq_more q
      | Some (m, p) \<Rightarrow> payloads (rt_fq s) w = (m, p) # payloads q w' \<and> fq_more q = has_more m \<and> pends w' p \<noteq> None" by blast
  note io = identity_of_cong [OF r(4)]
  show ?thesis
  proof (cases r)
    case None
    with r cs False inv show ?thesis
      by (intro exI [of _ False]) (simp add: rt_has_in_def recv_inv_def to_deliver_def)
  next
    case (Some mp)
    obtain m p where mp: "mp = (m, p)" by (cases mp)
    with cs Some have p: "payloads (rt_fq s) w = (m, p) # payloads q w'" "fq_more q = has_more m" "pends w' p \<noteq> None" by auto
    from identity_msg_ok [OF p(3)] r p(1,2) False inv Some mp io show ?thesis
      by (auto simp: rt_has_in_def recv_inv_def to_deliver_def Let_def)
  qed
qed

subsection \<open>Properties\<close>

text \<open>
  C31: Without \<open>ZMQ_ROUTER_RAW\<close>, a message goes to the peer that its first part names, and to no other: the first part is
  not sent, it selects the pipe with that identity if it has room, or else no pipe (with
  \<open>ZMQ_ROUTER_MANDATORY\<close> the error is returned, and the part can be sent again); each later part
  is written to the selected pipe as long as it has room, and dropped when there is none; after the last part the pipe is
  flushed, so that its peer can see the message. No
  assertion fails, and the identities and pipes of the table stay. (Nothing is claimed of the flag \<open>active\<close> of its entries, which is wrong after
  a failed write: \<open>router_aborts_on_reactivation\<close>.)
\<close>

theorem router_sends_to_peer:
  assumes "routes_ok s w" "\<not> raw_socket s" "\<not> opt_raw_socket s"
  shows "\<exists>r s' w'. rt_send m s w = Some (r, s', w') \<and> routes_ok s' w' \<and>
    map (\<lambda>(i, p, a). (i, p)) (outpipes s') = map (\<lambda>(i, p, a). (i, p)) (outpipes s) \<and>
    (if more_out s then r = Ok \<and> more_out s' = has_more m \<and>
       (\<forall>x. w_parts x w' = (if current_out s = Some x \<and> w_room x w then map_option (add_part m) (w_parts x w) else w_parts x w)) \<and>
       current_out s' = (case current_out s of Some p \<Rightarrow> if w_room p w \<and> has_more m then Some p else None | None \<Rightarrow> None) \<and>
       (\<forall>p. current_out s = Some p \<and> w_room p w \<and> \<not> has_more m \<longrightarrow> \<not> w_hidden p w')
     else (\<forall>x. w_parts x w' = w_parts x w) \<and>
       (let to = (if has_more m then (case map_of (outpipes s) (vdata m) of Some (p, a) \<Rightarrow> if w_room p w then Some p else None
                    | None \<Rightarrow> None) else None);
            err = (has_more m \<and> mandatory s \<and> to = None) in
        r = (if \<not> err then Ok else if map_of (outpipes s) (vdata m) = None then Err EHOSTUNREACH else Err EAGAIN) \<and>
        current_out s' = to \<and> more_out s' = (has_more m \<and> \<not> err)))"
proof -
  from rt_send_ok [OF assms, of m] obtain o' w' where
    r: "rt_send m s w = Some (send_error m s w, s\<lparr>outpipes := o', current_out := target m s w,
        more_out := (has_more m \<and> send_error m s w = Ok)\<rparr>, w')"
      "routes_ok (s\<lparr>outpipes := o', current_out := target m s w, more_out := (has_more m \<and> send_error m s w = Ok)\<rparr>) w'"
      "map (\<lambda>(i, p, a). (i, p)) o' = map (\<lambda>(i, p, a). (i, p)) (outpipes s)"
      "\<forall>x. w_parts x w' = (if more_out s \<and> current_out s = Some x \<and> w_room x w then map_option (add_part m) (w_parts x w)
         else w_parts x w)" by (elim exE conjE) (rule that)
  show ?thesis
    by (intro exI conjI, rule r(1), rule r(2), simp add: r(3), cases "more_out s", use r(4) rt_send_visible [OF r(1) assms] in \<open>auto simp: target_def send_error_def Let_def split: option.splits\<close>)
qed

text \<open>A router with three pipes, one of them of the peer \<open>A\<close>.\<close>

definition router3 :: router where
  "router3 = (new_router 5)\<lparr>rt_fq := fq3, outpipes := [([65], 0, True)]\<rparr>"

definition world_A :: world where
  "world_A = world3\<lparr>pends := (pends world3)(0 \<mapsto> p_set_identity [65] (end_of 0))\<rparr>"

lemma router3_ok: "routes_ok router3 world_A"
proof -
  have e: "pends world3 0 = Some (end_of 0)" by (simp add: pends3)
  have n: "net_ok (wnet world3)" using world_end [OF world3_ok e] by (simp add: ready_end_def)
  have "world_ok (world3\<lparr>pends := (pends world3)(0 \<mapsto> p_set_identity [65] (end_of 0)), wnet := wnet world3\<rparr>)"
    by (rule world_ok_step [OF world3_ok e n refl]) (simp_all add: p_set_identity_def)
  then show ?thesis by (simp add: routes_ok_def router3_def world_A_def new_router_def p_set_identity_def)
qed

theorem router_sends_to_peer_witness:
  "\<exists>s' w'. rt_send (plain type_vsm more_flag [65]) router3 world_A = Some (Ok, s', w') \<and> current_out s' = Some 0"
proof -
  have m: "has_more (plain type_vsm more_flag [65])" "vdata (plain type_vsm more_flag [65]) = [65]"
    by (simp_all add: has_more_def plain_def)
  have "fst (p_check_write (p_set_identity [65] (end_of 0)))" by code_simp
  then have "w_room 0 world_A" by (simp add: w_room_def world_A_def)
  with router_sends_to_peer [OF router3_ok, of "plain type_vsm more_flag [65]"] m show ?thesis
    by (auto simp: router3_def new_router_def Let_def)
qed



end
