(* ===== verification/Rep.thy ===== *)
theory Rep
  imports Router
begin

text \<open>
  \<open>rep_t\<close> of \<open>src/zmqsrc/src/rep.cpp\<close>: a router that answers. It copies the envelope of a request,
  the identity of the peer and the parts up to the empty one, to the reply pipe while it
  receives it; what the user then sends follows the envelope, so it goes back to the requester.
\<close>

record rep =
  rep_router :: router
  sending_reply :: bool
  request_begins :: bool

definition new_rep :: "u32 \<Rightarrow> rep" where
  "new_rep rid = \<lparr>rep_router = new_router rid, sending_reply = False, request_begins = True\<rparr>"

definition rep_send :: "vmsg \<Rightarrow> rep \<Rightarrow> world \<Rightarrow> (rc \<times> rep \<times> world) option" where
  "rep_send m s w =
     (if \<not> sending_reply s then Some (Err EFSM, s, w)
      else do {
        (r, b, w) \<leftarrow> rt_send m (rep_router s) w;
        let s = s\<lparr>rep_router := b\<rparr>;
        if r \<noteq> Ok then Some (r, s, w)
        else Some (Ok, if \<not> has_more m then s\<lparr>sending_reply := False\<rparr> else s, w) })"

text \<open>
  The loop of \<open>xrecv\<close> over the envelope, lines 80 to 102, also over requests without an empty
  part, which are discarded. False when nothing more can be received; \<open>None\<close> when the
  assertion on the result of \<open>router_t::xsend\<close> fails, or the loop does not end.
\<close>

partial_function (option) rep_envelope :: "router \<Rightarrow> world \<Rightarrow> (bool \<times> router \<times> world) option" where
  "rep_envelope b w = do {
     (r, b, w) \<leftarrow> rt_recv b w;
     case r of
       None \<Rightarrow> Some (False, b, w)
     | Some m \<Rightarrow>
         if has_more m then do {
           (c, b, w) \<leftarrow> rt_send m b w;
           if c \<noteq> Ok then None
           else if vdata m = [] then Some (True, b, w)
           else rep_envelope b w }
         else do {
           (b, w) \<leftarrow> rt_rollback b w;
           rep_envelope b w } }"

declare rep_envelope.simps [code]

definition rep_recv :: "rep \<Rightarrow> world \<Rightarrow> ((sock_error + vmsg) \<times> rep \<times> world) option" where
  "rep_recv s w =
     (if sending_reply s then Some (Inl EFSM, s, w)
      else do {
        (ok, b, w) \<leftarrow> (if request_begins s then rep_envelope (rep_router s) w else Some (True, rep_router s, w));
        if \<not> ok then Some (Inl EAGAIN, s\<lparr>rep_router := b\<rparr>, w)
        else do {
          let s = s\<lparr>request_begins := False\<rparr>;
          (r, b, w) \<leftarrow> rt_recv b w;
          let s = s\<lparr>rep_router := b\<rparr>;
          case r of
            None \<Rightarrow> Some (Inl EAGAIN, s, w)
          | Some m \<Rightarrow> Some (Inr m,
              if \<not> has_more m then s\<lparr>sending_reply := True, request_begins := True\<rparr> else s, w) } })"

definition rep_has_in :: "rep \<Rightarrow> world \<Rightarrow> (bool \<times> rep \<times> world) option" where
  "rep_has_in s w =
     (if sending_reply s then Some (False, s, w)
      else do { (r, b, w) \<leftarrow> rt_has_in (rep_router s) w; Some (r, s\<lparr>rep_router := b\<rparr>, w) })"

definition rep_has_out :: "rep \<Rightarrow> bool" where
  "rep_has_out s \<longleftrightarrow> sending_reply s \<and> rt_has_out (rep_router s)"

subsection \<open>Receiving does not depend on what is sent\<close>

text \<open>Two worlds with the same inbound sides give the same results to every read.\<close>

definition same_in :: "world \<Rightarrow> world \<Rightarrow> bool" where
  "same_in v w \<longleftrightarrow> calm v \<and> calm w \<and> (\<forall>x. map_option (in_view v) (pends v x) = map_option (in_view w) (pends w x))"

lemma outward_same_in: "outward w w' \<Longrightarrow> calm w \<Longrightarrow> same_in w' w"
  by (auto simp: outward_def same_in_def)

lemma w_read_same:
  assumes "same_in v w" "w_read p v = Some (r, v')" "w_read p w = Some (r', w')"
  shows "r' = r \<and> same_in v' w'"
proof -
  from assms(2) obtain e e1 m where e: "pends v p = Some e" "p_read e (wnet v) = Some (r, e1, m)"
    "v' = v\<lparr>pends := (pends v)(p \<mapsto> e1), wnet := m\<rparr>" unfolding w_read_def by (auto simp: bind_eq_Some_conv)
  from assms(3) obtain f f1 n where f: "pends w p = Some f" "p_read f (wnet w) = Some (r', f1, n)"
    "w' = w\<lparr>pends := (pends w)(p \<mapsto> f1), wnet := n\<rparr>" unfolding w_read_def by (auto simp: bind_eq_Some_conv)
  have c: "calm v" "calm w" and vw: "\<And>x. map_option (in_view v) (pends v x) = map_option (in_view w) (pends w x)"
    using assms(1) by (auto simp: same_in_def)
  from vw [of p] e(1) f(1) have ef: "inpipe f = inpipe e" "in_active f = in_active e" "state f = state e"
    "p_credential f = p_credential e" "Option.bind (inpipe e) (upipes (wnet v)) = Option.bind (inpipe e) (upipes (wnet w))"
    by (auto simp: in_view_def)
  have d: "\<not> v_is_delimiter x" if "x \<in> set (inbox p v)" for x using c(1) that by (auto simp: calm_def)
  have main: "r' = r \<and> inpipe e1 = inpipe e \<and> inpipe f1 = inpipe e \<and> in_active f1 = in_active e1 \<and> state f1 = state e1 \<and>
    p_credential f1 = p_credential e1 \<and> (upipes m = upipes (wnet v) \<and> upipes n = upipes (wnet w) \<or>
      (\<exists>i u'. inpipe e = Some i \<and> upipes m = (upipes (wnet v))(i \<mapsto> u') \<and> upipes n = (upipes (wnet w))(i \<mapsto> u')))"
  proof (cases "\<not> in_active e \<or> state e \<noteq> Active \<and> state e \<noteq> Waiting_for_delimiter")
    case True
    with e(2) f(2) ef show ?thesis by (auto simp: p_read_def split: if_splits)
  next
    case False
    with e(2) obtain i u where i: "inpipe e = Some i" "upipes (wnet v) i = Some u"
      by (auto simp: p_read_def bind_eq_Some_conv)
    with ef have i': "inpipe f = Some i" "upipes (wnet w) i = Some u" by auto
    obtain r1 cr u' where r1: "read_message u (p_credential e) = (r1, cr, u')" by (metis surj_pair)
    from read_message_stream [OF r1] obtain cs where
      cs: "msgs_in u = cs @ (case r1 of None \<Rightarrow> [] | Some x \<Rightarrow> [x]) @ msgs_in u'" by blast
    have nd: "\<not> v_is_delimiter x" if "r1 = Some x" for x using d inbox_at [OF e(1) i] cs that by simp
    have "r = r1 \<and> inpipe e1 = inpipe e \<and> in_active e1 = (r1 \<noteq> None) \<and>
        state e1 = state e \<and> p_credential e1 = cr \<and> upipes m = (upipes (wnet v))(i \<mapsto> u')"
      using False e(2) i r1 nd by (cases r1) (auto simp: p_read_def Let_def put_upipe_def bind_eq_Some_conv split: if_splits)
    moreover have "r' = r1 \<and> inpipe f1 = inpipe f \<and> in_active f1 = (r1 \<noteq> None) \<and>
        state f1 = state f \<and> p_credential f1 = cr \<and> upipes n = (upipes (wnet w))(i \<mapsto> u')"
      using False f(2) i' r1 ef nd by (cases r1) (auto simp: p_read_def Let_def put_upipe_def bind_eq_Some_conv split: if_splits)
    ultimately show ?thesis using i ef by auto
  qed
  have "map_option (in_view v') (pends v' x) = map_option (in_view w') (pends w' x)" for x
  proof (cases "x = p")
    case True
    with main e f ef(5) show ?thesis by (auto simp: in_view_def)
  next
    case False
    with vw [of x] main e(3) f(3) show ?thesis
      by (cases "pends v x"; cases "pends w x") (auto simp: in_view_def Option.bind_eq_Some_conv split: Option.bind_splits if_splits)
  qed
  moreover from read_inward [OF assms(2)] read_inward [OF assms(3)] c have "calm v'" "calm w'" by (auto simp: inward_def)
  ultimately show ?thesis using main by (simp add: same_in_def)
qed

lemma fq_loop_same:
  assumes "\<And>p v w r v' r' w'. R v w \<Longrightarrow> rd p v = Some (r, v') \<Longrightarrow> rd p w = Some (r', w') \<Longrightarrow> r' = r \<and> R v' w'"
    "R v w" "fq_loop rd n q v = Some (r, q', v')" "fq_loop rd n q w = Some (r1, q1, w')"
  shows "r1 = r \<and> q1 = q' \<and> R v' w'"
  using assms(2-4)
proof (induction n arbitrary: q v w)
  case (Suc n)
  from Suc.prems(2) obtain p x v1 where p: "table_at (items (fq_pipes q)) (fq_current q) = Some p" "rd p v = Some (x, v1)"
    by (auto simp: bind_eq_Some_conv)
  with Suc.prems(3) obtain y w1 where y: "rd p w = Some (y, w1)" by (auto simp: bind_eq_Some_conv)
  from assms(1) [OF Suc.prems(1) p(2) y] have yx: "y = x" "R v1 w1" by simp_all
  show ?case
  proof (cases x)
    case None
    with Suc.prems p y yx obtain q2 where "fq_loop rd n q2 v1 = Some (r, q', v')" "fq_loop rd n q2 w1 = Some (r1, q1, w')"
      by (auto simp: bind_eq_Some_conv)
    from Suc.IH [OF yx(2) this] show ?thesis .
  next
    case (Some m)
    with Suc.prems p y yx show ?thesis by (auto simp: Let_def split: if_splits)
  qed
qed auto

lemma arrivals_same: "same_in v w \<Longrightarrow> fq_ready q v \<Longrightarrow> fq_ready q w \<Longrightarrow> arrivals q v = arrivals q w"
proof (induction q v arbitrary: w rule: fq_drain.induct)
  case (1 q v)
  from fq_ready_step [OF 1(3)] obtain r q1 v1 where r: "fq_recvpipe w_read q v = Some (r, q1, v1)" "fq_ready q1 v1" by blast
  from fq_ready_step [OF 1(4)] obtain r' q2 w1 where r': "fq_recvpipe w_read q w = Some (r', q2, w1)" "fq_ready q2 w1" by blast
  from fq_loop_same [where R = same_in, OF w_read_same 1(2) r(1) [unfolded fq_recvpipe_def] r'(1) [unfolded fq_recvpipe_def]]
  have eq: "r' = r" "q2 = q1" "same_in v1 w1" by auto
  show ?case
  proof (cases r)
    case None
    with arrivals_step [OF 1(3) r] arrivals_step [OF 1(4) r'] eq show ?thesis by simp
  next
    case (Some m)
    from 1(1) [OF r(1) refl Some refl eq(3) r(2)] r'(2) eq arrivals_step [OF 1(3) r] arrivals_step [OF 1(4) r'] Some
    show ?thesis by simp
  qed
qed

subsection \<open>The steps of the router under a reply socket\<close>

definition rep_base :: "router \<Rightarrow> world \<Rightarrow> bool" where
  "rep_base b w \<longleftrightarrow> routes_ok b w \<and> recv_inv b w \<and> calm w \<and> \<not> mandatory b \<and> \<not> raw_socket b \<and> \<not> opt_raw_socket b"

text \<open>What only sending changes, and whether the user has received a part with \<open>more\<close> last.\<close>

definition send_side :: "router \<Rightarrow> (byte list \<times> nat \<times> bool) list \<times> nat option \<times> bool \<times> bool \<times> bool \<times> bool" where
  "send_side b = (outpipes b, current_out b, more_out b, mandatory b, raw_socket b, opt_raw_socket b)"

definition inside :: "router \<Rightarrow> bool" where
  "inside b \<longleftrightarrow> (if prefetched b then identity_sent b else more_in b)"

lemma same_parts:
  assumes "map_option (out_view w') (pends w' x) = map_option (out_view w) (pends w x)"
  shows "w_parts x w' = w_parts x w"
proof (cases "pends w x")
  case None
  with assms show ?thesis by (simp add: w_parts_def)
next
  case (Some e)
  with assms obtain e' where e': "pends w' x = Some e'" "out_view w' e' = out_view w e" by auto
  then have "outpipe e' = outpipe e" "Option.bind (outpipe e) (upipes (wnet w')) = Option.bind (outpipe e) (upipes (wnet w))"
    by (auto simp: out_view_def)
  with Some e'(1) show ?thesis by (cases "outpipe e") (auto simp: w_parts_def)
qed

lemma recv_payload_inward: "recv_payload q w = Some (r, q', w') \<Longrightarrow> inward w w'"
proof (induction q w rule: recv_payload.induct)
  case (1 q w)
  from 1(2) obtain x q1 w1 where x: "fq_recvpipe w_read q w = Some (x, q1, w1)"
    by (subst (asm) recv_payload.simps) (auto split: option.splits)
  note k = recvpipe_inward [OF x]
  show ?case
  proof (cases "\<exists>m p. x = Some (m, p) \<and> v_is_identity m")
    case False
    with 1(2) x k show ?thesis by (auto simp: recv_payload.simps [of q w] split: option.splits)
  next
    case True
    then obtain m p where m: "x = Some (m, p)" "v_is_identity m" by blast
    with 1(2) x have "recv_payload q1 w1 = Some (r, q', w')" by (simp add: recv_payload.simps [of q w])
    from 1(1) [OF x refl m(1) _ refl m(2) this] k show ?thesis by (auto intro: inward_trans)
  qed
qed

lemma rt_recv_inward:
  assumes "rt_recv b w = Some (r, b', w')" "\<not> terminate_current_in b"
  shows "inward w w' \<and> send_side b' = send_side b"
proof (cases "prefetched b")
  case True
  with assms show ?thesis
    by (auto simp: rt_recv_def message_received_def send_side_def Let_def inward_refl split: if_splits)
next
  case False
  with assms(1) obtain x q w1 where x: "recv_payload (rt_fq b) w = Some (x, q, w1)" by (auto simp: rt_recv_def bind_eq_Some_conv)
  from recv_payload_inward [OF x] False assms x show ?thesis
    by (cases x) (auto simp: rt_recv_def message_received_def send_side_def Let_def bind_eq_Some_conv split: if_splits)
qed

lemma rt_recv_inside:
  assumes "rt_recv b w = Some (Some m, b', w')" "recv_inv b w"
  shows "inside b' = has_more m"
proof (cases "prefetched b")
  case True
  with assms show ?thesis
    by (auto simp: rt_recv_def message_received_def recv_inv_def inside_def Let_def split: if_splits)
next
  case False
  with assms(1) obtain x q w1 where x: "recv_payload (rt_fq b) w = Some (x, q, w1)" by (auto simp: rt_recv_def bind_eq_Some_conv)
  with False assms show ?thesis
    by (cases x) (auto simp: rt_recv_def message_received_def recv_inv_def inside_def identity_msg_def has_more_def
      Let_def bind_eq_Some_conv split: if_splits)
qed

lemma inside_delivers:
  assumes "recv_inv b w" "inside b"
  shows "to_deliver b w \<noteq> []"
proof (cases "prefetched b")
  case True
  then show ?thesis by (simp add: to_deliver_def)
next
  case False
  with assms have "fq_ready (rt_fq b) w" "ids_apart (fq_more (rt_fq b)) (arrivals (rt_fq b) w)" "fq_more (rt_fq b)" "more_in b"
    by (auto simp: recv_inv_def inside_def)
  with recv_payload_ok [OF this(1,2)] have "payloads (rt_fq b) w \<noteq> []" by (auto split: option.splits)
  with False \<open>more_in b\<close> show ?thesis by (cases "payloads (rt_fq b) w") (auto simp: to_deliver_def)
qed

lemma base_recv:
  assumes "rep_base b w"
  obtains r b' w' where "rt_recv b w = Some (r, b', w')" "rep_base b' w'" "ident w' = ident w" "send_side b' = send_side b"
    "to_deliver b w = (case r of None \<Rightarrow> [] | Some m \<Rightarrow> m # to_deliver b' w')"
    "\<forall>x. w_parts x w' = w_parts x w \<and> w_room x w' = w_room x w"
    "case r of None \<Rightarrow> \<not> inside b \<and> \<not> inside b' \<and> to_deliver b' w' = [] | Some m \<Rightarrow> inside b' = has_more m"
proof -
  from assms have inv: "recv_inv b w" and c: "calm w" and t: "\<not> terminate_current_in b" by (auto simp: rep_base_def recv_inv_def)
  from rt_recv_ok [OF inv] obtain r b' w' where
    r: "rt_recv b w = Some (r, b', w')" "recv_inv b' w'" "ident w' = ident w"
      "to_deliver b w = (case r of None \<Rightarrow> [] | Some m \<Rightarrow> m # to_deliver b' w')" by blast
  from rt_recv_inward [OF r(1) t] have i: "inward w w'" "send_side b' = send_side b" by simp_all
  with c have c': "calm w'" and v: "\<And>x. map_option (out_view w') (pends w' x) = map_option (out_view w) (pends w x)"
    by (auto simp: inward_def)
  have b': "rep_base b' w'" using assms i(2) r(2,3) c'
    by (auto simp: rep_base_def routes_ok_ident send_side_def calm_def)
  have n: "\<not> inside b \<and> \<not> inside b' \<and> to_deliver b' w' = []" if "r = None"
  proof -
    from that r(4) have d: "to_deliver b w = []" by simp
    then have "\<not> prefetched b" by (auto simp: to_deliver_def)
    with that r(1) obtain x q w1 where "recv_payload (rt_fq b) w = Some (x, q, w1)" by (auto simp: rt_recv_def bind_eq_Some_conv)
    with that r(1) \<open>\<not> prefetched b\<close> obtain q where "recv_payload (rt_fq b) w = Some (None, q, w')" "b' = b\<lparr>rt_fq := q\<rparr>"
      by (cases x) (auto simp: rt_recv_def Let_def bind_eq_Some_conv split: if_splits)
    with recv_payload_ok [of "rt_fq b" w] inv have "payloads q w' = []" by (auto simp: recv_inv_def)
    with \<open>\<not> prefetched b\<close> \<open>b' = b\<lparr>rt_fq := q\<rparr>\<close> have "to_deliver b' w' = []" by (simp add: to_deliver_def)
    with inside_delivers [OF inv] inside_delivers [OF r(2)] d show ?thesis by blast
  qed
  show thesis
  proof (rule that [OF r(1) b' r(3) i(2) r(4)])
    show "\<forall>x. w_parts x w' = w_parts x w \<and> w_room x w' = w_room x w" using same_parts [OF v] same_out_view(2) [OF v] by simp
    show "case r of None \<Rightarrow> \<not> inside b \<and> \<not> inside b' \<and> to_deliver b' w' = [] | Some m \<Rightarrow> inside b' = has_more m"
      using n rt_recv_inside [OF _ inv] r(1) by (cases r) auto
  qed
qed

text \<open>What does not touch the inbound sides keeps everything about receiving.\<close>

lemma deliver_outward:
  assumes "rep_base b w" "outward w w'" "ident w' = ident w" "routes_ok b' w'"
    "b' = b\<lparr>outpipes := o', current_out := c, more_out := k\<rparr>"
  shows "rep_base b' w'" and "to_deliver b' w' = to_deliver b w" and "inside b' = inside b"
proof -
  from assms(1) have c: "calm w" and rdy: "fq_ready (rt_fq b) w" by (auto simp: rep_base_def recv_inv_def)
  have f': "fq_ready (rt_fq b) w'" by (rule fq_ready_outward [OF assms(2) c rdy])
  have a: "arrivals (rt_fq b) w' = arrivals (rt_fq b) w" by (rule arrivals_same [OF outward_same_in [OF assms(2) c] f' rdy])
  then have p: "payloads (rt_fq b) w' = payloads (rt_fq b) w" by (simp add: payloads_def)
  note io = identity_of_cong [OF assms(3)]
  from assms(1,2,4) f' a show "rep_base b' w'" by (auto simp: rep_base_def recv_inv_def assms(5) outward_def)
  show "to_deliver b' w' = to_deliver b w" "inside b' = inside b" using p io by (simp_all add: assms(5) to_deliver_def inside_def)
qed

text \<open>Which peer an identity names.\<close>

definition route :: "router \<Rightarrow> byte list \<Rightarrow> nat option" where
  "route b i = map_option fst (map_of (outpipes b) i)"

lemma route_cong:
  "map (\<lambda>(i, p, a). (i, p)) l = map (\<lambda>(i, p, a). (i, p)) l' \<Longrightarrow> map_option fst (map_of l i) = map_option fst (map_of l' i)"
proof (induction l arbitrary: l')
  case (Cons x l)
  then obtain y k where "l' = y # k" by (cases l') auto
  with Cons show ?case by (cases x; cases y) auto
qed simp

lemma base_send:
  assumes "rep_base b w"
  obtains b' w' where "rt_send m b w = Some (Ok, b', w')" "rep_base b' w'" "ident w' = ident w"
    "to_deliver b' w' = to_deliver b w" "inside b' = inside b" "route b' = route b"
    "current_out b' = target m b w" "more_out b' = has_more m"
    "\<forall>x. w_parts x w' = (if more_out b \<and> current_out b = Some x \<and> w_room x w then map_option (add_part m) (w_parts x w)
       else w_parts x w)"
    "has_more m \<longrightarrow> (\<forall>x. w_room x w' = w_room x w)"
proof -
  from assms have "routes_ok b w" "\<not> raw_socket b" "\<not> opt_raw_socket b" and ok: "send_error m b w = Ok"
    by (auto simp: rep_base_def send_error_def)
  from rt_send_ok [OF this(1-3), of m, unfolded ok] obtain o' w' where
    r: "rt_send m b w = Some (Ok, b\<lparr>outpipes := o', current_out := target m b w, more_out := has_more m\<rparr>, w')"
      "routes_ok (b\<lparr>outpipes := o', current_out := target m b w, more_out := has_more m\<rparr>) w'"
      "map (\<lambda>(i, p, a). (i, p)) o' = map (\<lambda>(i, p, a). (i, p)) (outpipes b)" "ident w' = ident w" "outward w w'"
      "\<forall>x. w_parts x w' = (if more_out b \<and> current_out b = Some x \<and> w_room x w then map_option (add_part m) (w_parts x w)
         else w_parts x w)" "has_more m \<longrightarrow> (\<forall>x. w_room x w' = w_room x w)"
    by (auto simp only: simp_thms) 
  note d = deliver_outward [OF assms r(5,4,2) refl]
  have "route (b\<lparr>outpipes := o', current_out := target m b w, more_out := has_more m\<rparr>) = route b"
    using route_cong [OF r(3)] by (simp add: route_def fun_eq_iff)
  from that [OF r(1) d(1) r(4) d(2,3) this _ _ r(6,7)] show thesis by simp
qed

lemma base_rollback:
  assumes "rep_base b w"
  obtains b' w' where "rt_rollback b w = Some (b', w')" "rep_base b' w'" "ident w' = ident w"
    "to_deliver b' w' = to_deliver b w" "inside b' = inside b" "route b' = route b"
    "current_out b' = None" "more_out b' = (more_out b \<and> current_out b = None)"
    "\<forall>x. w_parts x w' = (if current_out b = Some x then map_option (\<lambda>(d, q). (d, [])) (w_parts x w) else w_parts x w)"
    "\<forall>x. w_room x w' = w_room x w"
proof (cases "current_out b")
  case None
  with assms show thesis by (intro that [of b w]) (simp_all add: rt_rollback_def)
next
  case (Some p)
  from assms have rk: "routes_ok b w" by (simp add: rep_base_def)
  with Some obtain i a where "map_of (outpipes b) i = Some (p, a)" unfolding routes_ok_def by blast
  from rollback_route [OF route_alive [OF rk this]] obtain w' where
    w: "w_rollback p w = Some w'" "world_ok w'" "ident w' = ident w" "outward w w'"
      "\<forall>x. w_parts x w' = (if x = p then map_option (\<lambda>(d, q). (d, [])) (w_parts x w) else w_parts x w)"
      "\<forall>x. w_room x w' = w_room x w" by blast
  let ?b = "b\<lparr>current_out := None, more_out := False\<rparr>"
  have "routes_ok ?b w'" using rk w(2,3) by (simp add: routes_ok_ident)
  note d = deliver_outward [OF assms w(4,3) this, where o' = "outpipes b" and c = None and k = False]
  from Some w d show thesis by (intro that [of ?b w']) (simp_all add: rt_rollback_def route_def fun_eq_iff)
qed

subsection \<open>Requests\<close>

text \<open>
  The next request in a stream of parts: its envelope, up to its first empty part, and what
  follows; messages without an empty part before their last one are not requests.
\<close>

fun next_request :: "vmsg list \<Rightarrow> vmsg list \<Rightarrow> (vmsg list \<times> vmsg list) option" where
  "next_request env [] = None"
| "next_request env (m # ms) =
     (if has_more m then (if vdata m = [] then Some (env @ [m], ms) else next_request (env @ [m]) ms)
      else next_request [] ms)"

lemma envelope_returns:
  assumes "rep_base b w" "next_request env (to_deliver b w) = q"
  shows "\<exists>b' w'. rep_envelope b w = Some (q \<noteq> None, b', w') \<and> rep_base b' w' \<and>
    to_deliver b' w' = (case q of None \<Rightarrow> [] | Some (e, ms) \<Rightarrow> ms) \<and> inside b' = (q \<noteq> None)"
  using assms
proof (induction "to_deliver b w" arbitrary: b w env)
  case Nil
  obtain r b1 w1 where r: "rt_recv b w = Some (r, b1, w1)" "rep_base b1 w1"
    "to_deliver b w = (case r of None \<Rightarrow> [] | Some m \<Rightarrow> m # to_deliver b1 w1)"
    "case r of None \<Rightarrow> \<not> inside b \<and> \<not> inside b1 \<and> to_deliver b1 w1 = [] | Some m \<Rightarrow> inside b1 = has_more m"
    by (rule base_recv [OF Nil(2)]) (rule that)
  with Nil have "r = None" by (cases r) auto
  with r Nil show ?case by (auto simp: rep_envelope.simps [of b w])
next
  case (Cons m ms)
  obtain r b1 w1 where r: "rt_recv b w = Some (r, b1, w1)" "rep_base b1 w1"
    "to_deliver b w = (case r of None \<Rightarrow> [] | Some m \<Rightarrow> m # to_deliver b1 w1)"
    "case r of None \<Rightarrow> \<not> inside b \<and> \<not> inside b1 \<and> to_deliver b1 w1 = [] | Some m \<Rightarrow> inside b1 = has_more m"
    by (rule base_recv [OF Cons(3)]) (rule that)
  with Cons(2) have m: "r = Some m" "to_deliver b1 w1 = ms" "inside b1 = has_more m" by (auto split: option.splits)
  show ?case
  proof (cases "has_more m")
    case True
    obtain b2 w2 where s: "rt_send m b1 w1 = Some (Ok, b2, w2)" "rep_base b2 w2" "to_deliver b2 w2 = ms" "inside b2 = inside b1"
      by (rule base_send [OF r(2), of m]) (use m(2) in \<open>auto intro: that\<close>)
    show ?thesis
    proof (cases "vdata m = []")
      case e: True
      with True Cons(2,4) r m s show ?thesis by (auto simp: rep_envelope.simps [of b w])
    next
      case False
      from Cons(1) [OF s(3) [symmetric] s(2), of "env @ [m]"] False True Cons(2,4) s(3) r m s(1) show ?thesis
        by (auto simp: rep_envelope.simps [of b w])
    qed
  next
    case False
    obtain b2 w2 where s: "rt_rollback b1 w1 = Some (b2, w2)" "rep_base b2 w2" "to_deliver b2 w2 = ms"
      by (rule base_rollback [OF r(2)]) (use m(2) in \<open>auto intro: that\<close>)
    from Cons(1) [OF s(3) [symmetric] s(2), of "[]"] False Cons(2,4) s(3) r m s(1) show ?thesis
      by (auto simp: rep_envelope.simps [of b w])
  qed
qed

text \<open>Where the parts of a stream begin a message, and that these first parts name peers.\<close>

fun firsts :: "bool \<Rightarrow> vmsg list \<Rightarrow> vmsg list" where
  "firsts ins [] = []"
| "firsts ins (m # ms) = (if ins then [] else [m]) @ firsts (has_more m) ms"

definition peers_ok :: "router \<Rightarrow> bool" where
  "peers_ok b \<longleftrightarrow> (\<forall>p\<in>set (items (fq_pipes (rt_fq b))). \<exists>i. route b i = Some p) \<and>
     (prefetched b \<and> \<not> identity_sent b \<longrightarrow> route b (vdata (prefetched_id b)) \<noteq> None)"

lemma recvpipe_items:
  assumes "fq_recvpipe w_read q w = Some (Some (m, p), q', w')"
  shows "p \<in> set (items (fq_pipes q))"
proof -
  have "fq_loop w_read n q w = Some (Some (m, p), q', w') \<Longrightarrow> p \<in> set (items (fq_pipes q))" for n
  proof (induction n arbitrary: q w)
    case (Suc n)
    from Suc.prems obtain x r w1 where x: "table_at (items (fq_pipes q)) (fq_current q) = Some x" "x = p \<or>
        (\<exists>q1. fq_deactivate q = Some q1 \<and> fq_loop w_read n q1 w1 = Some (Some (m, p), q', w'))"
      by (fastforce simp: bind_eq_Some_conv Let_def split: option.splits if_splits)
    from x(1) have "x \<in> set (items (fq_pipes q))" by (auto simp: table_at_def split: if_splits)
    with x(2) Suc.IH fq_deactivate_items show ?case by blast
  qed simp
  with assms show ?thesis by (simp add: fq_recvpipe_def)
qed

lemma arrivals_items: "fq_ready q w \<Longrightarrow> snd ` set (arrivals q w) \<subseteq> set (items (fq_pipes q))"
proof (induction q w rule: fq_drain.induct)
  case (1 q w)
  obtain r q1 w1 where r: "fq_recvpipe w_read q w = Some (r, q1, w1)" "fq_ready q1 w1"
    "set (items (fq_pipes q1)) = set (items (fq_pipes q))"
    by (rule fq_ready_recv [OF 1(2)]) (rule that)
  note st = arrivals_step [OF 1(2) r(1,2)]
  show ?case
  proof (cases r)
    case None
    with st show ?thesis by simp
  next
    case (Some mp)
    with 1(1) [OF r(1) refl Some refl r(2)] recvpipe_items [of q w "fst mp" "snd mp"] r st show ?thesis by auto
  qed
qed

lemma firsts_tagged: "set (firsts ins (tagged f ins ms)) \<subseteq> f ` snd ` set ms" if "\<And>p. has_more (f p)"
proof (induction ms arbitrary: ins)
  case (Cons mp ms)
  obtain m p where "mp = (m, p)" by (cases mp)
  with Cons [of "has_more m"] that show ?case by auto
qed simp

lemma firsts_named:
  assumes "rep_base b w" "peers_ok b" "m \<in> set (firsts (inside b) (to_deliver b w))"
  shows "route b (vdata m) \<noteq> None"
proof -
  from assms(1) have inv: "recv_inv b w" and rk: "routes_ok b w" by (simp_all add: rep_base_def)
  have t: "route b (vdata m) \<noteq> None" if m: "m \<in> identity_of w ` snd ` set (payloads (rt_fq b) w)" for m
  proof -
    from m obtain x p where p: "m = identity_of w p" "(x, p) \<in> set (payloads (rt_fq b) w)" by auto
    then have "p \<in> snd ` set (arrivals (rt_fq b) w)" by (force simp: payloads_def)
    with arrivals_items inv have "p \<in> set (items (fq_pipes (rt_fq b)))" by (auto simp: recv_inv_def)
    with assms(2) obtain i where i: "route b i = Some p" by (auto simp: peers_ok_def)
    with rk have "ident w p = Some i" by (auto simp: routes_ok_ident route_def)
    with i p(1) show ?thesis by (simp add: identity_of_def sized_msg_def plain_def)
  qed
  note ft = firsts_tagged [of "identity_of w", OF has_more_identity]
  show ?thesis
  proof (cases "prefetched b")
    case False
    with assms(3) ft t show ?thesis by (fastforce simp: to_deliver_def inside_def)
  next
    case True
    with inv assms(3) have "m \<in> set (firsts (has_more (prefetched_msg b)) (tagged (identity_of w) (has_more (prefetched_msg b))
        (payloads (rt_fq b) w))) \<or> \<not> identity_sent b \<and> m = prefetched_id b"
      by (auto simp: to_deliver_def inside_def recv_inv_def split: if_splits)
    with True assms(2) ft t show ?thesis by (fastforce simp: peers_ok_def)
  qed
qed

lemma target_route:
  "target m b w = (if \<not> has_more m then None
     else Option.bind (if more_out b then current_out b else route b (vdata m)) (\<lambda>p. if w_room p w then Some p else None))"
  by (auto simp: target_def route_def split: option.splits)

text \<open>
  Between two parts of an envelope: its first part has selected the pipe of the requester, the
  others are the unfinished message in that pipe, and no other pipe has one. \<open>v\<close> is the world
  before the request; all pipes have room.
\<close>

definition stored :: "world \<Rightarrow> vmsg list \<Rightarrow> router \<Rightarrow> world \<Rightarrow> bool" where
  "stored v env b w \<longleftrightarrow> rep_base b w \<and> inside b = (env \<noteq> []) \<and> more_out b = (env \<noteq> []) \<and>
     current_out b = (case env of [] \<Rightarrow> None | e # es \<Rightarrow> route b (vdata e)) \<and>
     (\<forall>x. w_parts x w = map_option (\<lambda>(d, q). (d, if current_out b = Some x then tl env else [])) (w_parts x v)) \<and>
     (\<forall>i p. route b i = Some p \<longrightarrow> w_room p w) \<and> (env \<noteq> [] \<longrightarrow> current_out b \<noteq> None) \<and>
     (\<forall>m\<in>set (firsts (inside b) (to_deliver b w)). route b (vdata m) \<noteq> None)"

lemma stored_recv:
  assumes "stored v env b w" "to_deliver b w = m # ms"
  obtains b' w' where "rt_recv b w = Some (Some m, b', w')" "to_deliver b' w' = ms" "rep_base b' w'"
    "inside b' = has_more m" "send_side b' = send_side b" "ident w' = ident w"
    "\<forall>x. w_parts x w' = w_parts x w \<and> w_room x w' = w_room x w"
proof -
  from assms(1) have "rep_base b w" by (simp add: stored_def)
  then obtain r b' w' where r: "rt_recv b w = Some (r, b', w')" "rep_base b' w'" "ident w' = ident w"
    "send_side b' = send_side b" "to_deliver b w = (case r of None \<Rightarrow> [] | Some m \<Rightarrow> m # to_deliver b' w')"
    "\<forall>x. w_parts x w' = w_parts x w \<and> w_room x w' = w_room x w"
    "case r of None \<Rightarrow> \<not> inside b \<and> \<not> inside b' \<and> to_deliver b' w' = [] | Some m \<Rightarrow> inside b' = has_more m"
    by (rule base_recv) (rule that)
  with assms(2) have "r = Some m" by (cases r) auto
  with r assms(2) show thesis by (intro that [of b' w']) auto
qed

lemma stored_send:
  assumes "stored v env b w" "rep_base b1 w1" "send_side b1 = send_side b" "inside b1" "has_more m"
    "\<forall>x. w_parts x w1 = w_parts x w \<and> w_room x w1 = w_room x w" "to_deliver b w = m # to_deliver b1 w1"
  obtains b' w' where "rt_send m b1 w1 = Some (Ok, b', w')" "stored v (env @ [m]) b' w'" "ident w' = ident w1"
    "to_deliver b' w' = to_deliver b1 w1" "route b' = route b"
proof -
  have s: "more_out b1 = more_out b" "current_out b1 = current_out b" "route b1 = route b"
    using assms(3) by (simp_all add: send_side_def route_def fun_eq_iff)
  note st = assms(1) [unfolded stored_def]
  obtain b2 w2 where r: "rt_send m b1 w1 = Some (Ok, b2, w2)" "rep_base b2 w2" "ident w2 = ident w1"
    "to_deliver b2 w2 = to_deliver b1 w1" "inside b2 = inside b1" "route b2 = route b1"
    "current_out b2 = target m b1 w1" "more_out b2 = has_more m"
    "\<forall>x. w_parts x w2 = (if more_out b1 \<and> current_out b1 = Some x \<and> w_room x w1 then map_option (add_part m) (w_parts x w1)
       else w_parts x w1)"
    "has_more m \<longrightarrow> (\<forall>x. w_room x w2 = w_room x w1)"
    by (rule base_send [OF assms(2), of m]) (rule that)
  have "stored v (env @ [m]) b2 w2"
  proof (cases env)
    case Nil
    with st assms(7) obtain p where p: "route b (vdata m) = Some p" by auto
    with st assms(5,6) s Nil have t: "target m b1 w1 = Some p" by (auto simp: target_route)
    from st Nil assms(7) r(4) assms(4,5) have "\<forall>x\<in>set (firsts True (to_deliver b2 w2)). route b (vdata x) \<noteq> None" by auto
    with Nil st p t r s assms(4-6) show ?thesis by (auto simp: stored_def)
  next
    case (Cons e es)
    with st have "current_out b = route b (vdata e)" by simp
    from st have "env \<noteq> [] \<longrightarrow> current_out b \<noteq> None" by blast
    with Cons obtain p where "current_out b = Some p" by blast
    with \<open>current_out b = route b (vdata e)\<close> have p: "current_out b = Some p" "route b (vdata e) = Some p" by simp_all
    with st assms(5,6) s Cons have t: "target m b1 w1 = Some p" "w_room p w1" by (auto simp: target_route)
    from st Cons assms(7) r(4) assms(4,5) have "\<forall>x\<in>set (firsts True (to_deliver b2 w2)). route b (vdata x) \<noteq> None" by auto
    with Cons st p t r s assms(4-6) show ?thesis by (auto simp: stored_def option.map_comp o_def intro!: option.map_cong0)
  qed
  with that r s show thesis by metis
qed

lemma stored_rollback:
  assumes "stored v env b w" "rep_base b1 w1" "send_side b1 = send_side b" "\<not> inside b1" "\<not> has_more m"
    "\<forall>x. w_parts x w1 = w_parts x w \<and> w_room x w1 = w_room x w" "to_deliver b w = m # to_deliver b1 w1"
  obtains b' w' where "rt_rollback b1 w1 = Some (b', w')" "stored v [] b' w'" "ident w' = ident w1"
    "to_deliver b' w' = to_deliver b1 w1" "route b' = route b"
proof -
  have s: "more_out b1 = more_out b" "current_out b1 = current_out b" "route b1 = route b"
    using assms(3) by (simp_all add: send_side_def route_def fun_eq_iff)
  note st = assms(1) [unfolded stored_def]
  obtain b2 w2 where r: "rt_rollback b1 w1 = Some (b2, w2)" "rep_base b2 w2" "ident w2 = ident w1"
    "to_deliver b2 w2 = to_deliver b1 w1" "inside b2 = inside b1" "route b2 = route b1"
    "current_out b2 = None" "more_out b2 = (more_out b1 \<and> current_out b1 = None)"
    "\<forall>x. w_parts x w2 = (if current_out b1 = Some x then map_option (\<lambda>(d, q). (d, [])) (w_parts x w1) else w_parts x w1)"
    "\<forall>x. w_room x w2 = w_room x w1"
    by (rule base_rollback [OF assms(2)]) (rule that)
  have "\<not> more_out b2" using r(8) s st by auto
  moreover have "set (firsts False (to_deliver b2 w2)) \<subseteq> set (firsts (inside b) (to_deliver b w))"
    using assms(5,7) r(4) by auto
  then have "\<forall>m\<in>set (firsts False (to_deliver b2 w2)). route b (vdata m) \<noteq> None" using st by blast
  moreover have "w_parts x w2 = map_option (\<lambda>(d, q). (d, [])) (w_parts x v)" for x
    using r(9) s assms(6) st by (cases "w_parts x v") auto
  ultimately have "stored v [] b2 w2" using st r s assms(4-6) by (auto simp: stored_def)
  with that r s show thesis by metis
qed

lemma envelope_stored:
  assumes "stored v env b w" "next_request env (to_deliver b w) = Some (e, ms)"
  shows "\<exists>b' w'. rep_envelope b w = Some (True, b', w') \<and> stored v e b' w' \<and> to_deliver b' w' = ms \<and>
    ident w' = ident w \<and> route b' = route b"
  using assms
proof (induction "to_deliver b w" arbitrary: b w env)
  case Nil
  then show ?case by simp
next
  case (Cons m rest)
  obtain b1 w1 where r: "rt_recv b w = Some (Some m, b1, w1)" "to_deliver b1 w1 = rest" "rep_base b1 w1"
    "inside b1 = has_more m" "send_side b1 = send_side b" "ident w1 = ident w"
    "\<forall>x. w_parts x w1 = w_parts x w \<and> w_room x w1 = w_room x w"
    by (rule stored_recv [OF Cons(3) Cons(2) [symmetric]]) (rule that)
  have d: "to_deliver b w = m # to_deliver b1 w1" using Cons(2) r(2) by simp
  have nr: "next_request env (m # rest) = Some (e, ms)" using Cons(2,4) by simp
  show ?case
  proof (cases "has_more m")
    case True
    with r(4) have "inside b1" by simp
    obtain b2 w2 where s: "rt_send m b1 w1 = Some (Ok, b2, w2)" "stored v (env @ [m]) b2 w2" "ident w2 = ident w1"
      "to_deliver b2 w2 = to_deliver b1 w1" "route b2 = route b"
      by (rule stored_send [OF Cons(3) r(3,5) \<open>inside b1\<close> True r(7) d]) (rule that)
    show ?thesis
    proof (cases "vdata m = []")
      case e: True
      with True nr have "e = env @ [m]" "ms = rest" by simp_all
      with e True r s show ?thesis by (auto simp: rep_envelope.simps [of b w])
    next
      case False
      with nr True r(2) s(4) have "next_request (env @ [m]) (to_deliver b2 w2) = Some (e, ms)" by auto
      with Cons(1) [OF _ s(2)] s r obtain b' w' where
        "rep_envelope b2 w2 = Some (True, b', w') \<and> stored v e b' w' \<and> to_deliver b' w' = ms \<and>
          ident w' = ident w2 \<and> route b' = route b2" by auto
      with False True r s show ?thesis by (auto simp: rep_envelope.simps [of b w])
    qed
  next
    case False
    with r(4) have "\<not> inside b1" by simp
    obtain b2 w2 where s: "rt_rollback b1 w1 = Some (b2, w2)" "stored v [] b2 w2" "ident w2 = ident w1"
      "to_deliver b2 w2 = to_deliver b1 w1" "route b2 = route b"
      by (rule stored_rollback [OF Cons(3) r(3,5) \<open>\<not> inside b1\<close> False r(7) d]) (rule that)
    with nr False r(2) have "next_request [] (to_deliver b2 w2) = Some (e, ms)" by auto
    with Cons(1) [OF _ s(2)] s r obtain b' w' where
      "rep_envelope b2 w2 = Some (True, b', w') \<and> stored v e b' w' \<and> to_deliver b' w' = ms \<and>
        ident w' = ident w2 \<and> route b' = route b2" by auto
    with False r s show ?thesis by (auto simp: rep_envelope.simps [of b w])
  qed
qed

subsection \<open>Whole requests and replies\<close>

definition rep_ready :: "rep \<Rightarrow> world \<Rightarrow> bool" where
  "rep_ready s w \<longleftrightarrow> rep_base (rep_router s) w \<and> (sending_reply s \<longrightarrow> request_begins s) \<and>
     request_begins s = (\<not> inside (rep_router s))"

text \<open>The parts of one message.\<close>

definition one_message :: "vmsg list \<Rightarrow> bool" where
  "one_message ms \<longleftrightarrow> ms \<noteq> [] \<and> \<not> has_more (last ms) \<and> list_all has_more (butlast ms)"

lemma one_message_Cons: "one_message (m # ms) \<longleftrightarrow> (if has_more m then one_message ms else ms = [])"
  by (cases ms) (auto simp: one_message_def)

fun rep_recvs :: "nat \<Rightarrow> rep \<Rightarrow> world \<Rightarrow> (vmsg list \<times> rep \<times> world) option" where
  "rep_recvs 0 s w = Some ([], s, w)"
| "rep_recvs (Suc n) s w = do {
     (r, s, w) \<leftarrow> rep_recv s w;
     case r of Inl e \<Rightarrow> None | Inr m \<Rightarrow> do { (ms, s, w) \<leftarrow> rep_recvs n s w; Some (m # ms, s, w) } }"

fun rep_sends :: "vmsg list \<Rightarrow> rep \<Rightarrow> world \<Rightarrow> (rep \<times> world) option" where
  "rep_sends [] s w = Some (s, w)"
| "rep_sends (m # ms) s w = do { (r, s, w) \<leftarrow> rep_send m s w; if r = Ok then rep_sends ms s w else None }"

lemma recv_part:
  assumes "rep_ready s w" "\<not> sending_reply s" "\<not> request_begins s"
  obtains m s' w' where "rep_recv s w = Some (Inr m, s', w')" "rep_ready s' w'" "ident w' = ident w"
    "to_deliver (rep_router s) w = m # to_deliver (rep_router s') w'"
    "send_side (rep_router s') = send_side (rep_router s)" "sending_reply s' = (\<not> has_more m)"
    "\<forall>x. w_parts x w' = w_parts x w \<and> w_room x w' = w_room x w"
proof -
  from assms(1,3) have b: "rep_base (rep_router s) w" "inside (rep_router s)" by (simp_all add: rep_ready_def)
  obtain r b' w' where r: "rt_recv (rep_router s) w = Some (r, b', w')" "rep_base b' w'" "ident w' = ident w"
    "send_side b' = send_side (rep_router s)"
    "to_deliver (rep_router s) w = (case r of None \<Rightarrow> [] | Some m \<Rightarrow> m # to_deliver b' w')"
    "\<forall>x. w_parts x w' = w_parts x w \<and> w_room x w' = w_room x w"
    "case r of None \<Rightarrow> \<not> inside (rep_router s) \<and> \<not> inside b' \<and> to_deliver b' w' = [] | Some m \<Rightarrow> inside b' = has_more m"
    by (rule base_recv [OF b(1)]) (rule that)
  with b(2) obtain m where "r = Some m" by (cases r) auto
  with r assms(2,3) show thesis
    by (intro that [of m "if \<not> has_more m then s\<lparr>rep_router := b', request_begins := True, sending_reply := True\<rparr>
        else s\<lparr>rep_router := b'\<rparr>" w']) (auto simp: rep_recv_def rep_ready_def)
qed

text \<open>
  C33: Receiving on a reply socket returns, in every state in which no pipe is about to end (no delimiter is queued, no pipe
  loops back to the socket), in the middle of a message its pipe can still be read, and neither \<open>ZMQ_ROUTER_RAW\<close> nor a handover is at work (\<open>rep_ready\<close>, which is kept): the loop over the envelope
  ends and none of its assertions fails, whatever messages the peers have sent. Outside a request it returns the first part
  after the next envelope, discarding messages that are not requests, or \<open>EAGAIN\<close> when there is
  no request in what has arrived; inside a request, the next part; and \<open>EFSM\<close> before the reply is
  complete. (\<open>ZMQ_ROUTER_MANDATORY\<close> is not set.)
\<close>

theorem rep_recv_returns:
  assumes "rep_ready s w"
  shows "\<exists>r s' w'. rep_recv s w = Some (r, s', w') \<and> rep_ready s' w' \<and>
    (if sending_reply s then r = Inl EFSM \<and> s' = s \<and> w' = w
     else case if request_begins s then next_request [] (to_deliver (rep_router s) w)
                else Some ([], to_deliver (rep_router s) w) of
       None \<Rightarrow> r = Inl EAGAIN \<and> to_deliver (rep_router s') w' = []
     | Some (env, ms) \<Rightarrow> (\<exists>m. r = Inr m \<and> ms = m # to_deliver (rep_router s') w' \<and> sending_reply s' = (\<not> has_more m)))"
proof (cases "sending_reply s")
  case True
  with assms show ?thesis by (simp add: rep_recv_def)
next
  case ns: False
  show ?thesis
  proof (cases "request_begins s")
    case False
    show ?thesis by (rule recv_part [OF assms ns False]) (use ns False in simp)
  next
    case True
    let ?q = "next_request [] (to_deliver (rep_router s) w)"
    from assms have "rep_base (rep_router s) w" by (simp add: rep_ready_def)
    from envelope_returns [OF this refl, of "[]"] obtain b1 w1 where
      b1: "rep_envelope (rep_router s) w = Some (?q \<noteq> None, b1, w1)" "rep_base b1 w1"
        "to_deliver b1 w1 = (case ?q of None \<Rightarrow> [] | Some (e, ms) \<Rightarrow> ms)" "inside b1 = (?q \<noteq> None)" by blast
    show ?thesis
    proof (cases ?q)
      case None
      with b1 ns True show ?thesis by (simp add: rep_recv_def rep_ready_def)
    next
      case (Some q)
      let ?s = "s\<lparr>rep_router := b1, request_begins := False\<rparr>"
      have "rep_ready ?s w1" using b1 Some ns by (simp add: rep_ready_def)
      then obtain m s' w' where r: "rep_recv ?s w1 = Some (Inr m, s', w')" "rep_ready s' w'"
        "to_deliver b1 w1 = m # to_deliver (rep_router s') w'" "sending_reply s' = (\<not> has_more m)"
        by (rule recv_part) (use ns in \<open>simp_all add: that\<close>)
      have "rep_recv s w = rep_recv ?s w1" using True ns b1(1) Some by (simp add: rep_recv_def)
      with r True ns b1(3) Some show ?thesis by (auto split: prod.splits)
    qed
  qed
qed

lemma recvs_body:
  assumes "rep_ready s w" "\<not> sending_reply s" "\<not> request_begins s" "to_deliver (rep_router s) w = body @ rest" "one_message body"
  shows "\<exists>s' w'. rep_recvs (length body) s w = Some (body, s', w') \<and> rep_ready s' w' \<and> sending_reply s' \<and>
    to_deliver (rep_router s') w' = rest \<and> send_side (rep_router s') = send_side (rep_router s) \<and> ident w' = ident w \<and>
    (\<forall>x. w_parts x w' = w_parts x w \<and> w_room x w' = w_room x w)"
  using assms
proof (induction body arbitrary: s w)
  case Nil
  then show ?case by (simp add: one_message_def)
next
  case (Cons m ms)
  obtain m1 s1 w1 where r: "rep_recv s w = Some (Inr m1, s1, w1)" "rep_ready s1 w1" "ident w1 = ident w"
    "to_deliver (rep_router s) w = m1 # to_deliver (rep_router s1) w1"
    "send_side (rep_router s1) = send_side (rep_router s)" "sending_reply s1 = (\<not> has_more m1)"
    "\<forall>x. w_parts x w1 = w_parts x w \<and> w_room x w1 = w_room x w"
    by (rule recv_part [OF Cons.prems(1-3)]) (rule that)
  from r(4) Cons.prems(4) have m: "m1 = m" "to_deliver (rep_router s1) w1 = ms @ rest" by simp_all
  show ?case
  proof (cases "has_more m")
    case False
    with Cons.prems(5) have "ms = []" by (simp add: one_message_Cons)
    with r m False show ?thesis by simp
  next
    case True
    with Cons.prems(5) have "one_message ms" by (simp add: one_message_Cons)
    moreover have "\<not> request_begins s1"
    proof
      assume "request_begins s1"
      with r(2) have "\<not> inside (rep_router s1)" by (simp add: rep_ready_def)
      moreover from r(1) Cons.prems(2,3) obtain b where b: "rt_recv (rep_router s) w = Some (Some m1, b, w1)" "rep_router s1 = b"
        by (auto simp: rep_recv_def bind_eq_Some_conv Let_def split: option.splits if_splits)
      ultimately show False
        using rt_recv_inside [OF b(1)] Cons.prems(1) True m(1) by (simp add: rep_ready_def rep_base_def)
    qed
    ultimately obtain s' w' where "rep_recvs (length ms) s1 w1 = Some (ms, s', w')" "rep_ready s' w'" "sending_reply s'"
      "to_deliver (rep_router s') w' = rest" "send_side (rep_router s') = send_side (rep_router s1)" "ident w' = ident w1"
      "\<forall>x. w_parts x w' = w_parts x w1 \<and> w_room x w' = w_room x w1"
      using Cons.IH [OF r(2) _ _ m(2)] True r(6) m(1) by auto
    with r m show ?thesis by simp
  qed
qed

lemma sends_reply:
  assumes "rep_ready s w" "sending_reply s" "more_out (rep_router s)" "current_out (rep_router s) = Some p" "w_room p w"
    "one_message reply"
  shows "\<exists>s' w'. rep_sends reply s w = Some (s', w') \<and> rep_ready s' w' \<and> \<not> sending_reply s' \<and> request_begins s' \<and>
    to_deliver (rep_router s') w' = to_deliver (rep_router s) w \<and> \<not> w_hidden p w' \<and>
    (\<forall>x. w_parts x w' = (if x = p then map_option (\<lambda>(d, q). (d @ q @ reply, [])) (w_parts x w) else w_parts x w))"
  using assms
proof (induction reply arbitrary: s w)
  case Nil
  then show ?case by (simp add: one_message_def)
next
  case (Cons m ms)
  from Cons.prems(1,2) have b: "rep_base (rep_router s) w" "request_begins s" "\<not> inside (rep_router s)" by (auto simp: rep_ready_def)
  obtain b' w' where r: "rt_send m (rep_router s) w = Some (Ok, b', w')" "rep_base b' w'" "ident w' = ident w"
    "to_deliver b' w' = to_deliver (rep_router s) w" "inside b' = inside (rep_router s)"
    "current_out b' = target m (rep_router s) w" "more_out b' = has_more m"
    "\<forall>x. w_parts x w' = (if more_out (rep_router s) \<and> current_out (rep_router s) = Some x \<and> w_room x w
       then map_option (add_part m) (w_parts x w) else w_parts x w)"
    "has_more m \<longrightarrow> (\<forall>x. w_room x w' = w_room x w)"
    by (rule base_send [OF b(1), of m]) (rule that)
  have t: "target m (rep_router s) w = (if has_more m then Some p else None)"
    using Cons.prems(3-5) by (simp add: target_def)
  let ?s = "if \<not> has_more m then s\<lparr>rep_router := b', sending_reply := False\<rparr> else s\<lparr>rep_router := b'\<rparr>"
  have sd: "rep_send m s w = Some (Ok, ?s, w')" using Cons.prems(2) r(1) by (simp add: rep_send_def)
  have rd: "rep_ready ?s w'" using r b Cons.prems(2) by (simp add: rep_ready_def)
  show ?case
  proof (cases "has_more m")
    case False
    with Cons.prems(6) have "ms = []" by (simp add: one_message_Cons)
    moreover have "\<not> w_hidden p w'"
      using rt_send_visible [OF r(1) _ _ _ Cons.prems(3) False Cons.prems(4,5)] b(1) by (simp add: rep_base_def)
    ultimately show ?thesis using False sd rd r b Cons.prems(3-5) by (auto simp: intro!: option.map_cong0)
  next
    case True
    with Cons.prems(6) have "one_message ms" by (simp add: one_message_Cons)
    with Cons.IH [OF rd] True r t Cons.prems(2,5) obtain s2 w2 where
      w2: "rep_sends ms ?s w' = Some (s2, w2)" "rep_ready s2 w2" "\<not> sending_reply s2" "request_begins s2"
        "to_deliver (rep_router s2) w2 = to_deliver b' w'" "\<not> w_hidden p w2"
        "\<forall>x. w_parts x w2 = (if x = p then map_option (\<lambda>(d, q). (d @ q @ ms, [])) (w_parts x w') else w_parts x w')"
      by auto
    have "w_parts x w2 = (if x = p then map_option (\<lambda>(d, q). (d @ q @ m # ms, [])) (w_parts x w) else w_parts x w)" for x
      using w2(7) r(8) True Cons.prems(3-5) by (cases "w_parts p w") auto
    with w2 sd r show ?thesis by simp
  qed
qed

text \<open>
  C34: A reply goes to the peer that sent the request, behind the envelope of the request: after
  the user has received the parts of a request and sent those of a reply, the pipe of the
  requester, and no other, has got one more complete message, the envelope without the identity
  followed by the reply, and it is flushed, so that the peer can see it. Messages without an envelope that came before leave no trace.
  This holds in the states of C33 in which the router below is not inside a message to be sent (\<open>more_out\<close>), the peers are known and
  have room for a message, and no pipe has an unfinished one. That \<open>more_out\<close> is not set is a restriction, as the socket can get there
  by itself and then drops the next reply: \<open>rep_drops_next_reply\<close>.
\<close>

theorem rep_answers_requester:
  assumes "rep_ready s w" "request_begins s" "\<not> sending_reply s" "\<not> more_out (rep_router s)" "peers_ok (rep_router s)"
    and room: "\<And>i p. route (rep_router s) i = Some p \<Longrightarrow> w_room p w"
    and clean: "\<And>x d q. w_parts x w = Some (d, q) \<Longrightarrow> q = []"
    and req: "next_request [] (to_deliver (rep_router s) w) = Some (e # env, body @ rest)"
    and msgs: "one_message body" "one_message reply"
  shows "\<exists>p s1 w1 s2 w2. rep_recvs (length body) s w = Some (body, s1, w1) \<and> rep_sends reply s1 w1 = Some (s2, w2) \<and>
    ident w p = Some (vdata e) \<and> rep_ready s2 w2 \<and> request_begins s2 \<and> \<not> sending_reply s2 \<and>
    to_deliver (rep_router s2) w2 = rest \<and> \<not> w_hidden p w2 \<and>
    (\<forall>x. w_parts x w2 = (if x = p then map_option (\<lambda>(d, q). (d @ env @ reply, [])) (w_parts x w) else w_parts x w))"
proof -
  let ?b = "rep_router s"
  from assms(1,2) have b: "rep_base ?b w" "\<not> inside ?b" "routes_ok ?b w" by (simp_all add: rep_ready_def rep_base_def)
  have id: "w_parts x w = map_option (\<lambda>(d, q). (d, [])) (w_parts x w)" for x using clean [of x] by (cases "w_parts x w") auto
  have "stored w [] ?b w"
    using b assms(4) room id firsts_named [OF b(1) assms(5)] by (auto simp: stored_def routes_ok_def)
  from envelope_stored [OF this req] obtain b1 w1 where
    e1: "rep_envelope ?b w = Some (True, b1, w1)" "stored w (e # env) b1 w1" "to_deliver b1 w1 = body @ rest"
      "ident w1 = ident w" "route b1 = route ?b" by blast
  note st = e1(2) [unfolded stored_def]
  from st have co: "current_out b1 = route b1 (vdata e)" by simp
  from st have "current_out b1 \<noteq> None" by blast
  then obtain p where p: "current_out b1 = Some p" by blast
  with co e1(5) have "route ?b (vdata e) = Some p" by simp
  with b(3) have idp: "ident w p = Some (vdata e)" by (auto simp: route_def routes_ok_ident)
  let ?s = "s\<lparr>rep_router := b1, request_begins := False\<rparr>"
  have "rep_ready ?s w1" using st assms(3) by (simp add: rep_ready_def)
  with recvs_body [of ?s w1 body rest] assms(3) e1(3) msgs(1) obtain s2 w2 where
    r: "rep_recvs (length body) ?s w1 = Some (body, s2, w2)" "rep_ready s2 w2" "sending_reply s2"
      "to_deliver (rep_router s2) w2 = rest" "send_side (rep_router s2) = send_side b1"
      "\<forall>x. w_parts x w2 = w_parts x w1 \<and> w_room x w2 = w_room x w1" by auto
  from msgs(1) obtain n where n: "length body = Suc n" by (cases body) (auto simp: one_message_def)
  have "rep_recv s w = rep_recv ?s w1" using assms(2,3) e1(1) by (simp add: rep_recv_def)
  with r(1) n have rs: "rep_recvs (length body) s w = Some (body, s2, w2)" by simp
  have "w_room p w2" using st p co r(6) by auto
  moreover have "more_out (rep_router s2)" "current_out (rep_router s2) = Some p"
    using st r(5) p by (auto simp: send_side_def)
  ultimately obtain s3 w3 where
    w3: "rep_sends reply s2 w2 = Some (s3, w3)" "rep_ready s3 w3" "\<not> sending_reply s3" "request_begins s3"
      "to_deliver (rep_router s3) w3 = rest" "\<not> w_hidden p w3"
      "\<forall>x. w_parts x w3 = (if x = p then map_option (\<lambda>(d, q). (d @ q @ reply, [])) (w_parts x w2) else w_parts x w2)"
    using sends_reply [OF r(2,3) _ _ _ msgs(2)] r(4) by blast
  have "w_parts x w3 = (if x = p then map_option (\<lambda>(d, q). (d @ env @ reply, [])) (w_parts x w) else w_parts x w)" for x
  proof -
    have "w_parts x w2 = map_option (\<lambda>(d, q). (d, if p = x then env else [])) (w_parts x w)" using st p r(6) by simp
    with spec [OF w3(7), of x] id [of x] show ?thesis by (cases "w_parts x w"; cases "x = p") auto
  qed
  with rs w3 idp show ?thesis by blast
qed

subsection \<open>A reply socket with three peers\<close>

definition named_world :: "world \<Rightarrow> world" where
  "named_world w = w\<lparr>pends := (\<lambda>p. map_option (p_set_identity [of_nat p + 65]) (pends w p))\<rparr>"

text \<open>One peer has sent a message that is no request, another one a request through a device.\<close>

definition rep3 :: rep where
  "rep3 = (new_rep 5)\<lparr>rep_router := (new_router 5)\<lparr>rt_fq := fq3,
     outpipes := [([65], 0, True), ([66], 1, True), ([67], 2, True)]\<rparr>\<rparr>"

definition rep_world :: world where
  "rep_world = named_world (incoming 1 [plain type_vsm more_flag [9], plain type_vsm more_flag [], plain type_vsm 0 [1]]
     (incoming 0 [plain type_vsm 0 [4]] world3))"

lemma named_inbox: "inbox p (named_world w) = inbox p w"
  by (auto simp: inbox_def named_world_def p_set_identity_def split: option.splits)

lemma named_pends: "pends (named_world w) p = Some e \<longleftrightarrow> (\<exists>f. pends w p = Some f \<and> e = p_set_identity [of_nat p + 65] f)"
  by (auto simp: named_world_def)

lemma named_ready: "ready_end (p_set_identity i e) n = ready_end e n"
  by (simp add: ready_end_def p_set_identity_def)

lemma named_end [simp]: "inpipe (p_set_identity i e) = inpipe e" "outpipe (p_set_identity i e) = outpipe e"
  by (simp_all add: p_set_identity_def)

lemma calm_named:
  assumes "calm w"
  shows "calm (named_world w)"
proof -
  have d: "inpipe e \<noteq> inpipe f \<and> (outpipe e \<noteq> None \<longrightarrow> outpipe e \<noteq> outpipe f)"
    if "pends w p = Some e" "pends w q = Some f" "p \<noteq> q" for p q e f
    using assms that unfolding calm_def world_ok_def by blast
  have o: "outpipe f \<noteq> Some i" if "pends w p = Some e" "pends w q = Some f" "inpipe e = Some i" for p q e f i
    using assms that unfolding calm_def by blast
  have "ready_end e (wnet (named_world w))" if "pends w p = Some e" for p e
    using assms that by (simp add: calm_def world_ok_def named_world_def)
  then have "world_ok (named_world w)"
    unfolding world_ok_def named_pends using d by (fastforce simp: named_ready)
  moreover have "outpipe f \<noteq> Some i" if n: "pends (named_world w) p = Some e" "pends (named_world w) q = Some f" "inpipe e = Some i"
    for p q e f i
    using n o unfolding named_pends by auto
  moreover have "\<not> v_is_delimiter m" if "m \<in> set (inbox p (named_world w))" for p m
    using assms that unfolding named_inbox calm_def by blast
  ultimately show ?thesis unfolding calm_def by blast
qed

lemma rep_world_calm: "calm rep_world"
  unfolding rep_world_def
  by (intro calm_named calm_incoming [where e = "end_of 0"] calm_incoming [where e = "end_of 1"] calm3)
    (auto simp: pends3 incoming_def world3_def net3_def empty_net_def)

lemma rep_world_pends: "pends rep_world p = (if p < 3 then Some (p_set_identity [of_nat p + 65] (end_of p)) else None)"
  by (simp add: rep_world_def named_world_def incoming_def pends3)

lemma middle_part: "\<not> v_is_credential (plain type_vsm more_flag d)"
  by (simp add: v_is_credential_def plain_def)

lemma rep3_ready: "rep_ready rep3 rep_world"
proof -
  have c: "calm rep_world" by (rule rep_world_calm)
  have w: "whole_world rep_world"
    by (auto simp: whole_world_def rep_world_def named_inbox inbox_incoming inbox3 middle_part)
  have f: "fq_ready fq3 rep_world" using fq3_inv c w
    by (auto simp: fq_ready_def can_read_def calm_def msgs_ok_def rep_world_pends)
  have "ids_apart False (arrivals fq3 rep_world)" by code_simp
  with f fq3_inv(4) have "recv_inv (rep_router rep3) rep_world" by (simp add: recv_inv_def rep3_def new_rep_def new_router_def)
  moreover have "routes_ok (rep_router rep3) rep_world"
    using c by (auto simp: routes_ok_def calm_def rep3_def new_rep_def new_router_def rep_world_pends p_set_identity_def)
  ultimately show ?thesis using c
    by (simp add: rep_ready_def rep_base_def inside_def rep3_def new_rep_def new_router_def)
qed

theorem rep_recv_returns_witness:
  "\<exists>s' w'. rep_recv rep3 rep_world = Some (Inr (plain type_vsm 0 [1]), s', w') \<and> rep_ready s' w' \<and> sending_reply s'"
proof -
  have "next_request [] (to_deliver (rep_router rep3) rep_world) =
    Some ([identity_of rep_world 1, plain type_vsm more_flag [9], plain type_vsm more_flag []], [plain type_vsm 0 [1]])"
    by code_simp
  with rep_recv_returns [OF rep3_ready] show ?thesis by (auto simp: rep3_def new_rep_def)
qed

theorem rep_answers_requester_witness:
  "\<exists>s1 w1 s2 w2. rep_recvs 1 rep3 rep_world = Some ([plain type_vsm 0 [1]], s1, w1) \<and>
    rep_sends [plain type_vsm more_flag [2], plain type_vsm 0 [3]] s1 w1 = Some (s2, w2) \<and>
    w_parts 1 w2 = Some ([plain type_vsm more_flag [9], plain type_vsm more_flag [],
      plain type_vsm more_flag [2], plain type_vsm 0 [3]], [])"
proof -
  have q: "next_request [] (to_deliver (rep_router rep3) rep_world) =
    Some (identity_of rep_world 1 # [plain type_vsm more_flag [9], plain type_vsm more_flag []], [plain type_vsm 0 [1]] @ [])"
    by code_simp
  have ro: "route (rep_router rep3) [65] = Some 0" "route (rep_router rep3) [66] = Some 1" "route (rep_router rep3) [67] = Some 2"
    by (simp_all add: rep3_def route_def)
  have "rt_fq (rep_router rep3) = fq3" "\<not> prefetched (rep_router rep3)" by (simp_all add: rep3_def new_router_def)
  with ro have f: "peers_ok (rep_router rep3)" unfolding peers_ok_def by (auto simp only: fq3_inv(2) insert_iff empty_iff)
  have g: "request_begins rep3" "\<not> sending_reply rep3" "\<not> more_out (rep_router rep3)"
    by (simp_all add: rep3_def new_rep_def new_router_def)
  have room: "w_room p rep_world" if "route (rep_router rep3) i = Some p" for i p
  proof -
    have "p \<in> {0, 1, 2}" using that by (auto simp: route_def rep3_def split: if_splits)
    then have "p < 3" by auto
    moreover have "fst (p_check_write (p_set_identity j (end_of p)))" for j
      by (simp add: p_check_write_def p_check_hwm_def p_set_identity_def end_of_def new_pipe_def)
    ultimately show ?thesis by (simp add: w_room_def rep_world_pends)
  qed
  have clean: "w_parts x rep_world = Some ([], [])" if "x < 3" for x
  proof -
    have n: "upipes (wnet rep_world) (20 + x) = Some (Normal new_lpipe)" if "x \<in> {0, 1, 2}" for x
      using that by (auto simp: rep_world_def named_world_def incoming_def world3_def net3_def empty_net_def)
    from that have "x \<in> {0, 1, 2}" by auto
    with that n [of x] show ?thesis by (simp add: w_parts_def rep_world_pends end_of_def new_pipe_def new_lpipe_def)
  qed
  then have cl: "q = []" if "w_parts x rep_world = Some (d, q)" for x d q
    using that by (cases "x < 3") (auto simp: w_parts_def rep_world_pends)
  have "one_message [plain type_vsm 0 [1]]" "one_message [plain type_vsm more_flag [2], plain type_vsm 0 [3]]" by code_simp+
  note an = rep_answers_requester [OF rep3_ready g f room cl q this]
  obtain p s1 w1 s2 w2 where
    r: "rep_recvs (length [plain type_vsm 0 [1]]) rep3 rep_world = Some ([plain type_vsm 0 [1]], s1, w1)"
      "rep_sends [plain type_vsm more_flag [2], plain type_vsm 0 [3]] s1 w1 = Some (s2, w2)"
      "ident rep_world p = Some (vdata (identity_of rep_world 1))"
      "\<forall>x. w_parts x w2 = (if x = p then map_option (\<lambda>(d, q). (d @ [plain type_vsm more_flag [9], plain type_vsm more_flag []] @
        [plain type_vsm more_flag [2], plain type_vsm 0 [3]], [])) (w_parts x rep_world) else w_parts x rep_world)"
    by (rule exE [OF an]) (assumption, assumption, elim exE conjE, rule that)
  have l: "length [plain type_vsm 0 [1]] = 1" by simp
  have "vdata (identity_of rep_world 1) = [66]"
    by (simp add: identity_of_def ident_def rep_world_pends p_set_identity_def sized_msg_def plain_def)
  with r(3) have i: "ident rep_world p = Some [66]" by simp
  then have "p < 3" by (auto simp: ident_def rep_world_pends split: if_splits)
  then have "p \<in> {0, 1, 2}" by auto
  with i have "p = 1" by (auto simp: ident_def rep_world_pends p_set_identity_def)
  with spec [OF r(4), of 1] clean [of 1] have "w_parts 1 w2 = Some ([plain type_vsm more_flag [9], plain type_vsm more_flag [],
      plain type_vsm more_flag [2], plain type_vsm 0 [3]], [])" by simp
  with r(1) [unfolded l] r(2) show ?thesis by blast
qed

subsection \<open>Findings\<close>

text \<open>
  \<open>xsetsockopt\<close> is inherited, so \<open>ZMQ_ROUTER_MANDATORY\<close> can be set on a reply socket. A request
  from a peer that does not read its replies (its pipe is full) then makes the assertion on the
  result of \<open>router_t::xsend\<close> fail: a remote peer can stop the process.
\<close>

theorem rep_mandatory_aborts:
  "do {
     let s = rep3\<lparr>rep_router := snd (rt_setsockopt ROUTER_MANDATORY [1, 0, 0, 0] 1 (rep_router rep3))\<rparr>;
     let w = rep_world\<lparr>pends := (pends rep_world)(1 := map_option (\<lambda>e. e\<lparr>out_active := False\<rparr>) (pends rep_world 1))\<rparr>;
     Some (Option.is_none (rep_recv s w)) } = Some True"
  by code_simp

text \<open>
  When a message without an envelope comes from a peer whose pipe is full, \<open>rollback\<close> does nothing,
  since there is no current pipe, and \<open>more_out\<close> stays set: the identity of the next request is
  taken for a part of the old message, and its reply is dropped although its peer has room.
\<close>

theorem rep_drops_next_reply:
  "do {
     let w = rep_world\<lparr>pends := (pends rep_world)(0 := map_option (\<lambda>e. e\<lparr>out_active := False\<rparr>) (pends rep_world 0))\<rparr>;
     (m, s, w) \<leftarrow> rep_recv rep3 w;
     (r, s, w) \<leftarrow> rep_send (plain type_vsm 0 [3]) s w;
     Some (m, r, w_parts 1 w) } = Some (Inr (plain type_vsm 0 [1]), Ok, Some ([], []))"
  by code_simp

end
