(* ===== verification/Mechanism.thy ===== *)
theory Mechanism
  imports Wire Socket_Reads
begin

text \<open>
  \<open>mechanism_t\<close> of \<open>src/zmqsrc/src/mechanism.cpp\<close>, the base of the security mechanisms: the
  properties that two peers exchange in the handshake, and which sockets fit each other. A
  \<open>std::string\<close> is a list of bytes, a \<open>std::map\<close> a finite map.
\<close>

text \<open>The socket types, in the order of their numbers in \<open>zmq.h\<close>.\<close>

datatype socket_type = PAIR | PUB | SUB | REQ | REP | DEALER | ROUTER | PULL | PUSH | XPUB | XSUB | STREAM |
  SERVER | CLIENT | RADIO | DISH | GATHER | SCATTER | DGRAM

primrec type_number :: "socket_type \<Rightarrow> nat" where
  "type_number PAIR = 0" | "type_number PUB = 1" | "type_number SUB = 2" | "type_number REQ = 3"
| "type_number REP = 4" | "type_number DEALER = 5" | "type_number ROUTER = 6" | "type_number PULL = 7"
| "type_number PUSH = 8" | "type_number XPUB = 9" | "type_number XSUB = 10" | "type_number STREAM = 11"
| "type_number SERVER = 12" | "type_number CLIENT = 13" | "type_number RADIO = 14" | "type_number DISH = 15"
| "type_number GATHER = 16" | "type_number SCATTER = 17" | "type_number DGRAM = 18"

text \<open>Socket types are ordered by their numbers.\<close>

lemma type_number_inj: "type_number a = type_number b \<Longrightarrow> a = b"
  by (cases a; cases b) simp_all

instantiation socket_type :: linorder
begin

definition less_eq_socket_type :: "socket_type \<Rightarrow> socket_type \<Rightarrow> bool" where
  "less_eq_socket_type a b \<longleftrightarrow> type_number a \<le> type_number b"

definition less_socket_type :: "socket_type \<Rightarrow> socket_type \<Rightarrow> bool" where
  "less_socket_type a b \<longleftrightarrow> type_number a < type_number b"

instance
  by standard (auto simp: less_eq_socket_type_def less_socket_type_def intro: type_number_inj)

end

definition bytes :: "string \<Rightarrow> byte list" where
  "bytes cs = map of_char cs"

definition socket_names :: "string list" where
  "socket_names = [''PAIR'', ''PUB'', ''SUB'', ''REQ'', ''REP'', ''DEALER'', ''ROUTER'', ''PULL'', ''PUSH'', ''XPUB'', ''XSUB'',
     ''STREAM'', ''SERVER'', ''CLIENT'', ''RADIO'', ''DISH'', ''GATHER'', ''SCATTER'', ''DGRAM'']"

text \<open>The argument is the number in \<open>options.type\<close>, \<open>-1\<close> in a socket without a type.\<close>

definition socket_type_string :: "int \<Rightarrow> byte list option" where
  "socket_type_string n = do {
     zmq_assert (n \<ge> 0 \<and> n \<le> 18);
     s \<leftarrow> table_at socket_names (nat n);
     Some (bytes s) }"

definition type_int :: "socket_type \<Rightarrow> int" where
  "type_int t = int (type_number t)"

definition check_socket_type :: "socket_type \<Rightarrow> byte list \<Rightarrow> bool" where
  "check_socket_type t ty =
     (case t of
        REQ \<Rightarrow> ty = bytes ''REP'' \<or> ty = bytes ''ROUTER''
      | REP \<Rightarrow> ty = bytes ''REQ'' \<or> ty = bytes ''DEALER''
      | DEALER \<Rightarrow> ty = bytes ''REP'' \<or> ty = bytes ''DEALER'' \<or> ty = bytes ''ROUTER''
      | ROUTER \<Rightarrow> ty = bytes ''REQ'' \<or> ty = bytes ''DEALER'' \<or> ty = bytes ''ROUTER''
      | PUSH \<Rightarrow> ty = bytes ''PULL''
      | PULL \<Rightarrow> ty = bytes ''PUSH''
      | PUB \<Rightarrow> ty = bytes ''SUB'' \<or> ty = bytes ''XSUB''
      | SUB \<Rightarrow> ty = bytes ''PUB'' \<or> ty = bytes ''XPUB''
      | XPUB \<Rightarrow> ty = bytes ''SUB'' \<or> ty = bytes ''XSUB''
      | XSUB \<Rightarrow> ty = bytes ''PUB'' \<or> ty = bytes ''XPUB''
      | PAIR \<Rightarrow> ty = bytes ''PAIR''
      | SERVER \<Rightarrow> ty = bytes ''CLIENT''
      | CLIENT \<Rightarrow> ty = bytes ''SERVER''
      | RADIO \<Rightarrow> ty = bytes ''DISH''
      | DISH \<Rightarrow> ty = bytes ''RADIO''
      | GATHER \<Rightarrow> ty = bytes ''SCATTER''
      | SCATTER \<Rightarrow> ty = bytes ''GATHER''
      | DGRAM \<Rightarrow> ty = bytes ''DGRAM''
      | STREAM \<Rightarrow> False)"

text \<open>The options that mechanisms use; \<open>identity_size\<close> is one byte.\<close>

record mech_options =
  o_type :: socket_type
  o_identity :: "byte list"
  recv_identity :: bool
  zap_domain :: "byte list"
  plain_username :: "byte list"
  plain_password :: "byte list"

type_synonym dict = "byte list \<rightharpoonup> byte list"

record mechanism =
  options :: mech_options
  m_identity :: "byte list"
  user_id :: "byte list"
  zmtp_properties :: dict
  zap_properties :: dict

definition new_mechanism :: "mech_options \<Rightarrow> mechanism" where
  "new_mechanism opts = \<lparr>options = opts, m_identity = [], user_id = [],
     zmtp_properties = Map.empty, zap_properties = Map.empty\<rparr>"

text \<open>\<open>std::map::insert\<close> keeps the first value of a key.\<close>

definition dict_insert :: "byte list \<Rightarrow> byte list \<Rightarrow> dict \<Rightarrow> dict" where
  "dict_insert k v d = (if d k = None then d(k \<mapsto> v) else d)"

definition set_peer_identity :: "byte list \<Rightarrow> mechanism \<Rightarrow> mechanism" where
  "set_peer_identity i s = s\<lparr>m_identity := i\<rparr>"

definition mech_peer_identity :: "mechanism \<Rightarrow> vmsg" where
  "mech_peer_identity s = (sized_msg (m_identity s))\<lparr>vflags := identity_flag\<rparr>"

definition set_user_id :: "byte list \<Rightarrow> mechanism \<Rightarrow> mechanism" where
  "set_user_id d s = s\<lparr>user_id := d, zap_properties := dict_insert (bytes ''User-Id'') d (zap_properties s)\<rparr>"

definition get_user_id :: "mechanism \<Rightarrow> byte list" where
  "get_user_id s = user_id s"

subsection \<open>Writing properties\<close>

definition add_property :: "byte list \<Rightarrow> byte list \<Rightarrow> byte list option" where
  "add_property name val = do {
     zmq_assert (length name \<le> 255);
     zmq_assert (int (length val) \<le> 0x7FFFFFFF);
     Some (word_of_nat (length name) # name @ put_uint32 [0, 0, 0, 0] (word_of_nat (length val)) @ val) }"

text \<open>The bytes go to a buffer of 512 bytes; to write behind its end is undefined.\<close>

definition buf_put :: "byte list \<Rightarrow> byte list \<Rightarrow> byte list option" where
  "buf_put buf bs = (if length buf + length bs \<le> 512 then Some (buf @ bs) else None)"

subsection \<open>Reading properties\<close>

text \<open>A property that has been read, lines 130 to 152; an error when the socket types do not fit.\<close>

definition store_property :: "bool \<Rightarrow> byte list \<Rightarrow> byte list \<Rightarrow> mechanism \<Rightarrow> rc \<times> mechanism" where
  "store_property zap name val s =
     (if name = bytes ''Socket-Type'' \<and> \<not> check_socket_type (o_type (options s)) val then (Err EINVAL, s)
      else
        let s = (if name = bytes ''Identity'' \<and> recv_identity (options s) then set_peer_identity val s else s) in
        (Ok, if zap then s\<lparr>zap_properties := dict_insert name val (zap_properties s)\<rparr>
             else s\<lparr>zmtp_properties := dict_insert name val (zmtp_properties s)\<rparr>))"

text \<open>\<open>bs\<close> are the bytes from \<open>ptr_\<close> on, their number is \<open>bytes_left\<close>; \<open>break\<close> leads to \<open>left_over\<close>.\<close>

definition left_over :: "byte list \<Rightarrow> rc" where
  "left_over bs = (if 0 < length bs then Err EPROTO else Ok)"

function parse_metadata :: "bool \<Rightarrow> byte list \<Rightarrow> mechanism \<Rightarrow> rc \<times> mechanism" where
  "parse_metadata zap bs s =
     (if length bs \<le> 1 then (left_over bs, s)
      else
        let name_length = unat (hd bs); bs1 = tl bs in
        if length bs1 < name_length then (left_over bs1, s)
        else
          let name = take name_length bs1; bs2 = drop name_length bs1 in
          if length bs2 < 4 then (left_over bs2, s)
          else
            let value_length = unat (get_uint32 bs2); bs3 = drop 4 bs2 in
            if length bs3 < value_length then (left_over bs3, s)
            else
              let val = take value_length bs3; bs4 = drop value_length bs3 in
              (case store_property zap name val s of
                 (Ok, s) \<Rightarrow> parse_metadata zap bs4 s
               | (Err e, s) \<Rightarrow> (Err e, s)))"
  by pat_completeness auto
termination
  by (relation "measure (\<lambda>(zap, bs, s). length bs)") auto

declare parse_metadata.simps [simp del]

subsection \<open>Which sockets fit\<close>

lemma bytes_eq [simp]: "bytes s = bytes t \<longleftrightarrow> s = t"
proof -
  have "inj (of_char :: char \<Rightarrow> byte)"
  proof (rule injI)
    fix c d :: char assume a: "(of_char c :: byte) = of_char d"
    have n: "unat (of_char x :: byte) = of_char x" for x :: char
    proof -
      have "(of_char x :: byte) = word_of_nat (of_char x)" by (rule of_nat_of_char [symmetric])
      then have "unat (of_char x :: byte) = (of_char x :: nat) mod 2 ^ LENGTH(8)" by (simp only: unat_of_nat)
      then show ?thesis by simp
    qed
    from a have "unat (of_char c :: byte) = unat (of_char d :: byte)" by (rule arg_cong)
    then have "(of_char c :: nat) = of_char d" by (simp only: n)
    then show "c = d" by (rule of_char_eqI)
  qed
  then show ?thesis by (simp add: bytes_def inj_map_eq_map)
qed

definition peers_of :: "socket_type \<Rightarrow> socket_type list" where
  "peers_of t = filter (\<lambda>u. check_socket_type t (bytes (socket_names ! type_number u)))
     [PAIR, PUB, SUB, REQ, REP, DEALER, ROUTER, PULL, PUSH, XPUB, XSUB, STREAM, SERVER, CLIENT, RADIO, DISH, GATHER, SCATTER, DGRAM]"

lemma peers_of_table: "peers_of t = (case t of PAIR \<Rightarrow> [PAIR] | PUB \<Rightarrow> [SUB, XSUB] | SUB \<Rightarrow> [PUB, XPUB] | REQ \<Rightarrow> [REP, ROUTER]
    | REP \<Rightarrow> [REQ, DEALER] | DEALER \<Rightarrow> [REP, DEALER, ROUTER] | ROUTER \<Rightarrow> [REQ, DEALER, ROUTER] | PULL \<Rightarrow> [PUSH]
    | PUSH \<Rightarrow> [PULL] | XPUB \<Rightarrow> [SUB, XSUB] | XSUB \<Rightarrow> [PUB, XPUB] | STREAM \<Rightarrow> [] | SERVER \<Rightarrow> [CLIENT] | CLIENT \<Rightarrow> [SERVER]
    | RADIO \<Rightarrow> [DISH] | DISH \<Rightarrow> [RADIO] | GATHER \<Rightarrow> [SCATTER] | SCATTER \<Rightarrow> [GATHER] | DGRAM \<Rightarrow> [DGRAM])"
  by (cases t) (simp_all add: peers_of_def check_socket_type_def socket_names_def)

lemma check_peers: "check_socket_type t (bytes (socket_names ! type_number u)) \<longleftrightarrow> u \<in> set (peers_of t)"
  by (cases u) (simp_all add: peers_of_def)

lemma socket_type_string_ok: "socket_type_string (type_int t) = Some (bytes (socket_names ! type_number t))"
  by (cases t) (simp_all add: socket_type_string_def type_int_def socket_names_def)

lemma socket_types_symmetric:
  "check_socket_type a (bytes (socket_names ! type_number b)) = check_socket_type b (bytes (socket_names ! type_number a))"
  unfolding check_peers peers_of_table by (cases a; cases b) simp_all

text \<open>
  C35: Whether two sockets may be connected does not depend on which of them checks: each of
  them accepts the \<open>Socket-Type\<close> of the other, or both refuse. Every socket type has a name, and
  only \<open>STREAM\<close> fits no other.
\<close>

theorem socket_types_fit:
  "\<exists>na nb. socket_type_string (type_int a) = Some na \<and> socket_type_string (type_int b) = Some nb \<and>
     check_socket_type a nb = check_socket_type b na \<and> (a = STREAM \<longleftrightarrow> (\<forall>t. \<not> check_socket_type a (bytes (socket_names ! type_number t))))"
proof -
  have "a = STREAM \<longleftrightarrow> (\<forall>t. \<not> check_socket_type a (bytes (socket_names ! type_number t)))"
    unfolding check_peers peers_of_table by (cases a) auto
  with socket_types_symmetric show ?thesis by (simp add: socket_type_string_ok)
qed

subsection \<open>What is written is read back\<close>

fun write_properties :: "(byte list \<times> byte list) list \<Rightarrow> byte list option" where
  "write_properties [] = Some []"
| "write_properties ((name, val) # ps) = do { a \<leftarrow> add_property name val; b \<leftarrow> write_properties ps; Some (a @ b) }"

fun store_all :: "bool \<Rightarrow> (byte list \<times> byte list) list \<Rightarrow> mechanism \<Rightarrow> rc \<times> mechanism" where
  "store_all zap [] s = (Ok, s)"
| "store_all zap ((name, val) # ps) s =
     (case store_property zap name val s of (Ok, s) \<Rightarrow> store_all zap ps s | (Err e, s) \<Rightarrow> (Err e, s))"

lemma get_put_front: "get_uint32 (put_uint32 [0, 0, 0, 0] v @ bs) = v"
proof -
  have "get_uint32 (put_uint32 [0, 0, 0, 0] v @ bs) = get_uint32 (put_uint32 [0, 0, 0, 0] v)"
    by (simp add: get_uint32_def nth_append)
  then show ?thesis using get_put_uint32 [of "[0, 0, 0, 0]" v] by simp
qed

lemma parse_one:
  assumes "add_property name val = Some a"
  shows "parse_metadata zap (a @ bs) s =
    (case store_property zap name val s of (Ok, s) \<Rightarrow> parse_metadata zap bs s | (Err e, s) \<Rightarrow> (Err e, s))"
proof -
  from assms have l: "length name \<le> 255" "length val \<le> 0x7FFFFFFF"
    and a: "a = word_of_nat (length name) # name @ put_uint32 [0, 0, 0, 0] (word_of_nat (length val)) @ val"
    by (auto simp: add_property_def)
  have n: "unat (word_of_nat (length name) :: byte) = length name"
    using l(1) by (simp add: unat_of_nat)
  have v: "unat (word_of_nat (length val) :: u32) = length val"
    using l(2) by (simp add: unat_of_nat)
  have g: "get_uint32 (put_uint32 [0, 0, 0, 0] (word_of_nat (length val)) @ val @ bs) = word_of_nat (length val)"
    by (rule get_put_front)
  have d: "drop 4 (put_uint32 [0, 0, 0, 0] (word_of_nat (length val)) @ val @ bs) = val @ bs" by simp
  show ?thesis
    by (subst parse_metadata.simps) (simp add: a n v g d Let_def)
qed

lemma parse_written: "write_properties ps = Some bs \<Longrightarrow> parse_metadata zap bs s = store_all zap ps s"
proof (induction ps arbitrary: bs s)
  case Nil
  then show ?case by (simp add: parse_metadata.simps [of zap "[]"] left_over_def)
next
  case (Cons p ps)
  obtain name val where p: "p = (name, val)" by (cases p)
  with Cons(2) obtain a b where "add_property name val = Some a" "write_properties ps = Some b" "bs = a @ b"
    by (auto simp: bind_eq_Some_conv)
  with Cons(1) [of b] parse_one [of name val a zap b s] p show ?case by (auto split: prod.splits rc.splits)
qed

lemma map_add_fresh: "m n = None \<Longrightarrow> d(n \<mapsto> v) ++ m = d ++ m(n \<mapsto> v)"
  by (auto simp: map_add_def fun_eq_iff split: option.splits)

lemma store_all_ok:
  assumes "distinct (map fst ps)" "fst ` set ps \<inter> dom (zmtp_properties s) = {}"
    "\<forall>v. (bytes ''Socket-Type'', v) \<in> set ps \<longrightarrow> check_socket_type (o_type (options s)) v"
  shows "\<exists>s'. store_all False ps s = (Ok, s') \<and> zmtp_properties s' = zmtp_properties s ++ map_of ps \<and>
    m_identity s' = (if recv_identity (options s) then (case map_of ps (bytes ''Identity'') of None \<Rightarrow> m_identity s | Some i \<Rightarrow> i)
      else m_identity s)"
  using assms
proof (induction ps arbitrary: s)
  case Nil
  then show ?case by simp
next
  case (Cons p ps)
  obtain n v where p: "p = (n, v)" by (cases p)
  let ?s = "(if n = bytes ''Identity'' \<and> recv_identity (options s) then set_peer_identity v s else s)
    \<lparr>zmtp_properties := (zmtp_properties s)(n \<mapsto> v)\<rparr>"
  have st: "store_property False n v s = (Ok, ?s)"
    using Cons.prems p by (auto simp: store_property_def dict_insert_def set_peer_identity_def Let_def)
  have o: "options ?s = options s" by (simp add: set_peer_identity_def)
  have z: "zmtp_properties ?s = (zmtp_properties s)(n \<mapsto> v)" by simp
  have n: "map_of ps n = None" using Cons.prems(1) p by (simp add: map_of_eq_None_iff)
  have "\<exists>s'. store_all False ps ?s = (Ok, s') \<and> zmtp_properties s' = zmtp_properties ?s ++ map_of ps \<and>
    m_identity s' = (if recv_identity (options ?s) then (case map_of ps (bytes ''Identity'') of None \<Rightarrow> m_identity ?s | Some i \<Rightarrow> i)
      else m_identity ?s)"
  proof (rule Cons.IH)
    show "distinct (map fst ps)" using Cons.prems(1) p by simp
    show "fst ` set ps \<inter> dom (zmtp_properties ?s) = {}" using Cons.prems(1,2) p unfolding z by auto
    show "\<forall>v. (bytes ''Socket-Type'', v) \<in> set ps \<longrightarrow> check_socket_type (o_type (options ?s)) v"
      using Cons.prems(3) p unfolding o by simp
  qed
  then obtain s' where s': "store_all False ps ?s = (Ok, s')" "zmtp_properties s' = zmtp_properties ?s ++ map_of ps"
    "m_identity s' = (if recv_identity (options ?s) then (case map_of ps (bytes ''Identity'') of None \<Rightarrow> m_identity ?s | Some i \<Rightarrow> i)
      else m_identity ?s)" by blast
  have "store_all False (p # ps) s = (Ok, s')" using st s'(1) p by simp
  moreover have "zmtp_properties s' = zmtp_properties s ++ map_of (p # ps)" using s'(2) map_add_fresh [of "map_of ps" n, OF n] p z by simp
  moreover have "m_identity s' = (if recv_identity (options s) then (case map_of (p # ps) (bytes ''Identity'') of None \<Rightarrow> m_identity s | Some i \<Rightarrow> i)
      else m_identity s)"
    using s'(3) n p unfolding o by (cases "n = bytes ''Identity''") (simp_all add: set_peer_identity_def split: option.splits)
  ultimately show ?case by blast
qed

text \<open>
  C36: A peer reads from the metadata of a handshake command exactly the properties that were
  written to it, however long their values are, and takes its identity from them if it asks for
  identities. (Their names differ and the socket type fits.)
\<close>

theorem metadata_roundtrip:
  assumes "write_properties ps = Some bs" "distinct (map fst ps)"
    "\<And>v. (bytes ''Socket-Type'', v) \<in> set ps \<Longrightarrow> check_socket_type (o_type opts) v"
  shows "\<exists>s. parse_metadata False bs (new_mechanism opts) = (Ok, s) \<and> zmtp_properties s = map_of ps \<and>
    m_identity s = (case map_of ps (bytes ''Identity'') of Some i \<Rightarrow> if recv_identity opts then i else [] | None \<Rightarrow> [])"
proof -
  let ?s = "new_mechanism opts"
  have n: "options ?s = opts" "zmtp_properties ?s = Map.empty" "m_identity ?s = []" by (simp_all add: new_mechanism_def)
  have "\<exists>s'. store_all False ps ?s = (Ok, s') \<and> zmtp_properties s' = zmtp_properties ?s ++ map_of ps \<and>
    m_identity s' = (if recv_identity (options ?s) then (case map_of ps (bytes ''Identity'') of None \<Rightarrow> m_identity ?s | Some i \<Rightarrow> i)
      else m_identity ?s)" by (rule store_all_ok [OF assms(2)]) (use assms(3) n in auto)
  then show ?thesis unfolding parse_written [OF assms(1)] n by (auto split: option.splits)
qed

definition req_options :: mech_options where
  "req_options = \<lparr>o_type = REQ, o_identity = [5], recv_identity = True, zap_domain = [], plain_username = [85], plain_password = [80]\<rparr>"

theorem metadata_roundtrip_witness:
  "\<exists>s. parse_metadata False [1, 65, 0, 0, 0, 2, 7, 8] (new_mechanism req_options) = (Ok, s) \<and> zmtp_properties s = [[65] \<mapsto> [7, 8]]"
proof -
  have w: "write_properties [([65], [7, 8])] = Some [1, 65, 0, 0, 0, 2, 7, 8]" by code_simp
  have n: "bytes ''Socket-Type'' \<noteq> [65]" by code_simp
  have "\<And>v. (bytes ''Socket-Type'', v) \<in> set [([65], [7, 8])] \<Longrightarrow> check_socket_type (o_type req_options) v"
    using n by simp
  from metadata_roundtrip [OF w _ this] show ?thesis by auto
qed

text \<open>
  A property that is cut off right after its name or after the length of its value is not an
  error: \<open>break\<close> leaves the loop with no bytes left, and the metadata is accepted without it.
\<close>

theorem metadata_truncation_accepted:
  "parse_metadata zap [1, 65] s = (Ok, s) \<and> parse_metadata zap [1, 65, 0, 0, 1, 0] s = (Ok, s) \<and>
   parse_metadata zap [1, 65, 0, 0] s = (Err EPROTO, s)"
proof -
  have "get_uint32 [0, 0, 1, 0] = 256" by code_simp
  then show ?thesis by (simp add: parse_metadata.simps [of zap "_ # _"] left_over_def Let_def)
qed

end
