(* ===== verification/Security.thy ===== *)
theory Security
  imports Mechanism
begin

text \<open>
  The security mechanisms \<open>NULL\<close> and \<open>PLAIN\<close>: \<open>null_mechanism_t\<close>, \<open>plain_client_t\<close> and
  \<open>plain_server_t\<close> of \<open>src/zmqsrc/src\<close>. A handshake command is a message; the state machines answer
  with a message or an error. \<open>conn\<close>, \<open>rd\<close> and \<open>wr\<close> are \<open>zap_connect\<close>, \<open>read_zap_msg\<close> and
  \<open>write_zap_msg\<close> of \<open>session_base.cpp\<close>, parameters here: the connection to the authentication handler
  of the application.
\<close>

datatype mech_status = Handshaking | Ready | Error

text \<open>A command name is preceded by its length.\<close>

definition command_name :: "string \<Rightarrow> byte list" where
  "command_name cs = word_of_nat (length cs) # bytes cs"

definition begins_with :: "string \<Rightarrow> byte list \<Rightarrow> bool" where
  "begins_with cs d \<longleftrightarrow> length cs + 1 \<le> length d \<and> take (length cs + 1) d = command_name cs"

text \<open>A command with the own socket type, and the identity where the peer may need it.\<close>

definition metadata_command :: "string \<Rightarrow> mech_options \<Rightarrow> byte list option" where
  "metadata_command cs opts = do {
     buf \<leftarrow> buf_put [] (command_name cs);
     ty \<leftarrow> socket_type_string (type_int (o_type opts));
     p \<leftarrow> add_property (bytes ''Socket-Type'') ty;
     buf \<leftarrow> buf_put buf p;
     if o_type opts = REQ \<or> o_type opts = DEALER \<or> o_type opts = ROUTER
     then do { p \<leftarrow> add_property (bytes ''Identity'') (o_identity opts); buf_put buf p }
     else Some buf }"

subsection \<open>The authentication protocol\<close>

text \<open>The frames of a request; every write must succeed.\<close>

fun send_frames :: "(vmsg \<Rightarrow> 'w \<Rightarrow> (rc \<times> 'w) option) \<Rightarrow> byte list list \<Rightarrow> 'w \<Rightarrow> 'w option" where
  "send_frames wr [] w = Some w"
| "send_frames wr (d # ds) w = do {
     (r, w) \<leftarrow> wr ((sized_msg d)\<lparr>vflags := if ds = [] then 0 else more_flag\<rparr>) w;
     if r = Ok then send_frames wr ds w else None }"

definition zap_request :: "mech_options \<Rightarrow> byte list \<Rightarrow> byte list list \<Rightarrow> byte list list" where
  "zap_request opts addr rest = [[], bytes ''1.0'', bytes ''1'', zap_domain opts, addr, o_identity opts] @ rest"

text \<open>The loop over the frames of a reply, \<open>k\<close> of them left.\<close>

primrec read_frames :: "('w \<Rightarrow> ((sock_error + vmsg) \<times> 'w) option) \<Rightarrow> nat \<Rightarrow> 'w \<Rightarrow> ((sock_error + vmsg list) \<times> 'w) option" where
  "read_frames rd 0 w = Some (Inr [], w)"
| "read_frames rd (Suc k) w = do {
     (r, w) \<leftarrow> rd w;
     case r of
       Inl e \<Rightarrow> Some (Inl e, w)
     | Inr m \<Rightarrow>
         if has_more m = (k = 0) then Some (Inl EPROTO, w)
         else do {
           (q, w) \<leftarrow> read_frames rd k w;
           case q of Inl e \<Rightarrow> Some (Inl e, w) | Inr ms \<Rightarrow> Some (Inr (m # ms), w) } }"

text \<open>The checks of a reply; \<open>bad\<close> is the error for a status code of the wrong length.\<close>

definition check_reply :: "sock_error \<Rightarrow> vmsg list \<Rightarrow> rc" where
  "check_reply bad ms =
     (if vdata (ms ! 0) \<noteq> [] then Err EPROTO
      else if vdata (ms ! 1) \<noteq> bytes ''1.0'' then Err EPROTO
      else if vdata (ms ! 2) \<noteq> bytes ''1'' then Err EPROTO
      else if length (vdata (ms ! 3)) \<noteq> 3 then Err bad
      else Ok)"

text \<open>The new status code, when there is one, and what the reply tells about the user.\<close>

definition zap_reply :: "sock_error \<Rightarrow> ('w \<Rightarrow> ((sock_error + vmsg) \<times> 'w) option) \<Rightarrow> mechanism \<Rightarrow> 'w \<Rightarrow>
    (rc \<times> byte list option \<times> mechanism \<times> 'w) option" where
  "zap_reply bad rd s w = do {
     (q, w) \<leftarrow> read_frames rd 7 w;
     case q of
       Inl e \<Rightarrow> Some (Err e, None, s, w)
     | Inr ms \<Rightarrow>
         if check_reply bad ms \<noteq> Ok then Some (check_reply bad ms, None, s, w)
         else
           let s = set_user_id (vdata (ms ! 5)) s; (r, s) = parse_metadata True (vdata (ms ! 6)) s in
           Some (r, Some (vdata (ms ! 3)), s, w) }"

subsection \<open>NULL\<close>

record null_mechanism =
  n_base :: mechanism
  n_status_code :: "byte list"
  n_peer_address :: "byte list"
  ready_command_sent :: bool
  error_command_sent :: bool
  ready_command_received :: bool
  error_command_received :: bool
  zap_connected :: bool
  zap_request_sent :: bool
  zap_reply_received :: bool

definition new_null :: "('w \<Rightarrow> (rc \<times> 'w) option) \<Rightarrow> mech_options \<Rightarrow> byte list \<Rightarrow> 'w \<Rightarrow> (null_mechanism \<times> 'w) option" where
  "new_null conn opts addr w =
     (let s = \<lparr>n_base = new_mechanism opts, n_status_code = [], n_peer_address = addr, ready_command_sent = False,
        error_command_sent = False, ready_command_received = False, error_command_received = False,
        zap_connected = False, zap_request_sent = False, zap_reply_received = False\<rparr> in
      if 0 < length (zap_domain opts) then do { (r, w) \<leftarrow> conn w; Some (if r = Ok then s\<lparr>zap_connected := True\<rparr> else s, w) }
      else Some (s, w))"

definition null_zap_reply :: "('w \<Rightarrow> ((sock_error + vmsg) \<times> 'w) option) \<Rightarrow> null_mechanism \<Rightarrow> 'w \<Rightarrow> (rc \<times> null_mechanism \<times> 'w) option" where
  "null_zap_reply rd s w = do {
     (r, code, b, w) \<leftarrow> zap_reply EPROTO rd (n_base s) w;
     Some (r, s\<lparr>n_base := b, n_status_code := (case code of None \<Rightarrow> n_status_code s | Some c \<Rightarrow> c)\<rparr>, w) }"

text \<open>Lines 73 to 84: the reply of the handler is needed first.\<close>

definition null_authenticate :: "('w \<Rightarrow> ((sock_error + vmsg) \<times> 'w) option) \<Rightarrow> (vmsg \<Rightarrow> 'w \<Rightarrow> (rc \<times> 'w) option) \<Rightarrow>
    null_mechanism \<Rightarrow> 'w \<Rightarrow> (rc \<times> null_mechanism \<times> 'w) option" where
  "null_authenticate rd wr s w =
     (if zap_connected s \<and> \<not> zap_reply_received s then
        if zap_request_sent s then Some (Err EAGAIN, s, w)
        else do {
          w \<leftarrow> send_frames wr (zap_request (options (n_base s)) (n_peer_address s) [bytes ''NULL'']) w;
          let s = s\<lparr>zap_request_sent := True\<rparr>;
          (r, s, w) \<leftarrow> null_zap_reply rd s w;
          Some (r, if r = Ok then s\<lparr>zap_reply_received := True\<rparr> else s, w) }
      else Some (Ok, s, w))"

definition error_command :: "byte list \<Rightarrow> byte list" where
  "error_command code = command_name ''ERROR'' @ word_of_nat (length code) # code"

definition null_next :: "('w \<Rightarrow> ((sock_error + vmsg) \<times> 'w) option) \<Rightarrow> (vmsg \<Rightarrow> 'w \<Rightarrow> (rc \<times> 'w) option) \<Rightarrow>
    null_mechanism \<Rightarrow> 'w \<Rightarrow> ((sock_error + vmsg) \<times> null_mechanism \<times> 'w) option" where
  "null_next rd wr s w =
     (if ready_command_sent s \<or> error_command_sent s then Some (Inl EAGAIN, s, w)
      else do {
        (r, s, w) \<leftarrow> null_authenticate rd wr s w;
        case r of
          Err e \<Rightarrow> Some (Inl e, s, w)
        | Ok \<Rightarrow>
            if zap_reply_received s \<and> n_status_code s \<noteq> bytes ''200''
            then Some (Inr (sized_msg (error_command (n_status_code s))), s\<lparr>error_command_sent := True\<rparr>, w)
            else do {
              d \<leftarrow> metadata_command ''READY'' (options (n_base s));
              Some (Inr (sized_msg d), s\<lparr>ready_command_sent := True\<rparr>, w) } })"

definition null_process_ready :: "byte list \<Rightarrow> null_mechanism \<Rightarrow> rc \<times> null_mechanism" where
  "null_process_ready d s =
     (let (r, b) = parse_metadata False (drop 6 d) (n_base s) in (r, s\<lparr>ready_command_received := True, n_base := b\<rparr>))"

text \<open>The body of an \<open>ERROR\<close> command is a length and that many bytes at least.\<close>

definition error_reason_ok :: "byte list \<Rightarrow> bool" where
  "error_reason_ok d \<longleftrightarrow> 7 \<le> length d \<and> unat (d ! 6) \<le> length d - 7"

definition null_process_error :: "byte list \<Rightarrow> null_mechanism \<Rightarrow> rc \<times> null_mechanism" where
  "null_process_error d s = (if \<not> error_reason_ok d then (Err EPROTO, s) else (Ok, s\<lparr>error_command_received := True\<rparr>))"

definition null_process :: "vmsg \<Rightarrow> null_mechanism \<Rightarrow> rc \<times> null_mechanism" where
  "null_process m s =
     (if ready_command_received s \<or> error_command_received s then (Err EPROTO, s)
      else if begins_with ''READY'' (vdata m) then null_process_ready (vdata m) s
      else if begins_with ''ERROR'' (vdata m) then null_process_error (vdata m) s
      else (Err EPROTO, s))"

definition null_zap_msg_available :: "('w \<Rightarrow> ((sock_error + vmsg) \<times> 'w) option) \<Rightarrow> null_mechanism \<Rightarrow> 'w \<Rightarrow>
    (rc \<times> null_mechanism \<times> 'w) option" where
  "null_zap_msg_available rd s w =
     (if zap_reply_received s then Some (Err EFSM, s, w)
      else do {
        (r, s, w) \<leftarrow> null_zap_reply rd s w;
        Some (r, if r = Ok then s\<lparr>zap_reply_received := True\<rparr> else s, w) })"

definition null_status :: "null_mechanism \<Rightarrow> mech_status" where
  "null_status s =
     (let command_sent = (ready_command_sent s \<or> error_command_sent s);
          command_received = (ready_command_received s \<or> error_command_received s) in
      if ready_command_sent s \<and> ready_command_received s then Ready
      else if command_sent \<and> command_received then Error
      else Handshaking)"

subsection \<open>PLAIN, the client\<close>

datatype client_state = Sending_hello | Waiting_for_welcome | Sending_initiate | Waiting_for_ready
  | Error_command_received | Client_ready

record plain_client =
  c_base :: mechanism
  c_state :: client_state

definition new_client :: "mech_options \<Rightarrow> plain_client" where
  "new_client opts = \<lparr>c_base = new_mechanism opts, c_state = Sending_hello\<rparr>"

definition produce_hello :: "mech_options \<Rightarrow> byte list option" where
  "produce_hello opts = do {
     zmq_assert (length (plain_username opts) < 256);
     zmq_assert (length (plain_password opts) < 256);
     Some (command_name ''HELLO'' @ word_of_nat (length (plain_username opts)) # plain_username opts @
       word_of_nat (length (plain_password opts)) # plain_password opts) }"

definition client_next :: "plain_client \<Rightarrow> ((sock_error + vmsg) \<times> plain_client) option" where
  "client_next s =
     (case c_state s of
        Sending_hello \<Rightarrow> do {
          d \<leftarrow> produce_hello (options (c_base s));
          Some (Inr (sized_msg d), s\<lparr>c_state := Waiting_for_welcome\<rparr>) }
      | Sending_initiate \<Rightarrow> do {
          d \<leftarrow> metadata_command ''INITIATE'' (options (c_base s));
          Some (Inr (sized_msg d), s\<lparr>c_state := Waiting_for_ready\<rparr>) }
      | _ \<Rightarrow> Some (Inl EAGAIN, s))"

definition process_welcome :: "byte list \<Rightarrow> plain_client \<Rightarrow> rc \<times> plain_client" where
  "process_welcome d s =
     (if c_state s \<noteq> Waiting_for_welcome then (Err EPROTO, s)
      else if length d \<noteq> 8 then (Err EPROTO, s)
      else (Ok, s\<lparr>c_state := Sending_initiate\<rparr>))"

definition client_process_ready :: "byte list \<Rightarrow> plain_client \<Rightarrow> rc \<times> plain_client" where
  "client_process_ready d s =
     (if c_state s \<noteq> Waiting_for_ready then (Err EPROTO, s)
      else let (r, b) = parse_metadata False (drop 6 d) (c_base s); s = s\<lparr>c_base := b\<rparr> in
        (r, if r = Ok then s\<lparr>c_state := Client_ready\<rparr> else s))"

definition client_process_error :: "byte list \<Rightarrow> plain_client \<Rightarrow> rc \<times> plain_client" where
  "client_process_error d s =
     (if c_state s \<noteq> Waiting_for_welcome \<and> c_state s \<noteq> Waiting_for_ready then (Err EPROTO, s)
      else if \<not> error_reason_ok d then (Err EPROTO, s)
      else (Ok, s\<lparr>c_state := Error_command_received\<rparr>))"

definition client_process :: "vmsg \<Rightarrow> plain_client \<Rightarrow> rc \<times> plain_client" where
  "client_process m s =
     (if begins_with ''WELCOME'' (vdata m) then process_welcome (vdata m) s
      else if begins_with ''READY'' (vdata m) then client_process_ready (vdata m) s
      else if begins_with ''ERROR'' (vdata m) then client_process_error (vdata m) s
      else (Err EPROTO, s))"

definition client_status :: "plain_client \<Rightarrow> mech_status" where
  "client_status s = (if c_state s = Client_ready then Ready else if c_state s = Error_command_received then Error else Handshaking)"

subsection \<open>PLAIN, the server\<close>

datatype server_state = Waiting_for_hello | Sending_welcome | Waiting_for_initiate | Sending_ready
  | Waiting_for_zap_reply | Sending_error | Error_command_sent | Server_ready

record plain_server =
  s_base :: mechanism
  s_peer_address :: "byte list"
  s_status_code :: "byte list"
  s_state :: server_state

definition new_server :: "mech_options \<Rightarrow> byte list \<Rightarrow> plain_server" where
  "new_server opts addr = \<lparr>s_base = new_mechanism opts, s_peer_address = addr, s_status_code = [], s_state = Waiting_for_hello\<rparr>"

definition produce_error :: "byte list \<Rightarrow> byte list option" where
  "produce_error code = do { zmq_assert (length code = 3); Some (error_command code) }"

definition server_next :: "plain_server \<Rightarrow> ((sock_error + vmsg) \<times> plain_server) option" where
  "server_next s =
     (case s_state s of
        Sending_welcome \<Rightarrow> Some (Inr (sized_msg (command_name ''WELCOME'')), s\<lparr>s_state := Waiting_for_initiate\<rparr>)
      | Sending_ready \<Rightarrow> do {
          d \<leftarrow> metadata_command ''READY'' (options (s_base s));
          Some (Inr (sized_msg d), s\<lparr>s_state := Server_ready\<rparr>) }
      | Sending_error \<Rightarrow> do {
          d \<leftarrow> produce_error (s_status_code s);
          Some (Inr (sized_msg d), s\<lparr>s_state := Error_command_sent\<rparr>) }
      | _ \<Rightarrow> Some (Inl EAGAIN, s))"

text \<open>User name and password of a \<open>HELLO\<close>, lines 135 to 189; nothing for a malformed one.\<close>

definition parse_hello :: "byte list \<Rightarrow> (byte list \<times> byte list) option" where
  "parse_hello d =
     (if \<not> begins_with ''HELLO'' d then None
      else let d = drop 6 d in
        if length d < 1 then None
        else let n = unat (hd d); d = tl d in
          if length d < n then None
          else let username = take n d; d = drop n d in
            if length d < 1 then None
            else let n = unat (hd d); d = tl d in
              if length d < n then None
              else let password = take n d; d = drop n d in
                if 0 < length d then None else Some (username, password))"

definition server_zap_reply :: "('w \<Rightarrow> ((sock_error + vmsg) \<times> 'w) option) \<Rightarrow> plain_server \<Rightarrow> 'w \<Rightarrow> (rc \<times> plain_server \<times> 'w) option" where
  "server_zap_reply rd s w = do {
     (r, code, b, w) \<leftarrow> zap_reply EACCES rd (s_base s) w;
     Some (r, s\<lparr>s_base := b, s_status_code := (case code of None \<Rightarrow> s_status_code s | Some c \<Rightarrow> c)\<rparr>, w) }"

definition admit :: "plain_server \<Rightarrow> plain_server" where
  "admit s = s\<lparr>s_state := if s_status_code s = bytes ''200'' then Sending_welcome else Sending_error\<rparr>"

definition process_hello :: "('w \<Rightarrow> (rc \<times> 'w) option) \<Rightarrow> ('w \<Rightarrow> ((sock_error + vmsg) \<times> 'w) option) \<Rightarrow>
    (vmsg \<Rightarrow> 'w \<Rightarrow> (rc \<times> 'w) option) \<Rightarrow> byte list \<Rightarrow> plain_server \<Rightarrow> 'w \<Rightarrow> (rc \<times> plain_server \<times> 'w) option" where
  "process_hello conn rd wr d s w =
     (case parse_hello d of
        None \<Rightarrow> Some (Err EPROTO, s, w)
      | Some (username, password) \<Rightarrow> do {
          (c, w) \<leftarrow> conn w;
          if c = Ok then do {
            w \<leftarrow> send_frames wr (zap_request (options (s_base s)) (s_peer_address s) [bytes ''PLAIN'', username, password]) w;
            (r, s, w) \<leftarrow> server_zap_reply rd s w;
            if r = Ok then Some (Ok, admit s, w)
            else if r = Err EAGAIN then Some (Ok, s\<lparr>s_state := Waiting_for_zap_reply\<rparr>, w)
            else Some (r, s, w) }
          else Some (Ok, s\<lparr>s_state := Sending_welcome\<rparr>, w) })"

definition process_initiate :: "byte list \<Rightarrow> plain_server \<Rightarrow> rc \<times> plain_server" where
  "process_initiate d s =
     (if \<not> begins_with ''INITIATE'' d then (Err EPROTO, s)
      else let (r, b) = parse_metadata False (drop 9 d) (s_base s); s = s\<lparr>s_base := b\<rparr> in
        (r, if r = Ok then s\<lparr>s_state := Sending_ready\<rparr> else s))"

definition server_process :: "('w \<Rightarrow> (rc \<times> 'w) option) \<Rightarrow> ('w \<Rightarrow> ((sock_error + vmsg) \<times> 'w) option) \<Rightarrow>
    (vmsg \<Rightarrow> 'w \<Rightarrow> (rc \<times> 'w) option) \<Rightarrow> vmsg \<Rightarrow> plain_server \<Rightarrow> 'w \<Rightarrow> (rc \<times> plain_server \<times> 'w) option" where
  "server_process conn rd wr m s w =
     (case s_state s of
        Waiting_for_hello \<Rightarrow> process_hello conn rd wr (vdata m) s w
      | Waiting_for_initiate \<Rightarrow> (let (r, s) = process_initiate (vdata m) s in Some (r, s, w))
      | _ \<Rightarrow> Some (Err EPROTO, s, w))"

definition server_zap_msg_available :: "('w \<Rightarrow> ((sock_error + vmsg) \<times> 'w) option) \<Rightarrow> plain_server \<Rightarrow> 'w \<Rightarrow>
    (rc \<times> plain_server \<times> 'w) option" where
  "server_zap_msg_available rd s w =
     (if s_state s \<noteq> Waiting_for_zap_reply then Some (Err EFSM, s, w)
      else do {
        (r, s, w) \<leftarrow> server_zap_reply rd s w;
        Some (r, if r = Ok then admit s else s, w) })"

definition server_status :: "plain_server \<Rightarrow> mech_status" where
  "server_status s = (if s_state s = Server_ready then Ready else if s_state s = Error_command_sent then Error else Handshaking)"

subsection \<open>Nobody is admitted without the handler\<close>

text \<open>What can happen to a server: a command from the peer, a chance to send, a message of the handler.\<close>

datatype peer_event = Command vmsg | Output | Zap_available

fun server_run :: "('w \<Rightarrow> (rc \<times> 'w) option) \<Rightarrow> ('w \<Rightarrow> ((sock_error + vmsg) \<times> 'w) option) \<Rightarrow>
    (vmsg \<Rightarrow> 'w \<Rightarrow> (rc \<times> 'w) option) \<Rightarrow> peer_event list \<Rightarrow> plain_server \<Rightarrow> 'w \<Rightarrow> (plain_server \<times> 'w) option" where
  "server_run conn rd wr [] s w = Some (s, w)"
| "server_run conn rd wr (Command m # es) s w = do { (_, s, w) \<leftarrow> server_process conn rd wr m s w; server_run conn rd wr es s w }"
| "server_run conn rd wr (Output # es) s w = do { (_, s) \<leftarrow> server_next s; server_run conn rd wr es s w }"
| "server_run conn rd wr (Zap_available # es) s w = do { (_, s, w) \<leftarrow> server_zap_msg_available rd s w; server_run conn rd wr es s w }"

lemma store_property_options [simp]: "options (snd (store_property zap n v s)) = options s"
  by (simp add: store_property_def set_peer_identity_def Let_def)

text \<open>What storing one property keeps, reading all of them keeps.\<close>

lemma parse_metadata_keeps:
  assumes "\<And>n v s. P s \<Longrightarrow> P (snd (store_property zap n v s))"
  shows "parse_metadata zap bs s = (r, s') \<Longrightarrow> P s \<Longrightarrow> P s'"
  using assms
proof (induction zap bs s rule: parse_metadata.induct)
  case (1 zap bs s)
  let ?bs1 = "tl bs" let ?n = "unat (hd bs)"
  let ?bs2 = "drop ?n ?bs1" let ?bs3 = "drop 4 ?bs2" let ?v = "unat (get_uint32 ?bs2)"
  show ?case
  proof (cases "length bs \<le> 1 \<or> length ?bs1 < ?n \<or> length ?bs2 < 4 \<or> length ?bs3 < ?v")
    case True
    with 1(2,3) show ?thesis by (subst (asm) parse_metadata.simps) (auto simp: Let_def split: if_splits)
  next
    case False
    obtain q s1 where q: "store_property zap (take ?n ?bs1) (take ?v ?bs3) s = (q, s1)" by force
    with 1(3) 1(4) [of s "take ?n ?bs1" "take ?v ?bs3"] have o: "P s1" by simp
    show ?thesis
    proof (cases q)
      case (Err e)
      with 1(2) False q o show ?thesis by (subst (asm) parse_metadata.simps) (auto simp: Let_def)
    next
      case Ok
      with 1(2) False q have "parse_metadata zap (drop ?v ?bs3) s1 = (r, s')"
        by (subst (asm) parse_metadata.simps) (auto simp: Let_def)
      with 1(1) [OF _ refl refl _ refl refl _ refl refl _ refl refl q [symmetric] Ok] False o 1(4) show ?thesis by simp
    qed
  qed
qed

lemma parse_metadata_options: "parse_metadata zap bs s = (r, s') \<Longrightarrow> options s' = options s"
  by (rule parse_metadata_keeps [where P = "\<lambda>s'. options s' = options s"]) simp_all

lemma parse_metadata_zap: "parse_metadata True bs s = (r, s') \<Longrightarrow> zmtp_properties s' = zmtp_properties s"
  by (rule parse_metadata_keeps [where P = "\<lambda>s'. zmtp_properties s' = zmtp_properties s"])
    (simp_all add: store_property_def set_peer_identity_def Let_def)

lemma read_frames_from:
  "read_frames rd k w = Some (Inr ms, w') \<Longrightarrow> length ms = k \<and> (\<forall>m\<in>set ms. \<exists>v v'. rd v = Some (Inr m, v'))"
proof (induction k arbitrary: w ms)
  case (Suc k)
  from Suc.prems obtain r w1 where r: "rd w = Some (r, w1)" by (auto simp: bind_eq_Some_conv)
  with Suc.prems obtain m where m: "r = Inr m" by (cases r) auto
  with r Suc.prems obtain q w2 where q: "read_frames rd k w1 = Some (q, w2)" "has_more m \<noteq> (k = 0)"
    by (auto simp: bind_eq_Some_conv split: if_splits)
  with r m Suc.prems obtain ns where n: "q = Inr ns" "ms = m # ns" "w2 = w'" by (cases q) auto
  with Suc.IH [of w1 ns] q r m show ?case by auto
qed simp

text \<open>A frame of the handler with these bytes has been read.\<close>

definition from_handler :: "('w \<Rightarrow> ((sock_error + vmsg) \<times> 'w) option) \<Rightarrow> byte list \<Rightarrow> bool" where
  "from_handler rd c \<longleftrightarrow> (\<exists>m v v'. rd v = Some (Inr m, v') \<and> vdata m = c)"

lemma zap_reply_code:
  assumes "zap_reply bad rd b w = Some (r, code, b', w')"
  shows "options b' = options b" "code = Some c \<Longrightarrow> from_handler rd c" "r = Ok \<Longrightarrow> code \<noteq> None"
proof -
  from assms obtain q v where q: "read_frames rd 7 w = Some (q, v)" by (auto simp: zap_reply_def bind_eq_Some_conv)
  have "options b' = options b \<and> (\<forall>c. code = Some c \<longrightarrow> from_handler rd c) \<and> (r = Ok \<longrightarrow> code \<noteq> None)"
  proof (cases q)
    case (Inl e)
    with assms q show ?thesis by (auto simp: zap_reply_def)
  next
    case (Inr ms)
    with read_frames_from [of rd 7 w ms v] q have l: "length ms = 7" "\<forall>m\<in>set ms. \<exists>v v'. rd v = Some (Inr m, v')" by auto
    then have "ms ! 3 \<in> set ms" by (intro nth_mem) simp
    with l(2) have m: "from_handler rd (vdata (ms ! 3))" unfolding from_handler_def by blast
    obtain p b1 where p: "parse_metadata True (vdata (ms ! 6)) (set_user_id (vdata (ms ! 5)) b) = (p, b1)" by force
    then have "options b1 = options b" by (auto dest: parse_metadata_options simp: set_user_id_def)
    with assms q Inr p m show ?thesis by (auto simp: zap_reply_def Let_def split: if_splits)
  qed
  then show "options b' = options b" "code = Some c \<Longrightarrow> from_handler rd c" "r = Ok \<Longrightarrow> code \<noteq> None"
    by blast+
qed

text \<open>
  The invariant of a server whose handler is there: past the first state the handler has been
  asked about the credentials of a \<open>HELLO\<close>, and a state on the way to \<open>Server_ready\<close> follows a
  reply with status 200.
\<close>

definition asked :: "(vmsg \<Rightarrow> 'w \<Rightarrow> (rc \<times> 'w) option) \<Rightarrow> mech_options \<Rightarrow> byte list \<Rightarrow> peer_event set \<Rightarrow> bool" where
  "asked wr opts addr es \<longleftrightarrow> (\<exists>c u p v v'. Command c \<in> es \<and> parse_hello (vdata c) = Some (u, p) \<and>
     send_frames wr (zap_request opts addr [bytes ''PLAIN'', u, p]) v = Some v')"

definition gate :: "('w \<Rightarrow> ((sock_error + vmsg) \<times> 'w) option) \<Rightarrow> (vmsg \<Rightarrow> 'w \<Rightarrow> (rc \<times> 'w) option) \<Rightarrow>
    mech_options \<Rightarrow> byte list \<Rightarrow> peer_event set \<Rightarrow> plain_server \<Rightarrow> bool" where
  "gate rd wr opts addr es s \<longleftrightarrow> options (s_base s) = opts \<and> s_peer_address s = addr \<and>
     (s_state s \<noteq> Waiting_for_hello \<longrightarrow> asked wr opts addr es) \<and>
     (s_state s \<in> {Sending_welcome, Waiting_for_initiate, Sending_ready, Server_ready} \<longrightarrow> s_status_code s = bytes ''200'') \<and>
     (s_status_code s = [] \<or> from_handler rd (s_status_code s))"

lemma gate_mono: "gate rd wr opts addr es s \<Longrightarrow> es \<subseteq> es' \<Longrightarrow> gate rd wr opts addr es' s"
  by (auto simp: gate_def asked_def) blast+

lemma gate_zap_reply:
  assumes "gate rd wr opts addr es s" "server_zap_reply rd s w = Some (r, s', w')"
  shows "options (s_base s') = opts \<and> s_peer_address s' = addr \<and> s_state s' = s_state s \<and>
    (s_status_code s' = [] \<or> from_handler rd (s_status_code s'))"
proof -
  from assms(2) obtain code b where z: "zap_reply EACCES rd (s_base s) w = Some (r, code, b, w')"
    and s': "s' = s\<lparr>s_base := b, s_status_code := (case code of None \<Rightarrow> s_status_code s | Some c \<Rightarrow> c)\<rparr>"
    by (auto simp: server_zap_reply_def bind_eq_Some_conv)
  from zap_reply_code [OF z] assms(1) s' show ?thesis by (cases code) (auto simp: gate_def)
qed

lemma gate_step:
  assumes g: "gate rd wr opts addr es s" and conn: "\<And>w r w'. conn w = Some (r, w') \<Longrightarrow> r = Ok"
  shows "server_process conn rd wr m s w = Some (r, s', w') \<Longrightarrow> gate rd wr opts addr (insert (Command m) es) s'"
    and "server_next s = Some (q, s') \<Longrightarrow> gate rd wr opts addr es s'"
    and "server_zap_msg_available rd s w = Some (r, s', w') \<Longrightarrow> gate rd wr opts addr es s'"
proof -
  show "server_next s = Some (q, s') \<Longrightarrow> gate rd wr opts addr es s'"
    using g by (auto simp: server_next_def gate_def bind_eq_Some_conv split: server_state.splits)
  show "gate rd wr opts addr es s'" if z: "server_zap_msg_available rd s w = Some (r, s', w')"
  proof (cases "s_state s = Waiting_for_zap_reply")
    case False
    with z g show ?thesis by (simp add: server_zap_msg_available_def)
  next
    case True
    with z obtain s1 where s1: "server_zap_reply rd s w = Some (r, s1, w')" "s' = (if r = Ok then admit s1 else s1)"
      by (auto simp: server_zap_msg_available_def bind_eq_Some_conv)
    from True g have "asked wr opts addr es" by (simp add: gate_def)
    with gate_zap_reply [OF g s1(1)] True s1(2) show ?thesis by (auto simp: gate_def admit_def)
  qed
  assume p: "server_process conn rd wr m s w = Some (r, s', w')"
  have gm: "gate rd wr opts addr (insert (Command m) es) s" using gate_mono [OF g] by blast
  consider "s_state s = Waiting_for_hello" | "s_state s = Waiting_for_initiate" | "s' = s"
    using p by (cases "s_state s") (auto simp: server_process_def)
  then show "gate rd wr opts addr (insert (Command m) es) s'"
  proof cases
    case 3
    with gm show ?thesis by simp
  next
    case 2
    obtain r1 b where b: "parse_metadata False (drop 9 (vdata m)) (s_base s) = (r1, b)" by force
    from 2 p gm parse_metadata_options [OF b] b show ?thesis
      by (auto simp: server_process_def process_initiate_def gate_def Let_def split: if_splits prod.splits)
  next
    case 1
    show ?thesis
    proof (cases "parse_hello (vdata m)")
      case None
      with 1 p gm show ?thesis by (simp add: server_process_def process_hello_def)
    next
      case (Some up)
      obtain u pw where up: "up = (u, pw)" by (cases up)
      from p 1 Some up obtain c w1 where c: "conn w = Some (c, w1)"
        by (auto simp: server_process_def process_hello_def bind_eq_Some_conv)
      from conn [OF c] p 1 Some up c obtain w2 r1 s1 w3 where
        w2: "send_frames wr (zap_request (options (s_base s)) (s_peer_address s) [bytes ''PLAIN'', u, pw]) w1 = Some w2"
        and z: "server_zap_reply rd s w2 = Some (r1, s1, w3)"
        and e: "s' = (if r1 = Ok then admit s1 else if r1 = Err EAGAIN then s1\<lparr>s_state := Waiting_for_zap_reply\<rparr> else s1)"
        by (fastforce simp: server_process_def process_hello_def bind_eq_Some_conv split: if_splits)
      have "options (s_base s) = opts" "s_peer_address s = addr" using g by (auto simp: gate_def)
      with w2 Some up have a: "asked wr opts addr (insert (Command m) es)" unfolding asked_def by blast
      from gate_zap_reply [OF gm z] a 1 e show ?thesis by (auto simp: gate_def admit_def)
    qed
  qed
qed

lemma gate_run:
  assumes "\<And>w r w'. conn w = Some (r, w') \<Longrightarrow> r = Ok"
  shows "server_run conn rd wr evs s w = Some (s', w') \<Longrightarrow> gate rd wr opts addr es s \<Longrightarrow> gate rd wr opts addr (set evs \<union> es) s'"
proof (induction evs arbitrary: es s w)
  case (Cons ev evs)
  show ?case
  proof (cases ev)
    case (Command m)
    with Cons.prems(1) obtain r s1 w1 where s1: "server_process conn rd wr m s w = Some (r, s1, w1)"
      "server_run conn rd wr evs s1 w1 = Some (s', w')" by (auto simp: bind_eq_Some_conv)
    have "gate rd wr opts addr (insert (Command m) es) s1" by (rule gate_step(1) [OF Cons.prems(2) _ s1(1)]) (rule assms)
    from Cons.IH [OF s1(2) this] Command show ?thesis by simp
  next
    case Output
    with Cons.prems(1) obtain q s1 where s1: "server_next s = Some (q, s1)" "server_run conn rd wr evs s1 w = Some (s', w')"
      by (auto simp: bind_eq_Some_conv)
    have "gate rd wr opts addr es s1" by (rule gate_step(2) [OF Cons.prems(2) _ s1(1)]) (rule assms)
    then show ?thesis by (intro gate_mono [OF Cons.IH [OF s1(2)]]) auto
  next
    case Zap_available
    with Cons.prems(1) obtain r s1 w1 where s1: "server_zap_msg_available rd s w = Some (r, s1, w1)"
      "server_run conn rd wr evs s1 w1 = Some (s', w')" by (auto simp: bind_eq_Some_conv)
    have "gate rd wr opts addr es s1" by (rule gate_step(3) [OF Cons.prems(2) _ s1(1)]) (rule assms)
    then show ?thesis by (intro gate_mono [OF Cons.IH [OF s1(2)]]) auto
  qed
qed simp

text \<open>
  C37: A PLAIN server whose application has an authentication handler admits nobody without it:
  whatever commands the peer sends, and however they interleave with the messages of the handler,
  a server that is ready has got a well-formed \<open>HELLO\<close>, has asked the handler about exactly its
  user name and password, and has read status 200 from it.
\<close>

theorem plain_server_authenticates:
  assumes "\<And>w r w'. conn w = Some (r, w') \<Longrightarrow> r = Ok"
    "server_run conn rd wr evs (new_server opts addr) w = Some (s, w')" "server_status s = Ready"
  shows "s_status_code s = bytes ''200'' \<and> (\<exists>m v v'. rd v = Some (Inr m, v') \<and> vdata m = bytes ''200'') \<and>
    (\<exists>c u p v v'. Command c \<in> set evs \<and> parse_hello (vdata c) = Some (u, p) \<and>
       send_frames wr (zap_request opts addr [bytes ''PLAIN'', u, p]) v = Some v')"
proof -
  have "gate rd wr opts addr {} (new_server opts addr)" by (simp add: gate_def new_server_def new_mechanism_def)
  from gate_run [OF assms(1,2) this] have g: "gate rd wr opts addr (set evs) s" by auto
  from assms(3) have st: "s_state s = Server_ready" by (simp add: server_status_def split: if_splits)
  with g have "s_status_code s = bytes ''200''" "asked wr opts addr (set evs)" by (auto simp: gate_def)
  moreover have "bytes ''200'' \<noteq> []" by (simp add: bytes_def)
  ultimately show ?thesis using g unfolding gate_def asked_def from_handler_def by auto
qed

text \<open>A handler that has answered one request with status 200, its frames waiting to be read.\<close>

definition list_rd :: "vmsg list \<Rightarrow> ((sock_error + vmsg) \<times> vmsg list) option" where
  "list_rd fs = (case fs of [] \<Rightarrow> Some (Inl EAGAIN, []) | m # ms \<Rightarrow> Some (Inr m, ms))"

definition granted :: "vmsg list" where
  "granted = map (plain type_vsm more_flag) [[], bytes ''1.0'', bytes ''1'', bytes ''200'', bytes ''OK'', [85]] @ [plain type_vsm 0 []]"

definition hello_UP :: vmsg where
  "hello_UP = sized_msg (command_name ''HELLO'' @ [1, 85, 1, 80])"

definition initiate_REQ :: vmsg where
  "initiate_REQ = sized_msg (command_name ''INITIATE'' @ the (add_property (bytes ''Socket-Type'') (bytes ''REQ'')))"

definition rep_options :: mech_options where
  "rep_options = \<lparr>o_type = REP, o_identity = [], recv_identity = False, zap_domain = [], plain_username = [], plain_password = []\<rparr>"

theorem plain_server_authenticates_witness:
  "\<exists>s w. server_run (\<lambda>w. Some (Ok, w)) list_rd (\<lambda>m w. Some (Ok, w)) [Command hello_UP, Output, Command initiate_REQ, Output]
      (new_server rep_options [49]) granted = Some (s, w) \<and> server_status s = Ready \<and> s_status_code s = bytes ''200''"
proof -
  let ?run = "server_run (\<lambda>w. Some (Ok, w)) list_rd (\<lambda>m w. Some (Ok, w)) [Command hello_UP, Output, Command initiate_REQ, Output]
      (new_server rep_options [49]) granted"
  have "map_option (\<lambda>(s, w). server_status s) ?run = Some Ready" by code_simp
  then obtain s w where r: "?run = Some (s, w)" "server_status s = Ready" by auto
  from plain_server_authenticates [OF _ r] have "s_status_code s = bytes ''200''" by simp
  with r show ?thesis by blast
qed

subsection \<open>The handshakes complete\<close>

definition own_properties :: "mech_options \<Rightarrow> (byte list \<times> byte list) list" where
  "own_properties opts = (bytes ''Socket-Type'', bytes (socket_names ! type_number (o_type opts))) #
     (if o_type opts = REQ \<or> o_type opts = DEALER \<or> o_type opts = ROUTER then [(bytes ''Identity'', o_identity opts)] else [])"

lemma length_names: "length (bytes (socket_names ! type_number t)) \<le> 7"
  by (cases t) (simp_all add: socket_names_def bytes_def)

lemma length_bytes [simp]: "length (bytes cs) = length cs" "length (command_name cs) = Suc (length cs)"
  by (simp_all add: bytes_def command_name_def)

lemma metadata_command_ok:
  assumes "length cs \<le> 8" "length (o_identity opts) \<le> 255"
  shows "\<exists>bs. write_properties (own_properties opts) = Some bs \<and> metadata_command cs opts = Some (command_name cs @ bs)"
proof -
  let ?t = "bytes (socket_names ! type_number (o_type opts))"
  note n = length_names [of "o_type opts"]
  have t: "add_property (bytes ''Socket-Type'') ?t = Some (word_of_nat 11 # bytes ''Socket-Type'' @
      put_uint32 [0, 0, 0, 0] (word_of_nat (length ?t)) @ ?t)" using n by (simp add: add_property_def)
  have i: "add_property (bytes ''Identity'') (o_identity opts) = Some (word_of_nat 8 # bytes ''Identity'' @
      put_uint32 [0, 0, 0, 0] (word_of_nat (length (o_identity opts))) @ o_identity opts)"
    using assms(2) by (simp add: add_property_def)
  show ?thesis
    using assms n by (simp add: metadata_command_def own_properties_def socket_type_string_ok t i buf_put_def)
qed

lemma begins_with_name [simp]:
  "begins_with cs (command_name cs @ d)" "length cs \<noteq> length ds \<Longrightarrow> length cs < 256 \<Longrightarrow> length ds < 256 \<Longrightarrow> \<not> begins_with cs (command_name ds @ d)"
proof -
  show "begins_with cs (command_name cs @ d)" by (simp add: begins_with_def)
  assume l: "length cs \<noteq> length ds" "length cs < 256" "length ds < 256"
  show "\<not> begins_with cs (command_name ds @ d)"
  proof
    assume "begins_with cs (command_name ds @ d)"
    then have "(word_of_nat (length ds) :: byte) = word_of_nat (length cs)" by (simp add: begins_with_def command_name_def)
    then have "unat (word_of_nat (length ds) :: byte) = unat (word_of_nat (length cs) :: byte)" by simp
    with l show False by (simp add: unat_of_nat)
  qed
qed

lemma vdata_sized [simp]: "vdata (sized_msg d) = d"
  by (simp add: sized_msg_def plain_def)

lemma own_properties_read:
  assumes "write_properties (own_properties po) = Some bs" "zmtp_properties s = Map.empty" "m_identity s = []"
    "check_socket_type (o_type (options s)) (bytes (socket_names ! type_number (o_type po)))"
  shows "\<exists>s'. parse_metadata False bs s = (Ok, s') \<and> zmtp_properties s' = map_of (own_properties po) \<and> options s' = options s \<and>
    m_identity s' = (if recv_identity (options s) then (case map_of (own_properties po) (bytes ''Identity'') of None \<Rightarrow> [] | Some i \<Rightarrow> i) else [])"
proof -
  have d: "distinct (map fst (own_properties po))" by (simp add: own_properties_def)
  have f: "\<forall>v. (bytes ''Socket-Type'', v) \<in> set (own_properties po) \<longrightarrow> check_socket_type (o_type (options s)) v"
    using assms(4) by (auto simp: own_properties_def)
  have "fst ` set (own_properties po) \<inter> dom (zmtp_properties s) = {}" using assms(2) by simp
  from store_all_ok [OF d this f, unfolded assms(2,3)] obtain s' where
    s': "store_all False (own_properties po) s = (Ok, s')" "zmtp_properties s' = Map.empty ++ map_of (own_properties po)"
      "m_identity s' = (if recv_identity (options s) then (case map_of (own_properties po) (bytes ''Identity'') of None \<Rightarrow> [] | Some i \<Rightarrow> i)
        else [])" by blast
  have p: "parse_metadata False bs s = (Ok, s')" using parse_written [OF assms(1)] s'(1) by simp
  show ?thesis by (rule exI [of _ s']) (use p s' parse_metadata_options [OF p] in simp)
qed

text \<open>
  The peers in turn, each command as the other one takes it; \<open>None\<close> when one of them refuses. A
  server whose handler has not answered yet waits: \<open>arrive\<close> is what happens until the reply is there
  to be read, and the session is told about it.
\<close>

definition the_command :: "sock_error + vmsg \<Rightarrow> vmsg option" where
  "the_command r = (case r of Inl e \<Rightarrow> None | Inr m \<Rightarrow> Some m)"

definition await_reply :: "('w \<Rightarrow> ((sock_error + vmsg) \<times> 'w) option) \<Rightarrow> ('w \<Rightarrow> 'w) \<Rightarrow> plain_server \<Rightarrow> 'w \<Rightarrow> (plain_server \<times> 'w) option" where
  "await_reply rd arrive s w =
     (if s_state s = Waiting_for_zap_reply
      then do { (r, s, w) \<leftarrow> server_zap_msg_available rd s (arrive w); zmq_assert (r = Ok); Some (s, w) }
      else Some (s, w))"

definition plain_handshake :: "('w \<Rightarrow> (rc \<times> 'w) option) \<Rightarrow> ('w \<Rightarrow> ((sock_error + vmsg) \<times> 'w) option) \<Rightarrow>
    (vmsg \<Rightarrow> 'w \<Rightarrow> (rc \<times> 'w) option) \<Rightarrow> ('w \<Rightarrow> 'w) \<Rightarrow> mech_options \<Rightarrow> mech_options \<Rightarrow> byte list \<Rightarrow> 'w \<Rightarrow>
    (plain_client \<times> plain_server \<times> 'w) option" where
  "plain_handshake conn rd wr arrive co so addr w = do {
     (r, c) \<leftarrow> client_next (new_client co); hello \<leftarrow> the_command r;
     (r, s, w) \<leftarrow> server_process conn rd wr hello (new_server so addr) w; zmq_assert (r = Ok);
     (s, w) \<leftarrow> await_reply rd arrive s w;
     (r, s) \<leftarrow> server_next s; welcome \<leftarrow> the_command r;
     let (r, c) = client_process welcome c; zmq_assert (r = Ok);
     (r, c) \<leftarrow> client_next c; initiate \<leftarrow> the_command r;
     (r, s, w) \<leftarrow> server_process conn rd wr initiate s w; zmq_assert (r = Ok);
     (r, s) \<leftarrow> server_next s; ready \<leftarrow> the_command r;
     let (r, c) = client_process ready c; zmq_assert (r = Ok);
     Some (c, s, w) }"

text \<open>
  A reply that admits the user: seven frames, status 200, and a last frame with well-formed
  properties, any number of them, none of which sets the identity of the peer.
\<close>

definition admitting :: "('w \<Rightarrow> ((sock_error + vmsg) \<times> 'w) option) \<Rightarrow> mech_options \<Rightarrow> 'w \<Rightarrow> 'w \<Rightarrow> bool" where
  "admitting rd so w w' \<longleftrightarrow> (\<exists>ms b. read_frames rd 7 w = Some (Inr ms, w') \<and> check_reply EACCES ms = Ok \<and>
     vdata (ms ! 3) = bytes ''200'' \<and>
     parse_metadata True (vdata (ms ! 6)) (set_user_id (vdata (ms ! 5)) (new_mechanism so)) = (Ok, b) \<and> m_identity b = [])"

text \<open>There is no handler, or it grants the request: at once, or when the server already waits for it.\<close>

definition grants :: "('w \<Rightarrow> (rc \<times> 'w) option) \<Rightarrow> ('w \<Rightarrow> ((sock_error + vmsg) \<times> 'w) option) \<Rightarrow>
    (vmsg \<Rightarrow> 'w \<Rightarrow> (rc \<times> 'w) option) \<Rightarrow> ('w \<Rightarrow> 'w) \<Rightarrow> mech_options \<Rightarrow> byte list list \<Rightarrow> 'w \<Rightarrow> 'w \<Rightarrow> bool" where
  "grants conn rd wr arrive so request w w' \<longleftrightarrow> (\<exists>e. conn w = Some (Err e, w')) \<or>
     (\<exists>w1 w2. conn w = Some (Ok, w1) \<and> send_frames wr request w1 = Some w2 \<and>
        (admitting rd so w2 w' \<or> (\<exists>w3. read_frames rd 7 w2 = Some (Inl EAGAIN, w3) \<and> admitting rd so (arrive w3) w')))"

lemma hello_parsed:
  assumes "length u < 256" "length p < 256"
  shows "parse_hello (command_name ''HELLO'' @ word_of_nat (length u) # u @ word_of_nat (length p) # p) = Some (u, p)"
proof -
  have "unat (word_of_nat (length u) :: byte) = length u" "unat (word_of_nat (length p) :: byte) = length p"
    using assms by (simp_all add: unat_of_nat)
  then show ?thesis by (simp add: parse_hello_def Let_def)
qed

lemma admitting_reply:
  assumes "admitting rd so w w'" "s_base s = new_mechanism so"
  shows "\<exists>s1. server_zap_reply rd s w = Some (Ok, s1, w') \<and> s_state (admit s1) = Sending_welcome \<and>
    options (s_base s1) = so \<and> zmtp_properties (s_base s1) = Map.empty \<and> m_identity (s_base s1) = []"
proof -
  from assms(1) obtain ms b where ms: "read_frames rd 7 w = Some (Inr ms, w')" "check_reply EACCES ms = Ok"
      "vdata (ms ! 3) = bytes ''200''" and
    b: "parse_metadata True (vdata (ms ! 6)) (set_user_id (vdata (ms ! 5)) (new_mechanism so)) = (Ok, b)" "m_identity b = []"
    unfolding admitting_def by blast
  from b(1) have "options b = so" "zmtp_properties b = Map.empty"
    by (auto dest: parse_metadata_options parse_metadata_zap simp: set_user_id_def new_mechanism_def)
  with ms b assms(2) show ?thesis by (simp add: server_zap_reply_def zap_reply_def admit_def)
qed

lemma hello_granted:
  assumes "length (plain_username co) < 256" "length (plain_password co) < 256"
    "grants conn rd wr arrive so (zap_request so addr [bytes ''PLAIN'', plain_username co, plain_password co]) w w'"
  shows "\<exists>h s1 w1 s. produce_hello co = Some h \<and> process_hello conn rd wr h (new_server so addr) w = Some (Ok, s1, w1) \<and>
    await_reply rd arrive s1 w1 = Some (s, w') \<and>
    s_state s = Sending_welcome \<and> options (s_base s) = so \<and> zmtp_properties (s_base s) = Map.empty \<and> m_identity (s_base s) = []"
proof -
  let ?h = "command_name ''HELLO'' @ word_of_nat (length (plain_username co)) # plain_username co @
    word_of_nat (length (plain_password co)) # plain_password co"
  let ?s = "new_server so addr"
  have h: "produce_hello co = Some ?h" "parse_hello ?h = Some (plain_username co, plain_password co)"
    using assms(1,2) hello_parsed by (auto simp: produce_hello_def)
  have n: "s_base ?s = new_mechanism so" "s_peer_address ?s = addr" "options (new_mechanism so) = so"
    by (simp_all add: new_server_def new_mechanism_def)
  from assms(3) consider e where "conn w = Some (Err e, w')" | w1 w2 where "conn w = Some (Ok, w1)"
      "send_frames wr (zap_request so addr [bytes ''PLAIN'', plain_username co, plain_password co]) w1 = Some w2"
      "admitting rd so w2 w'"
    | w1 w2 w3 where "conn w = Some (Ok, w1)"
      "send_frames wr (zap_request so addr [bytes ''PLAIN'', plain_username co, plain_password co]) w1 = Some w2"
      "read_frames rd 7 w2 = Some (Inl EAGAIN, w3)" "admitting rd so (arrive w3) w'"
    unfolding grants_def by blast
  then show ?thesis
  proof cases
    case 1
    with h show ?thesis by (simp add: process_hello_def await_reply_def new_server_def new_mechanism_def)
  next
    case 2
    from admitting_reply [OF 2(3) n(1)] obtain s1 where s1: "server_zap_reply rd ?s w2 = Some (Ok, s1, w')"
      "s_state (admit s1) = Sending_welcome" "options (s_base s1) = so" "zmtp_properties (s_base s1) = Map.empty" "m_identity (s_base s1) = []"
      by blast
    have "process_hello conn rd wr ?h ?s w = Some (Ok, admit s1, w')" using 2 h n s1(1) by (simp add: process_hello_def)
    moreover have "await_reply rd arrive (admit s1) w' = Some (admit s1, w')" using s1(2) by (simp add: await_reply_def)
    moreover have "s_base (admit s1) = s_base s1" by (simp add: admit_def)
    ultimately show ?thesis using h(1) s1(2-) by metis
  next
    case 3
    let ?s1 = "?s\<lparr>s_state := Waiting_for_zap_reply\<rparr>"
    have z: "server_zap_reply rd ?s w2 = Some (Err EAGAIN, ?s, w3)" using 3 by (simp add: server_zap_reply_def zap_reply_def)
    have p: "process_hello conn rd wr ?h ?s w = Some (Ok, ?s1, w3)" using 3 h n z by (simp add: process_hello_def)
    from n have "s_base ?s1 = new_mechanism so" by simp
    from admitting_reply [OF 3(4) this] p h(1) show ?thesis
      by (auto simp: await_reply_def server_zap_msg_available_def zmq_assert_def admit_def)
  qed
qed

text \<open>
  C38: The PLAIN handshake of two peers completes: when their socket types fit, the user name
  and the password are shorter than 256 bytes and the identities at most 255, and the handler of
  the server grants the request, at once or after the server has waited for it, with any well-formed
  properties that set no identity (or there is no handler), the four commands \<open>HELLO\<close>, \<open>WELCOME\<close>,
  \<open>INITIATE\<close> and \<open>READY\<close> in turn make both sides ready, no command overflows its buffer, and each
  side knows the properties of the other, the server also the identity of the client.
\<close>

theorem plain_handshake_completes:
  assumes "length (plain_username co) < 256" "length (plain_password co) < 256"
    "length (o_identity co) \<le> 255" "length (o_identity so) \<le> 255"
    "check_socket_type (o_type so) (bytes (socket_names ! type_number (o_type co)))"
    "grants conn rd wr arrive so (zap_request so addr [bytes ''PLAIN'', plain_username co, plain_password co]) w w'"
  shows "\<exists>c s. plain_handshake conn rd wr arrive co so addr w = Some (c, s, w') \<and> client_status c = Ready \<and> server_status s = Ready \<and>
    zmtp_properties (s_base s) = map_of (own_properties co) \<and> zmtp_properties (c_base c) = map_of (own_properties so) \<and>
    m_identity (s_base s) = (if recv_identity so then (case map_of (own_properties co) (bytes ''Identity'') of None \<Rightarrow> [] | Some i \<Rightarrow> i) else [])"
proof -
  from hello_granted [OF assms(1,2,6)] obtain h s1 w1 s where
    h: "produce_hello co = Some h" "process_hello conn rd wr h (new_server so addr) w = Some (Ok, s1, w1)"
      "await_reply rd arrive s1 w1 = Some (s, w')" and
    s: "s_state s = Sending_welcome" "options (s_base s) = so" "zmtp_properties (s_base s) = Map.empty" "m_identity (s_base s) = []"
    by blast
  from metadata_command_ok [of "''INITIATE''" co] assms(3) obtain ci where
    ci: "write_properties (own_properties co) = Some ci" "metadata_command ''INITIATE'' co = Some (command_name ''INITIATE'' @ ci)" by auto
  from metadata_command_ok [of "''READY''" so] assms(4) obtain sr where
    sr: "write_properties (own_properties so) = Some sr" "metadata_command ''READY'' so = Some (command_name ''READY'' @ sr)" by auto
  from own_properties_read [OF ci(1) s(3,4)] assms(5) s(2) obtain b where
    b: "parse_metadata False ci (s_base s) = (Ok, b)" "zmtp_properties b = map_of (own_properties co)" "options b = so"
      "m_identity b = (if recv_identity so then (case map_of (own_properties co) (bytes ''Identity'') of None \<Rightarrow> [] | Some i \<Rightarrow> i) else [])"
    by auto
  have "check_socket_type (o_type co) (bytes (socket_names ! type_number (o_type so)))"
    using assms(5) socket_types_symmetric by blast
  with own_properties_read [OF sr(1), of "new_mechanism co"] obtain cb where
    cb: "parse_metadata False sr (new_mechanism co) = (Ok, cb)" "zmtp_properties cb = map_of (own_properties so)"
    by (auto simp: new_mechanism_def)
  have o: "options (new_mechanism co) = co" by (simp add: new_mechanism_def)
  have n: "drop 9 (command_name ''INITIATE'' @ ci) = ci" "drop 6 (command_name ''READY'' @ sr) = sr" by simp_all
  have w: "begins_with ''WELCOME'' (command_name ''WELCOME'')" using begins_with_name(1) [of "''WELCOME''" "[]"] by simp
  show ?thesis
    using h s ci sr b cb o n w
    by (simp add: plain_handshake_def new_client_def client_next_def the_command_def server_process_def new_server_def server_next_def
      client_process_def process_welcome_def process_initiate_def client_process_ready_def client_status_def server_status_def Let_def)
qed

text \<open>The reply comes late: nothing is there to be read until it arrives, and it has a property.\<close>

definition granted_late :: "vmsg list" where
  "granted_late = map (plain type_vsm more_flag) [[], bytes ''1.0'', bytes ''1'', bytes ''200'', bytes ''OK'', [85]] @
     [plain type_vsm 0 (the (add_property (bytes ''Group'') [71]))]"

theorem plain_handshake_completes_witness:
  "\<exists>c s. plain_handshake (\<lambda>w. Some (Ok, w)) list_rd (\<lambda>m w. Some (Ok, w)) (\<lambda>_. granted_late) req_options rep_options [49] [] = Some (c, s, []) \<and>
     client_status c = Ready \<and> server_status s = Ready"
proof -
  have f: "send_frames (\<lambda>m w. Some (Ok, w)) ds w = Some w" for ds and w :: "vmsg list" by (induction ds) auto
  have e: "read_frames list_rd 7 [] = Some (Inl EAGAIN, [])" by code_simp
  have r: "read_frames list_rd 7 granted_late = Some (Inr granted_late, [])" by code_simp
  have c: "check_reply EACCES granted_late = Ok" "vdata (granted_late ! 3) = bytes ''200''" by code_simp+
  have m: "(let (r, b) = parse_metadata True (vdata (granted_late ! 6)) (set_user_id (vdata (granted_late ! 5)) (new_mechanism rep_options))
      in r = Ok \<and> m_identity b = [])" by code_simp
  have a: "admitting list_rd rep_options granted_late []"
    unfolding admitting_def using r c m by (auto simp: Let_def split: prod.splits)
  have "grants (\<lambda>w. Some (Ok, w)) list_rd (\<lambda>m w. Some (Ok, w)) (\<lambda>_. granted_late) rep_options fs [] []" for fs
    unfolding grants_def using f e a by blast
  then have "\<exists>c s. plain_handshake (\<lambda>w. Some (Ok, w)) list_rd (\<lambda>m w. Some (Ok, w)) (\<lambda>_. granted_late) req_options rep_options [49] [] = Some (c, s, []) \<and>
      client_status c = Ready \<and> server_status s = Ready \<and>
    zmtp_properties (s_base s) = map_of (own_properties req_options) \<and> zmtp_properties (c_base c) = map_of (own_properties rep_options) \<and>
    m_identity (s_base s) = (if recv_identity rep_options then (case map_of (own_properties req_options) (bytes ''Identity'') of None \<Rightarrow> [] | Some i \<Rightarrow> i) else [])"
    by (intro plain_handshake_completes) (simp_all add: req_options_def rep_options_def check_socket_type_def socket_names_def)
  then show ?thesis by blast
qed

end
