(* ===== verification/Greeting.thy ===== *)
theory Greeting
  imports Decoder Security "HOL-Library.Sublist"
begin

text \<open>
  The greeting of \<open>src/zmqsrc/src/stream_engine.cpp\<close>: what \<open>plug\<close> sends first, and
  \<open>handshake\<close>, which finds out the protocol of the peer, answers in that protocol and sets up
  the codec and the security mechanism.

  \<open>g_recv\<close> is the part of \<open>greeting_recv\<close> that has been read, \<open>g_size\<close> is \<open>greeting_size\<close>.
  \<open>g_send\<close> is the part of \<open>greeting_send\<close> that has been filled, up to \<open>outpos + outsize\<close>, and
  \<open>g_sent\<close> is the position of \<open>outpos\<close> in it. Both arrays have 64 bytes. \<open>g_pollout\<close> says whether
  the engine waits for the socket to be writable. The results of \<open>tcp_read\<close> come from outside.
  The code is the one without CURVE and GSSAPI (\<open>ZMQ_HAVE_CURVE\<close>, \<open>HAVE_LIBGSSAPI_KRB5\<close>).
\<close>

datatype auth = Null | Plain | Curve | Gssapi

record engine_options = mech_options +
  o_mechanism :: auth
  as_server :: bool
  maxmsgsize :: int

definition zap_enabled :: "engine_options \<Rightarrow> bool" where
  "zap_enabled opts \<longleftrightarrow> o_mechanism opts \<noteq> Null \<or> o_mechanism opts = Null \<and> 0 < length (zap_domain opts)"

record greeting =
  g_recv :: "byte list"
  g_size :: nat
  g_send :: "byte list"
  g_sent :: nat
  g_pollout :: bool

definition plug_greeting :: "engine_options \<Rightarrow> greeting" where
  "plug_greeting opts = \<lparr>g_recv = [], g_size = 12, g_send = 0xff # put_size (length (o_identity opts) + 1) @ [0x7f],
     g_sent = 0, g_pollout = True\<rparr>"

subsection \<open>Receiving and answering\<close>

text \<open>Bytes are added behind \<open>outpos + outsize\<close>; polling starts again when there were none.\<close>

definition greet_put :: "byte list \<Rightarrow> greeting \<Rightarrow> greeting option" where
  "greet_put bs g = do {
     zmq_assert (length (g_send g) + length bs \<le> 64);
     Some (g\<lparr>g_send := g_send g @ bs, g_pollout := g_pollout g \<or> g_sent g = length (g_send g)\<rparr>) }"

text \<open>A name of a mechanism, filled up with zeros.\<close>

definition mechanism_name :: "auth \<Rightarrow> byte list" where
  "mechanism_name a =
     (let n = bytes (case a of Null \<Rightarrow> ''NULL'' | Plain \<Rightarrow> ''PLAIN'' | Gssapi \<Rightarrow> ''GSSAPI'' | Curve \<Rightarrow> ''CURVE'') in
      n @ replicate (20 - length n) 0)"

text \<open>Lines 524 to 567, for a versioned peer.\<close>

definition greet_answer :: "engine_options \<Rightarrow> greeting \<Rightarrow> greeting option" where
  "greet_answer opts g = do {
     g \<leftarrow> (if length (g_send g) = 10 then greet_put [3] g else Some g);
     if length (g_recv g) > 10 \<and> length (g_send g) = 11 then
       if g_recv g ! 10 = 0 \<or> g_recv g ! 10 = 1 then greet_put [word_of_int (type_int (o_type opts))] g
       else do {
         g \<leftarrow> greet_put (0 # mechanism_name (o_mechanism opts) @ replicate 32 0) g;
         Some (g\<lparr>g_size := 64\<rparr>) }
     else Some g }"

text \<open>
  A result of \<open>tcp_read\<close>: bytes (none when the peer has closed the connection), \<open>EAGAIN\<close> or another
  error. The loop gets the results of its reads in a list; it waits where the list ends.
\<close>

datatype tcp_result = Received "byte list" | Would_block | Failed

datatype greet_result = Greeted | Waiting | Broken

primrec greet_loop :: "engine_options \<Rightarrow> tcp_result list \<Rightarrow> greeting \<Rightarrow> (greet_result \<times> greeting) option" where
  "greet_loop opts [] g = Some (if length (g_recv g) < g_size g then Waiting else Greeted, g)"
| "greet_loop opts (r # rs) g =
     (if \<not> length (g_recv g) < g_size g then Some (Greeted, g)
      else case r of
        Would_block \<Rightarrow> Some (Waiting, g)
      | Failed \<Rightarrow> Some (Broken, g)
      | Received d \<Rightarrow>
          if d = [] then Some (Broken, g)
          else do {
            zmq_assert (length (g_recv g) + length d \<le> g_size g);
            let g = g\<lparr>g_recv := g_recv g @ d\<rparr>;
            if g_recv g ! 0 \<noteq> 0xff then Some (Greeted, g)
            else if length (g_recv g) < 10 then greet_loop opts rs g
            else if g_recv g ! 9 AND 1 = 0 then Some (Greeted, g)
            else do { g \<leftarrow> greet_answer opts g; greet_loop opts rs g } })"

text \<open>The input events of an engine, until the loop ends.\<close>

primrec greet_events :: "engine_options \<Rightarrow> tcp_result list list \<Rightarrow> greeting \<Rightarrow> (greet_result \<times> greeting) option" where
  "greet_events opts [] g = Some (Waiting, g)"
| "greet_events opts (rs # rss) g = do {
     zmq_assert (length (g_recv g) < g_size g);
     (r, g) \<leftarrow> greet_loop opts rs g;
     if r = Waiting then greet_events opts rss g else Some (r, g) }"

text \<open>\<open>out_event\<close> of an engine without an encoder; \<open>None\<close> is an error of \<open>tcp_write\<close>.\<close>

definition greet_out :: "nat option \<Rightarrow> greeting \<Rightarrow> greeting option" where
  "greet_out nbytes g =
     (if g_sent g = length (g_send g) then Some g
      else case nbytes of
        None \<Rightarrow> Some (g\<lparr>g_pollout := False\<rparr>)
      | Some n \<Rightarrow> do {
          zmq_assert (g_sent g + n \<le> length (g_send g));
          Some (g\<lparr>g_sent := g_sent g + n, g_pollout := g_pollout g \<and> g_sent g + n \<noteq> length (g_send g)\<rparr>) })"

subsection \<open>The protocol of the peer\<close>

datatype protocol = Unversioned | Zmtp_1_0 | Zmtp_2_0 | Zmtp_3_0

definition peer_protocol :: "byte list \<Rightarrow> protocol" where
  "peer_protocol recv =
     (if recv ! 0 \<noteq> 0xff \<or> recv ! 9 AND 1 = 0 then Unversioned
      else if recv ! 10 = 0 then Zmtp_1_0
      else if recv ! 10 = 1 then Zmtp_2_0
      else Zmtp_3_0)"

datatype security = No_mechanism | Null_mechanism null_mechanism | Plain_client plain_client | Plain_server plain_server

datatype next_msg = Identity_msg | Pull_msg_from_session | Next_handshake_command | Pull_and_encode
  | Produce_ping_message | Produce_pong_message

datatype process_msg = Process_identity_msg | Push_msg_to_session | Process_handshake_command | Write_credential
  | Decode_and_push | Push_one_then_decode_and_push

text \<open>What \<open>handshake\<close> sets up; \<open>k_in\<close> are the \<open>insize\<close> bytes at \<open>inpos\<close>.\<close>

record codec_setup =
  k_encoder :: encoder
  k_decoder :: decoder
  k_in :: "byte list"
  k_subscription_required :: bool
  k_next_msg :: next_msg
  k_process_msg :: process_msg
  k_mechanism :: security

definition batch_size :: nat where "batch_size = 8192"

definition v1_setup :: "engine_options \<Rightarrow> codec_setup" where
  "v1_setup opts = \<lparr>k_encoder = v1_encoder batch_size, k_decoder = v1_decoder (maxmsgsize opts), k_in = [],
     k_subscription_required = False, k_next_msg = Identity_msg, k_process_msg = Process_identity_msg, k_mechanism = No_mechanism\<rparr>"

definition v2_setup :: "engine_options \<Rightarrow> codec_setup" where
  "v2_setup opts = (v1_setup opts)\<lparr>k_encoder := v2_encoder batch_size, k_decoder := v2_decoder (maxmsgsize opts)\<rparr>"

text \<open>
  Lines 582 to 619. The signature is the header of the identity message; the encoder makes
  another one, which is thrown away.
\<close>

definition unversioned_setup :: "engine_options \<Rightarrow> greeting \<Rightarrow> codec_setup option" where
  "unversioned_setup opts g = do {
     let header_size = (if length (o_identity opts) + 1 \<ge> 255 then 10 else 2);
     e \<leftarrow> load_msg (sized_msg (o_identity opts)) (v1_encoder batch_size);
     (out, e) \<leftarrow> encode (Some header_size) e;
     tmp \<leftarrow> out;
     zmq_assert (length tmp = header_size);
     Some ((v1_setup opts)\<lparr>k_encoder := e, k_in := g_recv g, k_next_msg := Pull_msg_from_session,
       k_subscription_required := (o_type opts = PUB \<or> o_type opts = XPUB)\<rparr>) }"

text \<open>Lines 659 to 703; \<open>conn\<close> is \<open>zap_connect\<close> of the session. No mechanism is the protocol error.\<close>

definition create_mechanism :: "('w \<Rightarrow> (rc \<times> 'w) option) \<Rightarrow> engine_options \<Rightarrow> byte list \<Rightarrow> byte list \<Rightarrow> 'w \<Rightarrow> (security \<times> 'w) option" where
  "create_mechanism conn opts addr recv w =
     (let name = take 20 (drop 12 recv) in
      if o_mechanism opts = Null \<and> name = mechanism_name Null
      then do { (n, w) \<leftarrow> new_null conn (mech_options.truncate opts) addr w; Some (Null_mechanism n, w) }
      else if o_mechanism opts = Plain \<and> name = mechanism_name Plain
      then Some (if as_server opts then Plain_server (new_server (mech_options.truncate opts) addr)
                 else Plain_client (new_client (mech_options.truncate opts)), w)
      else Some (No_mechanism, w))"

text \<open>Lines 573 to 710, after the loop; no result is \<open>error (protocol_error)\<close>.\<close>

definition handshake_end :: "('w \<Rightarrow> (rc \<times> 'w) option) \<Rightarrow> engine_options \<Rightarrow> byte list \<Rightarrow> greeting \<Rightarrow> 'w \<Rightarrow>
    (codec_setup option \<times> greeting \<times> 'w) option" where
  "handshake_end conn opts addr g w = do {
     (k, w) \<leftarrow> (case peer_protocol (g_recv g) of
        Unversioned \<Rightarrow> if zap_enabled opts then Some (None, w) else do { k \<leftarrow> unversioned_setup opts g; Some (Some k, w) }
      | Zmtp_1_0 \<Rightarrow> Some (if zap_enabled opts then None else Some (v1_setup opts), w)
      | Zmtp_2_0 \<Rightarrow> Some (if zap_enabled opts then None else Some (v2_setup opts), w)
      | Zmtp_3_0 \<Rightarrow> do {
          (m, w) \<leftarrow> create_mechanism conn opts addr (g_recv g) w;
          Some (if m = No_mechanism then None
                else Some ((v2_setup opts)\<lparr>k_mechanism := m, k_next_msg := Next_handshake_command,
                  k_process_msg := Process_handshake_command\<rparr>), w) });
     Some (k, if k \<noteq> None \<and> g_sent g = length (g_send g) then g\<lparr>g_pollout := True\<rparr> else g, w) }"

subsection \<open>What has been sent is a function of what has been received\<close>

definition versioned :: "byte list \<Rightarrow> bool" where
  "versioned bs \<longleftrightarrow> 10 \<le> length bs \<and> bs ! 0 = 0xff \<and> bs ! 9 AND 1 \<noteq> 0"

definition modern :: "byte list \<Rightarrow> bool" where
  "modern bs \<longleftrightarrow> versioned bs \<and> 10 < length bs \<and> bs ! 10 \<noteq> 0 \<and> bs ! 10 \<noteq> 1"

definition full_size :: "byte list \<Rightarrow> nat" where
  "full_size bs = (if modern bs then 64 else 12)"

definition reply :: "engine_options \<Rightarrow> byte list \<Rightarrow> byte list" where
  "reply opts bs = 0xff # put_size (length (o_identity opts) + 1) @ 0x7f #
     (if \<not> versioned bs then []
      else 3 # (if length bs = 10 then []
        else if bs ! 10 = 0 \<or> bs ! 10 = 1 then [word_of_int (type_int (o_type opts))]
        else 0 # mechanism_name (o_mechanism opts) @ replicate 32 0))"

text \<open>The greeting of a peer ends early when it shows no version.\<close>

definition settled :: "byte list \<Rightarrow> bool" where
  "settled bs \<longleftrightarrow> bs \<noteq> [] \<and> bs ! 0 \<noteq> 0xff \<or> 10 \<le> length bs \<and> bs ! 9 AND 1 = 0 \<or> full_size bs \<le> length bs"

definition greet_inv :: "engine_options \<Rightarrow> greeting \<Rightarrow> bool" where
  "greet_inv opts g \<longleftrightarrow> g_send g = reply opts (g_recv g) \<and> g_size g = full_size (g_recv g) \<and>
     length (g_recv g) \<le> g_size g \<and> g_sent g \<le> length (g_send g) \<and> (g_sent g < length (g_send g) \<longrightarrow> g_pollout g)"

lemma length_mechanism_name [simp]: "length (mechanism_name a) = 20"
  by (cases a) (simp_all add: mechanism_name_def bytes_def)

lemma versioned_append: "versioned bs \<Longrightarrow> versioned (bs @ ds)"
  by (auto simp: versioned_def nth_append)

lemma full_size_pos [simp]: "0 < full_size bs" "full_size bs \<noteq> 0"
  by (simp_all add: full_size_def)

lemma length_reply:
  "length (reply opts bs) = (if \<not> versioned bs then 10 else if length bs = 10 then 11 else if modern bs then 64 else 12)"
  by (auto simp: reply_def modern_def versioned_def)

lemma greet_inv_plug: "greet_inv opts (plug_greeting opts)"
  by (simp add: greet_inv_def plug_greeting_def reply_def full_size_def modern_def versioned_def)

lemma greet_put_ok:
  assumes "length (g_send g) + length bs \<le> 64"
  shows "greet_put bs g = Some (g\<lparr>g_send := g_send g @ bs, g_pollout := g_pollout g \<or> g_sent g = length (g_send g)\<rparr>)"
  using assms by (simp add: greet_put_def)

lemma greet_answer_ok:
  assumes "g_send g = reply opts bs" "g_recv g = bs @ ds" "g_size g = full_size bs" "versioned (bs @ ds)" "\<not> settled bs"
    "g_sent g \<le> length (g_send g)" "g_sent g < length (g_send g) \<longrightarrow> g_pollout g" "length (bs @ ds) \<le> full_size bs"
  shows "\<exists>g'. greet_answer opts g = Some g' \<and> g_recv g' = g_recv g \<and> greet_inv opts g'"
proof -
  have len: "10 \<le> length (bs @ ds)" using assms(4) by (simp add: versioned_def)
  have v: "versioned bs \<longleftrightarrow> 10 \<le> length bs"
    using assms(4,5) by (auto simp: versioned_def settled_def nth_append split: if_splits)
  show ?thesis
  proof (cases "versioned bs \<and> 10 < length bs")
    case True
    then have m: "modern (bs @ ds) = modern bs" "(bs @ ds) ! 10 = bs ! 10" "length (bs @ ds) \<noteq> 10"
      using assms(4) by (auto simp: modern_def nth_append)
    then have r: "reply opts (bs @ ds) = reply opts bs" using True assms(4) by (simp add: reply_def)
    have "length (g_send g) \<noteq> 10" "length (g_send g) \<noteq> 11" using True assms(1) by (simp_all add: length_reply)
    then have "greet_answer opts g = Some g" by (simp add: greet_answer_def)
    with assms m r show ?thesis by (simp add: greet_inv_def full_size_def)
  next
    case False
    have nm: "\<not> modern bs" using False by (auto simp: modern_def)
    define g1 where "g1 = (if length (g_send g) = 10
      then g\<lparr>g_send := g_send g @ [3], g_pollout := g_pollout g \<or> g_sent g = length (g_send g)\<rparr> else g)"
    have s: "g_send g1 = 0xff # put_size (length (o_identity opts) + 1) @ [0x7f, 3]" and l: "length (g_send g1) = 11"
      using False assms(1,4) v by (auto simp: g1_def reply_def)
    have g1: "g_recv g1 = bs @ ds" "g_size g1 = full_size bs" "g_sent g1 \<le> length (g_send g1)"
        "g_sent g1 < length (g_send g1) \<longrightarrow> g_pollout g1"
      using assms by (auto simp: g1_def)
    have a: "greet_answer opts g = (if length (g_recv g1) > 10 then
         if g_recv g1 ! 10 = 0 \<or> g_recv g1 ! 10 = 1 then greet_put [word_of_int (type_int (o_type opts))] g1
         else do { g \<leftarrow> greet_put (0 # mechanism_name (o_mechanism opts) @ replicate 32 0) g1; Some (g\<lparr>g_size := 64\<rparr>) }
       else Some g1)"
      using l by (simp add: greet_answer_def g1_def greet_put_def split: if_splits)
    show ?thesis
    proof (cases "length (bs @ ds) = 10")
      case True
      with a s g1 assms(4,8) nm show ?thesis
        by (auto simp: greet_inv_def reply_def full_size_def modern_def assms(2))
    next
      case False
      with len have "10 < length (bs @ ds)" by simp
      with a s l g1 assms(4,8) nm show ?thesis
        by (auto simp: greet_inv_def reply_def full_size_def modern_def assms(2) greet_put_ok)
    qed
  qed
qed

lemma settled_size: "settled bs \<or> length bs < full_size bs"
  by (auto simp: settled_def)

lemma greet_loop_ok:
  assumes "greet_loop opts rs g = Some (r, g')" "greet_inv opts g" "\<not> settled (g_recv g)"
  shows "greet_inv opts g' \<and> prefix (g_recv g) (g_recv g') \<and> (r = Greeted \<longleftrightarrow> settled (g_recv g'))"
  using assms
proof (induction rs arbitrary: g)
  case Nil
  then show ?case using settled_size [of "g_recv g"] by (auto simp: greet_inv_def)
next
  case (Cons x rs)
  let ?bs = "g_recv g"
  have lt: "length ?bs < g_size g" using Cons.prems(2,3) settled_size [of ?bs] by (simp add: greet_inv_def)
  show ?case
  proof (cases x)
    case (Received d)
    show ?thesis
    proof (cases "d = []")
      case False
      let ?g = "g\<lparr>g_recv := ?bs @ d\<rparr>"
      have inv: "g_send g = reply opts ?bs" "g_size g = full_size ?bs" "g_sent g \<le> length (g_send g)"
          "g_sent g < length (g_send g) \<longrightarrow> g_pollout g" using Cons.prems(2) unfolding greet_inv_def by auto
      from Cons.prems(1) Received False lt have fit: "length (?bs @ d) \<le> g_size g" by simp
      have plain: "greet_inv opts ?g" if "\<not> versioned (?bs @ d)"
      proof -
        have "\<not> versioned ?bs" using that versioned_append by blast
        with that inv fit show ?thesis by (simp add: greet_inv_def reply_def full_size_def modern_def)
      qed
      consider "(?bs @ d) ! 0 \<noteq> 0xff" | "(?bs @ d) ! 0 = 0xff" "length (?bs @ d) < 10"
        | "(?bs @ d) ! 0 = 0xff" "10 \<le> length (?bs @ d)" "(?bs @ d) ! 9 AND 1 = 0" | "versioned (?bs @ d)"
        unfolding versioned_def not_le [symmetric] by blast
      then show ?thesis
      proof cases
        case 1
        then have "r = Greeted" "g' = ?g" "settled (?bs @ d)" using Cons.prems(1) Received False lt fit by (auto simp: settled_def Let_def)
        with plain 1 show ?thesis by (auto simp: versioned_def)
      next
        case 2
        then have nv: "\<not> versioned (?bs @ d)" by (simp add: versioned_def)
        have l: "greet_loop opts rs ?g = Some (r, g')" using 2 Cons.prems(1) Received False lt fit by (simp add: Let_def)
        have "\<not> settled (?bs @ d)" using 2 nv by (auto simp: settled_def full_size_def modern_def)
        with Cons.IH [OF l plain [OF nv]] show ?thesis by (auto simp: prefix_def)
      next
        case 3
        then have "r = Greeted" "g' = ?g" "settled (?bs @ d)" using Cons.prems(1) Received False lt fit by (auto simp: settled_def Let_def)
        with plain 3 show ?thesis by (auto simp: versioned_def)
      next
        case 4
        from greet_answer_ok [of ?g opts ?bs d] inv fit 4 Cons.prems(3) obtain g1 where
          g1: "greet_answer opts ?g = Some g1" "g_recv g1 = ?bs @ d" "greet_inv opts g1" by auto
        have l: "greet_loop opts rs g1 = Some (r, g')"
          using 4 Cons.prems(1) Received False lt fit g1(1) by (auto simp: versioned_def Let_def)
        show ?thesis
        proof (cases "settled (g_recv g1)")
          case True
          with 4 g1(2) have "full_size (g_recv g1) \<le> length (g_recv g1)" by (auto simp: settled_def versioned_def)
          then have "\<not> length (g_recv g1) < g_size g1" using g1(3) by (simp add: greet_inv_def)
          then have "r = Greeted" "g' = g1" using l by (cases rs; simp)+
          with True g1 show ?thesis by simp
        next
          case False
          from Cons.IH [OF l g1(3) this] g1(2) show ?thesis by (auto simp: prefix_def)
        qed
      qed
    qed (use Cons.prems Received lt in auto)
  qed (use Cons.prems lt in auto)
qed

lemma greet_events_ok:
  assumes "greet_events opts rss g = Some (r, g')" "greet_inv opts g" "\<not> settled (g_recv g)"
  shows "greet_inv opts g' \<and> prefix (g_recv g) (g_recv g') \<and> (r = Greeted \<longleftrightarrow> settled (g_recv g'))"
  using assms
proof (induction rss arbitrary: g)
  case (Cons rs rss)
  from Cons.prems(1) obtain r1 g1 where 1: "greet_loop opts rs g = Some (r1, g1)"
    "if r1 = Waiting then greet_events opts rss g1 = Some (r, g') else r1 = r \<and> g1 = g'"
    by (auto simp: bind_eq_Some_conv split: if_splits)
  from greet_loop_ok [OF 1(1) Cons.prems(2,3)] have
    2: "greet_inv opts g1" "prefix (g_recv g) (g_recv g1)" "r1 = Greeted \<longleftrightarrow> settled (g_recv g1)" by auto
  show ?case
  proof (cases "r1 = Waiting")
    case True
    with 1(2) 2 Cons.IH [of g1] show ?thesis by (auto intro: prefix_order.trans)
  qed (use 1(2) 2 in auto)
qed auto

text \<open>Where the greeting ends in a stream of bytes does not depend on the reads, unless it has no version.\<close>

lemma settled_unique:
  assumes "prefix as str" "prefix bs str" "settled as" "settled bs" "length as \<le> full_size as" "length bs \<le> full_size bs"
  shows "peer_protocol as = peer_protocol bs \<and> reply opts as = reply opts bs \<and> (peer_protocol as \<noteq> Unversioned \<longrightarrow> as = bs)"
proof -
  have ne: "as \<noteq> []" "bs \<noteq> []" using assms(3,4) by (auto simp: settled_def)
  have nth: "as ! i = str ! i" if "i < length as" for i using assms(1) that by (auto simp: prefix_def nth_append)
  have nth': "bs ! i = str ! i" if "i < length bs" for i using assms(2) that by (auto simp: prefix_def nth_append)
  show ?thesis
  proof (cases "str ! 0 = 0xff")
    case False
    with ne nth nth' show ?thesis by (auto simp: peer_protocol_def reply_def versioned_def)
  next
    case True
    with ne nth [of 0] nth' [of 0] have z: "as ! 0 = 0xff" "bs ! 0 = 0xff" by auto
    have l: "10 \<le> length as" "10 \<le> length bs" using assms(3,4) z by (auto simp: settled_def full_size_def split: if_splits)
    then have n: "as ! 9 = str ! 9" "bs ! 9 = str ! 9" using nth nth' by auto
    show ?thesis
    proof (cases "str ! 9 AND 1 = 0")
      case True
      with n z show ?thesis by (simp add: peer_protocol_def reply_def versioned_def)
    next
      case False
      with n z l have v: "versioned as" "versioned bs" by (simp_all add: versioned_def)
      with assms(3-6) z n False have e: "length as = full_size as" "length bs = full_size bs" by (auto simp: settled_def)
      then have "10 < length as" "10 < length bs" by (auto simp: full_size_def split: if_splits)
      with v nth nth' have "full_size as = full_size bs" by (simp add: full_size_def modern_def)
      with e have "length as = length bs" by simp
      with assms(1,2) have "as = bs" by (auto simp: prefix_def append_eq_append_conv)
      then show ?thesis by simp
    qed
  qed
qed

text \<open>
  C39: What an engine sends as its greeting and the protocol it decides on depend only on the
  bytes of its peer: however the network cuts them into reads and the reads into input events, two
  engines with the same options that end their greetings on the same stream have sent the same
  bytes and found the same protocol, and for a versioned peer have read exactly as far; what they
  have sent is the answer to what they have read, and they have filled neither array beyond its end.
\<close>

theorem greeting_chunks:
  assumes "greet_events opts rss (plug_greeting opts) = Some (Greeted, g)"
    "greet_events opts rss' (plug_greeting opts) = Some (Greeted, g')"
    "prefix (g_recv g) str" "prefix (g_recv g') str"
  shows "g_send g = g_send g' \<and> peer_protocol (g_recv g) = peer_protocol (g_recv g') \<and>
    (peer_protocol (g_recv g) \<noteq> Unversioned \<longrightarrow> g_recv g = g_recv g') \<and>
    g_send g = reply opts (g_recv g) \<and> length (g_send g) \<le> 64 \<and> length (g_recv g) \<le> 64"
proof -
  have n: "\<not> settled (g_recv (plug_greeting opts))"
    using settled_size [of "[]"] by (auto simp: plug_greeting_def settled_def)
  from greet_events_ok [OF assms(1) greet_inv_plug n] greet_events_ok [OF assms(2) greet_inv_plug n]
  have g: "greet_inv opts g" "settled (g_recv g)" "greet_inv opts g'" "settled (g_recv g')" by auto
  then have l: "length (g_recv g) \<le> full_size (g_recv g)" "length (g_recv g') \<le> full_size (g_recv g')"
    by (simp_all add: greet_inv_def)
  moreover from this have "length (g_recv g) \<le> 64" "length (reply opts (g_recv g)) \<le> 64" by (auto simp: full_size_def length_reply split: if_splits)
  ultimately show ?thesis using settled_unique [OF assms(3,4) g(2,4) l] g(1,3) unfolding greet_inv_def by metis
qed

text \<open>A publisher, and the greeting of a subscriber that speaks ZMTP 2.0.\<close>

definition pub_options :: engine_options where
  "pub_options = \<lparr>o_type = PUB, o_identity = [], recv_identity = False, zap_domain = [], plain_username = [], plain_password = [],
     o_mechanism = Null, as_server = False, maxmsgsize = - 1\<rparr>"

definition sub2_greeting :: "byte list" where
  "sub2_greeting = 0xff # put_size 1 @ [0x7f, 1, 2]"

theorem greeting_chunks_witness:
  "greet_events pub_options [[Received (take 4 sub2_greeting), Would_block], [Received (drop 4 sub2_greeting)]] (plug_greeting pub_options) =
     Some (Greeted, \<lparr>g_recv = sub2_greeting, g_size = 12, g_send = 0xff # put_size 1 @ [0x7f, 3, 1], g_sent = 0, g_pollout = True\<rparr>) \<and>
   reply pub_options sub2_greeting = 0xff # put_size 1 @ [0x7f, 3, 1]"
proof -
  let ?g = "\<lparr>g_recv = sub2_greeting, g_size = 12, g_send = 0xff # put_size 1 @ [0x7f, 3, 1], g_sent = 0, g_pollout = True\<rparr>"
  have 1: "greet_events pub_options [[Received (take 4 sub2_greeting), Would_block], [Received (drop 4 sub2_greeting)]]
     (plug_greeting pub_options) = Some (Greeted, ?g)" by code_simp
  have 2: "greet_events pub_options [[Received sub2_greeting]] (plug_greeting pub_options) = Some (Greeted, ?g)" by code_simp
  have "0xff # put_size 1 @ [0x7f, 3, 1] = reply pub_options sub2_greeting" using greeting_chunks [OF 1 2, of sub2_greeting] by simp
  from 1 this [symmetric] show ?thesis by (rule conjI)
qed

subsection \<open>Two engines greet each other\<close>

text \<open>
  What can happen to two engines that are connected and still handshaking: the socket of one is
  writable and takes some bytes, or one reads some of the bytes that the other has written.
\<close>

inductive meet :: "engine_options \<Rightarrow> engine_options \<Rightarrow> greeting \<times> greeting \<Rightarrow> greeting \<times> greeting \<Rightarrow> bool" for oa ob where
  left_writes: "g_pollout a \<Longrightarrow> 0 < n \<Longrightarrow> g_sent a + n \<le> length (g_send a) \<Longrightarrow> greet_out (Some n) a = Some a' \<Longrightarrow> meet oa ob (a, b) (a', b)"
| right_writes: "g_pollout b \<Longrightarrow> 0 < n \<Longrightarrow> g_sent b + n \<le> length (g_send b) \<Longrightarrow> greet_out (Some n) b = Some b' \<Longrightarrow> meet oa ob (a, b) (a, b')"
| left_reads: "d \<noteq> [] \<Longrightarrow> prefix (g_recv a @ d) (take (g_sent b) (g_send b)) \<Longrightarrow> length (g_recv a @ d) \<le> g_size a \<Longrightarrow>
    greet_loop oa [Received d] a = Some (r, a') \<Longrightarrow> meet oa ob (a, b) (a', b)"
| right_reads: "d \<noteq> [] \<Longrightarrow> prefix (g_recv b @ d) (take (g_sent a) (g_send a)) \<Longrightarrow> length (g_recv b @ d) \<le> g_size b \<Longrightarrow>
    greet_loop ob [Received d] b = Some (r, b') \<Longrightarrow> meet oa ob (a, b) (a, b')"

text \<open>One half of the invariant: \<open>a\<close> has read a part of what \<open>b\<close> has written.\<close>

definition hears :: "engine_options \<Rightarrow> greeting \<Rightarrow> greeting \<Rightarrow> bool" where
  "hears oa a b \<longleftrightarrow> greet_inv oa a \<and> prefix (g_recv a) (take (g_sent b) (g_send b))"

lemma reply_nth: "reply opts bs ! 0 = 0xff" "reply opts bs ! 9 = 0x7f" "10 < length (reply opts bs) \<Longrightarrow> reply opts bs ! 10 = 3"
proof -
  have "put_size (length (o_identity opts) + 1) \<noteq> []" by (metis length_put_size length_0_conv zero_neq_numeral)
  show "reply opts bs ! 0 = 0xff" by (simp add: reply_def)
  show "reply opts bs ! 9 = 0x7f" "10 < length (reply opts bs) \<Longrightarrow> reply opts bs ! 10 = 3"
    by (auto simp: reply_def nth_append nth_Cons' split: if_splits)
qed

lemma heard:
  assumes "prefix bs (take n (reply opts cs))"
  shows "bs = [] \<or> bs ! 0 = 0xff" "versioned bs \<longleftrightarrow> 10 \<le> length bs" "full_size bs = (if 10 < length bs then 64 else 12)"
    "settled bs \<longleftrightarrow> full_size bs \<le> length bs"
proof -
  from assms obtain zs where zs: "take n (reply opts cs) = bs @ zs" by (auto simp: prefix_def)
  have nth: "bs ! i = reply opts cs ! i \<and> i < length (reply opts cs)" if "i < length bs" for i
  proof -
    have "i < length (take n (reply opts cs))" using that zs by simp
    moreover have "take n (reply opts cs) ! i = bs ! i" using that zs by (simp add: nth_append)
    ultimately show ?thesis by simp
  qed
  show 0: "bs = [] \<or> bs ! 0 = 0xff" using nth [of 0] by (auto simp: reply_nth)
  have 9: "10 \<le> length bs \<Longrightarrow> bs ! 9 AND 1 \<noteq> 0" using nth [of 9] by (auto simp: reply_nth)
  show v: "versioned bs \<longleftrightarrow> 10 \<le> length bs" using 0 9 by (auto simp: versioned_def)
  have "10 < length bs \<Longrightarrow> bs ! 10 = 3" using nth [of 10] by (auto simp: reply_nth)
  with v show "full_size bs = (if 10 < length bs then 64 else 12)" by (auto simp: full_size_def modern_def)
  show "settled bs \<longleftrightarrow> full_size bs \<le> length bs" using 0 9 by (auto simp: settled_def)
qed

lemma greet_put_keeps:
  "greet_put bs g = Some g' \<Longrightarrow> g_recv g' = g_recv g \<and> g_sent g' = g_sent g \<and> prefix (g_send g) (g_send g')"
  by (auto simp: greet_put_def)

lemma greet_answer_keeps:
  assumes "greet_answer opts g = Some g'"
  shows "g_recv g' = g_recv g \<and> g_sent g' = g_sent g \<and> prefix (g_send g) (g_send g')"
proof -
  from assms obtain g1 where g1: "(if length (g_send g) = 10 then greet_put [3] g else Some g) = Some g1"
    "(if length (g_recv g1) > 10 \<and> length (g_send g1) = 11 then
       if g_recv g1 ! 10 = 0 \<or> g_recv g1 ! 10 = 1 then greet_put [word_of_int (type_int (o_type opts))] g1
       else do { g \<leftarrow> greet_put (0 # mechanism_name (o_mechanism opts) @ replicate 32 0) g1; Some (g\<lparr>g_size := 64\<rparr>) }
     else Some g1) = Some g'"
    unfolding greet_answer_def by (auto simp: bind_eq_Some_conv)
  have "g_recv g1 = g_recv g \<and> g_sent g1 = g_sent g \<and> prefix (g_send g) (g_send g1)"
    using g1(1) by (auto dest: greet_put_keeps split: if_splits)
  moreover have "g_recv g' = g_recv g1 \<and> g_sent g' = g_sent g1 \<and> prefix (g_send g1) (g_send g')"
    using g1(2) by (auto simp: bind_eq_Some_conv dest!: greet_put_keeps split: if_splits)
  ultimately show ?thesis by (auto intro: prefix_order.trans)
qed

lemma greet_read_keeps:
  assumes "greet_loop opts [Received d] g = Some (r, g')" "length (g_recv g) < g_size g" "d \<noteq> []"
  shows "g_recv g' = g_recv g @ d \<and> g_sent g' = g_sent g \<and> prefix (g_send g) (g_send g')"
proof -
  let ?g = "g\<lparr>g_recv := g_recv g @ d\<rparr>"
  have "do { zmq_assert (length (g_recv g) + length d \<le> g_size g);
      if g_recv ?g ! 0 \<noteq> 0xff then Some (Greeted, ?g)
      else if length (g_recv ?g) < 10 then greet_loop opts [] ?g
      else if g_recv ?g ! 9 AND 1 = 0 then Some (Greeted, ?g)
      else do { g \<leftarrow> greet_answer opts ?g; greet_loop opts [] g } } = greet_loop opts [Received d] g"
    using assms(2,3) by (simp add: Let_def)
  note this [unfolded assms(1) zmq_assert_bind_eq_Some, THEN conjunct2]
  then consider "g' = ?g" | g1 where "greet_answer opts ?g = Some g1" "g' = g1"
    by (auto simp only: bind_eq_Some_conv greet_loop.simps option.inject prod.inject split: if_split_asm)
  then show ?thesis by cases (auto dest: greet_answer_keeps)
qed

lemma prefix_take_mono: "prefix xs ys \<Longrightarrow> m \<le> n \<Longrightarrow> m \<le> length xs \<Longrightarrow> prefix (take m xs) (take n ys)"
proof -
  assume a: "prefix xs ys" "m \<le> n" "m \<le> length xs"
  then have "take m (take n ys) = take m xs" by (auto simp: prefix_def)
  then show ?thesis using take_is_prefix [of m "take n ys"] by simp
qed

lemma hears_after_write:
  assumes "hears oa a b" "hears ob b a" "g_sent a + n \<le> length (g_send a)" "greet_out (Some n) a = Some a'"
  shows "hears oa a' b \<and> hears ob b a' \<and> g_recv a' = g_recv a \<and> g_sent a' = g_sent a + n"
proof -
  from assms(3,4) have a': "g_recv a' = g_recv a" "g_send a' = g_send a" "g_size a' = g_size a" "g_sent a' = g_sent a + n"
      "g_pollout a' = (if g_sent a = length (g_send a) then g_pollout a else g_pollout a \<and> g_sent a' \<noteq> length (g_send a))"
    by (auto simp: greet_out_def split: if_splits)
  with assms show ?thesis using prefix_take_mono [of "g_send a" "g_send a" "g_sent a" "g_sent a + n"]
    by (auto simp: hears_def greet_inv_def intro: prefix_order.trans)
qed

lemma hears_after_read:
  assumes "hears oa a b" "hears ob b a" "d \<noteq> []" "prefix (g_recv a @ d) (take (g_sent b) (g_send b))"
    "length (g_recv a @ d) \<le> g_size a" "greet_loop oa [Received d] a = Some (r, a')"
  shows "hears oa a' b \<and> hears ob b a' \<and> g_recv a' = g_recv a @ d \<and> g_sent a' = g_sent a"
proof -
  have lt: "length (g_recv a) < g_size a" using assms(3,5) by (cases d) auto
  note k = greet_read_keeps [OF assms(6) lt assms(3)]
  have inv: "greet_inv oa a" "g_send b = reply ob (g_recv b)" using assms(1,2) unfolding hears_def greet_inv_def by blast+
  have "\<not> settled (g_recv a)" using heard(4) [of "g_recv a" "g_sent b" ob "g_recv b"] assms(1) lt inv
    by (simp add: hears_def greet_inv_def)
  from greet_loop_ok [OF assms(6) inv(1) this] have "greet_inv oa a'" by simp
  moreover have "g_sent a \<le> length (g_send a)" using inv(1) unfolding greet_inv_def by blast
  then have "prefix (take (g_sent a) (g_send a)) (take (g_sent a') (g_send a'))" using k by (intro prefix_take_mono) auto
  ultimately show ?thesis using k assms(2,4) by (auto simp: hears_def intro: prefix_order.trans)
qed

text \<open>Every step adds to this sum, and each part of it is at most 64.\<close>

definition progress :: "greeting \<times> greeting \<Rightarrow> nat" where
  "progress s = (case s of (a, b) \<Rightarrow> length (g_recv a) + g_sent a + length (g_recv b) + g_sent b)"

lemma meet_step:
  assumes "meet oa ob s s'" "hears oa (fst s) (snd s)" "hears ob (snd s) (fst s)"
  shows "hears oa (fst s') (snd s') \<and> hears ob (snd s') (fst s') \<and> progress s < progress s'"
  using assms
proof cases
  case (left_writes a n a' b)
  then show ?thesis using hears_after_write [of oa a b ob n a'] assms(2,3) by (simp add: progress_def)
next
  case (right_writes b n b' a)
  then show ?thesis using hears_after_write [of ob b a oa n b'] assms(2,3) by (simp add: progress_def)
next
  case (left_reads d a b r a')
  then show ?thesis using hears_after_read [of oa a b ob d r a'] assms(2,3) by (simp add: progress_def)
next
  case (right_reads d b a r b')
  then show ?thesis using hears_after_read [of ob b a oa d r b'] assms(2,3) by (simp add: progress_def)
qed

lemma meet_steps:
  assumes "(meet oa ob ^^ n) (plug_greeting oa, plug_greeting ob) s"
  shows "hears oa (fst s) (snd s) \<and> hears ob (snd s) (fst s) \<and> n \<le> progress s"
  using assms
proof (induction n arbitrary: s)
  case 0
  then show ?case by (auto simp: hears_def greet_inv_plug) (simp_all add: plug_greeting_def)
next
  case (Suc n)
  then obtain t where "(meet oa ob ^^ n) (plug_greeting oa, plug_greeting ob) t" "meet oa ob t s" by auto
  with Suc.IH [of t] meet_step [of oa ob t s] show ?case by auto
qed

lemma hears_bounds: "hears oa a b \<Longrightarrow> length (g_recv a) \<le> 64 \<and> g_sent a \<le> 64"
  by (auto simp: hears_def greet_inv_def full_size_def length_reply split: if_splits)

text \<open>Whatever arrives can be taken.\<close>

lemma arrival_ok:
  assumes "hears oa a b" "hears ob b a" "d \<noteq> []" "prefix (g_recv a @ d) (take (g_sent b) (g_send b))"
    "length (g_recv a @ d) \<le> g_size a"
  shows "\<exists>r a'. greet_loop oa [Received d] a = Some (r, a')"
proof -
  have lt: "length (g_recv a) < g_size a" using assms(3,5) by (cases d) auto
  have v: "versioned (g_recv a @ d) \<longleftrightarrow> 10 \<le> length (g_recv a @ d)"
    using heard(2) [of "g_recv a @ d" "g_sent b" ob "g_recv b"] assms(2,4) by (simp add: hears_def greet_inv_def)
  show ?thesis
  proof (cases "versioned (g_recv a @ d)")
    case True
    have s: "\<not> settled (g_recv a)"
      using heard(4) [of "g_recv a" "g_sent b" ob "g_recv b"] assms(1,2) lt by (simp add: hears_def greet_inv_def)
    have "\<exists>g'. greet_answer oa (a\<lparr>g_recv := g_recv a @ d\<rparr>) = Some g' \<and> g_recv g' = g_recv a @ d \<and> greet_inv oa g'"
      using greet_answer_ok [of "a\<lparr>g_recv := g_recv a @ d\<rparr>" oa "g_recv a" d] True s assms(1,5)
      by (auto simp: hears_def greet_inv_def)
    with True lt assms(3,5) show ?thesis by (auto simp: versioned_def Let_def)
  qed (use v lt assms(3,5) in \<open>auto simp: Let_def\<close>)
qed

text \<open>An engine that can neither write nor read has written everything and is done, or has read everything.\<close>

lemma stuck_side:
  assumes "hears oa a b" "hears ob b a" "\<not> (g_pollout a \<and> g_sent a < length (g_send a))"
    "\<And>d r a'. d \<noteq> [] \<Longrightarrow> prefix (g_recv a @ d) (take (g_sent b) (g_send b)) \<Longrightarrow> length (g_recv a @ d) \<le> g_size a \<Longrightarrow>
      greet_loop oa [Received d] a \<noteq> Some (r, a')"
  shows "g_sent a = length (g_send a)" "length (g_recv a) = g_size a \<or> g_recv a = take (g_sent b) (g_send b)"
proof -
  show "g_sent a = length (g_send a)" using assms(1,3) by (auto simp: hears_def greet_inv_def)
  show "length (g_recv a) = g_size a \<or> g_recv a = take (g_sent b) (g_send b)"
  proof (rule ccontr)
    assume "\<not> ?thesis"
    then have n: "length (g_recv a) \<noteq> g_size a" "g_recv a \<noteq> take (g_sent b) (g_send b)" by auto
    from assms(1) obtain zs where zs: "take (g_sent b) (g_send b) = g_recv a @ zs" by (auto simp: hears_def prefix_def)
    with n(2) obtain z zs' where z: "zs = z # zs'" by (cases zs) auto
    have lt: "length (g_recv a) < g_size a" using n(1) assms(1) by (simp add: hears_def greet_inv_def)
    have p: "prefix (g_recv a @ [z]) (take (g_sent b) (g_send b))" using zs z by simp
    with arrival_ok [OF assms(1,2), of "[z]"] assms(4) [of "[z]"] lt show False by auto
  qed
qed

lemma full_heard:
  assumes "hears oa a b" "hears ob b a"
  shows "full_size (g_recv a) = (if 10 < length (g_recv a) then 64 else 12)" "versioned (g_recv a) \<longleftrightarrow> 10 \<le> length (g_recv a)"
    "g_send a = reply oa (g_recv a)" "g_size a = full_size (g_recv a)"
proof -
  have p: "prefix (g_recv a) (take (g_sent b) (reply ob (g_recv b)))" using assms by (auto simp: hears_def greet_inv_def)
  show "full_size (g_recv a) = (if 10 < length (g_recv a) then 64 else 12)" "versioned (g_recv a) \<longleftrightarrow> 10 \<le> length (g_recv a)"
    by (rule heard [OF p])+
  show "g_send a = reply oa (g_recv a)" "g_size a = full_size (g_recv a)"
    using assms(1) unfolding hears_def greet_inv_def by blast+
qed

lemma sent_length:
  assumes "hears oa a b" "hears ob b a"
  shows "length (g_send a) = (if length (g_recv a) < 10 then 10 else if length (g_recv a) = 10 then 11 else 64)"
  using full_heard [OF assms] length_reply [of oa "g_recv a"] by (auto simp: full_size_def split: if_splits)

lemma stuck_done:
  assumes "hears oa a b" "hears ob b a" "g_sent a = length (g_send a)" "g_sent b = length (g_send b)"
    "length (g_recv a) = g_size a \<or> g_recv a = take (g_sent b) (g_send b)"
    "length (g_recv b) = g_size b \<or> g_recv b = take (g_sent a) (g_send a)"
  shows "length (g_recv a) = g_size a"
proof (rule ccontr)
  assume n: "length (g_recv a) \<noteq> g_size a"
  with assms(4,5) have "length (g_recv a) = length (g_send b)" by simp
  moreover have "length (g_recv b) = g_size b \<or> length (g_recv b) = length (g_send a)" using assms(3,6) by auto
  ultimately show False
    using n sent_length [OF assms(1,2)] sent_length [OF assms(2,1)] full_heard(1,4) [OF assms(1,2)] full_heard(1,4) [OF assms(2,1)]
    by (auto split: if_splits)
qed

text \<open>A complete greeting of such a peer names its mechanism.\<close>

lemma done_protocol:
  assumes "hears oa a b" "hears ob b a" "length (g_recv a) = g_size a"
  shows "peer_protocol (g_recv a) = Zmtp_3_0 \<and> take 20 (drop 12 (g_recv a)) = mechanism_name (o_mechanism ob)"
proof -
  have l: "length (g_recv a) = 64" using full_heard(1,4) [OF assms(1,2)] assms(3) by (auto split: if_splits)
  have "prefix (g_recv a) (take (g_sent b) (g_send b))" using assms(1) by (simp add: hears_def)
  with l have p: "prefix (g_recv a) (g_send b)" "g_send b \<noteq> []" by (auto simp: prefix_def) (metis append_assoc append_take_drop_id)
  then have "64 \<le> length (g_send b)" using l by (auto simp: prefix_def)
  with sent_length [OF assms(2,1)] have b: "length (g_send b) = 64" "10 < length (g_recv b)" by (auto split: if_splits)
  with p l have e: "g_recv a = reply ob (g_recv b)" using full_heard(3) [OF assms(2,1)] by (auto simp: prefix_def)
  have v: "versioned (g_recv b)" "modern (g_recv b)"
    using full_heard(1,2) [OF assms(2,1)] b(2) by (auto simp: full_size_def split: if_splits)
  have "g_recv a ! 10 = 3" using e l reply_nth(3) [of ob "g_recv b"] by simp
  then have "peer_protocol (g_recv a) = Zmtp_3_0" using e reply_nth(1,2) [of ob "g_recv b"] by (simp add: peer_protocol_def)
  moreover have "reply ob (g_recv b) = (0xff # put_size (length (o_identity ob) + 1) @ [0x7f, 3, 0]) @
      mechanism_name (o_mechanism ob) @ replicate 32 0"
    using v b(2) by (simp add: reply_def modern_def)
  then have "take 20 (drop 12 (g_recv a)) = mechanism_name (o_mechanism ob)" using e by simp
  ultimately show ?thesis by simp
qed

lemma mechanism_name_eq [simp]: "mechanism_name a = mechanism_name b \<longleftrightarrow> a = b"
  by (cases a; cases b) (simp_all add: mechanism_name_def bytes_def)

text \<open>The sides agree, so each creates a mechanism just when both are configured with the same one.\<close>

lemma done_mechanism:
  assumes "hears oa a b" "hears ob b a" "length (g_recv a) = g_size a" "create_mechanism conn oa addr (g_recv a) w = Some (m, w')"
  shows "m \<noteq> No_mechanism \<longleftrightarrow> o_mechanism oa = o_mechanism ob \<and> (o_mechanism oa = Null \<or> o_mechanism oa = Plain)"
  using assms(4) done_protocol [OF assms(1-3)]
  by (auto simp: create_mechanism_def Let_def bind_eq_Some_conv split: if_splits)

lemma write_one: "g_sent a < length (g_send a) \<Longrightarrow> \<exists>a'. greet_out (Some 1) a = Some a'"
  by (auto simp: greet_out_def)

text \<open>
  C40: Two engines of the library that are connected to each other complete their greetings: in
  whatever order bytes are written and read, and in whatever pieces, after at most 256 steps nothing
  more can happen, and then each has read the whole greeting of the other, takes it for ZMTP 3.0, and
  creates a security mechanism just when both are configured with the same one. They never wait for
  each other, and no assertion fails on what arrives.
\<close>

theorem greetings_complete:
  assumes "(meet oa ob ^^ n) (plug_greeting oa, plug_greeting ob) (a, b)"
  shows "n \<le> 256 \<and>
    (\<forall>d. d \<noteq> [] \<longrightarrow> prefix (g_recv a @ d) (take (g_sent b) (g_send b)) \<longrightarrow> length (g_recv a @ d) \<le> g_size a \<longrightarrow>
       greet_loop oa [Received d] a \<noteq> None) \<and>
    ((\<nexists>s. meet oa ob (a, b) s) \<longrightarrow>
       g_sent a = length (g_send a) \<and> g_recv b = g_send a \<and> peer_protocol (g_recv b) = Zmtp_3_0 \<and>
       g_sent b = length (g_send b) \<and> g_recv a = g_send b \<and> peer_protocol (g_recv a) = Zmtp_3_0 \<and>
       (\<forall>m w'. create_mechanism conn oa addr (g_recv a) w = Some (m, w') \<longrightarrow>
          (m \<noteq> No_mechanism \<longleftrightarrow> o_mechanism oa = o_mechanism ob \<and> o_mechanism oa \<in> {Null, Plain})))"
proof -
  from meet_steps [OF assms] have h: "hears oa a b" "hears ob b a" and n: "n \<le> progress (a, b)" by auto
  have "n \<le> 256" using n hears_bounds [OF h(1)] hears_bounds [OF h(2)] by (simp add: progress_def)
  moreover have "greet_loop oa [Received d] a \<noteq> None" if "d \<noteq> []" "prefix (g_recv a @ d) (take (g_sent b) (g_send b))"
      "length (g_recv a @ d) \<le> g_size a" for d
    using arrival_ok [OF h that] by auto
  moreover have "g_sent a = length (g_send a) \<and> g_recv b = g_send a \<and> peer_protocol (g_recv b) = Zmtp_3_0 \<and>
       g_sent b = length (g_send b) \<and> g_recv a = g_send b \<and> peer_protocol (g_recv a) = Zmtp_3_0 \<and>
       (\<forall>m w'. create_mechanism conn oa addr (g_recv a) w = Some (m, w') \<longrightarrow>
          (m \<noteq> No_mechanism \<longleftrightarrow> o_mechanism oa = o_mechanism ob \<and> o_mechanism oa \<in> {Null, Plain}))"
    if stuck: "\<nexists>s. meet oa ob (a, b) s"
  proof -
    have w: "\<not> (g_pollout a \<and> g_sent a < length (g_send a))" "\<not> (g_pollout b \<and> g_sent b < length (g_send b))"
      using stuck write_one meet.left_writes [of a 1] meet.right_writes [of b 1] by (metis less_one Suc_eq_plus1 Suc_leI)+
    have a: "g_sent a = length (g_send a)" "length (g_recv a) = g_size a \<or> g_recv a = take (g_sent b) (g_send b)"
      by (rule stuck_side [OF h w(1)]; use stuck meet.left_reads in blast)+
    have b: "g_sent b = length (g_send b)" "length (g_recv b) = g_size b \<or> g_recv b = take (g_sent a) (g_send a)"
      by (rule stuck_side [OF h(2,1) w(2)]; use stuck meet.right_reads in blast)+
    have d: "length (g_recv a) = g_size a" "length (g_recv b) = g_size b"
      by (rule stuck_done [OF h a(1) b(1) a(2) b(2)], rule stuck_done [OF h(2,1) b(1) a(1) b(2) a(2)])
    have l: "length (g_recv a) = 64" "length (g_recv b) = 64"
      using d full_heard(1,4) [OF h] full_heard(1,4) [OF h(2,1)] by (auto split: if_splits)
    then have "length (g_send a) = 64" "length (g_send b) = 64" using sent_length [OF h] sent_length [OF h(2,1)] by simp_all
    moreover have "prefix (g_recv a) (take (g_sent b) (g_send b))" "prefix (g_recv b) (take (g_sent a) (g_send a))"
      using h by (simp_all add: hears_def)
    ultimately have "g_recv a = g_send b" "g_recv b = g_send a" using l a(1) b(1) by (auto simp: prefix_def)
    moreover have "\<forall>m w'. create_mechanism conn oa addr (g_recv a) w = Some (m, w') \<longrightarrow>
        (m \<noteq> No_mechanism \<longleftrightarrow> o_mechanism oa = o_mechanism ob \<and> o_mechanism oa \<in> {Null, Plain})"
      using done_mechanism [OF h d(1)] by fastforce
    ultimately show ?thesis using a(1) b(1) done_protocol [OF h d(1)] done_protocol [OF h(2,1) d(2)] by (intro conjI) simp_all
  qed
  ultimately show ?thesis by blast
qed

text \<open>Two engines with the same options: nine steps, after which both greetings are complete.\<close>

definition wrote :: "nat \<Rightarrow> greeting \<Rightarrow> greeting" where
  "wrote n g = the (greet_out (Some n) g)"

definition read_from :: "greeting \<Rightarrow> nat \<Rightarrow> greeting \<Rightarrow> greeting" where
  "read_from g n h = snd (the (greet_loop pub_options [Received (take n (drop (length (g_recv h)) (g_send g)))] h))"

lemma demo_write:
  assumes "g_pollout a \<and> 0 < n \<and> g_sent a + n \<le> length (g_send a)"
  shows "meet pub_options pub_options (a, b) (wrote n a, b)" "meet pub_options pub_options (b, a) (b, wrote n a)"
  using assms by (auto simp: wrote_def greet_out_def intro!: meet.left_writes meet.right_writes)

lemma demo_read:
  assumes "d = take n (drop (length (g_recv a)) (g_send b))"
    "d \<noteq> [] \<and> prefix (g_recv a @ d) (take (g_sent b) (g_send b)) \<and> length (g_recv a @ d) \<le> g_size a"
    "Option.is_none (greet_loop pub_options [Received d] a) = False"
  shows "meet pub_options pub_options (a, b) (read_from b n a, b)" "meet pub_options pub_options (b, a) (b, read_from b n a)"
proof -
  from assms(3) obtain r a' where r: "greet_loop pub_options [Received d] a = Some (r, a')" by (auto simp: Option.is_none_def)
  then have "read_from b n a = a'" using assms(1) by (simp add: read_from_def)
  with assms(2) r show "meet pub_options pub_options (a, b) (read_from b n a, b)"
      "meet pub_options pub_options (b, a) (b, read_from b n a)"
    using meet.left_reads [of d a b pub_options r a'] meet.right_reads [of d a b pub_options r a'] by blast+
qed

theorem greetings_complete_witness:
  "\<exists>a b. (meet pub_options pub_options ^^ 9) (plug_greeting pub_options, plug_greeting pub_options) (a, b) \<and>
     (\<nexists>s. meet pub_options pub_options (a, b) s) \<and> g_recv b = g_send a \<and> peer_protocol (g_recv a) = Zmtp_3_0"
proof -
  let ?M = "meet pub_options pub_options"
  let ?p = "plug_greeting pub_options" let ?a = "wrote 10 ?p" let ?b = "read_from ?a 10 ?p" let ?c = "wrote 11 ?b"
  let ?d = "read_from ?c 11 ?a" let ?e = "wrote 54 ?d" let ?f = "read_from ?e 2 ?c" let ?g = "read_from ?e 52 ?f"
  let ?h = "wrote 53 ?g" let ?i = "read_from ?h 53 ?e"
  have s: "?M (?p, ?p) (?a, ?p)" "?M (?a, ?p) (?a, ?b)" "?M (?a, ?b) (?a, ?c)" "?M (?a, ?c) (?d, ?c)" "?M (?d, ?c) (?e, ?c)"
      "?M (?e, ?c) (?e, ?f)" "?M (?e, ?f) (?e, ?g)" "?M (?e, ?g) (?e, ?h)" "?M (?e, ?h) (?i, ?h)"
    by (rule demo_write, code_simp, rule demo_read, rule refl, code_simp, code_simp, rule demo_write, code_simp,
      rule demo_read, rule refl, code_simp, code_simp, rule demo_write, code_simp, (rule demo_read, rule refl, code_simp, code_simp)+,
      rule demo_write, code_simp, rule demo_read, rule refl, code_simp, code_simp)
  have r: "(?M ^^ Suc (Suc (Suc (Suc (Suc (Suc (Suc (Suc (Suc 0))))))))) (?p, ?p) (?i, ?h)"
    by (rule relpowp_Suc_I2, rule s)+ simp
  have "\<not> g_pollout ?i \<and> \<not> g_pollout ?h \<and> length (g_recv ?i) = 64 \<and> length (g_recv ?h) = 64 \<and> g_size ?i = 64 \<and> g_size ?h = 64"
    by code_simp
  then have n: "\<nexists>s. ?M (?i, ?h) s" by (auto elim!: meet.cases)
  have nine: "Suc (Suc (Suc (Suc (Suc (Suc (Suc (Suc (Suc 0)))))))) = 9" by simp
  obtain a b where ab: "(?M ^^ 9) (?p, ?p) (a, b)" "\<nexists>s. ?M (a, b) s" by (rule that [OF r [unfolded nine] n])
  note stop = mp [OF conjunct2 [OF conjunct2 [OF greetings_complete [OF ab(1), of "\<lambda>w. None" "[]" "()"]]] ab(2)]
  have "g_recv b = g_send a \<and> peer_protocol (g_recv a) = Zmtp_3_0" using stop by blast
  with ab show ?thesis by blast
qed

end
